(* ===== verification/Noc_Prelude.thy ===== *)
theory Noc_Prelude
  imports Main "HOL-Library.Word" "HOL-Library.Sublist"
begin

text \<open>
  Shared vocabulary of the development: the machine types of the C++ sources, the error
  values that stand for \<open>panic\<close>, \<open>fatal\<close> and thrown exceptions, the sequencing operator on
  fallible results, copies into fixed-size arrays, and bit masks on 64-bit words.
\<close>

unbundle bit_operations_syntax

named_theorems noc_wf \<open>well-formedness predicates of the model's types\<close>
named_theorems result_simps \<open>evaluation of fallible results\<close>
named_theorems mask_simps \<open>bits of shifted and masked words\<close>

section \<open>Machine types\<close>

type_synonym byte = "8 word"
type_synonym u32 = "32 word"
type_synonym u64 = "64 word"
type_synonym Tick = nat

text \<open>
  Small unsigned counters are natural numbers; where the source assigns to a narrow
  unsigned type the value is reduced modulo the width.
\<close>

definition trunc8 :: "nat \<Rightarrow> nat" where
  "trunc8 n = n mod 256"

definition trunc16 :: "nat \<Rightarrow> nat" where
  "trunc16 n = n mod 65536"

definition trunc32 :: "nat \<Rightarrow> nat" where
  "trunc32 n = n mod 4294967296"

definition sub8 :: "nat \<Rightarrow> nat \<Rightarrow> nat" where
  "sub8 a b = trunc8 (a + 256 - trunc8 b)"

definition sub16 :: "nat \<Rightarrow> nat \<Rightarrow> nat" where
  "sub16 a b = trunc16 (a + 65536 - trunc16 b)"

lemma trunc8_id [simp]: "n < 256 \<Longrightarrow> trunc8 n = n"
  by (simp add: trunc8_def)

lemma trunc16_id [simp]: "n < 65536 \<Longrightarrow> trunc16 n = n"
  by (simp add: trunc16_def)

lemma trunc32_id [simp]: "n < 4294967296 \<Longrightarrow> trunc32 n = n"
  by (simp add: trunc32_def)

lemma trunc8_less [simp]: "trunc8 n < 256"
  by (simp add: trunc8_def)

lemma trunc16_less [simp]: "trunc16 n < 65536"
  by (simp add: trunc16_def)

lemma sub8_id [simp]: "b \<le> a \<Longrightarrow> a < 256 \<Longrightarrow> sub8 a b = a - b"
  by (simp add: sub8_def trunc8_def) (metis Nat.add_diff_assoc2 add.commute
      less_imp_diff_less mod_add_self1 mod_less)

lemma sub16_id [simp]: "b \<le> a \<Longrightarrow> a < 65536 \<Longrightarrow> sub16 a b = a - b"
  by (simp add: sub16_def trunc16_def) (metis Nat.add_diff_assoc2 add.commute
      less_imp_diff_less mod_add_self1 mod_less)

text \<open>An \<open>int\<close> compared with a \<open>size_t\<close> is converted modulo \<open>2 ^ 64\<close>.\<close>

definition size_t_of_int :: "int \<Rightarrow> nat" where
  "size_t_of_int i = nat (i mod 2 ^ 64)"

lemma size_t_of_int_id [simp]: "0 \<le> i \<Longrightarrow> i < 2 ^ 64 \<Longrightarrow> size_t_of_int i = nat i"
  by (simp add: size_t_of_int_def)

section \<open>Errors\<close>

text \<open>
  \<open>Panic\<close> is gem5's \<open>panic\<close>/\<open>panic_if\<close>, \<open>Fatal\<close> its \<open>fatal\<close>/\<open>fatal_if\<close>,
  \<open>Throw\<close> a thrown standard exception, and \<open>Undefined\<close> an access that C++ leaves
  undefined (reading the front of an empty deque, indexing past an array, using an
  invalidated iterator). All of them end the simulation step.
\<close>

datatype noc_error = Panic string | Fatal string | Throw string | Undefined string

type_synonym 'a result = "noc_error + 'a"

definition rbind :: "'a result \<Rightarrow> ('a \<Rightarrow> 'b result) \<Rightarrow> 'b result" where
  "rbind m f = (case m of Inl e \<Rightarrow> Inl e | Inr x \<Rightarrow> f x)"

lemma rbind_simps [simp, result_simps]:
  "rbind (Inl e) f = Inl e"
  "rbind (Inr x) f = f x"
  by (simp_all add: rbind_def)

lemma rbind_Inr_iff: "rbind m f = Inr y \<longleftrightarrow> (\<exists>x. m = Inr x \<and> f x = Inr y)"
  by (cases m) auto

lemma rbind_Inr_E:
  assumes "rbind m f = Inr y"
  obtains x where "m = Inr x" "f x = Inr y"
  using assms by (auto simp: rbind_Inr_iff)

lemma rbind_cong [fundef_cong]:
  "m = m' \<Longrightarrow> (\<And>x. m' = Inr x \<Longrightarrow> f x = g x) \<Longrightarrow> rbind m f = rbind m' g"
  by (cases m') auto

fun rmap :: "('a \<Rightarrow> 'b result) \<Rightarrow> 'a list \<Rightarrow> 'b list result" where
  "rmap f [] = Inr []"
| "rmap f (x # xs) = rbind (f x) (\<lambda>y. rbind (rmap f xs) (\<lambda>ys. Inr (y # ys)))"

lemma rmap_cong [fundef_cong]:
  "xs = ys \<Longrightarrow> (\<And>x. x \<in> set ys \<Longrightarrow> f x = g x) \<Longrightarrow> rmap f xs = rmap g ys"
  by (induction ys arbitrary: xs) auto

lemma rmap_Inr: "(\<And>x. x \<in> set xs \<Longrightarrow> f x = Inr (g x)) \<Longrightarrow> rmap f xs = Inr (map g xs)"
  by (induction xs) auto

lemma rmap_append: "rmap f (xs @ ys) = rbind (rmap f xs) (\<lambda>us. rbind (rmap f ys) (\<lambda>vs. Inr (us @ vs)))"
  by (induction xs) (auto simp: rbind_def split: sum.splits)

section \<open>Arrays\<close>

text \<open>
  \<open>std::copy\<close> of a range into an array at an offset. The callers of the model check that
  the range fits.
\<close>

definition copy_at :: "'a list \<Rightarrow> nat \<Rightarrow> 'a list \<Rightarrow> 'a list" where
  "copy_at dst off src = take off dst @ src @ drop (off + length src) dst"

lemma length_copy_at [simp]:
  "off + length src \<le> length dst \<Longrightarrow> length (copy_at dst off src) = length dst"
  by (simp add: copy_at_def)

lemma nth_copy_at:
  assumes "off + length src \<le> length dst" and "i < length dst"
  shows "copy_at dst off src ! i =
    (if off \<le> i \<and> i < off + length src then src ! (i - off) else dst ! i)"
  using assms by (auto simp: copy_at_def nth_append min_def)

lemma copy_at_Nil [simp]: "off \<le> length dst \<Longrightarrow> copy_at dst off [] = dst"
  by (simp add: copy_at_def)

lemma take_copy_at:
  "off + length src \<le> length dst \<Longrightarrow> n \<le> off \<Longrightarrow> take n (copy_at dst off src) = take n dst"
  by (simp add: copy_at_def min_def)

lemma take_copy_at_end:
  "off + length src \<le> length dst \<Longrightarrow>
    take (off + length src) (copy_at dst off src) = take off dst @ src"
  by (simp add: copy_at_def)

section \<open>Bit masks\<close>

lemma bit_64_word [simp]: "\<not> bit (w :: u64) (n + 64)"
  using bit_imp_le_length [of w "n + 64"] by auto

lemma bit_u64_bound: "bit (w :: u64) n \<Longrightarrow> n < 64"
  using bit_imp_le_length [of w n] by simp

definition low_mask :: "nat \<Rightarrow> u64" where
  "low_mask n = (if 64 \<le> n then - 1 else push_bit n 1 - 1)"

lemma low_mask_eq [mask_simps]: "low_mask n = mask n"
proof (cases "64 \<le> n")
  case True
  then have "(mask n :: u64) = - 1"
    by (auto simp: bit_eq_iff bit_mask_iff)
  then show ?thesis using True by (simp add: low_mask_def)
next
  case False
  then show ?thesis by (simp add: low_mask_def mask_eq_exp_minus_1 push_bit_eq_mult)
qed

lemma bit_low_mask [mask_simps]: "bit (low_mask n) i \<longleftrightarrow> i < 64 \<and> i < n"
  by (auto simp: low_mask_eq bit_mask_iff)

end
