(* ===== verification/Checkpoint.thy ===== *)
theory Checkpoint
  imports Noc_Prelude
begin

text \<open>
  gem5's checkpoint text (\<open>src/sim/serialize.hh\<close>, \<open>src/sim/serialize.cc\<close>,
  \<open>src/base/inifile.cc\<close>), as the NoC components use it.

  Writing produces a list of lines: a section header for every
  \<open>ScopedCheckpointSection\<close> that is opened, and \<open>name=value\<close> lines. Leaving a scope pops
  the path but writes no header, so a parameter written after a nested scope has closed
  belongs to the nested section when the file is loaded again. Reading looks a parameter
  up in the section named by the current path.

  A section name is kept as the list of its components (the file joins them with dots,
  lemma \<open>section_name_inj\<close>); a value is kept as its list of blank-separated tokens.
\<close>

section \<open>Lines, values and sections\<close>

datatype cp_token = TokInt int | TokBool bool | TokStr string

type_synonym cp_value = "cp_token list"
type_synonym cp_path = "string list"

datatype cp_line = CpSection cp_path | CpParam string cp_value

type_synonym cp_db = "cp_path \<times> string \<Rightarrow> cp_value option"

fun section_name :: "cp_path \<Rightarrow> string" where
  "section_name [] = []"
| "section_name [c] = c"
| "section_name (c # d # cs) = c @ ''.'' @ section_name (d # cs)"

section \<open>Writing\<close>

definition paramOut :: "string \<Rightarrow> cp_token \<Rightarrow> cp_line list" where
  "paramOut name v = [CpParam name [v]]"

definition arrayParamOut :: "string \<Rightarrow> cp_token list \<Rightarrow> cp_line list" where
  "arrayParamOut name vs = [CpParam name vs]"

definition ScopedCheckpointSection ::
  "cp_path \<Rightarrow> string \<Rightarrow> (cp_path \<Rightarrow> cp_line list) \<Rightarrow> cp_line list" where
  "ScopedCheckpointSection path name body =
     CpSection (path @ [name]) # body (path @ [name])"

section \<open>Loading the file\<close>

text \<open>
  \<open>IniFile::load\<close>: header lines select the section, parameter lines before any header are
  dropped, and a later line for the same entry overrides an earlier one.
\<close>

fun IniFile_load :: "cp_line list \<Rightarrow> cp_path option \<Rightarrow> cp_db \<Rightarrow> cp_db" where
  "IniFile_load [] cur db = db"
| "IniFile_load (CpSection s # ls) cur db = IniFile_load ls (Some s) db"
| "IniFile_load (CpParam k v # ls) None db = IniFile_load ls None db"
| "IniFile_load (CpParam k v # ls) (Some s) db =
     IniFile_load ls (Some s) (db((s, k) \<mapsto> v))"

abbreviation load_checkpoint :: "cp_line list \<Rightarrow> cp_db" where
  "load_checkpoint ls \<equiv> IniFile_load ls None Map.empty"

definition CheckpointIn_find :: "cp_db \<Rightarrow> cp_path \<Rightarrow> string \<Rightarrow> cp_value option" where
  "CheckpointIn_find db sec entry = db (sec, entry)"

section \<open>Loops over sections\<close>

text \<open>
  The loop every container uses: element \<open>i\<close> goes to the section \<open>nm i\<close> below the current
  one, and is read back from there.
\<close>

fun scoped_list ::
  "(cp_path \<Rightarrow> 'a \<Rightarrow> cp_line list) \<Rightarrow> (nat \<Rightarrow> string) \<Rightarrow> cp_path \<Rightarrow> nat \<Rightarrow> 'a list \<Rightarrow> cp_line list" where
  "scoped_list ser nm path i [] = []"
| "scoped_list ser nm path i (x # xs) =
     ScopedCheckpointSection path (nm i) (\<lambda>sec. ser sec x) @ scoped_list ser nm path (Suc i) xs"

fun read_list ::
  "(cp_path \<Rightarrow> 'a result) \<Rightarrow> (nat \<Rightarrow> string) \<Rightarrow> cp_path \<Rightarrow> nat \<Rightarrow> nat \<Rightarrow> 'a list result" where
  "read_list rd nm path i 0 = Inr []"
| "read_list rd nm path i (Suc n) =
     rbind (rd (path @ [nm i])) (\<lambda>x. rbind (read_list rd nm path (Suc i) n) (\<lambda>xs. Inr (x # xs)))"

section \<open>Parsing values\<close>

text \<open>
  \<open>to_number\<close> reads through the 64-bit \<open>stoull\<close>/\<open>stoll\<close> and then checks the range of
  the target type; \<open>to_bool\<close> accepts the two words that \<open>ShowParam<bool>\<close> prints.
\<close>

fun parse_unsigned :: "nat \<Rightarrow> cp_value \<Rightarrow> nat option" where
  "parse_unsigned w [TokInt n] =
     (if n \<le> - (2 ^ 64) \<or> 2 ^ 64 \<le> n then None
      else let r = nat (n mod 2 ^ 64) in if r < 2 ^ w then Some r else None)"
| "parse_unsigned w v = None"

fun parse_signed :: "nat \<Rightarrow> cp_value \<Rightarrow> int option" where
  "parse_signed w [TokInt n] = (if - (2 ^ (w - 1)) \<le> n \<and> n < 2 ^ (w - 1) then Some n else None)"
| "parse_signed w v = None"

fun to_bool :: "cp_value \<Rightarrow> bool option" where
  "to_bool [TokBool b] = Some b"
| "to_bool v = None"

fun parse_string :: "cp_value \<Rightarrow> string option" where
  "parse_string [TokStr s] = Some s"
| "parse_string v = None"

section \<open>Reading\<close>

definition paramInImpl ::
  "(cp_value \<Rightarrow> 'a option) \<Rightarrow> cp_db \<Rightarrow> cp_path \<Rightarrow> string \<Rightarrow> 'a option" where
  "paramInImpl parse db path name =
     (case CheckpointIn_find db path name of None \<Rightarrow> None | Some v \<Rightarrow> parse v)"

definition optParamIn ::
  "(cp_value \<Rightarrow> 'a option) \<Rightarrow> cp_db \<Rightarrow> cp_path \<Rightarrow> string \<Rightarrow> 'a \<Rightarrow> bool \<times> 'a" where
  "optParamIn parse db path name param =
     (case paramInImpl parse db path name of Some v \<Rightarrow> (True, v) | None \<Rightarrow> (False, param))"

definition paramIn ::
  "(cp_value \<Rightarrow> 'a option) \<Rightarrow> cp_db \<Rightarrow> cp_path \<Rightarrow> string \<Rightarrow> 'a result" where
  "paramIn parse db path name =
     (case paramInImpl parse db path name of
        None \<Rightarrow> Inl (Fatal ''Can't unserialize'')
      | Some v \<Rightarrow> Inr v)"

fun parse_tokens :: "(cp_value \<Rightarrow> 'a option) \<Rightarrow> cp_value \<Rightarrow> 'a list option" where
  "parse_tokens parse [] = Some []"
| "parse_tokens parse (t # ts) =
     (case parse [t] of None \<Rightarrow> None
      | Some x \<Rightarrow> (case parse_tokens parse ts of None \<Rightarrow> None | Some xs \<Rightarrow> Some (x # xs)))"

definition arrayParamIn ::
  "(cp_value \<Rightarrow> 'a option) \<Rightarrow> cp_db \<Rightarrow> cp_path \<Rightarrow> string \<Rightarrow> nat option \<Rightarrow> 'a list result" where
  "arrayParamIn parse db path name fixed_size =
     (case CheckpointIn_find db path name of
        None \<Rightarrow> Inl (Fatal ''Can't unserialize'')
      | Some v \<Rightarrow>
          (if (case fixed_size of None \<Rightarrow> False | Some n \<Rightarrow> length v \<noteq> n)
           then Inl (Fatal ''Array size mismatch'')
           else (case parse_tokens parse v of
                   None \<Rightarrow> Inl (Fatal ''Could not parse'')
                 | Some xs \<Rightarrow> Inr xs)))"

text \<open>The typed readers of the C++ overloads: unsigned 8, 16, 32 and 64 bits, \<open>int\<close>, \<open>bool\<close>.\<close>

abbreviation paramIn_u :: "nat \<Rightarrow> cp_db \<Rightarrow> cp_path \<Rightarrow> string \<Rightarrow> nat result" where
  "paramIn_u w \<equiv> paramIn (parse_unsigned w)"

abbreviation paramIn_i :: "cp_db \<Rightarrow> cp_path \<Rightarrow> string \<Rightarrow> int result" where
  "paramIn_i \<equiv> paramIn (parse_signed 32)"

abbreviation paramIn_b :: "cp_db \<Rightarrow> cp_path \<Rightarrow> string \<Rightarrow> bool result" where
  "paramIn_b \<equiv> paramIn to_bool"

abbreviation paramOut_n :: "string \<Rightarrow> nat \<Rightarrow> cp_line list" where
  "paramOut_n name n \<equiv> paramOut name (TokInt (int n))"

abbreviation paramOut_i :: "string \<Rightarrow> int \<Rightarrow> cp_line list" where
  "paramOut_i name n \<equiv> paramOut name (TokInt n)"

abbreviation paramOut_b :: "string \<Rightarrow> bool \<Rightarrow> cp_line list" where
  "paramOut_b name b \<equiv> paramOut name (TokBool b)"

text \<open>
  Fields of a fixed-width unsigned type, printed as decimal numbers. They are read back
  either at their own width, or through a \<open>uint64_t\<close> temporary that is then cast down.
\<close>

definition parse_word :: "cp_value \<Rightarrow> 'a::len word option" where
  "parse_word v = map_option of_nat (parse_unsigned LENGTH('a) v)"

definition parse_cast :: "cp_value \<Rightarrow> 'a::len word option" where
  "parse_cast v = map_option of_nat (parse_unsigned 64 v)"

abbreviation paramOut_w :: "string \<Rightarrow> 'a::len word \<Rightarrow> cp_line list" where
  "paramOut_w name x \<equiv> paramOut name (TokInt (uint x))"

abbreviation paramIn_w :: "cp_db \<Rightarrow> cp_path \<Rightarrow> string \<Rightarrow> 'a::len word result" where
  "paramIn_w \<equiv> paramIn parse_word"

abbreviation paramIn_cast :: "cp_db \<Rightarrow> cp_path \<Rightarrow> string \<Rightarrow> 'a::len word result" where
  "paramIn_cast \<equiv> paramIn parse_cast"

abbreviation byte_tokens :: "byte list \<Rightarrow> cp_token list" where
  "byte_tokens bs \<equiv> map (\<lambda>b. TokInt (uint b)) bs"

text \<open>\<open>csprintf("%d", i)\<close> for a non-negative index.\<close>

fun digits :: "nat \<Rightarrow> string" where
  "digits n = (if n < 10 then [char_of (n + 48)] else digits (n div 10) @ [char_of (n mod 10 + 48)])"

declare digits.simps [simp del]

definition indexed :: "string \<Rightarrow> nat \<Rightarrow> string" where
  "indexed stem i = stem @ digits i"

section \<open>Index names are injective\<close>

lemma digits_nonempty: "digits n \<noteq> []"
  by (subst digits.simps) simp

lemma char_of_digit_inj:
  fixes m n :: nat
  assumes "m < 10" and "n < 10"
  shows "(char_of (m + 48) = (char_of (n + 48) :: char)) = (m = n)"
proof
  assume "char_of (m + 48) = (char_of (n + 48) :: char)"
  then have "(of_char (char_of (m + 48) :: char) :: nat) = of_char (char_of (n + 48) :: char)"
    by simp
  with assms show "m = n" by simp
qed simp

lemma digits_inj: "digits m = digits n \<Longrightarrow> m = n"
proof (induction m arbitrary: n rule: digits.induct)
  case (1 m)
  show ?case
  proof (cases "m < 10")
    case True
    then have m: "digits m = [char_of (m + 48)]" by (simp add: digits.simps)
    have "n < 10"
    proof (rule ccontr)
      assume "\<not> n < 10"
      then have "digits n = digits (n div 10) @ [char_of (n mod 10 + 48)]"
        by (subst digits.simps) simp
      with m "1.prems" digits_nonempty [of "n div 10"] show False by simp
    qed
    with True m "1.prems" show ?thesis by (simp add: digits.simps char_of_digit_inj)
  next
    case False
    then have m: "digits m = digits (m div 10) @ [char_of (m mod 10 + 48)]"
      by (subst digits.simps) simp
    have "\<not> n < 10"
    proof
      assume "n < 10"
      then have "digits n = [char_of (n + 48)]" by (simp add: digits.simps)
      with m "1.prems" digits_nonempty [of "m div 10"] show False by simp
    qed
    then have n: "digits n = digits (n div 10) @ [char_of (n mod 10 + 48)]"
      by (subst digits.simps) simp
    from m n "1.prems" have "digits (m div 10) = digits (n div 10)" and "m mod 10 = n mod 10"
      by (simp_all add: char_of_digit_inj)
    with "1.IH" [OF False] have "m div 10 = n div 10" by blast
    with \<open>m mod 10 = n mod 10\<close> show ?thesis by (metis div_mult_mod_eq)
  qed
qed

lemma indexed_inj [simp]: "indexed stem i = indexed stem j \<longleftrightarrow> i = j"
  by (auto simp: indexed_def dest: digits_inj)

section \<open>Section names\<close>

definition dot_free :: "string \<Rightarrow> bool" where
  "dot_free c \<longleftrightarrow> CHR ''.'' \<notin> set c"

lemma append_dot_inj:
  assumes "dot_free a" "dot_free b" "a @ CHR ''.'' # x = b @ CHR ''.'' # y"
  shows "a = b \<and> x = y"
  using assms
proof (induction a arbitrary: b)
  case Nil
  then show ?case by (cases b) (auto simp: dot_free_def)
next
  case (Cons c a)
  then show ?case by (cases b) (auto simp: dot_free_def)
qed

lemma section_name_Cons: "cs \<noteq> [] \<Longrightarrow> section_name (c # cs) = c @ CHR ''.'' # section_name cs"
  by (cases cs) auto

lemma section_name_inj:
  assumes "list_all dot_free p" "list_all dot_free q" "p \<noteq> []" "q \<noteq> []"
    and "section_name p = section_name q"
  shows "p = q"
  using assms
proof (induction p arbitrary: q)
  case Nil
  then show ?case by simp
next
  case (Cons c cs)
  from Cons.prems obtain d ds where q: "q = d # ds" by (cases q) auto
  have free: "dot_free c" "dot_free d" using Cons.prems q by simp_all
  consider "cs = []" "ds = []" | "cs = []" "ds \<noteq> []" | "cs \<noteq> []" "ds = []" | "cs \<noteq> []" "ds \<noteq> []"
    by blast
  then show ?case
  proof cases
    case 1
    with Cons.prems q show ?thesis by simp
  next
    case 2
    with Cons.prems(5) q have "c = d @ CHR ''.'' # section_name ds" by (simp add: section_name_Cons)
    with free show ?thesis by (simp add: dot_free_def)
  next
    case 3
    with Cons.prems(5) q have "c @ CHR ''.'' # section_name cs = d" by (simp add: section_name_Cons)
    with free show ?thesis by (auto simp: dot_free_def)
  next
    case 4
    with Cons.prems(5) q have "c @ CHR ''.'' # section_name cs = d @ CHR ''.'' # section_name ds"
      by (simp add: section_name_Cons)
    from append_dot_inj [OF free this] have "c = d" "section_name cs = section_name ds" by simp_all
    with Cons.IH [of ds] Cons.prems q 4 show ?thesis by simp
  qed
qed

section \<open>What a run of lines writes\<close>

fun sections :: "cp_line list \<Rightarrow> cp_path set" where
  "sections [] = {}"
| "sections (CpSection s # ls) = insert s (sections ls)"
| "sections (CpParam k v # ls) = sections ls"

fun end_section :: "cp_line list \<Rightarrow> cp_path option \<Rightarrow> cp_path option" where
  "end_section [] cur = cur"
| "end_section (CpSection s # ls) cur = end_section ls (Some s)"
| "end_section (CpParam k v # ls) cur = end_section ls cur"

fun starts_section :: "cp_line list \<Rightarrow> bool" where
  "starts_section (CpParam k v # ls) = False"
| "starts_section ls = True"

lemma sections_append [simp]: "sections (a @ b) = sections a \<union> sections b"
  by (induction a rule: sections.induct) auto

lemma load_append [simp]:
  "IniFile_load (a @ b) cur db = IniFile_load b (end_section a cur) (IniFile_load a cur db)"
proof (induction a arbitrary: cur db)
  case (Cons l a)
  then show ?case by (cases l; cases cur) (simp_all del: fun_upd_apply)
qed simp

lemma load_starts_section: "starts_section ls \<Longrightarrow> IniFile_load ls cur db = IniFile_load ls None db"
  by (cases ls rule: starts_section.cases) auto

lemma load_outside:
  "s \<notin> sections ls \<Longrightarrow> cur \<noteq> Some s \<Longrightarrow> IniFile_load ls cur db (s, k) = db (s, k)"
proof (induction ls arbitrary: cur db)
  case (Cons l ls)
  then show ?case by (cases l; cases cur) (fastforce simp del: fun_upd_apply simp add: fun_upd_other)+
qed simp

lemma load_cong_at:
  assumes "\<And>k. db (s, k) = db' (s, k)"
  shows "IniFile_load ls cur db (s, k) = IniFile_load ls cur db' (s, k)"
  using assms
proof (induction ls cur db arbitrary: db' rule: IniFile_load.induct)
  case (4 key v ls t db)
  have "IniFile_load ls (Some t) (db((t, key) \<mapsto> v)) (s, k) =
      IniFile_load ls (Some t) (db'((t, key) \<mapsto> v)) (s, k)"
    by (rule "4.IH") (simp add: "4.prems")
  then show ?case by (simp del: fun_upd_apply)
qed simp_all

lemma starts_section_scoped [simp]:
  "starts_section (ScopedCheckpointSection p n body @ ls)"
  "starts_section (ScopedCheckpointSection p n body)"
  by (simp_all add: ScopedCheckpointSection_def)

lemma starts_section_scoped_list [simp]: "starts_section (scoped_list ser nm p i xs)"
  by (cases xs) auto

section \<open>Parsing what was printed\<close>

lemma parse_tokens_map:
  "(\<And>x. x \<in> set xs \<Longrightarrow> parse [f x] = Some (g x)) \<Longrightarrow> parse_tokens parse (map f xs) = Some (map g xs)"
  by (induction xs) auto

lemma parse_unsigned_nat [simp, result_simps]:
  assumes "w \<le> 64" and "n < 2 ^ w"
  shows "parse_unsigned w [TokInt (int n)] = Some n"
proof -
  from assms have "n < 2 ^ 64"
    by (meson one_le_numeral order_less_le_trans power_increasing)
  then have "int n < 2 ^ 64" by (metis of_nat_less_numeral_power_cancel_iff)
  moreover have "(- (2 ^ 64) :: int) < 0" by simp
  then have "\<not> int n \<le> - (2 ^ 64)" using of_nat_0_le_iff [of n] by linarith
  ultimately show ?thesis using assms by simp
qed

declare parse_unsigned.simps [simp del] parse_signed.simps [simp del]

lemma parse_unsigned_uint [simp, result_simps]:
  fixes x :: "'a::len word"
  assumes "LENGTH('a) \<le> 64"
  shows "parse_unsigned LENGTH('a) [TokInt (uint x)] = Some (unat x)"
  using parse_unsigned_nat [OF assms, of "unat x"] by (simp add: unsigned_less)

lemma parse_signed_id [simp, result_simps]:
  "- (2 ^ (w - 1)) \<le> n \<Longrightarrow> n < 2 ^ (w - 1) \<Longrightarrow> parse_signed w [TokInt n] = Some n"
  by (simp add: parse_signed.simps)

lemma parse_word_uint [simp, result_simps]:
  fixes x :: "'a::len word"
  shows "LENGTH('a) \<le> 64 \<Longrightarrow> parse_word [TokInt (uint x)] = Some x"
  by (simp add: parse_word_def)

lemma parse_unsigned_64_uint [simp, result_simps]:
  fixes x :: "'a::len word"
  assumes "LENGTH('a) \<le> 64"
  shows "parse_unsigned 64 [TokInt (uint x)] = Some (unat x)"
proof -
  have "(2::nat) ^ LENGTH('a) \<le> 2 ^ 64" using assms by (rule power_increasing) simp
  with unsigned_less [of x] have "unat x < 2 ^ 64" by (rule order_less_le_trans)
  from parse_unsigned_nat [OF order_refl this] show ?thesis by simp
qed

lemma parse_cast_uint [simp, result_simps]:
  fixes x :: "'a::len word"
  shows "LENGTH('a) \<le> 64 \<Longrightarrow> parse_cast [TokInt (uint x)] = Some x"
  by (simp add: parse_cast_def)

lemma parse_byte_tokens [simp, result_simps]:
  "parse_tokens parse_word (byte_tokens bs) = Some bs"
  using parse_tokens_map [of bs parse_word "\<lambda>b. TokInt (uint b)" id] by simp

section \<open>What a reader depends on\<close>

lemma paramIn_cong_db:
  "db (p, name) = db' (p, name) \<Longrightarrow> paramIn parse db p name = paramIn parse db' p name"
  by (simp add: paramIn_def paramInImpl_def CheckpointIn_find_def)

lemma optParamIn_cong_db:
  "db (p, name) = db' (p, name) \<Longrightarrow> optParamIn parse db p name x = optParamIn parse db' p name x"
  by (simp add: optParamIn_def paramInImpl_def CheckpointIn_find_def)

lemma arrayParamIn_cong_db:
  "db (p, name) = db' (p, name) \<Longrightarrow>
    arrayParamIn parse db p name n = arrayParamIn parse db' p name n"
  by (simp add: arrayParamIn_def CheckpointIn_find_def)

lemmas param_cong_db = paramIn_cong_db optParamIn_cong_db arrayParamIn_cong_db

section \<open>The interface of a serialisable type\<close>

text \<open>
  A writer and a reader for one type: the writer opens only sections below the one it is
  given, and the reader looks only there (\<open>checkpoint_sections\<close>). A codec promises moreover
  that what is written into a fresh section is read back, up to what the text does not
  carry: \<open>norm\<close> says what a value becomes. The laws about containers and nested sections
  are proved once, here.
\<close>

locale checkpoint_sections =
  fixes ser :: "cp_path \<Rightarrow> 'a \<Rightarrow> cp_line list"
    and unser :: "cp_db \<Rightarrow> cp_path \<Rightarrow> 'a result"
  assumes sections_below: "s \<in> sections (ser p x) \<Longrightarrow> strict_prefix p s"
    and reads_below: "(\<And>s k. prefix p s \<Longrightarrow> db (s, k) = db' (s, k)) \<Longrightarrow> unser db p = unser db' p"
begin

lemma load_ser_outside:
  "\<not> prefix p s \<Longrightarrow> IniFile_load (ser p x) (Some p) db (s, k) = db (s, k)"
  by (rule load_outside) (auto dest: sections_below)

lemma load_ser_cong:
  assumes "\<And>s k. prefix p s \<Longrightarrow> db (s, k) = None" and "prefix p s"
  shows "IniFile_load (ser p x) (Some p) db (s, k) = IniFile_load (ser p x) (Some p) Map.empty (s, k)"
  by (rule load_cong_at) (simp add: assms)

lemma load_fresh:
  assumes "\<And>s k. prefix p s \<Longrightarrow> db (s, k) = None"
  shows "unser (IniFile_load (ser p x) (Some p) db) p =
    unser (IniFile_load (ser p x) (Some p) Map.empty) p"
  by (rule reads_below, rule load_ser_cong, rule assms)

lemma scoped_fresh:
  assumes "\<And>s k. prefix (p @ [n]) s \<Longrightarrow> db (s, k) = None"
  shows "unser (IniFile_load (ScopedCheckpointSection p n (\<lambda>q. ser q x)) cur db) (p @ [n]) =
    unser (IniFile_load (ser (p @ [n]) x) (Some (p @ [n])) Map.empty) (p @ [n])"
  unfolding ScopedCheckpointSection_def IniFile_load.simps by (rule load_fresh) (rule assms)

lemma scoped_outside:
  "\<not> prefix (p @ [n]) s \<Longrightarrow>
    IniFile_load (ScopedCheckpointSection p n (\<lambda>q. ser q x)) cur db (s, k) = db (s, k)"
  by (simp add: ScopedCheckpointSection_def load_ser_outside)

lemma scoped_list_outside:
  "(\<And>j. i \<le> j \<Longrightarrow> \<not> prefix (p @ [nm j]) s) \<Longrightarrow>
    IniFile_load (scoped_list ser nm p i xs) cur db (s, k) = db (s, k)"
proof (induction xs arbitrary: i cur db)
  case (Cons x xs)
  have "IniFile_load (scoped_list ser nm p (Suc i) xs) cur' db' (s, k) = db' (s, k)" for cur' db'
    by (rule Cons.IH, rule Cons.prems) simp
  then show ?case by (simp add: scoped_outside Cons.prems)
qed simp

lemma sections_scoped:
  "s \<in> sections (ScopedCheckpointSection p n (\<lambda>q. ser q x)) \<Longrightarrow> prefix (p @ [n]) s"
  by (auto simp: ScopedCheckpointSection_def dest: sections_below)

lemma sections_scoped_strict:
  "s \<in> sections (ScopedCheckpointSection p n (\<lambda>q. ser q x)) \<Longrightarrow> strict_prefix p s"
  using sections_scoped [of s p n x] by (auto simp: strict_prefix_def prefix_def)

lemma sections_scoped_list:
  "s \<in> sections (scoped_list ser nm p i xs) \<Longrightarrow> \<exists>j \<ge> i. prefix (p @ [nm j]) s"
proof (induction xs arbitrary: i)
  case (Cons x xs)
  then consider "s \<in> sections (ScopedCheckpointSection p (nm i) (\<lambda>sec. ser sec x))"
    | "s \<in> sections (scoped_list ser nm p (Suc i) xs)"
    by auto
  then show ?case
  proof cases
    case 1
    then show ?thesis using sections_scoped [of s p "nm i" x] by blast
  next
    case 2
    then obtain j where "Suc i \<le> j" "prefix (p @ [nm j]) s" using Cons.IH by blast
    then show ?thesis by (meson Suc_leD)
  qed
qed simp

lemma sections_scoped_list_strict:
  "s \<in> sections (scoped_list ser nm p i xs) \<Longrightarrow> strict_prefix p s"
  using sections_scoped_list [of s nm p i xs] by (auto simp: strict_prefix_def prefix_def)

lemma read_list_below:
  "(\<And>s k. strict_prefix p s \<Longrightarrow> db (s, k) = db' (s, k)) \<Longrightarrow>
    read_list (unser db) nm p i n = read_list (unser db') nm p i n"
proof (induction n arbitrary: i)
  case (Suc n)
  have "unser db (p @ [nm i]) = unser db' (p @ [nm i])"
    by (rule reads_below, rule Suc.prems) (auto simp: strict_prefix_def prefix_def)
  moreover have "read_list (unser db) nm p (Suc i) n = read_list (unser db') nm p (Suc i) n"
    by (rule Suc.IH) (rule Suc.prems)
  ultimately show ?case by simp
qed simp

text \<open>The sections of a list are read independently of each other.\<close>

lemma list_apart:
  "inj nm \<Longrightarrow> prefix (p @ [nm i]) s \<Longrightarrow> Suc i \<le> j \<Longrightarrow> \<not> prefix (p @ [nm j]) s"
  using injD [of nm i j] by (auto simp: prefix_def)

lemma load_scoped_list_Cons:
  "IniFile_load (scoped_list ser nm p i (x # xs)) cur db =
    IniFile_load (scoped_list ser nm p (Suc i) xs) None
      (IniFile_load (ser (p @ [nm i]) x) (Some (p @ [nm i])) db)"
  using load_starts_section [OF starts_section_scoped_list, of ser nm p "Suc i" xs
      "end_section (ser (p @ [nm i]) x) (Some (p @ [nm i]))"
      "IniFile_load (ser (p @ [nm i]) x) (Some (p @ [nm i])) db"]
  by (simp add: ScopedCheckpointSection_def)

lemma list_head_fresh:
  assumes "inj nm" and "\<And>s k. prefix (p @ [nm i]) s \<Longrightarrow> db (s, k) = None"
  shows "unser (IniFile_load (scoped_list ser nm p i (x # xs)) cur db) (p @ [nm i]) =
    unser (IniFile_load (ser (p @ [nm i]) x) (Some (p @ [nm i])) Map.empty) (p @ [nm i])"
proof -
  let ?db1 = "IniFile_load (ser (p @ [nm i]) x) (Some (p @ [nm i])) db"
  have "unser (IniFile_load (scoped_list ser nm p (Suc i) xs) None ?db1) (p @ [nm i]) =
      unser ?db1 (p @ [nm i])"
    by (rule reads_below, rule scoped_list_outside) (rule list_apart [OF assms(1)])
  also have "\<dots> = unser (IniFile_load (ser (p @ [nm i]) x) (Some (p @ [nm i])) Map.empty) (p @ [nm i])"
    by (rule load_fresh) (rule assms(2))
  finally show ?thesis unfolding load_scoped_list_Cons .
qed

text \<open>A container: parameters of its own section, then one section per element.\<close>

lemma container_here:
  "IniFile_load (params @ scoped_list ser nm p i xs) (Some p) Map.empty (p, k) =
    IniFile_load params (Some p) Map.empty (p, k)"
  by (simp add: scoped_list_outside)

lemma container_fresh:
  assumes "sections params = {}" and "prefix (p @ [n]) s"
  shows "IniFile_load params (Some p) Map.empty (s, k) = None"
proof -
  from assms(2) have "Some p \<noteq> Some s" by (auto simp: prefix_def)
  with assms(1) have "IniFile_load params (Some p) Map.empty (s, k) = Map.empty (s, k)"
    by (intro load_outside) simp_all
  then show ?thesis by simp
qed

lemma container_head:
  assumes "sections params = {}" and "inj nm"
  shows "unser (IniFile_load (params @ scoped_list ser nm p i (x # xs)) (Some p) Map.empty) (p @ [nm i]) =
    unser (IniFile_load (ser (p @ [nm i]) x) (Some (p @ [nm i])) Map.empty) (p @ [nm i])"
  unfolding load_append by (rule list_head_fresh [OF assms(2)]) (rule container_fresh [OF assms(1)])

end

locale checkpoint_codec = checkpoint_sections ser unser
  for ser :: "cp_path \<Rightarrow> 'a \<Rightarrow> cp_line list" and unser :: "cp_db \<Rightarrow> cp_path \<Rightarrow> 'a result" +
  fixes ok :: "'a \<Rightarrow> bool"
    and norm :: "'a \<Rightarrow> 'a"
  assumes written_read: "ok x \<Longrightarrow> unser (IniFile_load (ser p x) (Some p) Map.empty) p = Inr (norm x)"
begin

lemma restore:
  assumes "ok x" and "\<And>s k. prefix p s \<Longrightarrow> db (s, k) = None"
  shows "unser (IniFile_load (ser p x) (Some p) db) p = Inr (norm x)"
  by (rule trans [OF load_fresh written_read [OF assms(1)]]) (rule assms(2))

lemma restore_scoped:
  assumes "ok x" and "\<And>s k. prefix (p @ [n]) s \<Longrightarrow> db (s, k) = None"
  shows "unser (IniFile_load (ScopedCheckpointSection p n (\<lambda>q. ser q x)) cur db) (p @ [n]) = Inr (norm x)"
  by (rule trans [OF scoped_fresh written_read [OF assms(1)]]) (rule assms(2))

lemma restore_list:
  assumes "inj nm" and "list_all ok xs"
    and "\<And>j s k. i \<le> j \<Longrightarrow> prefix (p @ [nm j]) s \<Longrightarrow> db (s, k) = None"
  shows "read_list (unser (IniFile_load (scoped_list ser nm p i xs) cur db)) nm p i (length xs) = Inr (map norm xs)"
  using assms(2,3)
proof (induction xs arbitrary: i cur db)
  case (Cons x xs)
  let ?q = "p @ [nm i]"
  let ?db1 = "IniFile_load (ser ?q x) (Some ?q) db"
  have "unser (IniFile_load (scoped_list ser nm p i (x # xs)) cur db) ?q =
      unser (IniFile_load (ser ?q x) (Some ?q) Map.empty) ?q"
    by (rule list_head_fresh [OF assms(1)]) (rule Cons.prems(2) [OF order_refl])
  then have head: "unser (IniFile_load (scoped_list ser nm p i (x # xs)) cur db) ?q = Inr (norm x)"
    using written_read Cons.prems(1) by simp
  have "read_list (unser (IniFile_load (scoped_list ser nm p (Suc i) xs) None ?db1))
      nm p (Suc i) (length xs) = Inr (map norm xs)"
  proof (rule Cons.IH)
    show "list_all ok xs" using Cons.prems by simp
    fix j s k
    assume j: "Suc i \<le> j" and s: "prefix (p @ [nm j]) s"
    with list_apart [OF assms(1), of p i s j] have "\<not> prefix ?q s" by blast
    then have "?db1 (s, k) = db (s, k)" by (rule load_ser_outside)
    also have "\<dots> = None" by (rule Cons.prems(2) [OF _ s]) (use j in simp)
    finally show "?db1 (s, k) = None" .
  qed
  with head show ?case unfolding load_scoped_list_Cons by simp
qed simp

lemma container_list:
  assumes "sections params = {}" and "inj nm" and "list_all ok xs"
  shows "read_list (unser (IniFile_load (params @ scoped_list ser nm p i xs) (Some p) Map.empty))
    nm p i (length xs) = Inr (map norm xs)"
  unfolding load_append by (rule restore_list [OF assms(2,3)]) (rule container_fresh [OF assms(1)])

end

text \<open>
  Most records open no section of their own: they write parameters only, and read only the
  parameters of the section they are given.
\<close>

locale flat_codec =
  fixes ser :: "cp_path \<Rightarrow> 'a \<Rightarrow> cp_line list"
    and unser :: "cp_db \<Rightarrow> cp_path \<Rightarrow> 'a result"
    and ok :: "'a \<Rightarrow> bool"
    and norm :: "'a \<Rightarrow> 'a"
  assumes flat: "sections (ser p x) = {}"
    and reads_here: "(\<And>k. db (p, k) = db' (p, k)) \<Longrightarrow> unser db p = unser db' p"
    and flat_written_read: "ok x \<Longrightarrow> unser (IniFile_load (ser p x) (Some p) Map.empty) p = Inr (norm x)"

sublocale flat_codec \<subseteq> checkpoint_codec ser unser ok norm
proof unfold_locales
  show "strict_prefix p s" if "s \<in> sections (ser p x)" for s p x
    using that by (simp add: flat)
  show "unser db p = unser db' p" if "\<And>s k. prefix p s \<Longrightarrow> db (s, k) = db' (s, k)" for db db' p
    by (rule reads_here, rule that) simp
qed (rule flat_written_read)

section \<open>Numbered parameters\<close>

text \<open>A sequence written as one parameter per element in the section of its owner.\<close>

fun param_list :: "(nat \<Rightarrow> string) \<Rightarrow> nat \<Rightarrow> cp_token list \<Rightarrow> cp_line list" where
  "param_list nm i [] = []"
| "param_list nm i (t # ts) = paramOut (nm i) t @ param_list nm (Suc i) ts"

fun read_params ::
  "(cp_value \<Rightarrow> 'a option) \<Rightarrow> cp_db \<Rightarrow> cp_path \<Rightarrow> (nat \<Rightarrow> string) \<Rightarrow> nat \<Rightarrow> nat \<Rightarrow> 'a list result" where
  "read_params parse db p nm i 0 = Inr []"
| "read_params parse db p nm i (Suc n) =
     rbind (paramIn parse db p (nm i)) (\<lambda>x. rbind (read_params parse db p nm (Suc i) n) (\<lambda>xs. Inr (x # xs)))"

lemma param_list_sections [simp]: "sections (param_list nm i ts) = {}" "end_section (param_list nm i ts) cur = cur"
  by (induction ts arbitrary: i) (simp_all add: paramOut_def)

lemma load_param_list_other:
  "(\<And>j. nm j \<noteq> k) \<Longrightarrow> IniFile_load (param_list nm i ts) (Some p) db (p, k) = db (p, k)"
  by (induction ts arbitrary: i db) (auto simp: paramOut_def)

lemma load_param_list_later:
  assumes "inj nm"
  shows "j < i \<Longrightarrow> IniFile_load (param_list nm i ts) (Some p) db (p, nm j) = db (p, nm j)"
  using injD [OF assms, of _ j] by (induction ts arbitrary: i db) (auto simp: paramOut_def)

lemma read_params_at:
  "(\<And>j. i \<le> j \<Longrightarrow> db (p, nm j) = db' (p, nm j)) \<Longrightarrow> read_params parse db p nm i n = read_params parse db' p nm i n"
proof (induction n arbitrary: i)
  case (Suc n)
  have "read_params parse db p nm (Suc i) n = read_params parse db' p nm (Suc i) n"
    by (rule Suc.IH) (simp add: Suc.prems)
  moreover have "paramIn parse db p (nm i) = paramIn parse db' p (nm i)"
    using Suc.prems [of i] by (simp add: paramIn_def paramInImpl_def CheckpointIn_find_def)
  ultimately show ?case by simp
qed simp

lemma read_param_list:
  assumes "inj nm" and "\<And>x. x \<in> set xs \<Longrightarrow> parse [tok x] = Some x"
  shows "read_params parse (IniFile_load (param_list nm i (map tok xs)) (Some p) db) p nm i (length xs) = Inr xs"
  using assms(2)
proof (induction xs arbitrary: i db)
  case (Cons x xs)
  let ?db = "db((p, nm i) \<mapsto> [tok x])"
  have "read_params parse (IniFile_load (param_list nm (Suc i) (map tok xs)) (Some p) ?db) p nm (Suc i) (length xs) = Inr xs"
    by (rule Cons.IH) (simp add: Cons.prems)
  moreover have "IniFile_load (param_list nm (Suc i) (map tok xs)) (Some p) ?db (p, nm i) = Some [tok x]"
    using load_param_list_later [OF assms(1), of i "Suc i" "map tok xs" p ?db] by simp
  ultimately show ?case
    using Cons.prems by (simp add: paramOut_def paramIn_def paramInImpl_def CheckpointIn_find_def)
qed simp

lemma digits_hd: "digits n = c # cs \<Longrightarrow> of_char c < (58 :: nat)"
proof (induction n arbitrary: c cs rule: digits.induct)
  case (1 n)
  show ?case
  proof (cases "n < 10")
    case True
    with "1.prems" show ?thesis by (auto simp: digits.simps)
  next
    case False
    then have "digits n = digits (n div 10) @ [char_of (n mod 10 + 48)]" by (subst digits.simps) simp
    then obtain cs' where "digits (n div 10) = c # cs'"
      using "1.prems" digits_nonempty [of "n div 10"] by (cases "digits (n div 10)") auto
    then show ?thesis using "1.IH" [OF False] by blast
  qed
qed

lemma indexed_neq:
  "(58 :: nat) \<le> of_char c \<Longrightarrow> indexed stem j \<noteq> stem @ c # cs"
  using digits_hd [of j c cs] by (auto simp: indexed_def)

lemmas cp_write = paramOut_def arrayParamOut_def ScopedCheckpointSection_def
lemmas cp_read = paramIn_def paramInImpl_def optParamIn_def arrayParamIn_def CheckpointIn_find_def

end
