(* ===== verification/AXI_Types.thy ===== *)
theory AXI_Types
  imports Checkpoint
begin

text \<open>
  The AXI signal types of \<open>src/noc/lib/axi/AXITypes.hh\<close>: stream beats, memory-mapped
  address, data and response channels, the per-side protocol states that travel through the
  clock-domain-crossing queues, and the packed stream payload of one network packet.

  Eight-bit signals are \<open>8 word\<close>, identifiers \<open>32 word\<close>, addresses, strobes and keep masks
  \<open>64 word\<close>. Bus widths are natural numbers. A polymorphic \<open>State\<close> is the datatype of its
  four concrete subclasses; the correlation id of the base class is a field of each record.
\<close>

section \<open>AXI-Stream\<close>

datatype AxiMsgSizeType = MsgAR | MsgAW | MsgR | MsgW | MsgB | MsgDEFAULT

fun MessageSizeType_to_string :: "AxiMsgSizeType \<Rightarrow> string result" where
  "MessageSizeType_to_string MsgAR = Inr ''AR''"
| "MessageSizeType_to_string MsgAW = Inr ''AW''"
| "MessageSizeType_to_string MsgR = Inr ''R''"
| "MessageSizeType_to_string MsgW = Inr ''W''"
| "MessageSizeType_to_string MsgB = Inr ''B''"
| "MessageSizeType_to_string MsgDEFAULT = Inl (Panic ''Invalid range for type MessageSizeType'')"

record axisData =
  DATA_WIDTH :: nat
  DATA_WIDTH_BITS :: nat
  DST_ID_WIDTH :: nat
  ID_WIDTH :: nat
  tdata :: "byte list"
  tid :: u32
  tdest :: u32
  tkeep :: u64
  tuser :: u32
  tlast :: bool
  tvalid :: bool

text \<open>The truncated base-two logarithm of the widths.\<close>

fun log2_trunc :: "nat \<Rightarrow> nat" where
  "log2_trunc n = (if n < 2 then 0 else Suc (log2_trunc (n div 2)))"

declare log2_trunc.simps [simp del]

definition new_axisData :: "nat \<Rightarrow> nat \<Rightarrow> nat \<Rightarrow> axisData" where
  "new_axisData data_width id_width dest_width =
     \<lparr> DATA_WIDTH = data_width, DATA_WIDTH_BITS = log2_trunc data_width,
       DST_ID_WIDTH = dest_width, ID_WIDTH = id_width,
       tdata = replicate (data_width div 8) 0, tid = 0, tdest = 0, tkeep = - 1,
       tuser = 0, tlast = False, tvalid = False \<rparr>"

text \<open>\<open>vector::resize\<close>: truncate, or pad with the given value.\<close>

definition resize :: "'a list \<Rightarrow> nat \<Rightarrow> 'a \<Rightarrow> 'a list" where
  "resize xs n v = take n xs @ replicate (n - length xs) v"

lemma length_resize [simp]: "length (resize xs n v) = n"
  by (simp add: resize_def)

lemma resize_id [simp]: "length xs = n \<Longrightarrow> resize xs n v = xs"
  by (simp add: resize_def)

definition axisData_of ::
  "byte list \<Rightarrow> nat \<Rightarrow> nat \<Rightarrow> nat \<Rightarrow> u32 \<Rightarrow> u32 \<Rightarrow> bool \<Rightarrow> bool \<Rightarrow> axisData" where
  "axisData_of bytes data_width id_width dest_width i dst lst vld =
     (new_axisData data_width id_width dest_width)
       \<lparr> tdata := (if length bytes \<noteq> data_width div 8 then resize bytes (data_width div 8) 0
                   else bytes),
         tid := i, tdest := dst, tlast := lst, tvalid := vld \<rparr>"

text \<open>The byte count of a beat: the population count of the keep bits below the width.\<close>

definition axis_getTotalByteSize :: "axisData \<Rightarrow> nat" where
  "axis_getTotalByteSize d =
     (let msk = (if 64 \<le> DATA_WIDTH d then (- 1 :: u64)
                 else push_bit (DATA_WIDTH d div 8) 1 - 1);
          effective_tkeep = tkeep d AND msk
      in trunc16 (length (filter (bit effective_tkeep) [0..<DATA_WIDTH d div 8])))"

record axisSlaveState =
  ss_debugId :: int
  ss_tready :: bool

record axisMasterState =
  ms_debugId :: int
  ms_data :: axisData
  ni_tready :: bool
  ms_cdc_enqueue_ready :: bool
  node_input_tready :: bool

definition getDataBitWidth :: "axisMasterState \<Rightarrow> nat" where
  "getDataBitWidth s = DATA_WIDTH (ms_data s)"

definition new_axisMasterState :: "nat \<Rightarrow> nat \<Rightarrow> nat \<Rightarrow> axisMasterState" where
  "new_axisMasterState data_width id_width dest_width =
     \<lparr> ms_debugId = - 1, ms_data = new_axisData data_width id_width dest_width,
       ni_tready = False, ms_cdc_enqueue_ready = False, node_input_tready = False \<rparr>"

section \<open>AXI memory-mapped\<close>

datatype AximmCommand = CmdREAD | CmdWRITE | CmdNONE
datatype BurstType = FIXED | INCR | WRAP
datatype AximmResp = OKAY | EXOKAY | SLVERR | DECERR

record aximmRWAddr =
  a_cmd :: AximmCommand
  a_id :: u32
  addr :: u64
  len :: byte
  sz :: byte
  burst :: BurstType
  lock :: bool
  cache :: byte
  prot :: byte
  qos :: byte
  region :: byte
  a_user :: byte
  a_valid :: bool
  sourceNiDebug :: int
  originalReadBytesDebug :: nat
  a_debugId :: int
  finalReadChunkDebug :: bool

definition default_aximmRWAddr :: aximmRWAddr where
  "default_aximmRWAddr =
     \<lparr> a_cmd = CmdNONE, a_id = 0, addr = 0, len = 0, sz = 0, burst = INCR, lock = False,
       cache = 0, prot = 0, qos = 0, region = 0, a_user = 0, a_valid = False,
       sourceNiDebug = - 1, originalReadBytesDebug = 0, a_debugId = - 1,
       finalReadChunkDebug = False \<rparr>"

definition getTotalByteSize :: "aximmRWAddr \<Rightarrow> nat" where
  "getTotalByteSize a = trunc16 ((unat (len a) + 1) * 2 ^ unat (sz a))"

definition getBeatByteSize :: "aximmRWAddr \<Rightarrow> nat" where
  "getBeatByteSize a = trunc16 (2 ^ unat (sz a))"

record aximmRWData =
  d_cmd :: AximmCommand
  d_id :: u32
  d_resp :: AximmResp
  d_last :: bool
  d_user :: byte
  d_valid :: bool
  d_ready :: bool
  d_data :: "byte list"
  wstrb :: u64

definition default_aximmRWData :: aximmRWData where
  "default_aximmRWData =
     \<lparr> d_cmd = CmdNONE, d_id = 0, d_resp = OKAY, d_last = False, d_user = 0,
       d_valid = False, d_ready = False, d_data = replicate 64 0, wstrb = - 1 \<rparr>"

record aximmWResp =
  b_id :: u32
  b_resp :: AximmResp
  b_user :: byte
  b_valid :: bool

definition default_aximmWResp :: aximmWResp where
  "default_aximmWResp = \<lparr> b_id = 0, b_resp = OKAY, b_user = 0, b_valid = True \<rparr>"

record aximmSlaveState =
  mss_debugId :: int
  arReady :: bool
  rchan :: aximmRWData
  awReady :: bool
  wReady :: bool
  bchan :: aximmWResp

definition default_aximmSlaveState :: aximmSlaveState where
  "default_aximmSlaveState =
     \<lparr> mss_debugId = - 1, arReady = True, rchan = default_aximmRWData, awReady = True,
       wReady = True, bchan = default_aximmWResp \<rparr>"

record aximmMasterState =
  mms_debugId :: int
  archan :: aximmRWAddr
  rReady :: bool
  awchan :: aximmRWAddr
  wchan :: aximmRWData
  bReady :: bool
  mms_cdc_enqueue_ready :: bool

definition default_aximmMasterState :: aximmMasterState where
  "default_aximmMasterState =
     \<lparr> mms_debugId = - 1, archan = default_aximmRWAddr, rReady = False,
       awchan = default_aximmRWAddr, wchan = default_aximmRWData, bReady = False,
       mms_cdc_enqueue_ready = False \<rparr>"

datatype State =
  StAxisSlave axisSlaveState
| StAxisMaster axisMasterState
| StAximmSlave aximmSlaveState
| StAximmMaster aximmMasterState

fun getDebugId :: "State \<Rightarrow> int" where
  "getDebugId (StAxisSlave s) = ss_debugId s"
| "getDebugId (StAxisMaster s) = ms_debugId s"
| "getDebugId (StAximmSlave s) = mss_debugId s"
| "getDebugId (StAximmMaster s) = mms_debugId s"

fun setDebugId :: "State \<Rightarrow> int \<Rightarrow> State" where
  "setDebugId (StAxisSlave s) i = StAxisSlave (s\<lparr>ss_debugId := i\<rparr>)"
| "setDebugId (StAxisMaster s) i = StAxisMaster (s\<lparr>ms_debugId := i\<rparr>)"
| "setDebugId (StAximmSlave s) i = StAximmSlave (s\<lparr>mss_debugId := i\<rparr>)"
| "setDebugId (StAximmMaster s) i = StAximmMaster (s\<lparr>mms_debugId := i\<rparr>)"

definition hasDebugId :: "State \<Rightarrow> bool" where
  "hasDebugId s \<longleftrightarrow> 0 \<le> getDebugId s"

section \<open>Packed stream payloads\<close>

definition NPP_MAX_SIZE :: nat where
  "NPP_MAX_SIZE = 64"

definition NPP_BEAT_SIZE :: nat where
  "NPP_BEAT_SIZE = 64"

record axisPayload =
  numBeats :: int
  beats :: "axisData list"
  debugIds :: "int list"
  totalBytes :: int
  pl_tid :: int
  pl_last :: int

definition empty_axisPayload :: axisPayload where
  "empty_axisPayload =
     \<lparr> numBeats = 0, beats = [], debugIds = [], totalBytes = 0, pl_tid = - 1, pl_last = 0 \<rparr>"

definition axisPayload_add :: "axisPayload \<Rightarrow> axisData \<Rightarrow> int \<Rightarrow> axisPayload" where
  "axisPayload_add p beat dbgId =
     p\<lparr> beats := beats p @ [beat], debugIds := debugIds p @ [dbgId],
        numBeats := numBeats p + 1,
        totalBytes := totalBytes p + int (axis_getTotalByteSize beat) \<rparr>"

definition axisPayload_of_beats :: "axisData list \<Rightarrow> axisPayload" where
  "axisPayload_of_beats bs = foldl (\<lambda>p b. axisPayload_add p b (- 1)) empty_axisPayload bs"

section \<open>The bytes a beat carries\<close>

text \<open>
  The specification view of a beat: its bytes under the keep mask, in increasing lane order.
\<close>

definition kept :: "u64 \<Rightarrow> 'a list \<Rightarrow> 'a list" where
  "kept k bs = map ((!) bs) (filter (bit k) [0..<length bs])"

definition kept_bytes :: "axisData \<Rightarrow> byte list" where
  "kept_bytes d = kept (tkeep d) (tdata d)"

text \<open>An endpoint beat: at most 64 byte lanes, all of them present.\<close>

definition axis_wf :: "axisData \<Rightarrow> bool" where
  [noc_wf]: "axis_wf d \<longleftrightarrow> DATA_WIDTH d \<le> 512 \<and> length (tdata d) = DATA_WIDTH d div 8"

definition payload_bytes :: "axisPayload \<Rightarrow> byte list" where
  "payload_bytes p = concat (map kept_bytes (beats p))"

definition payload_wf :: "axisPayload \<Rightarrow> bool" where
  [noc_wf]: "payload_wf p \<longleftrightarrow>
     list_all axis_wf (beats p) \<and> numBeats p = int (length (beats p)) \<and>
     length (debugIds p) = length (beats p) \<and> totalBytes p = int (length (payload_bytes p))"

lemma kept_Nil [simp]: "kept k [] = []"
  by (simp add: kept_def)

lemma length_kept: "length (kept k bs) = length (filter (bit k) [0..<length bs])"
  by (simp add: kept_def)

lemma length_kept_le: "length (kept k bs) \<le> length bs"
  by (metis diff_zero length_filter_le length_kept length_upt)

lemma kept_all: "\<forall>i < length bs. bit k i \<Longrightarrow> kept k bs = bs"
  by (simp add: kept_def map_nth cong: filter_cong)

lemma kept_none: "\<forall>i < length bs. \<not> bit k i \<Longrightarrow> kept k bs = []"
  by (simp add: kept_def filter_empty_conv)

text \<open>The counting loop of the source agrees with the specification view.\<close>

lemma getTotalByteSize_kept:
  assumes "axis_wf d"
  shows "axis_getTotalByteSize d = length (kept_bytes d)"
proof -
  have lanes: "filter (bit (tkeep d AND (if 64 \<le> DATA_WIDTH d then - 1
        else push_bit (DATA_WIDTH d div 8) 1 - 1))) [0..<DATA_WIDTH d div 8] =
      filter (bit (tkeep d)) [0..<DATA_WIDTH d div 8]"
  proof (rule filter_cong [OF refl])
    fix i
    assume "i \<in> set [0..<DATA_WIDTH d div 8]"
    then have "i < DATA_WIDTH d div 8" "i < 64" using assms by (auto simp: noc_wf)
    moreover have "bit (push_bit (DATA_WIDTH d div 8) 1 - 1 :: u64) i"
      if "DATA_WIDTH d < 64"
      using that \<open>i < DATA_WIDTH d div 8\<close> bit_low_mask [of "DATA_WIDTH d div 8" i]
      by (simp add: low_mask_def split: if_splits)
    ultimately show "bit (tkeep d AND (if 64 \<le> DATA_WIDTH d then - 1
        else push_bit (DATA_WIDTH d div 8) 1 - 1)) i = bit (tkeep d) i"
      by (simp add: bit_and_iff)
  qed
  have "length (kept_bytes d) \<le> 64"
    using length_kept_le [of "tkeep d" "tdata d"] assms by (auto simp: noc_wf kept_bytes_def)
  then show ?thesis using assms
    by (simp add: axis_getTotalByteSize_def Let_def lanes kept_bytes_def length_kept noc_wf)
qed

lemma kept_bytes_le_64: "axis_wf d \<Longrightarrow> length (kept_bytes d) \<le> 64"
  using length_kept_le [of "tkeep d" "tdata d"] by (auto simp: noc_wf kept_bytes_def)

lemma payload_wf_empty [simp]: "payload_wf empty_axisPayload"
  by (simp add: noc_wf empty_axisPayload_def payload_bytes_def)

lemma payload_bytes_empty [simp]: "payload_bytes empty_axisPayload = []"
  by (simp add: payload_bytes_def empty_axisPayload_def)

lemma payload_bytes_add [simp]:
  "payload_bytes (axisPayload_add p b i) = payload_bytes p @ kept_bytes b"
  by (simp add: payload_bytes_def axisPayload_add_def)

lemma payload_wf_add: "payload_wf p \<Longrightarrow> axis_wf b \<Longrightarrow> payload_wf (axisPayload_add p b i)"
  by (simp add: payload_wf_def getTotalByteSize_kept) (simp add: axisPayload_add_def getTotalByteSize_kept)

lemma axisPayload_add_fields [simp]:
  "pl_last (axisPayload_add p b i) = pl_last p"
  "pl_tid (axisPayload_add p b i) = pl_tid p"
  "debugIds (axisPayload_add p b i) = debugIds p @ [i]"
  "beats (axisPayload_add p b i) = beats p @ [b]"
  by (simp_all add: axisPayload_add_def)

end
