(* ===== verification/AXI_Checkpoint.thy ===== *)
theory AXI_Checkpoint
  imports AXI_Types
begin

text \<open>
  The writers and readers of the AXI signal records, from
  \<open>src/noc/core/interface/CDCQueue.cc\<close>. Each pair is an instance of the codec interface, so
  the records come back unchanged up to what the text does not carry: a stream beat's
  user field is read through a byte, and the correlation ids of an address are not written.
\<close>

section \<open>Enumerations\<close>

text \<open>
  An enumerator is printed as its \<open>int\<close> value. A number that is no enumerator has no
  counterpart in the datatypes and is an error of the model.
\<close>

fun cmd_int :: "AximmCommand \<Rightarrow> int" where
  "cmd_int CmdREAD = 0" | "cmd_int CmdWRITE = 1" | "cmd_int CmdNONE = 2"

fun burst_int :: "BurstType \<Rightarrow> int" where
  "burst_int FIXED = 0" | "burst_int INCR = 1" | "burst_int WRAP = 2"

fun resp_int :: "AximmResp \<Rightarrow> int" where
  "resp_int OKAY = 0" | "resp_int EXOKAY = 1" | "resp_int SLVERR = 2" | "resp_int DECERR = 3"

definition int_cmd :: "int \<Rightarrow> AximmCommand result" where
  "int_cmd i = (if i = 0 then Inr CmdREAD else if i = 1 then Inr CmdWRITE
     else if i = 2 then Inr CmdNONE else Inl (Undefined ''AximmCommand''))"

definition int_burst :: "int \<Rightarrow> BurstType result" where
  "int_burst i = (if i = 0 then Inr FIXED else if i = 1 then Inr INCR
     else if i = 2 then Inr WRAP else Inl (Undefined ''BurstType''))"

definition int_resp :: "int \<Rightarrow> AximmResp result" where
  "int_resp i = (if i = 0 then Inr OKAY else if i = 1 then Inr EXOKAY
     else if i = 2 then Inr SLVERR else if i = 3 then Inr DECERR
     else Inl (Undefined ''AximmResp''))"

lemma enum_roundtrip [simp, result_simps]:
  "int_cmd (cmd_int c) = Inr c"
  "int_burst (burst_int b) = Inr b"
  "int_resp (resp_int r) = Inr r"
  by (cases c, simp_all add: int_cmd_def, cases b, simp_all add: int_burst_def,
      cases r, simp_all add: int_resp_def)

lemma enum_range [simp]:
  "parse_signed 32 [TokInt (cmd_int c)] = Some (cmd_int c)"
  "parse_signed 32 [TokInt (burst_int b)] = Some (burst_int b)"
  "parse_signed 32 [TokInt (resp_int r)] = Some (resp_int r)"
  by (cases c, simp_all add: parse_signed.simps, cases b, simp_all add: parse_signed.simps,
      cases r, simp_all add: parse_signed.simps)

section \<open>Stream beats\<close>

definition serialize_axisData :: "cp_path \<Rightarrow> axisData \<Rightarrow> cp_line list" where
  "serialize_axisData p d =
     paramOut_n ''DATA_WIDTH'' (DATA_WIDTH d) @
     paramOut_n ''DST_ID_WIDTH'' (DST_ID_WIDTH d) @
     paramOut_n ''ID_WIDTH'' (ID_WIDTH d) @
     arrayParamOut ''tdata'' (byte_tokens (tdata d)) @
     paramOut_w ''tid'' (tid d) @
     paramOut_w ''tdest'' (tdest d) @
     paramOut_w ''tkeep'' (tkeep d) @
     paramOut_w ''tuser'' (tuser d) @
     paramOut_b ''tlast'' (tlast d) @
     paramOut_b ''tvalid'' (tvalid d)"

definition unserialize_axisData :: "cp_db \<Rightarrow> cp_path \<Rightarrow> axisData result" where
  "unserialize_axisData db p =
     rbind (paramIn_u 32 db p ''DATA_WIDTH'') (\<lambda>data_width.
     rbind (paramIn_u 32 db p ''ID_WIDTH'') (\<lambda>id_width.
     rbind (paramIn_u 32 db p ''DST_ID_WIDTH'') (\<lambda>dest_width.
     let d = new_axisData data_width id_width dest_width in
     rbind (arrayParamIn parse_word db p ''tdata'' None) (\<lambda>v_tdata.
     rbind (paramIn_w db p ''tid'') (\<lambda>v_tid.
     rbind (paramIn_w db p ''tdest'') (\<lambda>v_tdest.
     rbind (paramIn_w db p ''tkeep'') (\<lambda>v_tkeep.
     rbind (paramIn_u 64 db p ''tuser'') (\<lambda>tmp.
     rbind (paramIn_b db p ''tlast'') (\<lambda>v_tlast.
     rbind (paramIn_b db p ''tvalid'') (\<lambda>v_tvalid.
       Inr (d\<lparr> tdata := v_tdata, tid := v_tid, tdest := v_tdest, tkeep := v_tkeep,
               tuser := of_nat (trunc8 tmp), tlast := v_tlast, tvalid := v_tvalid \<rparr>)))))))))))"

text \<open>
  The widths are 32-bit fields. The reader casts the user field to a byte and recomputes the
  logarithm of the width.
\<close>

definition axisData_ok :: "axisData \<Rightarrow> bool" where
  "axisData_ok d \<longleftrightarrow> DATA_WIDTH d < 2 ^ 32 \<and> DST_ID_WIDTH d < 2 ^ 32 \<and> ID_WIDTH d < 2 ^ 32"

definition axisData_restored :: "axisData \<Rightarrow> axisData" where
  "axisData_restored d =
     d\<lparr> DATA_WIDTH_BITS := log2_trunc (DATA_WIDTH d), tuser := of_nat (trunc8 (unat (tuser d))) \<rparr>"

text \<open>What a beat needs to come back unchanged: the reader takes the user signal as one byte and
  computes the logarithm of the width anew.\<close>

definition beat_intact :: "axisData \<Rightarrow> bool" where
  "beat_intact d \<longleftrightarrow> unat (tuser d) < 256 \<and> DATA_WIDTH_BITS d = log2_trunc (DATA_WIDTH d)"

lemma low_byte_same: "(of_nat (trunc8 (unat u)) :: u32) = u \<longleftrightarrow> unat u < 256"
proof
  assume "unat u < 256"
  then show "(of_nat (trunc8 (unat u)) :: u32) = u" by (simp add: trunc8_def)
next
  assume "(of_nat (trunc8 (unat u)) :: u32) = u"
  then have "unat u = unat (of_nat (trunc8 (unat u)) :: u32)" by simp
  also have "\<dots> = trunc8 (unat u)" by (simp add: trunc8_def unat_of_nat mod_mod_cancel less_trans [OF mod_less_divisor])
  finally show "unat u < 256" by (metis trunc8_def mod_less_divisor zero_less_numeral)
qed

lemma axisData_restored_same: "axisData_restored d = d \<longleftrightarrow> beat_intact d"
  by (cases d) (auto simp: axisData_restored_def beat_intact_def low_byte_same)

interpretation axisData_cp:
  flat_codec serialize_axisData unserialize_axisData axisData_ok axisData_restored
proof unfold_locales
  show "unserialize_axisData db p = unserialize_axisData db' p"
    if "\<And>k. db (p, k) = db' (p, k)" for db db' p
    by (simp add: unserialize_axisData_def param_cong_db [where db = db and db' = db' and p = p, OF that])
qed (simp_all add: axisData_ok_def axisData_restored_def serialize_axisData_def unserialize_axisData_def cp_write cp_read
    new_axisData_def Let_def)

section \<open>Memory-mapped channels\<close>

definition serialize_aximmRWAddr :: "cp_path \<Rightarrow> aximmRWAddr \<Rightarrow> cp_line list" where
  "serialize_aximmRWAddr p a =
     paramOut_i ''cmd'' (cmd_int (a_cmd a)) @
     paramOut_w ''id'' (a_id a) @
     paramOut_w ''addr'' (addr a) @
     paramOut_w ''len'' (len a) @
     paramOut_w ''size'' (sz a) @
     paramOut_i ''burst'' (burst_int (burst a)) @
     paramOut_b ''lock'' (lock a) @
     paramOut_w ''cache'' (cache a) @
     paramOut_w ''prot'' (prot a) @
     paramOut_w ''qos'' (qos a) @
     paramOut_w ''region'' (region a) @
     paramOut_w ''user'' (a_user a) @
     paramOut_b ''valid'' (a_valid a)"

definition unserialize_aximmRWAddr :: "cp_db \<Rightarrow> cp_path \<Rightarrow> aximmRWAddr result" where
  "unserialize_aximmRWAddr db p =
     rbind (paramIn_i db p ''cmd'') (\<lambda>cmd.
     rbind (paramIn_i db p ''burst'') (\<lambda>brst.
     rbind (int_cmd cmd) (\<lambda>v_cmd.
     rbind (int_burst brst) (\<lambda>v_burst.
     rbind (paramIn_w db p ''id'') (\<lambda>v_id.
     rbind (paramIn_w db p ''addr'') (\<lambda>v_addr.
     rbind (paramIn_cast db p ''len'') (\<lambda>v_len.
     rbind (paramIn_cast db p ''size'') (\<lambda>v_size.
     rbind (paramIn_b db p ''lock'') (\<lambda>v_lock.
     rbind (paramIn_cast db p ''cache'') (\<lambda>v_cache.
     rbind (paramIn_cast db p ''prot'') (\<lambda>v_prot.
     rbind (paramIn_cast db p ''qos'') (\<lambda>v_qos.
     rbind (paramIn_cast db p ''region'') (\<lambda>v_region.
     rbind (paramIn_cast db p ''user'') (\<lambda>v_user.
     rbind (paramIn_b db p ''valid'') (\<lambda>v_valid.
       Inr (default_aximmRWAddr\<lparr> a_cmd := v_cmd, burst := v_burst, a_id := v_id, addr := v_addr,
         len := v_len, sz := v_size, lock := v_lock, cache := v_cache, prot := v_prot,
         qos := v_qos, region := v_region, a_user := v_user, a_valid := v_valid \<rparr>))))))))))))))))"

text \<open>The probe fields of an address are not written: they come back as their defaults.\<close>

definition aximmRWAddr_restored :: "aximmRWAddr \<Rightarrow> aximmRWAddr" where
  "aximmRWAddr_restored a =
     a\<lparr> sourceNiDebug := - 1, originalReadBytesDebug := 0, a_debugId := - 1,
        finalReadChunkDebug := False \<rparr>"

interpretation aximmRWAddr_cp:
  flat_codec serialize_aximmRWAddr unserialize_aximmRWAddr "\<lambda>_. True" aximmRWAddr_restored
proof unfold_locales
  show "unserialize_aximmRWAddr db p = unserialize_aximmRWAddr db' p"
    if "\<And>k. db (p, k) = db' (p, k)" for db db' p
    by (simp add: unserialize_aximmRWAddr_def
        param_cong_db [where db = db and db' = db' and p = p, OF that])
qed (simp_all add: aximmRWAddr_restored_def serialize_aximmRWAddr_def unserialize_aximmRWAddr_def
    cp_write cp_read default_aximmRWAddr_def)

definition serialize_aximmRWData :: "cp_path \<Rightarrow> aximmRWData \<Rightarrow> cp_line list" where
  "serialize_aximmRWData p d =
     paramOut_i ''cmd'' (cmd_int (d_cmd d)) @
     paramOut_w ''id'' (d_id d) @
     paramOut_i ''resp'' (resp_int (d_resp d)) @
     paramOut_b ''last'' (d_last d) @
     paramOut_w ''user'' (d_user d) @
     paramOut_b ''valid'' (d_valid d) @
     paramOut_b ''ready'' (d_ready d) @
     arrayParamOut ''data'' (byte_tokens (d_data d)) @
     paramOut_w ''wstrb'' (wstrb d)"

definition unserialize_aximmRWData :: "cp_db \<Rightarrow> cp_path \<Rightarrow> aximmRWData result" where
  "unserialize_aximmRWData db p =
     rbind (paramIn_i db p ''cmd'') (\<lambda>cmd.
     rbind (paramIn_i db p ''resp'') (\<lambda>resp.
     rbind (int_cmd cmd) (\<lambda>v_cmd.
     rbind (int_resp resp) (\<lambda>v_resp.
     rbind (paramIn_w db p ''id'') (\<lambda>v_id.
     rbind (paramIn_b db p ''last'') (\<lambda>v_last.
     rbind (paramIn_cast db p ''user'') (\<lambda>v_user.
     rbind (paramIn_b db p ''valid'') (\<lambda>v_valid.
     rbind (paramIn_b db p ''ready'') (\<lambda>v_ready.
     rbind (arrayParamIn parse_word db p ''data'' (Some 64)) (\<lambda>v_data.
     rbind (paramIn_w db p ''wstrb'') (\<lambda>v_wstrb.
       Inr (default_aximmRWData\<lparr> d_cmd := v_cmd, d_resp := v_resp, d_id := v_id, d_last := v_last,
         d_user := v_user, d_valid := v_valid, d_ready := v_ready, d_data := v_data,
         wstrb := v_wstrb \<rparr>))))))))))))"

text \<open>The data array has exactly 64 lanes.\<close>

definition aximmRWData_ok :: "aximmRWData \<Rightarrow> bool" where
  "aximmRWData_ok d \<longleftrightarrow> length (d_data d) = 64"

interpretation aximmRWData_cp:
  flat_codec serialize_aximmRWData unserialize_aximmRWData aximmRWData_ok "\<lambda>d. d"
proof unfold_locales
  show "unserialize_aximmRWData db p = unserialize_aximmRWData db' p"
    if "\<And>k. db (p, k) = db' (p, k)" for db db' p
    by (simp add: unserialize_aximmRWData_def
        param_cong_db [where db = db and db' = db' and p = p, OF that])
qed (simp_all add: aximmRWData_ok_def serialize_aximmRWData_def unserialize_aximmRWData_def
    cp_write cp_read default_aximmRWData_def)

definition serialize_aximmWResp :: "cp_path \<Rightarrow> aximmWResp \<Rightarrow> cp_line list" where
  "serialize_aximmWResp p r =
     paramOut_w ''id'' (b_id r) @
     paramOut_i ''resp'' (resp_int (b_resp r)) @
     paramOut_w ''user'' (b_user r) @
     paramOut_b ''valid'' (b_valid r)"

definition unserialize_aximmWResp :: "cp_db \<Rightarrow> cp_path \<Rightarrow> aximmWResp result" where
  "unserialize_aximmWResp db p =
     rbind (paramIn_w db p ''id'') (\<lambda>v_id.
     rbind (paramIn_i db p ''resp'') (\<lambda>resp.
     rbind (int_resp resp) (\<lambda>v_resp.
     rbind (paramIn_cast db p ''user'') (\<lambda>v_user.
     rbind (paramIn_b db p ''valid'') (\<lambda>v_valid.
       Inr \<lparr> b_id = v_id, b_resp = v_resp, b_user = v_user, b_valid = v_valid \<rparr>)))))"

interpretation aximmWResp_cp:
  flat_codec serialize_aximmWResp unserialize_aximmWResp "\<lambda>_. True" "\<lambda>r. r"
proof unfold_locales
  show "unserialize_aximmWResp db p = unserialize_aximmWResp db' p"
    if "\<And>k. db (p, k) = db' (p, k)" for db db' p
    by (simp add: unserialize_aximmWResp_def
        param_cong_db [where db = db and db' = db' and p = p, OF that])
qed (simp_all add: serialize_aximmWResp_def unserialize_aximmWResp_def cp_write cp_read)

end
