(* ===== verification/CDC_Queue.thy ===== *)
theory CDC_Queue
  imports AXI_Checkpoint
begin

text \<open>
  The clock-domain-crossing queue between a node interface and the network
  (\<open>src/noc/core/interface/CDCQueue.hh\<close> and \<open>CDCQueue.cc\<close>): a bounded FIFO of protocol states
  with an optional time before which the head may not leave, and its checkpoint.

  The FIFO contract is the locale \<open>bounded_fifo\<close>; it is proved for the queue's own
  operations, and its consequence for arbitrary interleavings of the two sides is that
  states leave in the order in which they were accepted, none lost and none repeated.
\<close>

section \<open>State and operations\<close>

datatype ResponseType = RespNONE | RespREAD | RespWRITE

record ResponseInfo =
  responseEnd :: bool
  dataValid :: bool
  ri_type :: ResponseType
  ri_id :: u32
  delay :: nat
  ri_src :: u32
  dataBytes :: "byte list"
  ri_tlast :: bool
  ri_tdest :: int

text \<open>An entry owns its state; the callers of \<open>enqueue\<close> always move a state into the queue.\<close>

record FIFOEntry =
  fe_data :: State
  fe_responseInfo :: "ResponseInfo option"
  enqueueTick :: Tick
  dequeueTick :: Tick
  dequeueTickValid :: bool
  sampled :: bool

record CDCQueue =
  maxSize :: int
  fifo :: "FIFOEntry list"

definition new_CDCQueue :: "int \<Rightarrow> CDCQueue" where
  "new_CDCQueue n = \<lparr> maxSize = n, fifo = [] \<rparr>"

text \<open>The comparison with the size converts the \<open>int\<close> capacity to \<open>size_t\<close>.\<close>

definition isEmpty :: "CDCQueue \<Rightarrow> bool" where
  "isEmpty q \<longleftrightarrow> fifo q = []"

definition isFull :: "CDCQueue \<Rightarrow> bool" where
  "isFull q \<longleftrightarrow> length (fifo q) \<ge> size_t_of_int (maxSize q)"

definition enqueue :: "State \<Rightarrow> Tick \<Rightarrow> CDCQueue \<Rightarrow> bool \<times> CDCQueue" where
  "enqueue s t q =
     (if isFull q then (False, q)
      else (True, q\<lparr> fifo := fifo q @ [\<lparr> fe_data = s, fe_responseInfo = None, enqueueTick = t,
             dequeueTick = 0, dequeueTickValid = False, sampled = False \<rparr>] \<rparr>))"

definition enqueue_resp :: "State \<Rightarrow> ResponseInfo \<Rightarrow> Tick \<Rightarrow> CDCQueue \<Rightarrow> bool \<times> CDCQueue" where
  "enqueue_resp s ri t q =
     (if isFull q then (False, q)
      else (True, q\<lparr> fifo := fifo q @ [\<lparr> fe_data = s, fe_responseInfo = Some ri, enqueueTick = t,
             dequeueTick = 0, dequeueTickValid = False, sampled = False \<rparr>] \<rparr>))"

definition dequeue :: "Tick \<Rightarrow> CDCQueue \<Rightarrow> State option \<times> CDCQueue" where
  "dequeue curTick q =
     (case fifo q of
        [] \<Rightarrow> (None, q)
      | entry # rest \<Rightarrow>
          if dequeueTickValid entry \<and> dequeueTick entry > curTick then (None, q)
          else (Some (fe_data entry), q\<lparr> fifo := rest \<rparr>))"

definition canDequeueToNoC :: "Tick \<Rightarrow> CDCQueue \<Rightarrow> bool" where
  "canDequeueToNoC curTick q =
     (case fifo q of
        [] \<Rightarrow> False
      | entry # _ \<Rightarrow> \<not> (dequeueTickValid entry \<and> dequeueTick entry > curTick))"

definition peekFrontState :: "Tick \<Rightarrow> CDCQueue \<Rightarrow> State option" where
  "peekFrontState curTick q =
     (if \<not> canDequeueToNoC curTick q then None else Some (fe_data (hd (fifo q))))"

definition peekResponseInfo :: "CDCQueue \<Rightarrow> ResponseInfo option" where
  "peekResponseInfo q = (case fifo q of [] \<Rightarrow> None | entry # _ \<Rightarrow> fe_responseInfo entry)"

section \<open>The FIFO contract\<close>

datatype 'i queue_op = Put 'i | Get Tick

text \<open>
  A history of calls on the two sides: the items that \<open>put\<close> accepted, the items that \<open>get\<close>
  returned, and the final queue.
\<close>

fun run_queue ::
  "('i \<Rightarrow> 'q \<Rightarrow> bool \<times> 'q) \<Rightarrow> (Tick \<Rightarrow> 'q \<Rightarrow> 'e option \<times> 'q) \<Rightarrow> 'i queue_op list \<Rightarrow> 'q \<Rightarrow>
    'i list \<times> 'e list \<times> 'q" where
  "run_queue put get [] q = ([], [], q)"
| "run_queue put get (Put i # ops) q =
     (let (b, q1) = put i q; (acc, out, q2) = run_queue put get ops q1
      in (if b then i # acc else acc, out, q2))"
| "run_queue put get (Get t # ops) q =
     (let (r, q1) = get t q; (acc, out, q2) = run_queue put get ops q1
      in (acc, (case r of None \<Rightarrow> out | Some e \<Rightarrow> e # out), q2))"

locale bounded_fifo =
  fixes put :: "'i \<Rightarrow> 'q \<Rightarrow> bool \<times> 'q"
    and get :: "Tick \<Rightarrow> 'q \<Rightarrow> 'e option \<times> 'q"
    and contents :: "'q \<Rightarrow> 'e list"
    and item :: "'i \<Rightarrow> 'e"
    and full :: "'q \<Rightarrow> bool"
    and capacity :: "'q \<Rightarrow> nat"
  assumes put_full: "full q \<Longrightarrow> put i q = (False, q)"
    and put_ok: "\<not> full q \<Longrightarrow>
      \<exists>q'. put i q = (True, q') \<and> contents q' = contents q @ [item i] \<and> capacity q' = capacity q"
    and get_none: "get t q = (None, q') \<Longrightarrow> q' = q"
    and get_some: "get t q = (Some e, q') \<Longrightarrow> contents q = e # contents q' \<and> capacity q' = capacity q"
    and full_iff: "full q \<longleftrightarrow> capacity q \<le> length (contents q)"
begin

lemma put_cases:
  obtains "full q" "put i q = (False, q)"
  | q' where "\<not> full q" "put i q = (True, q')" "contents q' = contents q @ [item i]" "capacity q' = capacity q"
  using put_full put_ok by blast

lemma put_bounded:
  assumes "put i q = (b, q')" "length (contents q) \<le> capacity q"
  shows "length (contents q') \<le> capacity q' \<and> capacity q' = capacity q"
  using assms by (cases rule: put_cases [of q i]) (auto simp: full_iff)

lemma get_bounded:
  assumes "get t q = (r, q')" "length (contents q) \<le> capacity q"
  shows "length (contents q') \<le> capacity q' \<and> capacity q' = capacity q"
  using assms by (cases r) (auto dest: get_none get_some)

lemma run_in_order:
  "run_queue put get ops q = (acc, out, q') \<Longrightarrow> contents q @ map item acc = out @ contents q'"
proof (induction ops arbitrary: q acc out q')
  case (Cons op ops)
  show ?case
  proof (cases op)
    case (Put i)
    obtain b q1 acc1 where p: "put i q = (b, q1)" "run_queue put get ops q1 = (acc1, out, q')"
      "acc = (if b then i # acc1 else acc1)"
      using Cons.prems Put by (auto split: prod.splits)
    show ?thesis using Cons.IH [OF p(2)] p
      by (cases rule: put_cases [of q i]) auto
  next
    case (Get t)
    obtain r q1 out1 where g: "get t q = (r, q1)" "run_queue put get ops q1 = (acc, out1, q')"
      "out = (case r of None \<Rightarrow> out1 | Some e \<Rightarrow> e # out1)"
      using Cons.prems Get by (auto split: prod.splits)
    show ?thesis using Cons.IH [OF g(2)] g
      by (cases r) (auto dest: get_none get_some)
  qed
qed simp

lemma run_bounded:
  "run_queue put get ops q = (acc, out, q') \<Longrightarrow> length (contents q) \<le> capacity q \<Longrightarrow>
    length (contents q') \<le> capacity q"
proof (induction ops arbitrary: q acc out q')
  case (Cons op ops)
  show ?case
  proof (cases op)
    case (Put i)
    obtain b q1 acc1 where p: "put i q = (b, q1)" "run_queue put get ops q1 = (acc1, out, q')"
      using Cons.prems(1) Put by (auto split: prod.splits)
    with put_bounded [OF p(1) Cons.prems(2)] Cons.IH [OF p(2)] show ?thesis by simp
  next
    case (Get t)
    obtain r q1 out1 where g: "get t q = (r, q1)" "run_queue put get ops q1 = (acc, out1, q')"
      using Cons.prems(1) Get by (auto split: prod.splits)
    with get_bounded [OF g(1) Cons.prems(2)] Cons.IH [OF g(2)] show ?thesis by simp
  qed
qed simp

end

text \<open>The two overloads of \<open>enqueue\<close> as one producer interface.\<close>

fun enqueue_any :: "State \<times> ResponseInfo option \<times> Tick \<Rightarrow> CDCQueue \<Rightarrow> bool \<times> CDCQueue" where
  "enqueue_any (s, None, t) q = enqueue s t q"
| "enqueue_any (s, Some ri, t) q = enqueue_resp s ri t q"

lemma enqueue_any_def2:
  "enqueue_any (s, ri, t) q =
     (if isFull q then (False, q)
      else (True, q\<lparr> fifo := fifo q @ [\<lparr> fe_data = s, fe_responseInfo = ri, enqueueTick = t,
             dequeueTick = 0, dequeueTickValid = False, sampled = False \<rparr>] \<rparr>))"
  by (cases ri) (simp_all add: enqueue_def enqueue_resp_def)

interpretation cdc: bounded_fifo enqueue_any dequeue "\<lambda>q. map fe_data (fifo q)" fst isFull
  "\<lambda>q. size_t_of_int (maxSize q)"
proof unfold_locales
  fix q :: CDCQueue and i :: "State \<times> ResponseInfo option \<times> Tick"
  obtain s ri t where i: "i = (s, ri, t)" by (cases i) auto
  show "enqueue_any i q = (False, q)" if "isFull q"
    using that by (simp add: i enqueue_any_def2)
  show "\<exists>q'. enqueue_any i q = (True, q') \<and> map fe_data (fifo q') = map fe_data (fifo q) @ [fst i] \<and>
      size_t_of_int (maxSize q') = size_t_of_int (maxSize q)" if "\<not> isFull q"
    using that by (simp add: i enqueue_any_def2)
next
  fix t q q'
  show "q' = q" if "dequeue t q = (None, q')"
    using that by (auto simp: dequeue_def split: list.splits if_splits)
  show "map fe_data (fifo q) = e # map fe_data (fifo q') \<and>
      size_t_of_int (maxSize q') = size_t_of_int (maxSize q)" if "dequeue t q = (Some e, q')" for e
    using that by (auto simp: dequeue_def split: list.splits if_splits)
qed (simp add: isFull_def)

section \<open>Peeking and stalls\<close>

lemma peek_is_dequeue: "peekFrontState t q = fst (dequeue t q)"
  by (auto simp: peekFrontState_def canDequeueToNoC_def dequeue_def split: list.splits)

lemma canDequeue_iff: "canDequeueToNoC t q \<longleftrightarrow> fst (dequeue t q) \<noteq> None"
  by (auto simp: canDequeueToNoC_def dequeue_def split: list.splits)

text \<open>While the front entry waits, later arrivals change nothing a consumer can observe.\<close>

lemma peek_stable_enqueue:
  assumes "\<not> isEmpty q" and "enqueue_any i q = (b, q')"
  shows "peekFrontState t q' = peekFrontState t q \<and> peekResponseInfo q' = peekResponseInfo q \<and>
    canDequeueToNoC t q' = canDequeueToNoC t q"
proof -
  obtain s ri u where i: "i = (s, ri, u)" by (cases i) auto
  show ?thesis using assms
    by (cases "fifo q")
      (auto simp: i enqueue_any_def2 isEmpty_def peekFrontState_def canDequeueToNoC_def
        peekResponseInfo_def split: if_splits)
qed

lemma canDequeue_mono: "canDequeueToNoC t q \<Longrightarrow> t \<le> t' \<Longrightarrow> canDequeueToNoC t' q"
  by (auto simp: canDequeueToNoC_def split: list.splits)

section \<open>Properties\<close>

text \<open>C18: Whatever the interleaving of the producer's and the consumer's calls, the states that
  left the queue followed by those still in it are exactly the accepted states in the order of
  acceptance, and the queue never holds more than its capacity.\<close>

theorem cdc_fifo_order:
  assumes "run_queue enqueue_any dequeue ops (new_CDCQueue n) = (acc, out, q')"
  shows "map fst acc = out @ map fe_data (fifo q') \<and> length (fifo q') \<le> size_t_of_int n"
  using cdc.run_in_order [OF assms] cdc.run_bounded [OF assms] by (simp add: new_CDCQueue_def)

definition sample_state :: State where
  "sample_state = StAxisSlave \<lparr> ss_debugId = 3, ss_tready = True \<rparr>"

theorem cdc_fifo_order_witness:
  "map fst [(sample_state, None :: ResponseInfo option, 5 :: nat)] =
     [sample_state] @ map fe_data (fifo (new_CDCQueue 1)) \<and> length (fifo (new_CDCQueue 1)) \<le> size_t_of_int 1"
proof -
  have "run_queue enqueue_any dequeue [Put (sample_state, None, 5), Put (sample_state, None, 6), Get 7]
      (new_CDCQueue 1) = ([(sample_state, None, 5)], [sample_state], new_CDCQueue 1)"
    by (simp add: new_CDCQueue_def enqueue_def isFull_def size_t_of_int_def dequeue_def)
  from cdc_fifo_order [OF this] show ?thesis .
qed

text \<open>A state that is offered at the head of the queue stays offered, unchanged, while the
  consumer stalls: later arrivals and the passing of time alter neither the state nor the
  permission to take it, and taking it yields the state that was offered.\<close>

lemma cdc_offer_stable:
  assumes "peekFrontState t q = Some s" and "enqueue_any i q = (b, q')" and "t \<le> t'"
  shows "peekFrontState t' q' = Some s \<and> fst (dequeue t' q') = Some s"
proof -
  have can: "canDequeueToNoC t q" and ne: "\<not> isEmpty q"
    using assms(1) by (auto simp: peekFrontState_def canDequeueToNoC_def isEmpty_def split: if_splits list.splits)
  have "peekFrontState t' q = Some s"
    using assms(1) can canDequeue_mono [OF can assms(3)] by (simp add: peekFrontState_def)
  then show ?thesis using peek_stable_enqueue [OF ne assms(2)] by (simp add: peek_is_dequeue)
qed

lemma cdc_offer_stable_witness:
  "let q = snd (enqueue sample_state 5 (new_CDCQueue 2)); q' = snd (enqueue sample_state 6 q) in
    peekFrontState 9 q' = Some sample_state \<and> fst (dequeue 9 q') = Some sample_state"
proof -
  have "peekFrontState 5 (snd (enqueue sample_state 5 (new_CDCQueue 2))) = Some sample_state"
    by (simp add: new_CDCQueue_def enqueue_def isFull_def size_t_of_int_def peekFrontState_def
        canDequeueToNoC_def)
  from cdc_offer_stable [OF this, of "(sample_state, None, 6)" True
      "snd (enqueue sample_state 6 (snd (enqueue sample_state 5 (new_CDCQueue 2))))" 9]
  show ?thesis
    by (simp add: new_CDCQueue_def enqueue_def isFull_def size_t_of_int_def)
qed

end
