(* ===== verification/CDC_Checkpoint.thy ===== *)
theory CDC_Checkpoint
  imports CDC_Queue
begin

text \<open>
  Checkpointing the clock-domain-crossing queue
  (\<open>serialize_state\<close>, \<open>unserialize_state\<close>, \<open>CDCQueue::serialize\<close> and \<open>CDCQueue::unserialize\<close>
  in \<open>src/noc/core/interface/CDCQueue.cc\<close>).

  For stream states the text is read back, up to the debug ids and the user signals above one byte.
  For the two memory-mapped states the writer opens
  the second channel's section while the first is still open, so it becomes a subsection,
  and the reader, which looks for siblings, stops with a fatal error.
\<close>

section \<open>States\<close>

fun serialize_state :: "cp_path \<Rightarrow> State \<Rightarrow> cp_line list" where
  "serialize_state p (StAxisSlave a) =
     paramOut ''kind'' (TokStr ''axisSlaveState'') @ paramOut_b ''tready'' (ss_tready a)"
| "serialize_state p (StAxisMaster a) =
     paramOut ''kind'' (TokStr ''axisMasterState'') @
     ScopedCheckpointSection p ''axisData'' (\<lambda>sec.
       serialize_axisData sec (ms_data a) @
       paramOut_b ''ni_tready'' (ni_tready a) @
       paramOut_b ''cdc_enqueue_ready'' (ms_cdc_enqueue_ready a) @
       paramOut_b ''node_input_tready'' (node_input_tready a))"
| "serialize_state p (StAximmSlave a) =
     paramOut ''kind'' (TokStr ''aximmSlaveState'') @
     paramOut_b ''arReady'' (arReady a) @
     paramOut_b ''awReady'' (awReady a) @
     paramOut_b ''wReady'' (wReady a) @
     ScopedCheckpointSection p ''r'' (\<lambda>sec1.
       serialize_aximmRWData sec1 (rchan a) @
       ScopedCheckpointSection sec1 ''b'' (\<lambda>sec2. serialize_aximmWResp sec2 (bchan a)))"
| "serialize_state p (StAximmMaster a) =
     paramOut ''kind'' (TokStr ''aximmMasterState'') @
     paramOut_b ''rReady'' (rReady a) @
     paramOut_b ''bReady'' (bReady a) @
     ScopedCheckpointSection p ''ar'' (\<lambda>sec1.
       serialize_aximmRWAddr sec1 (archan a) @
       ScopedCheckpointSection sec1 ''aw'' (\<lambda>sec2.
         serialize_aximmRWAddr sec2 (awchan a) @
         ScopedCheckpointSection sec2 ''w'' (\<lambda>sec3. serialize_aximmRWData sec3 (wchan a))))"

definition unserialize_state :: "cp_db \<Rightarrow> cp_path \<Rightarrow> State result" where
  "unserialize_state db p =
     rbind (paramIn parse_string db p ''kind'') (\<lambda>kind.
       if kind = ''axisSlaveState'' then
         rbind (paramIn_b db p ''tready'') (\<lambda>v.
           Inr (StAxisSlave \<lparr> ss_debugId = - 1, ss_tready = v \<rparr>))
       else if kind = ''axisMasterState'' then
         let sec = p @ [''axisData''] in
         rbind (unserialize_axisData db sec) (\<lambda>d.
         let s = new_axisMasterState (DATA_WIDTH d) (ID_WIDTH d) (DST_ID_WIDTH d);
             (b1, v1) = optParamIn to_bool db sec ''ni_tready'' (ni_tready s);
             (b2, v2) = optParamIn to_bool db sec ''cdc_enqueue_ready'' (ms_cdc_enqueue_ready s);
             (b3, v3) = optParamIn to_bool db sec ''node_input_tready'' (node_input_tready s)
         in Inr (StAxisMaster (s\<lparr> ms_data := d, ni_tready := (if \<not> b1 then False else v1),
              ms_cdc_enqueue_ready := (if \<not> b2 then False else v2),
              node_input_tready := (if \<not> b3 then False else v3) \<rparr>)))
       else if kind = ''aximmSlaveState'' then
         rbind (paramIn_b db p ''arReady'') (\<lambda>v_ar.
         rbind (paramIn_b db p ''awReady'') (\<lambda>v_aw.
         rbind (paramIn_b db p ''wReady'') (\<lambda>v_w.
         rbind (unserialize_aximmRWData db (p @ [''r''])) (\<lambda>v_r.
         rbind (unserialize_aximmWResp db (p @ [''b''])) (\<lambda>v_b.
           Inr (StAximmSlave (default_aximmSlaveState\<lparr> arReady := v_ar, awReady := v_aw,
             wReady := v_w, rchan := v_r, bchan := v_b \<rparr>)))))))
       else if kind = ''aximmMasterState'' then
         rbind (paramIn_b db p ''rReady'') (\<lambda>v_r.
         rbind (paramIn_b db p ''bReady'') (\<lambda>v_b.
         rbind (unserialize_aximmRWAddr db (p @ [''ar''])) (\<lambda>v_ar.
         rbind (unserialize_aximmRWAddr db (p @ [''aw''])) (\<lambda>v_aw.
         rbind (unserialize_aximmRWData db (p @ [''w''])) (\<lambda>v_w.
           Inr (StAximmMaster (default_aximmMasterState\<lparr> rReady := v_r, bReady := v_b,
             archan := v_ar, awchan := v_aw, wchan := v_w \<rparr>)))))))
       else Inl (Panic ''CDCQueue unserialize_state: bad kind''))"

text \<open>What comes back of a stream state: the correlation id is not written.\<close>

fun state_ok :: "State \<Rightarrow> bool" where
  "state_ok (StAxisSlave a) = True"
| "state_ok (StAxisMaster a) = axisData_ok (ms_data a)"
| "state_ok _ = False"

fun state_restored :: "State \<Rightarrow> State" where
  "state_restored (StAxisSlave a) = StAxisSlave (a\<lparr> ss_debugId := - 1 \<rparr>)"
| "state_restored (StAxisMaster a) =
     StAxisMaster (a\<lparr> ms_debugId := - 1, ms_data := axisData_restored (ms_data a) \<rparr>)"
| "state_restored s = s"

lemmas state_codec_simps = cp_write cp_read serialize_axisData_def unserialize_axisData_def
  serialize_aximmRWAddr_def unserialize_aximmRWAddr_def serialize_aximmRWData_def
  unserialize_aximmRWData_def serialize_aximmWResp_def unserialize_aximmWResp_def

lemma unserialize_state_reads_below:
  assumes "\<And>s k. prefix p s \<Longrightarrow> db (s, k) = db' (s, k)"
  shows "unserialize_state db p = unserialize_state db' p"
proof -
  have here: "db (p @ q, k) = db' (p @ q, k)" for q k by (rule assms) simp
  have at_p: "db (p, k) = db' (p, k)" for k using here [of "[]"] by simp
  have sub: "unserialize_axisData db (p @ q) = unserialize_axisData db' (p @ q)"
    "unserialize_aximmRWAddr db (p @ q) = unserialize_aximmRWAddr db' (p @ q)"
    "unserialize_aximmRWData db (p @ q) = unserialize_aximmRWData db' (p @ q)"
    "unserialize_aximmWResp db (p @ q) = unserialize_aximmWResp db' (p @ q)" for q
    by (rule axisData_cp.reads_here aximmRWAddr_cp.reads_here aximmRWData_cp.reads_here
        aximmWResp_cp.reads_here, rule here)+
  note at_q = param_cong_db [where db = db and db' = db' and p = "p @ q" for q, OF here]
  show ?thesis unfolding unserialize_state_def Let_def
    by (simp only: param_cong_db [where db = db and db' = db' and p = p, OF at_p] at_q sub)
qed

interpretation state_cp: checkpoint_codec serialize_state unserialize_state state_ok state_restored
proof unfold_locales
  show "strict_prefix p s" if "s \<in> sections (serialize_state p x)" for s p x
    using that by (cases x) (auto simp: state_codec_simps strict_prefix_def)
  show "unserialize_state (IniFile_load (serialize_state p x) (Some p) Map.empty) p =
      Inr (state_restored x)" if "state_ok x" for x p
    using that
    by (cases x) (simp_all add: unserialize_state_def state_codec_simps axisData_ok_def
        axisData_restored_def new_axisData_def new_axisMasterState_def Let_def)
qed (rule unserialize_state_reads_below)

text \<open>The memory-mapped states cannot be restored, whatever they hold.\<close>

fun aximm_state :: "State \<Rightarrow> bool" where
  "aximm_state (StAximmMaster a) = True"
| "aximm_state (StAximmSlave a) = (length (d_data (rchan a)) = 64)"
| "aximm_state _ = False"

lemma restore_aximm_fails:
  "aximm_state x \<Longrightarrow>
    unserialize_state (IniFile_load (serialize_state p x) (Some p) Map.empty) p =
    Inl (Fatal ''Can't unserialize'')"
  by (cases x) (simp_all add: unserialize_state_def state_codec_simps)

section \<open>Entries\<close>

fun type_int :: "ResponseType \<Rightarrow> int" where
  "type_int RespNONE = 0" | "type_int RespREAD = 1" | "type_int RespWRITE = 2"

definition int_type :: "int \<Rightarrow> ResponseType result" where
  "int_type i = (if i = 0 then Inr RespNONE else if i = 1 then Inr RespREAD
     else if i = 2 then Inr RespWRITE else Inl (Undefined ''ResponseInfo::Type''))"

lemma type_roundtrip [simp, result_simps]:
  "int_type (type_int x) = Inr x" "parse_signed 32 [TokInt (type_int x)] = Some (type_int x)"
  by (cases x; simp add: int_type_def parse_signed.simps)+

definition serialize_ResponseInfo :: "cp_path \<Rightarrow> ResponseInfo \<Rightarrow> cp_line list" where
  "serialize_ResponseInfo p ri =
     paramOut_b ''responseEnd'' (responseEnd ri) @
     paramOut_b ''dataValid'' (dataValid ri) @
     paramOut_i ''type'' (type_int (ri_type ri)) @
     paramOut_w ''id'' (ri_id ri) @
     paramOut_n ''delay'' (delay ri) @
     paramOut_w ''src'' (ri_src ri) @
     arrayParamOut ''dataBytes'' (byte_tokens (dataBytes ri)) @
     paramOut_b ''tlast'' (ri_tlast ri) @
     paramOut_i ''tdest'' (ri_tdest ri)"

definition unserialize_ResponseInfo :: "cp_db \<Rightarrow> cp_path \<Rightarrow> ResponseInfo result" where
  "unserialize_ResponseInfo db p =
     rbind (paramIn_b db p ''responseEnd'') (\<lambda>v_end.
     rbind (paramIn_b db p ''dataValid'') (\<lambda>v_dv.
     rbind (paramIn_i db p ''type'') (\<lambda>ty.
     rbind (int_type ty) (\<lambda>v_type.
     rbind (paramIn_w db p ''id'') (\<lambda>v_id.
     rbind (paramIn_u 64 db p ''delay'') (\<lambda>v_delay.
     rbind (paramIn_w db p ''src'') (\<lambda>v_src.
     rbind (arrayParamIn parse_word db p ''dataBytes'' None) (\<lambda>v_bytes.
     rbind (paramIn_b db p ''tlast'') (\<lambda>v_tlast.
     rbind (paramIn_i db p ''tdest'') (\<lambda>v_tdest.
       Inr \<lparr> responseEnd = v_end, dataValid = v_dv, ri_type = v_type, ri_id = v_id,
         delay = v_delay, ri_src = v_src, dataBytes = v_bytes, ri_tlast = v_tlast,
         ri_tdest = v_tdest \<rparr>))))))))))"

definition ResponseInfo_ok :: "ResponseInfo \<Rightarrow> bool" where
  "ResponseInfo_ok ri \<longleftrightarrow> delay ri < 2 ^ 64 \<and> - (2 ^ 31) \<le> ri_tdest ri \<and> ri_tdest ri < 2 ^ 31"

interpretation responseInfo_cp:
  flat_codec serialize_ResponseInfo unserialize_ResponseInfo ResponseInfo_ok "\<lambda>ri. ri"
proof unfold_locales
  show "unserialize_ResponseInfo db p = unserialize_ResponseInfo db' p"
    if "\<And>k. db (p, k) = db' (p, k)" for db db' p
    by (simp add: unserialize_ResponseInfo_def
        param_cong_db [where db = db and db' = db' and p = p, OF that])
qed (simp_all add: ResponseInfo_ok_def serialize_ResponseInfo_def unserialize_ResponseInfo_def
    cp_write cp_read)

definition serialize_FIFOEntry :: "cp_path \<Rightarrow> FIFOEntry \<Rightarrow> cp_line list" where
  "serialize_FIFOEntry p e =
     paramOut_n ''enqueueTick'' (enqueueTick e) @
     paramOut_n ''dequeueTick'' (dequeueTick e) @
     paramOut_b ''dequeueTickValid'' (dequeueTickValid e) @
     paramOut_b ''sampled'' (sampled e) @
     paramOut_b ''hasResponseInfo'' (fe_responseInfo e \<noteq> None) @
     (case fe_responseInfo e of None \<Rightarrow> []
      | Some ri \<Rightarrow> ScopedCheckpointSection p ''responseInfo'' (\<lambda>sec2. serialize_ResponseInfo sec2 ri)) @
     ScopedCheckpointSection p ''state'' (\<lambda>sec3. serialize_state sec3 (fe_data e))"

definition unserialize_FIFOEntry :: "cp_db \<Rightarrow> cp_path \<Rightarrow> FIFOEntry result" where
  "unserialize_FIFOEntry db p =
     rbind (paramIn_u 64 db p ''enqueueTick'') (\<lambda>v_enq.
     rbind (paramIn_u 64 db p ''dequeueTick'') (\<lambda>v_deq.
     rbind (paramIn_b db p ''dequeueTickValid'') (\<lambda>v_valid.
     rbind (paramIn_b db p ''sampled'') (\<lambda>v_sampled.
     rbind (paramIn_b db p ''hasResponseInfo'') (\<lambda>hasRi.
     rbind (if hasRi
            then rbind (unserialize_ResponseInfo db (p @ [''responseInfo''])) (\<lambda>ri. Inr (Some ri))
            else Inr None) (\<lambda>v_ri.
     rbind (unserialize_state db (p @ [''state''])) (\<lambda>v_data.
       Inr \<lparr> fe_data = v_data, fe_responseInfo = v_ri, enqueueTick = v_enq, dequeueTick = v_deq,
             dequeueTickValid = v_valid, sampled = v_sampled \<rparr>)))))))"

definition FIFOEntry_fields_ok :: "FIFOEntry \<Rightarrow> bool" where
  "FIFOEntry_fields_ok e \<longleftrightarrow> enqueueTick e < 2 ^ 64 \<and> dequeueTick e < 2 ^ 64 \<and>
     pred_option ResponseInfo_ok (fe_responseInfo e)"

definition FIFOEntry_ok :: "FIFOEntry \<Rightarrow> bool" where
  "FIFOEntry_ok e \<longleftrightarrow> FIFOEntry_fields_ok e \<and> state_ok (fe_data e)"

definition FIFOEntry_restored :: "FIFOEntry \<Rightarrow> FIFOEntry" where
  "FIFOEntry_restored e = e\<lparr> fe_data := state_restored (fe_data e) \<rparr>"

lemma strict_prefix_snoc: "prefix (p @ [n]) s \<Longrightarrow> strict_prefix p s"
  by (auto simp: strict_prefix_def prefix_def)

lemma prefix_snoc_neq: "prefix (p @ [n]) s \<Longrightarrow> s \<noteq> p"
  by (auto simp: prefix_def)

lemma fifo_entry_sections: "s \<in> sections (serialize_FIFOEntry p e) \<Longrightarrow> strict_prefix p s"
  by (auto simp: serialize_FIFOEntry_def paramOut_def split: option.splits
      dest: responseInfo_cp.sections_scoped_strict state_cp.sections_scoped_strict)

lemma fifo_entry_reads_below:
  assumes "\<And>s k. prefix p s \<Longrightarrow> db (s, k) = db' (s, k)"
  shows "unserialize_FIFOEntry db p = unserialize_FIFOEntry db' p"
proof -
  have at_p: "db (p, k) = db' (p, k)" for k by (rule assms) simp
  have ri: "unserialize_ResponseInfo db (p @ q) = unserialize_ResponseInfo db' (p @ q)" for q
    by (rule responseInfo_cp.reads_here, rule assms) simp
  have st: "unserialize_state db (p @ q) = unserialize_state db' (p @ q)" for q
    by (rule state_cp.reads_below, rule assms) (auto simp: prefix_def)
  show ?thesis
    by (simp only: unserialize_FIFOEntry_def ri st
        param_cong_db [where db = db and db' = db' and p = p, OF at_p])
qed

lemma fifo_entry_reads_state:
  assumes "FIFOEntry_fields_ok e"
  shows "unserialize_FIFOEntry (IniFile_load (serialize_FIFOEntry p e) (Some p) Map.empty) p =
    rbind (unserialize_state (IniFile_load (serialize_state (p @ [''state'']) (fe_data e))
        (Some (p @ [''state''])) Map.empty) (p @ [''state'']))
      (\<lambda>s. Inr (e\<lparr> fe_data := s \<rparr>))"
proof -
  let ?params = "paramOut_n ''enqueueTick'' (enqueueTick e) @
     paramOut_n ''dequeueTick'' (dequeueTick e) @
     paramOut_b ''dequeueTickValid'' (dequeueTickValid e) @
     paramOut_b ''sampled'' (sampled e) @
     paramOut_b ''hasResponseInfo'' (fe_responseInfo e \<noteq> None)"
  let ?ri = "case fe_responseInfo e of None \<Rightarrow> []
      | Some ri \<Rightarrow> ScopedCheckpointSection p ''responseInfo'' (\<lambda>sec2. serialize_ResponseInfo sec2 ri)"
  let ?st = "ScopedCheckpointSection p ''state'' (\<lambda>sec3. serialize_state sec3 (fe_data e))"
  define db0 where "db0 = IniFile_load ?params (Some p) Map.empty"
  define db1 where "db1 = IniFile_load ?ri (Some p) db0"
  define db2 where "db2 = IniFile_load ?st (end_section ?ri (Some p)) db1"
  have db2: "IniFile_load (serialize_FIFOEntry p e) (Some p) Map.empty = db2"
    by (simp add: serialize_FIFOEntry_def db2_def db1_def db0_def paramOut_def)
  have out0: "db0 (s, k) = None" if "s \<noteq> p" for s k
    using that by (simp add: db0_def paramOut_def)
  have apart: "\<not> prefix (p @ [''responseInfo'']) s" if "prefix (p @ [''state'']) s" for s
    using that by (auto simp: prefix_def)
  have st_lookup: "db2 (s, k) = db1 (s, k)" if "\<not> prefix (p @ [''state'']) s" for s k
    unfolding db2_def by (rule state_cp.scoped_outside [OF that])
  have ri_lookup: "db1 (s, k) = db0 (s, k)" if "\<not> prefix (p @ [''responseInfo'']) s" for s k
    using that by (simp add: db1_def responseInfo_cp.scoped_outside split: option.split)
  have at_p: "db2 (p, k) = db0 (p, k)" for k
    by (simp add: st_lookup ri_lookup)
  have ri: "unserialize_ResponseInfo db2 (p @ [''responseInfo'']) = Inr ri"
    if "fe_responseInfo e = Some ri" for ri
  proof -
    have "unserialize_ResponseInfo db2 (p @ [''responseInfo'']) =
        unserialize_ResponseInfo db1 (p @ [''responseInfo''])"
      by (rule responseInfo_cp.reads_here) (simp add: st_lookup)
    also have "\<dots> = Inr ri"
      using that assms unfolding db1_def
      by (simp add: FIFOEntry_fields_ok_def)
        (rule responseInfo_cp.restore_scoped, simp, rule out0, rule prefix_snoc_neq)
    finally show ?thesis .
  qed
  have st: "unserialize_state db2 (p @ [''state'']) =
      unserialize_state (IniFile_load (serialize_state (p @ [''state'']) (fe_data e))
        (Some (p @ [''state''])) Map.empty) (p @ [''state''])"
    unfolding db2_def
  proof (rule state_cp.scoped_fresh)
    show "db1 (s, k) = None" if "prefix (p @ [''state'']) s" for s k
      using ri_lookup [OF apart [OF that]] out0 [OF prefix_snoc_neq [OF that]] by simp
  qed
  show ?thesis unfolding db2 using assms st ri
    by (cases e, cases "fe_responseInfo e")
      (simp_all add: unserialize_FIFOEntry_def cp_read at_p db0_def paramOut_def
        FIFOEntry_fields_ok_def)
qed

lemma fifo_entry_written_read:
  "FIFOEntry_ok e \<Longrightarrow>
    unserialize_FIFOEntry (IniFile_load (serialize_FIFOEntry p e) (Some p) Map.empty) p =
    Inr (FIFOEntry_restored e)"
  by (simp add: FIFOEntry_ok_def fifo_entry_reads_state state_cp.written_read FIFOEntry_restored_def)

interpretation fifo_entry_cp:
  checkpoint_codec serialize_FIFOEntry unserialize_FIFOEntry FIFOEntry_ok FIFOEntry_restored
  by unfold_locales (rule fifo_entry_sections fifo_entry_reads_below fifo_entry_written_read; assumption)+

section \<open>The queue\<close>

definition serialize_CDCQueue :: "cp_path \<Rightarrow> CDCQueue \<Rightarrow> cp_line list" where
  "serialize_CDCQueue p q =
     paramOut_i ''maxSize'' (maxSize q) @
     paramOut_n ''fifo_size'' (length (fifo q)) @
     scoped_list serialize_FIFOEntry (indexed ''e'') p 0 (fifo q)"

definition unserialize_CDCQueue :: "cp_db \<Rightarrow> cp_path \<Rightarrow> CDCQueue result" where
  "unserialize_CDCQueue db p =
     rbind (paramIn_i db p ''maxSize'') (\<lambda>v_max.
     rbind (paramIn_u 64 db p ''fifo_size'') (\<lambda>fifo_size.
     rbind (read_list (unserialize_FIFOEntry db) (indexed ''e'') p 0 fifo_size) (\<lambda>es.
       Inr \<lparr> maxSize = v_max, fifo = es \<rparr>)))"

definition CDCQueue_ok :: "CDCQueue \<Rightarrow> bool" where
  "CDCQueue_ok q \<longleftrightarrow> - (2 ^ 31) \<le> maxSize q \<and> maxSize q < 2 ^ 31 \<and> length (fifo q) < 2 ^ 64 \<and>
     list_all FIFOEntry_ok (fifo q)"

definition CDCQueue_restored :: "CDCQueue \<Rightarrow> CDCQueue" where
  "CDCQueue_restored q = q\<lparr> fifo := map FIFOEntry_restored (fifo q) \<rparr>"

interpretation cdc_cp:
  checkpoint_codec serialize_CDCQueue unserialize_CDCQueue CDCQueue_ok CDCQueue_restored
proof unfold_locales
  show "strict_prefix p s" if "s \<in> sections (serialize_CDCQueue p q)" for s p q
    using that
    by (simp add: serialize_CDCQueue_def paramOut_def fifo_entry_cp.sections_scoped_list_strict)
next
  fix p :: cp_path and db db' :: cp_db
  assume eq: "\<And>s k. prefix p s \<Longrightarrow> db (s, k) = db' (s, k)"
  have at_p: "db (p, k) = db' (p, k)" for k by (rule eq) simp
  have "read_list (unserialize_FIFOEntry db) (indexed ''e'') p i n =
      read_list (unserialize_FIFOEntry db') (indexed ''e'') p i n" for i n
    by (rule fifo_entry_cp.read_list_below, rule eq) (simp add: strict_prefix_def)
  then show "unserialize_CDCQueue db p = unserialize_CDCQueue db' p"
    by (simp only: unserialize_CDCQueue_def
        param_cong_db [where db = db and db' = db' and p = p, OF at_p])
next
  fix p :: cp_path and q
  assume ok: "CDCQueue_ok q"
  let ?params = "paramOut_i ''maxSize'' (maxSize q) @ paramOut_n ''fifo_size'' (length (fifo q))"
  have "unserialize_CDCQueue (IniFile_load (?params @ scoped_list serialize_FIFOEntry
      (indexed ''e'') p 0 (fifo q)) (Some p) Map.empty) p = Inr (CDCQueue_restored q)"
    using ok fifo_entry_cp.container_list [of ?params "indexed ''e''" "fifo q" p 0]
    unfolding unserialize_CDCQueue_def cp_read fifo_entry_cp.container_here
    by (simp add: CDCQueue_ok_def CDCQueue_restored_def inj_def paramOut_def)
  then show "unserialize_CDCQueue (IniFile_load (serialize_CDCQueue p q) (Some p) Map.empty) p =
      Inr (CDCQueue_restored q)"
    by (simp add: serialize_CDCQueue_def)
qed

text \<open>The states that survive a checkpoint unchanged.\<close>

fun state_intact :: "State \<Rightarrow> bool" where
  "state_intact (StAxisSlave a) \<longleftrightarrow> ss_debugId a = - 1"
| "state_intact (StAxisMaster a) \<longleftrightarrow> ms_debugId a = - 1 \<and> beat_intact (ms_data a)"
| "state_intact s \<longleftrightarrow> True"

lemma state_restored_same: "state_restored s = s \<longleftrightarrow> state_intact s"
proof (cases s)
  case (StAxisSlave a)
  then show ?thesis by (cases a) auto
next
  case (StAxisMaster a)
  then show ?thesis using axisData_restored_same [of "ms_data a"] by (cases a) auto
qed simp_all

lemma FIFOEntry_restored_same: "FIFOEntry_restored e = e \<longleftrightarrow> state_intact (fe_data e)"
  unfolding FIFOEntry_restored_def state_restored_same [symmetric] by (cases e) auto

lemma CDCQueue_restored_same: "CDCQueue_restored q = q \<longleftrightarrow> (\<forall>e \<in> set (fifo q). state_intact (fe_data e))"
proof -
  have "CDCQueue_restored q = q \<longleftrightarrow> map FIFOEntry_restored (fifo q) = fifo q"
    unfolding CDCQueue_restored_def by (cases q) auto
  then show ?thesis by (simp add: map_idI list_eq_iff_nth_eq in_set_conv_nth all_set_conv_all_nth FIFOEntry_restored_same)
qed

text \<open>C27: Reading a checkpointed queue of stream states back gives \<^const>\<open>CDCQueue_restored\<close> of it: the
  capacity and the entries in order, with their times, response information and flags, where each
  debug id is set back to -1, the user signal of each beat is cut to its low byte and the logarithm
  of its width is computed anew. The queue comes back unchanged exactly if every entry has debug
  id -1 and, in a beat, a user signal below 256 and the logarithm its width has.\<close>

theorem cdc_checkpoint_roundtrip:
  assumes "CDCQueue_ok q"
  shows "unserialize_CDCQueue (load_checkpoint
      (ScopedCheckpointSection p n (\<lambda>sec. serialize_CDCQueue sec q))) (p @ [n]) =
    Inr (CDCQueue_restored q) \<and>
    (CDCQueue_restored q = q \<longleftrightarrow> (\<forall>e \<in> set (fifo q). state_intact (fe_data e)))"
  using cdc_cp.restore_scoped [OF assms] CDCQueue_restored_same by simp

definition sample_entry :: "State \<Rightarrow> FIFOEntry" where
  "sample_entry s = \<lparr> fe_data = s, fe_responseInfo = None, enqueueTick = 10, dequeueTick = 20,
     dequeueTickValid = True, sampled = False \<rparr>"

definition sample_beat :: "u32 \<Rightarrow> State" where
  "sample_beat u = StAxisMaster \<lparr> ms_debugId = - 1, ms_data = (new_axisData 64 6 4)\<lparr> tuser := u \<rparr>, ni_tready = True,
     ms_cdc_enqueue_ready = True, node_input_tready = True \<rparr>"

definition sample_beat_queue :: "u32 \<Rightarrow> CDCQueue" where
  "sample_beat_queue u = \<lparr> maxSize = 4, fifo = [sample_entry (StAxisSlave \<lparr> ss_debugId = - 1, ss_tready = True \<rparr>),
     sample_entry (sample_beat u)] \<rparr>"

theorem cdc_checkpoint_roundtrip_witness:
  "(let q = sample_beat_queue 255 in unserialize_CDCQueue (load_checkpoint
      (ScopedCheckpointSection [''sys''] ''cdc'' (\<lambda>sec. serialize_CDCQueue sec q))) [''sys'', ''cdc''] = Inr q) \<and>
   (let q = sample_beat_queue 256 in unserialize_CDCQueue (load_checkpoint
      (ScopedCheckpointSection [''sys''] ''cdc'' (\<lambda>sec. serialize_CDCQueue sec q))) [''sys'', ''cdc''] \<noteq> Inr q)"
proof -
  have "CDCQueue_ok (sample_beat_queue u)" for u
    by (simp add: CDCQueue_ok_def FIFOEntry_ok_def FIFOEntry_fields_ok_def sample_entry_def sample_beat_queue_def
        sample_beat_def axisData_ok_def new_axisData_def)
  note r = cdc_checkpoint_roundtrip [OF this, of "[''sys'']" "''cdc''"]
  have "state_intact (sample_beat u) \<longleftrightarrow> unat u < 256" for u
    by (simp add: sample_beat_def beat_intact_def new_axisData_def)
  then have "(\<forall>e \<in> set (fifo (sample_beat_queue u)). state_intact (fe_data e)) \<longleftrightarrow> unat u < 256" for u
    by (simp add: sample_beat_queue_def sample_entry_def)
  then show ?thesis using r [of 255] r [of 256] by simp
qed

text \<open>C28: A non-empty queue on a memory-mapped interface cannot be restored: reading back what
  was written stops with a fatal error, because the sections of the later channels were
  written inside those of the earlier ones.\<close>

theorem cdc_checkpoint_aximm_fatal:
  assumes "fifo q = e # es" and "FIFOEntry_fields_ok e"
    and "aximm_state (fe_data e)"
    and "- (2 ^ 31) \<le> maxSize q" and "maxSize q < 2 ^ 31" and "length (fifo q) < 2 ^ 64"
  shows "unserialize_CDCQueue (load_checkpoint
      (ScopedCheckpointSection p n (\<lambda>sec. serialize_CDCQueue sec q))) (p @ [n]) =
    Inl (Fatal ''Can't unserialize'')"
proof -
  let ?p = "p @ [n]"
  let ?params = "paramOut_i ''maxSize'' (maxSize q) @ paramOut_n ''fifo_size'' (length (fifo q))"
  have "unserialize_FIFOEntry (IniFile_load (serialize_FIFOEntry (?p @ [indexed ''e'' 0]) e)
      (Some (?p @ [indexed ''e'' 0])) Map.empty) (?p @ [indexed ''e'' 0]) = Inl (Fatal ''Can't unserialize'')"
    unfolding fifo_entry_reads_state [OF assms(2)] restore_aximm_fails [OF assms(3)] by simp
  then have "unserialize_CDCQueue (IniFile_load (?params @ scoped_list serialize_FIFOEntry
      (indexed ''e'') ?p 0 (fifo q)) (Some ?p) Map.empty) ?p = Inl (Fatal ''Can't unserialize'')"
    using assms fifo_entry_cp.container_head [of ?params "indexed ''e''" ?p 0 e es]
      parse_unsigned_nat [of 64 "Suc (length es)"]
    unfolding unserialize_CDCQueue_def cp_read fifo_entry_cp.container_here
    by (simp add: inj_def paramOut_def del: scoped_list.simps append_assoc)
  then show ?thesis by (simp add: serialize_CDCQueue_def ScopedCheckpointSection_def del: scoped_list.simps)
qed

theorem cdc_checkpoint_aximm_fatal_witness:
  "let q = \<lparr> maxSize = 4, fifo = [sample_entry (StAximmSlave default_aximmSlaveState)] \<rparr> in
    unserialize_CDCQueue (load_checkpoint
      (ScopedCheckpointSection [''sys''] ''cdc'' (\<lambda>sec. serialize_CDCQueue sec q))) [''sys'', ''cdc''] =
    Inl (Fatal ''Can't unserialize'')"
  using cdc_checkpoint_aximm_fatal [of "\<lparr> maxSize = 4, fifo = [sample_entry (StAximmSlave default_aximmSlaveState)] \<rparr>"
      "sample_entry (StAximmSlave default_aximmSlaveState)" "[]" "[''sys'']" "''cdc''"]
  by (simp add: FIFOEntry_fields_ok_def sample_entry_def default_aximmSlaveState_def default_aximmRWData_def)

end
