(* ===== verification/Stream_Message.thy ===== *)
theory Stream_Message
  imports AXI_Types
begin

text \<open>
  Stream messages (\<open>src/noc/core/network/NocStreamMsg.hh\<close>, \<open>NocStreamMsg.cc\<close>): the payload
  variants, the message record with its setters and their mode checks, and the extraction of
  the sixteen data bytes of one flit from the packed beats.

  The extraction is shown equal to a slice of the payload's valid bytes, padded with zeros.
\<close>

section \<open>Payload variants and messages\<close>

datatype Payload = PlAximm "aximmRWData list" | PlAxis axisPayload

datatype MessagePayload =
  MpRWAddr aximmRWAddr | MpRWData aximmRWData | MpWResp aximmWResp | MpAxis axisData

datatype NocStreamMsgMode = BUFFER | NETWORK

record NocStreamMsg =
  sm_pload :: Payload
  sm_payload :: MessagePayload
  sm_beat_size :: nat
  sm_num_flits :: nat
  sm_axi_beat_id :: nat
  sm_end_beat_idx :: nat
  sm_current_beat_idx :: nat
  sm_dest_ni_id :: int
  sm_src_ni_id :: int
  sm_debug_id :: int
  sm_debug_ids :: "int list"
  sm_vnet :: int
  sm_mode :: NocStreamMsgMode

text \<open>
  The constructors leave the beat size, flit count, beat id and interface ids unset; the model
  starts them at zero. The default payload is the first alternative of each variant.
\<close>

definition default_aximmPayload :: Payload where
  "default_aximmPayload = PlAximm (replicate 4 default_aximmRWData)"

definition network_NocStreamMsg :: "Payload option \<Rightarrow> NocStreamMsg" where
  "network_NocStreamMsg pload =
     \<lparr> sm_pload = (case pload of Some p \<Rightarrow> p | None \<Rightarrow> default_aximmPayload),
       sm_payload = MpRWAddr default_aximmRWAddr, sm_beat_size = 0, sm_num_flits = 0,
       sm_axi_beat_id = 0, sm_end_beat_idx = 0, sm_current_beat_idx = 0, sm_dest_ni_id = 0,
       sm_src_ni_id = 0, sm_debug_id = - 1, sm_debug_ids = [], sm_vnet = 0, sm_mode = NETWORK \<rparr>"

definition buffer_NocStreamMsg :: "MessagePayload option \<Rightarrow> NocStreamMsg" where
  "buffer_NocStreamMsg payload =
     \<lparr> sm_pload = default_aximmPayload,
       sm_payload = (case payload of Some p \<Rightarrow> p | None \<Rightarrow> MpRWAddr default_aximmRWAddr),
       sm_beat_size = 0, sm_num_flits = 0,
       sm_axi_beat_id = 0, sm_end_beat_idx = 0, sm_current_beat_idx = 0, sm_dest_ni_id = 0,
       sm_src_ni_id = 0, sm_debug_id = - 1, sm_debug_ids = [], sm_vnet = 0, sm_mode = BUFFER \<rparr>"

definition sm_setPayload :: "MessagePayload \<Rightarrow> NocStreamMsg \<Rightarrow> NocStreamMsg result" where
  "sm_setPayload payload m =
     (if sm_mode m \<noteq> BUFFER then Inl (Panic ''NocStreamMsg::setPayload only valid in BUFFER mode'')
      else Inr (m\<lparr> sm_payload := payload \<rparr>))"

definition sm_setData :: "Payload \<Rightarrow> NocStreamMsg \<Rightarrow> NocStreamMsg result" where
  "sm_setData pload m =
     (if sm_mode m \<noteq> NETWORK then Inl (Panic ''NocStreamMsg::setData only valid in NETWORK mode'')
      else case pload of
             PlAxis _ \<Rightarrow> Inr (m\<lparr> sm_pload := pload \<rparr>)
           | PlAximm _ \<Rightarrow> Inl (Panic ''NocStreamMsg::setData: expected axisPayload''))"

definition sm_getStartBeatIdx :: "NocStreamMsg \<Rightarrow> nat \<times> NocStreamMsg" where
  "sm_getStartBeatIdx m =
     (sm_current_beat_idx m, m\<lparr> sm_current_beat_idx := trunc8 (sm_current_beat_idx m + 1) \<rparr>)"

definition containsLast :: "NocStreamMsg \<Rightarrow> bool result" where
  "containsLast m =
     (case sm_pload m of
        PlAxis p \<Rightarrow> Inr (pl_last p \<noteq> 0)
      | PlAximm _ \<Rightarrow> Inl (Panic ''NocStreamMsg::containsLast expected NocStreamMsg payload''))"

section \<open>The data of one flit\<close>

text \<open>
  The state of the traversal: the flit being filled, the number of valid bytes seen so far
  and the number of bytes written. The flag says that the function has returned early.
\<close>

type_synonym flit_scan = "bool \<times> byte list \<times> nat \<times> nat"

definition scan_byte :: "nat \<Rightarrow> nat \<Rightarrow> byte \<Rightarrow> flit_scan \<Rightarrow> flit_scan" where
  "scan_byte flit_start flit_end x st =
     (case st of (ret, flit_data, valid_pos, out_idx) \<Rightarrow>
        let (flit_data', out_idx') =
              (if valid_pos \<ge> flit_start \<and> valid_pos < flit_end \<and> out_idx < 16
               then (flit_data[out_idx := x], out_idx + 1)
               else (flit_data, out_idx));
            valid_pos' = valid_pos + 1
        in (valid_pos' \<ge> flit_end \<and> out_idx' \<ge> 16, flit_data', valid_pos', out_idx'))"

fun scan_lanes :: "nat \<Rightarrow> nat \<Rightarrow> axisData \<Rightarrow> nat list \<Rightarrow> flit_scan \<Rightarrow> flit_scan" where
  "scan_lanes flit_start flit_end beat [] st = st"
| "scan_lanes flit_start flit_end beat (lane # lanes) st =
     (if fst st then st
      else scan_lanes flit_start flit_end beat lanes
             (if bit (tkeep beat) lane then scan_byte flit_start flit_end (tdata beat ! lane) st else st))"

fun scan_beats :: "nat \<Rightarrow> nat \<Rightarrow> axisData list \<Rightarrow> flit_scan \<Rightarrow> flit_scan" where
  "scan_beats flit_start flit_end [] st = st"
| "scan_beats flit_start flit_end (beat # rest) st =
     (if fst st then st
      else scan_beats flit_start flit_end rest
             (scan_lanes flit_start flit_end beat [0..<length (tdata beat)] st))"

definition axis_flit_data :: "axisPayload \<Rightarrow> nat \<Rightarrow> byte list" where
  "axis_flit_data p flit_id =
     (case scan_beats (flit_id * 16) (flit_id * 16 + 16) (beats p) (False, replicate 16 0, 0, 0) of
        (_, flit_data, _, _) \<Rightarrow> flit_data)"

definition sm_getFlitData :: "NocStreamMsg \<Rightarrow> nat \<Rightarrow> byte list result" where
  "sm_getFlitData m flit_id =
     (case sm_pload m of
        PlAxis p \<Rightarrow> Inr (axis_flit_data p flit_id)
      | PlAximm _ \<Rightarrow> Inl (Panic ''NocStreamMsg::getFlitData expected NocStreamMsg payload''))"

section \<open>A flit is a slice of the valid bytes\<close>

fun scan_bytes :: "nat \<Rightarrow> nat \<Rightarrow> byte list \<Rightarrow> flit_scan \<Rightarrow> flit_scan" where
  "scan_bytes a b [] st = st"
| "scan_bytes a b (x # xs) st = (if fst st then st else scan_bytes a b xs (scan_byte a b x st))"

lemma scan_bytes_done [simp]: "fst st \<Longrightarrow> scan_bytes a b xs st = st"
  by (cases xs) auto

lemma scan_bytes_append: "scan_bytes a b (xs @ ys) st = scan_bytes a b ys (scan_bytes a b xs st)"
  by (induction xs arbitrary: st) auto

lemma scan_lanes_bytes:
  "scan_lanes a b d lanes st = scan_bytes a b (map ((!) (tdata d)) (filter (bit (tkeep d)) lanes)) st"
proof (induction lanes arbitrary: st)
  case (Cons l lanes)
  then show ?case by (cases "fst st") auto
qed simp

lemma scan_beats_bytes: "scan_beats a b ds st = scan_bytes a b (concat (map kept_bytes ds)) st"
proof (induction ds arbitrary: st)
  case (Cons d ds)
  then show ?case
    by (cases "fst st") (simp_all add: scan_bytes_append scan_lanes_bytes kept_bytes_def kept_def)
qed simp

lemma scan_bytes_slice:
  assumes "v < a + 16" and "length fd = 16"
  shows "\<exists>r v' o'. scan_bytes a (a + 16) xs (False, fd, v, v - a) =
    (r, copy_at fd (v - a) (take (16 - (v - a)) (drop (a - v) xs)), v', o')"
  using assms
proof (induction xs arbitrary: v fd)
  case Nil
  then show ?case by auto
next
  case (Cons x xs)
  show ?case
  proof (cases "v < a")
    case True
    then have "scan_byte a (a + 16) x (False, fd, v, v - a) = (False, fd, Suc v, Suc v - a)"
      by (simp add: scan_byte_def)
    with Cons.IH [of "Suc v" fd] True Cons.prems show ?thesis
      by (simp add: Suc_diff_Suc [symmetric])
  next
    case False
    let ?o = "v - a"
    have o: "?o < 16" using Cons.prems False by linarith
    have head: "copy_at fd ?o (x # ys) = copy_at (fd[?o := x]) (Suc ?o) ys" for ys
      using o Cons.prems(2)
      by (simp add: copy_at_def list_update_append upd_conv_take_nth_drop add.commute)
    have "scan_byte a (a + 16) x (False, fd, v, ?o) = (15 \<le> ?o, fd[?o := x], Suc v, Suc ?o)"
      using False Cons.prems by (auto simp: scan_byte_def)
    then have step: "scan_bytes a (a + 16) (x # xs) (False, fd, v, ?o) =
        scan_bytes a (a + 16) xs (15 \<le> ?o, fd[?o := x], Suc v, Suc ?o)" by simp
    show ?thesis
    proof (cases "?o = 15")
      case True
      then show ?thesis unfolding step using False Cons.prems
        by (auto simp: copy_at_def upd_conv_take_nth_drop)
    next
      case False
      with o have "Suc v < a + 16" "Suc v - a = Suc ?o" "\<not> 15 \<le> ?o" "16 - ?o = Suc (16 - Suc ?o)"
        using \<open>\<not> v < a\<close> by linarith+
      with Cons.IH [of "Suc v" "fd[?o := x]"] Cons.prems \<open>\<not> v < a\<close> show ?thesis
        unfolding step by (simp add: head)
    qed
  qed
qed

definition flit_slice :: "byte list \<Rightarrow> nat \<Rightarrow> byte list" where
  "flit_slice bs i = take 16 (drop (16 * i) bs)"

lemma axis_flit_data_slice:
  "axis_flit_data p i =
    flit_slice (payload_bytes p) i @ replicate (16 - length (flit_slice (payload_bytes p) i)) 0"
  using scan_bytes_slice [of 0 "i * 16" "replicate 16 0" "payload_bytes p"]
  by (auto simp: axis_flit_data_def scan_beats_bytes payload_bytes_def flit_slice_def copy_at_def
      mult.commute drop_replicate)

lemma length_axis_flit_data [simp]: "length (axis_flit_data p i) = 16"
  by (simp add: axis_flit_data_slice flit_slice_def)

end
