(* ===== verification/Axis_Write_Buffer.thy ===== *)
theory Axis_Write_Buffer
  imports AXI_Types
begin

text \<open>
  The stream packetisation buffer \<open>axisWriteBuffer\<close> of \<open>src/noc/lib/axi/WriteStructs.hh\<close> and
  \<open>WriteStructs.cc\<close>. Beats are appended; packets of at most 64 valid bytes are taken from the
  front, never across a \<open>TLAST\<close>.

  The specification of the buffer is the stream of bytes it holds, each with a flag that says
  whether it ends an AXI packet. Adding a beat appends to that stream; popping a packet
  removes a prefix of it, no flag inside the prefix, and its \<open>last\<close> mark is the flag of its
  final byte.
\<close>

section \<open>State\<close>

text \<open>An output port is a pointer; \<open>routerID\<close> is a parameter of the checkpoint functions.\<close>

type_synonym port = nat

record axisWriteBufferEntry =
  numTotalBytes :: nat
  we_nppData :: axisData
  numBytesRemaining :: nat
  we_debugId :: int
  we_vc :: int
  we_oPort :: "port option"

definition new_axisWriteBufferEntry ::
  "axisData \<Rightarrow> port option \<Rightarrow> int \<Rightarrow> int \<Rightarrow> axisWriteBufferEntry" where
  "new_axisWriteBufferEntry d oPort vc dbg =
     \<lparr> numTotalBytes = trunc8 (axis_getTotalByteSize d), we_nppData = d,
       numBytesRemaining = axis_getTotalByteSize d, we_debugId = dbg, we_vc = vc,
       we_oPort = oPort \<rparr>"

record axisWriteBuffer =
  wb_entries :: "axisWriteBufferEntry list"
  maxBeatSize :: nat
  wb_bufferSize :: nat
  currTid :: int
  currTdest :: int
  transmitting :: bool
  tlastPositions :: "int list"
  nextDequeuePos :: int

definition new_axisWriteBuffer :: axisWriteBuffer where
  "new_axisWriteBuffer =
     \<lparr> wb_entries = [], maxBeatSize = 512, wb_bufferSize = 0, currTid = - 1, currTdest = - 1,
       transmitting = False, tlastPositions = [], nextDequeuePos = - 1 \<rparr>"

definition NPP_SIZE :: nat where
  "NPP_SIZE = NPP_MAX_SIZE"

section \<open>Adding a beat\<close>

text \<open>The position up to which the next packet may be taken, or \<open>- 1\<close>.\<close>

definition next_dequeue_pos :: "int list \<Rightarrow> nat \<Rightarrow> int" where
  "next_dequeue_pos tls bsize =
     (if tls \<noteq> [] \<and> size_t_of_int (hd tls) \<le> NPP_SIZE then hd tls
      else if bsize \<ge> NPP_SIZE then int NPP_SIZE
      else - 1)"

text \<open>\<open>add\<close> up to the point where it looks for a packet that is ready.\<close>

definition axis_append ::
  "axisData \<Rightarrow> port option \<Rightarrow> int \<Rightarrow> int \<Rightarrow> axisWriteBuffer \<Rightarrow> axisWriteBuffer result" where
  "axis_append beat oPort vc dbg b =
     (let tidChanged = (of_int (currTid b) \<noteq> tid beat);
          tdestChanged = (of_int (currTdest b) \<noteq> tdest beat)
      in if transmitting b \<and> (tidChanged \<or> tdestChanged)
         then Inl (Panic ''AXIS Write Buffer: tid or tdest changed before tlast'')
         else
           let b1 = (if transmitting b then b
                     else b\<lparr> currTid := sint (tid beat), currTdest := sint (tdest beat),
                             transmitting := True \<rparr>);
               b2 = (if tlast beat then b1\<lparr> transmitting := False \<rparr> else b1);
               entry = new_axisWriteBufferEntry beat oPort vc dbg;
               bsize = trunc16 (wb_bufferSize b2 + numTotalBytes entry);
               tls = (if tlast beat then tlastPositions b2 @ [int bsize] else tlastPositions b2)
           in Inr (b2\<lparr> wb_entries := wb_entries b2 @ [entry], wb_bufferSize := bsize,
                       tlastPositions := tls, nextDequeuePos := next_dequeue_pos tls bsize \<rparr>))"

text \<open>
  The callback may change the buffer and the state \<open>'s\<close> of its owner. \<open>None\<close> stands for a
  callback that was never set.
\<close>

type_synonym 's axis_handler = "'s \<times> axisWriteBuffer \<Rightarrow> ('s \<times> axisWriteBuffer) result"

definition checkDequeueReady ::
  "'s axis_handler option \<Rightarrow> 's \<times> axisWriteBuffer \<Rightarrow> (bool \<times> 's \<times> axisWriteBuffer) result" where
  "checkDequeueReady h sb =
     (if nextDequeuePos (snd sb) \<noteq> - 1
      then (case h of
              Some headReadyHandler \<Rightarrow> rbind (headReadyHandler sb) (\<lambda>sb'. Inr (True, sb'))
            | None \<Rightarrow> Inl (Panic ''no headReadyHandler setup in WriteBuffer''))
      else Inr (False, sb))"

definition axis_add ::
  "'s axis_handler option \<Rightarrow> axisData \<Rightarrow> port option \<Rightarrow> int \<Rightarrow> int \<Rightarrow>
    's \<times> axisWriteBuffer \<Rightarrow> ('s \<times> axisWriteBuffer) result" where
  "axis_add h beat oPort vc dbg sb =
     rbind (axis_append beat oPort vc dbg (snd sb)) (\<lambda>b.
     rbind (checkDequeueReady h (fst sb, b)) (\<lambda>(_, sb'). Inr sb'))"

section \<open>Taking a packet\<close>

text \<open>The loop that splits a keep mask after its first \<open>n\<close> set bits.\<close>

definition split_step :: "u64 \<Rightarrow> int \<Rightarrow> nat \<Rightarrow> int \<times> u64 \<times> u64 \<Rightarrow> int \<times> u64 \<times> u64" where
  "split_step x n c st =
     (case st of (count, lower, higher) \<Rightarrow>
        if bit x c
        then (let count' = count + 1 in
              if count' \<le> n
              then (count', lower OR push_bit c 1, higher AND NOT (push_bit c 1))
              else (count', lower, higher))
        else st)"

definition split_tkeep :: "u64 \<Rightarrow> int \<Rightarrow> u64 \<times> u64" where
  "split_tkeep x n = snd (fold (split_step x n) [0..<64] (0, 0, x))"

type_synonym out_params = "(int \<times> port option \<times> int) option"

function pack_loop ::
  "int \<Rightarrow> int \<Rightarrow> out_params \<Rightarrow> axisPayload \<Rightarrow> axisWriteBufferEntry list \<Rightarrow> nat \<Rightarrow>
    out_params \<times> axisPayload \<times> axisWriteBufferEntry list \<times> nat" where
  "pack_loop target packed outp ret [] bsize = (outp, ret, [], bsize)"
| "pack_loop target packed outp ret (entry # es) bsize =
     (if packed < target
      then
        let outp' = (case outp of None \<Rightarrow> Some (we_vc entry, we_oPort entry, we_debugId entry)
                     | Some x \<Rightarrow> Some x);
            spaceRemaining = target - packed;
            bytesRemaining = int (numBytesRemaining entry)
        in if bytesRemaining \<le> spaceRemaining
           then pack_loop target (packed + bytesRemaining) outp'
                  (axisPayload_add ret (we_nppData entry) (we_debugId entry)) es
                  (sub16 bsize (numBytesRemaining entry))
           else
             let (tkeepLower, tkeepHigher) = split_tkeep (tkeep (we_nppData entry)) spaceRemaining;
                 partial = (we_nppData entry)\<lparr> tkeep := tkeepLower, tlast := False \<rparr>;
                 entry' = entry\<lparr> we_nppData := (we_nppData entry)\<lparr> tkeep := tkeepHigher \<rparr>,
                   numBytesRemaining := sub16 (numBytesRemaining entry) (nat spaceRemaining) \<rparr>
             in pack_loop target (packed + spaceRemaining) outp'
                  (axisPayload_add ret partial (we_debugId entry)) (entry' # es)
                  (sub16 bsize (nat spaceRemaining))
      else (outp, ret, entry # es, bsize))"
  by pat_completeness auto
termination
  by (relation "measures [\<lambda>(target, packed, outp, ret, es, bsize). length es,
                          \<lambda>(target, packed, outp, ret, es, bsize). nat (target - packed)]") auto

definition popNextPacket :: "axisWriteBuffer \<Rightarrow> axisPayload \<times> out_params \<times> axisWriteBuffer" where
  "popNextPacket b =
     (let pos = nextDequeuePos b;
          endsAtTlast = (tlastPositions b \<noteq> [] \<and> pos = hd (tlastPositions b));
          tls = (if endsAtTlast then tl (tlastPositions b) else tlastPositions b);
          tls' = map (\<lambda>x. x - pos) tls;
          (outp, ret, es, bsize) = pack_loop pos 0 None empty_axisPayload (wb_entries b) (wb_bufferSize b);
          ret' = (if endsAtTlast then ret\<lparr> pl_last := 1 \<rparr> else ret)
      in (ret', outp, b\<lparr> wb_entries := es, wb_bufferSize := bsize, tlastPositions := tls',
            nextDequeuePos := next_dequeue_pos tls' bsize \<rparr>))"

section \<open>Splitting a keep mask\<close>

definition ones_upto :: "u64 \<Rightarrow> nat \<Rightarrow> nat" where
  "ones_upto x i = length (filter (bit x) [0..<i])"

lemma fold_split_step:
  "m \<le> 64 \<Longrightarrow> fold (split_step x n) [0..<m] (0, 0, x) = (c, lo, hi) \<Longrightarrow>
    c = int (ones_upto x m) \<and>
    (\<forall>i. bit lo i \<longleftrightarrow> i < m \<and> bit x i \<and> int (ones_upto x (Suc i)) \<le> n) \<and>
    (\<forall>i. bit hi i \<longleftrightarrow> bit x i \<and> \<not> (i < m \<and> int (ones_upto x (Suc i)) \<le> n))"
proof (induction m arbitrary: c lo hi)
  case 0
  then show ?case by (simp add: ones_upto_def)
next
  case (Suc m)
  obtain c1 lo1 hi1 where st: "fold (split_step x n) [0..<m] (0, 0, x) = (c1, lo1, hi1)"
    by (metis surj_pair)
  have now: "split_step x n m (c1, lo1, hi1) = (c, lo, hi)" using Suc.prems(2) st by simp
  from Suc.IH [OF _ st] Suc.prems(1) have IH: "c1 = int (ones_upto x m)"
    "\<And>i. bit lo1 i \<longleftrightarrow> i < m \<and> bit x i \<and> int (ones_upto x (Suc i)) \<le> n"
    "\<And>i. bit hi1 i \<longleftrightarrow> bit x i \<and> \<not> (i < m \<and> int (ones_upto x (Suc i)) \<le> n)" by auto
  have ones: "int (ones_upto x (Suc m)) = c1 + (if bit x m then 1 else 0)"
    by (simp add: ones_upto_def IH(1))
  let ?P = "bit x m \<and> int (ones_upto x (Suc m)) \<le> n"
  have out: "c = int (ones_upto x (Suc m))" "lo = (if ?P then lo1 OR 2 ^ m else lo1)"
    "hi = (if ?P then hi1 AND NOT (2 ^ m) else hi1)"
    using now ones by (auto simp: split_step_def Let_def split: if_splits)
  have "m < 64" using Suc.prems(1) by simp
  then show ?case unfolding out
    by (auto simp: IH(2,3) bit_or_iff bit_and_iff bit_not_iff bit_exp_iff less_Suc_eq
        dest: bit_u64_bound)
qed

lemma split_tkeep_bits:
  assumes "split_tkeep x n = (lo, hi)" and "i < 64"
  shows "bit lo i \<longleftrightarrow> bit x i \<and> int (ones_upto x (Suc i)) \<le> n"
    and "bit hi i \<longleftrightarrow> bit x i \<and> \<not> int (ones_upto x (Suc i)) \<le> n"
proof -
  obtain c where "fold (split_step x n) [0..<64] (0, 0, x) = (c, lo, hi)"
    using assms(1) by (cases "fold (split_step x n) [0..<64] (0, 0, x)") (auto simp: split_tkeep_def)
  from fold_split_step [OF order_refl this] assms(2)
  show "bit lo i \<longleftrightarrow> bit x i \<and> int (ones_upto x (Suc i)) \<le> n"
    and "bit hi i \<longleftrightarrow> bit x i \<and> \<not> int (ones_upto x (Suc i)) \<le> n" by auto
qed

lemma filter_first_ones:
  "filter (\<lambda>i. bit x i \<and> ones_upto x (Suc i) \<le> n) [0..<m] = take n (filter (bit x) [0..<m])"
  "filter (\<lambda>i. bit x i \<and> \<not> ones_upto x (Suc i) \<le> n) [0..<m] = drop n (filter (bit x) [0..<m])"
  by (induction m) (auto simp: ones_upto_def)

text \<open>The two masks keep the first \<open>n\<close> valid bytes, and the others.\<close>

lemma kept_split:
  assumes "split_tkeep x (int n) = (lo, hi)" and "length bs \<le> 64"
  shows "kept lo bs = take n (kept x bs)" and "kept hi bs = drop n (kept x bs)"
proof -
  have "filter (bit lo) [0..<length bs] =
      filter (\<lambda>i. bit x i \<and> ones_upto x (Suc i) \<le> n) [0..<length bs]"
    using assms by (intro filter_cong) (auto simp: split_tkeep_bits)
  then show "kept lo bs = take n (kept x bs)"
    by (simp add: kept_def filter_first_ones take_map)
  have "filter (bit hi) [0..<length bs] =
      filter (\<lambda>i. bit x i \<and> \<not> ones_upto x (Suc i) \<le> n) [0..<length bs]"
    using assms by (intro filter_cong) (auto simp: split_tkeep_bits)
  then show "kept hi bs = drop n (kept x bs)"
    by (simp add: kept_def filter_first_ones drop_map)
qed

section \<open>The stream a buffer holds\<close>

text \<open>Bytes with an end-of-packet flag on the last one.\<close>

definition mark :: "'a list \<Rightarrow> bool \<Rightarrow> ('a \<times> bool) list" where
  "mark bs l = zip bs (replicate (length bs - 1) False @ [l])"

lemma mark_Nil [simp]: "mark [] l = []"
  by (simp add: mark_def)

lemma length_mark [simp]: "length (mark bs l) = length bs"
  by (simp add: mark_def)

lemma map_fst_mark [simp]: "map fst (mark bs l) = bs"
  by (rule nth_equalityI) (simp_all add: mark_def)

lemma mark_eq_Nil [simp]: "mark bs l = [] \<longleftrightarrow> bs = []"
  using length_mark [of bs l] by (auto simp del: length_mark)

lemma snd_mark: "i < length bs \<Longrightarrow> snd (mark bs l ! i) \<longleftrightarrow> l \<and> Suc i = length bs"
  by (auto simp: mark_def nth_append)

lemma fst_mark: "i < length bs \<Longrightarrow> fst (mark bs l ! i) = bs ! i"
  by (simp add: mark_def)

lemma mark_append: "b \<noteq> [] \<Longrightarrow> mark (a @ b) l = mark a False @ mark b l"
proof (rule nth_equalityI)
  fix i
  assume b: "b \<noteq> []" and i: "i < length (mark (a @ b) l)"
  show "mark (a @ b) l ! i = (mark a False @ mark b l) ! i"
  proof (rule prod_eqI)
    show "fst (mark (a @ b) l ! i) = fst ((mark a False @ mark b l) ! i)"
      using i by (simp add: fst_mark nth_append)
    show "snd (mark (a @ b) l ! i) = snd ((mark a False @ mark b l) ! i)"
      using i b by (cases b) (auto simp: snd_mark nth_append)
  qed
qed simp

lemma mark_split:
  assumes "n < length bs"
  shows "take n (mark bs l) = mark (take n bs) False" and "drop n (mark bs l) = mark (drop n bs) l"
proof -
  from assms have "mark bs l = mark (take n bs) False @ mark (drop n bs) l"
    using mark_append [of "drop n bs" "take n bs" l] by simp
  then show "take n (mark bs l) = mark (take n bs) False" and "drop n (mark bs l) = mark (drop n bs) l"
    using assms by simp_all
qed

text \<open>The positions just behind the flagged bytes.\<close>

definition ends :: "('a \<times> bool) list \<Rightarrow> int list" where
  "ends s = map (\<lambda>i. int (Suc i)) (filter (\<lambda>i. snd (s ! i)) [0..<length s])"

lemma ends_Nil [simp]: "ends [] = []"
  by (simp add: ends_def)

lemma ends_mark: "bs \<noteq> [] \<Longrightarrow> ends (mark bs l) = (if l then [int (length bs)] else [])"
proof -
  assume bs: "bs \<noteq> []"
  have "filter (\<lambda>i. snd (mark bs l ! i)) [0..<length bs] =
      filter (\<lambda>i. l \<and> Suc i = length bs) [0..<length bs]"
    by (rule filter_cong) (simp_all add: snd_mark)
  also have "\<dots> = (if l then [length bs - 1] else [])"
    using bs by (cases "length bs") (auto simp: filter_empty_conv)
  finally show ?thesis using bs by (cases "length bs") (simp_all add: ends_def)
qed

lemma ends_append: "ends (s @ t) = ends s @ map (\<lambda>x. x + int (length s)) (ends t)"
proof -
  have up: "[0..<length s + length t] = [0..<length s] @ map (\<lambda>i. i + length s) [0..<length t]"
    using upt_add_eq_append [of 0 "length s" "length t"] map_add_upt [of "length s" "length t"]
    by (simp add: add.commute)
  have "filter (\<lambda>i. snd ((s @ t) ! i)) [0..<length s] = filter (\<lambda>i. snd (s ! i)) [0..<length s]"
    by (rule filter_cong) (simp_all add: nth_append)
  then show ?thesis
    by (simp add: ends_def up filter_map o_def nth_append algebra_simps)
qed

lemma ends_bounds: "x \<in> set (ends s) \<Longrightarrow> 1 \<le> x \<and> x \<le> int (length s)"
  by (auto simp: ends_def)

lemma ends_hd_take:
  assumes "ends s \<noteq> [] \<Longrightarrow> int n \<le> hd (ends s)" and "n \<le> length s" and "0 < n"
  shows "take n s = mark (map fst (take n s)) (ends s \<noteq> [] \<and> int n = hd (ends s))"
proof (rule nth_equalityI)
  let ?l = "ends s \<noteq> [] \<and> int n = hd (ends s)"
  have min: "hd (ends s) \<le> int (Suc i) \<and> ends s \<noteq> []" if "i < length s" "snd (s ! i)" for i
  proof -
    let ?f = "filter (\<lambda>i. snd (s ! i)) [0..<length s]"
    have "i \<in> set ?f" using that by simp
    moreover have "sorted ?f" by (rule sorted_wrt_filter) simp
    ultimately have "?f \<noteq> []" "hd ?f \<le> i" by (cases ?f; auto)+
    then show ?thesis by (simp add: ends_def hd_map)
  qed
  have at: "snd (s ! (n - 1))" if ?l
  proof -
    let ?f = "filter (\<lambda>i. snd (s ! i)) [0..<length s]"
    from that have "?f \<noteq> []" "int n = int (Suc (hd ?f))" by (auto simp: ends_def hd_map)
    then have "hd ?f \<in> set ?f" "n - 1 = hd ?f" by (simp_all del: set_filter)
    then show ?thesis by simp
  qed
  fix i
  assume i: "i < length (take n s)"
  then have "snd (s ! i) \<longleftrightarrow> ?l \<and> Suc i = n"
    using min [of i] assms at by (cases "Suc i = n") auto
  with i show "take n s ! i = mark (map fst (take n s)) ?l ! i"
    using assms(2) by (intro prod_eqI) (auto simp: fst_mark snd_mark)
qed simp

section \<open>The invariant of the buffer\<close>

definition entry_stream :: "axisWriteBufferEntry \<Rightarrow> (byte \<times> bool) list" where
  "entry_stream e = mark (kept_bytes (we_nppData e)) (tlast (we_nppData e))"

definition entries_stream :: "axisWriteBufferEntry list \<Rightarrow> (byte \<times> bool) list" where
  "entries_stream es = concat (map entry_stream es)"

definition stream :: "axisWriteBuffer \<Rightarrow> (byte \<times> bool) list" where
  "stream b = entries_stream (wb_entries b)"

lemma entries_stream_simps [simp]:
  "entries_stream [] = []"
  "entries_stream (e # es) = entry_stream e @ entries_stream es"
  "entries_stream (es @ fs) = entries_stream es @ entries_stream fs"
  by (simp_all add: entries_stream_def)

definition entry_wf :: "axisWriteBufferEntry \<Rightarrow> bool" where
  [noc_wf]: "entry_wf e \<longleftrightarrow> axis_wf (we_nppData e) \<and> kept_bytes (we_nppData e) \<noteq> [] \<and>
     numBytesRemaining e = length (kept_bytes (we_nppData e))"

definition axis_buffer_wf :: "axisWriteBuffer \<Rightarrow> bool" where
  "axis_buffer_wf b \<longleftrightarrow> list_all entry_wf (wb_entries b) \<and> length (stream b) < 65536 \<and>
     wb_bufferSize b = length (stream b) \<and> tlastPositions b = ends (stream b) \<and>
     nextDequeuePos b = next_dequeue_pos (ends (stream b)) (length (stream b))"

lemma length_entry_stream [simp]: "length (entry_stream e) = length (kept_bytes (we_nppData e))"
  by (simp add: entry_stream_def)

text \<open>A partially sent beat: the sent bytes, and the entry that stays.\<close>

lemma entry_split:
  assumes "entry_wf e" and "0 < n" and "n < numBytesRemaining e"
    and "split_tkeep (tkeep (we_nppData e)) (int n) = (lo, hi)"
  defines "partial \<equiv> (we_nppData e)\<lparr> tkeep := lo, tlast := False \<rparr>"
    and "e' \<equiv> e\<lparr> we_nppData := (we_nppData e)\<lparr> tkeep := hi \<rparr>,
                numBytesRemaining := sub16 (numBytesRemaining e) n \<rparr>"
  shows "axis_wf partial" and "kept_bytes partial = map fst (take n (entry_stream e))"
    and "entry_wf e'" and "entry_stream e' = drop n (entry_stream e)"
proof -
  let ?d = "we_nppData e"
  have len: "length (tdata ?d) \<le> 64" "numBytesRemaining e = length (kept_bytes ?d)"
    using assms(1) by (auto simp: noc_wf)
  have lo: "kept_bytes partial = take n (kept_bytes ?d)"
    using kept_split(1) [OF assms(4) len(1)] by (simp add: kept_bytes_def partial_def)
  have hi: "kept_bytes (?d\<lparr> tkeep := hi \<rparr>) = drop n (kept_bytes ?d)"
    using kept_split(2) [OF assms(4) len(1)] by (simp add: kept_bytes_def)
  show "axis_wf partial" using assms(1) by (simp add: noc_wf partial_def)
  show "kept_bytes partial = map fst (take n (entry_stream e))"
    by (simp add: lo entry_stream_def flip: take_map)
  have "numBytesRemaining e \<le> 64" using kept_bytes_le_64 [of ?d] assms(1) by (simp add: noc_wf)
  then show "entry_wf e'" using assms(1,3) hi by (simp add: noc_wf e'_def)
  show "entry_stream e' = drop n (entry_stream e)"
    using assms(3) len hi by (simp add: entry_stream_def e'_def mark_split)
qed

lemma pack_loop_stream:
  assumes "pack_loop target packed outp ret es bsize = (outp', ret', es', bsize')"
    and "list_all entry_wf es" and "payload_wf ret" and "bsize = length (entries_stream es)"
    and "packed \<le> target" and "target - packed \<le> int (length (entries_stream es))" and "bsize < 65536"
  defines "n \<equiv> nat (target - packed)"
  shows "list_all entry_wf es' \<and> payload_wf ret' \<and> pl_last ret' = pl_last ret \<and>
    payload_bytes ret' = payload_bytes ret @ map fst (take n (entries_stream es)) \<and>
    entries_stream es' = drop n (entries_stream es) \<and> bsize' = bsize - n"
  using assms(1-7) unfolding n_def
proof (induction target packed outp ret es bsize rule: pack_loop.induct)
  case (1 target packed outp ret bsize)
  then show ?case by simp
next
  case (2 target packed outp ret e es bsize)
  let ?r = "int (numBytesRemaining e)"
  let ?outp = "case outp of None \<Rightarrow> Some (we_vc e, we_oPort e, we_debugId e) | Some x \<Rightarrow> Some x"
  have e: "entry_wf e" "list_all entry_wf es" using "2.prems" by simp_all
  then have len: "length (entry_stream e) = numBytesRemaining e" "numBytesRemaining e \<le> 64"
    using kept_bytes_le_64 [of "we_nppData e"] by (simp_all add: noc_wf)
  consider (stop) "packed = target" | (whole) "packed < target" "?r \<le> target - packed"
    | (part) "packed < target" "target - packed < ?r"
    using "2.prems"(5) by linarith
  then show ?case
  proof cases
    case stop
    with "2.prems" show ?thesis by auto
  next
    case whole
    let ?m = "nat (target - packed)"
    have run: "pack_loop target (packed + ?r) ?outp
        (axisPayload_add ret (we_nppData e) (we_debugId e)) es (sub16 bsize (numBytesRemaining e)) =
        (outp', ret', es', bsize')"
      using "2.prems"(1) whole by (simp add: Let_def)
    have size: "sub16 bsize (numBytesRemaining e) = length (entries_stream es)"
      using "2.prems" len by simp
    have fst: "map fst (entry_stream e) = kept_bytes (we_nppData e)" by (simp add: entry_stream_def)
    have m: "?m = numBytesRemaining e + nat (target - (packed + ?r))" using whole by linarith
    have pw: "payload_wf (axisPayload_add ret (we_nppData e) (we_debugId e))"
      using e(1) "2.prems"(3) by (simp add: payload_wf_add entry_wf_def)
    have bounds: "packed + ?r \<le> target" "target - (packed + ?r) \<le> int (length (entries_stream es))"
      "sub16 bsize (numBytesRemaining e) < 65536"
      using "2.prems"(4,6,7) len whole size by simp_all
    note ih = "2.IH"(1) [OF whole(1) refl refl refl whole(2) run e(2) pw size bounds]
    show ?thesis
      using ih [unfolded size] "2.prems"(4) len fst by (simp add: m)
  next
    case part
    let ?n = "target - packed"
    obtain lo hi where sp: "split_tkeep (tkeep (we_nppData e)) ?n = (lo, hi)" by (metis surj_pair)
    have n: "0 < nat ?n" "nat ?n < numBytesRemaining e" "int (nat ?n) = ?n" using part by linarith+
    have "split_tkeep (tkeep (we_nppData e)) (int (nat ?n)) = (lo, hi)" unfolding n(3) by (rule sp)
    note s = entry_split [OF e(1) n(1,2) this]
    have "outp' = ?outp" "bsize' = sub16 bsize (nat ?n)"
      "ret' = axisPayload_add ret ((we_nppData e)\<lparr> tkeep := lo, tlast := False \<rparr>) (we_debugId e)"
      "es' = e\<lparr> we_nppData := (we_nppData e)\<lparr> tkeep := hi \<rparr>,
        numBytesRemaining := sub16 (numBytesRemaining e) (nat ?n) \<rparr> # es"
      using "2.prems"(1) part sp by (simp_all add: Let_def)
    then show ?thesis
      using "2.prems"(3,4,7) e(2) s len(1) n(2) by (simp add: payload_wf_add)
  qed
qed

section \<open>Popping a packet\<close>

lemma next_dequeue_pos_cases:
  assumes "length s < 65536"
  obtains (none) "next_dequeue_pos (ends s) (length s) = - 1" "ends s = []" "length s < NPP_SIZE"
  | (pos) n where "next_dequeue_pos (ends s) (length s) = int n" "0 < n" "n \<le> NPP_SIZE"
      "n \<le> length s" "ends s \<noteq> [] \<Longrightarrow> int n \<le> hd (ends s)"
proof -
  have hd: "1 \<le> hd (ends s) \<and> hd (ends s) \<le> int (length s)" if "ends s \<noteq> []"
    using that by (intro ends_bounds) simp
  then have sz: "size_t_of_int (hd (ends s)) = nat (hd (ends s))" if "ends s \<noteq> []"
    using that assms by simp
  consider "ends s = []" "length s < NPP_SIZE" | "ends s = []" "NPP_SIZE \<le> length s"
    | "ends s \<noteq> []" "nat (hd (ends s)) \<le> NPP_SIZE" | "ends s \<noteq> []" "NPP_SIZE < nat (hd (ends s))"
    by linarith
  then show thesis
  proof cases
    case 1
    then show thesis by (intro none) (simp_all add: next_dequeue_pos_def)
  next
    case 2
    then show thesis by (intro pos [of NPP_SIZE]) (simp_all add: next_dequeue_pos_def NPP_SIZE_def NPP_MAX_SIZE_def)
  next
    case 3
    then show thesis using hd sz
      by (intro pos [of "nat (hd (ends s))"]) (auto simp: next_dequeue_pos_def)
  next
    case 4
    then show thesis using hd sz
      by (intro pos [of NPP_SIZE]) (auto simp: next_dequeue_pos_def NPP_SIZE_def NPP_MAX_SIZE_def)
  qed
qed

lemma ends_drop:
  assumes "ends s \<noteq> [] \<Longrightarrow> int n \<le> hd (ends s)" and "n \<le> length s" and "0 < n"
  shows "ends (drop n s) = map (\<lambda>x. x - int n)
    (if ends s \<noteq> [] \<and> int n = hd (ends s) then tl (ends s) else ends s)"
proof -
  let ?l = "ends s \<noteq> [] \<and> int n = hd (ends s)"
  have "map fst (take n s) \<noteq> []" using assms(2,3) by (cases s) auto
  then have "ends (take n s) = (if ?l then [int n] else [])"
    using ends_mark [of "map fst (take n s)" ?l] ends_hd_take [OF assms] assms(2)
    by (metis (no_types, lifting) length_map length_take min.absorb2)
  moreover have "ends s = ends (take n s) @ map (\<lambda>x. x + int n) (ends (drop n s))"
    using ends_append [of "take n s" "drop n s"] assms(2) by simp
  ultimately show ?thesis by (auto simp: o_def)
qed

lemma popNextPacket_stream:
  assumes wf: "axis_buffer_wf b" and pos: "nextDequeuePos b \<noteq> - 1"
    and pop: "popNextPacket b = (p, outp, b')"
  shows "axis_buffer_wf b' \<and> payload_wf p \<and> stream b = mark (payload_bytes p) (pl_last p = 1) @ stream b' \<and>
    payload_bytes p \<noteq> [] \<and> length (payload_bytes p) \<le> NPP_MAX_SIZE"
proof -
  let ?s = "stream b"
  have b: "list_all entry_wf (wb_entries b)" "length ?s < 65536" "wb_bufferSize b = length ?s"
    "tlastPositions b = ends ?s" "nextDequeuePos b = next_dequeue_pos (ends ?s) (length ?s)"
    using wf by (simp_all add: axis_buffer_wf_def)
  from next_dequeue_pos_cases [OF b(2)] pos b(5)
  obtain n where n: "nextDequeuePos b = int n" "0 < n" "n \<le> NPP_SIZE" "n \<le> length ?s"
    "ends ?s \<noteq> [] \<Longrightarrow> int n \<le> hd (ends ?s)"
    by metis
  let ?l = "ends ?s \<noteq> [] \<and> int n = hd (ends ?s)"
  obtain outp' ret es bsize where loop: "pack_loop (int n) 0 None empty_axisPayload
      (wb_entries b) (wb_bufferSize b) = (outp', ret, es, bsize)"
    by (metis prod_cases4)
  have packed: "list_all entry_wf es \<and> payload_wf ret \<and> pl_last ret = 0 \<and>
      payload_bytes ret = map fst (take n ?s) \<and> entries_stream es = drop n ?s \<and>
      bsize = length ?s - n"
    using pack_loop_stream [OF loop b(1) payload_wf_empty] b(2,3) n(4)
    by (simp add: stream_def empty_axisPayload_def [THEN arg_cong [where f = pl_last]])
  have ed: "ends (drop n ?s) = map (\<lambda>x. x - int n) (if ?l then tl (ends ?s) else ends ?s)"
    by (rule ends_drop) (use n in auto)
  have p: "p = (if ?l then ret\<lparr> pl_last := 1 \<rparr> else ret)"
    and b': "b' = b\<lparr> wb_entries := es, wb_bufferSize := bsize, tlastPositions := ends (drop n ?s),
      nextDequeuePos := next_dequeue_pos (ends (drop n ?s)) bsize \<rparr>"
    using pop loop unfolding popNextPacket_def n(1) b(4) ed by (simp_all add: Let_def)
  have bytes: "payload_bytes p = map fst (take n ?s)" "(pl_last p = 1) = ?l" "payload_wf p"
    using packed by (auto simp: p payload_bytes_def payload_wf_def)
  have "stream b' = drop n ?s" using packed by (simp add: b' stream_def)
  moreover have "take n ?s = mark (payload_bytes p) (pl_last p = 1)"
    unfolding bytes(1,2) by (rule ends_hd_take) (use n in auto)
  ultimately have "?s = mark (payload_bytes p) (pl_last p = 1) @ stream b'"
    by (metis append_take_drop_id)
  moreover have "axis_buffer_wf b'"
    using packed b(2) \<open>stream b' = drop n ?s\<close> by (simp add: axis_buffer_wf_def b')
  moreover have "length (payload_bytes p) = n" using bytes(1) n(4) by simp
  ultimately show ?thesis using bytes(3) n(2,3) by (auto simp: NPP_SIZE_def)
qed

section \<open>Adding a beat\<close>

definition beat_stream :: "axisData \<Rightarrow> (byte \<times> bool) list" where
  "beat_stream d = mark (kept_bytes d) (tlast d)"

text \<open>A beat that may be added: it keeps the open packet's identity and carries a byte.\<close>

definition beat_accepted :: "axisWriteBuffer \<Rightarrow> axisData \<Rightarrow> bool" where
  "beat_accepted b d \<longleftrightarrow>
     (transmitting b \<longrightarrow> of_int (currTid b) = tid d \<and> of_int (currTdest b) = tdest d)"

lemma axis_append_panic:
  "axis_append d oPort vc dbg b = Inl e \<longleftrightarrow>
    \<not> beat_accepted b d \<and> e = Panic ''AXIS Write Buffer: tid or tdest changed before tlast''"
  by (auto simp: axis_append_def beat_accepted_def Let_def)

lemma axis_append_stream:
  assumes wf: "axis_buffer_wf b" and d: "axis_wf d" "kept_bytes d \<noteq> []"
    and fits: "length (stream b) + length (kept_bytes d) < 65536"
    and add: "axis_append d oPort vc dbg b = Inr b'"
  shows "axis_buffer_wf b' \<and> stream b' = stream b @ beat_stream d \<and> (transmitting b' \<longleftrightarrow> \<not> tlast d)"
proof -
  let ?e = "new_axisWriteBufferEntry d oPort vc dbg"
  have e: "entry_wf ?e" "entry_stream ?e = beat_stream d" "numTotalBytes ?e = length (kept_bytes d)"
    using d kept_bytes_le_64 [OF d(1)]
    by (simp_all add: entry_wf_def new_axisWriteBufferEntry_def getTotalByteSize_kept
        entry_stream_def beat_stream_def)
  have b: "list_all entry_wf (wb_entries b)" "wb_bufferSize b = length (stream b)"
    "tlastPositions b = ends (stream b)"
    using wf by (simp_all add: axis_buffer_wf_def)
  have ends: "ends (stream b @ beat_stream d) = (if tlast d
      then ends (stream b) @ [int (length (stream b) + length (kept_bytes d))] else ends (stream b))"
    using d(2) by (simp add: ends_append beat_stream_def ends_mark)
  have "wb_entries b' = wb_entries b @ [?e]" "transmitting b' = (\<not> tlast d)"
    "wb_bufferSize b' = length (stream b) + length (kept_bytes d)"
    "tlastPositions b' = ends (stream b @ beat_stream d)"
    "nextDequeuePos b' = next_dequeue_pos (tlastPositions b') (wb_bufferSize b')"
    using add fits e(3) b(2,3) unfolding ends
    by (auto simp: axis_append_def Let_def split: if_splits)
  moreover from this(1) e(2) have "stream b' = stream b @ beat_stream d"
    by (simp add: stream_def)
  ultimately show ?thesis using b(1) e(1) fits
    by (simp add: axis_buffer_wf_def beat_stream_def)
qed

section \<open>Properties\<close>

text \<open>A beat of \<open>n\<close> bytes, all of them valid.\<close>

definition full_beat :: "nat \<Rightarrow> bool \<Rightarrow> axisData" where
  "full_beat n l = axisData_of (map of_nat [1..<n + 1]) (8 * n) 6 4 3 2 l True"

lemma full_beat_facts [simp]:
  "n \<le> 64 \<Longrightarrow> axis_wf (full_beat n l)"
  "n \<le> 64 \<Longrightarrow> kept_bytes (full_beat n l) = map of_nat [1..<n + 1]"
  "tid (full_beat n l) = 3" "tdest (full_beat n l) = 2" "tlast (full_beat n l) = l"
  "DATA_WIDTH (full_beat n l) = 8 * n"
  by (simp_all add: full_beat_def axisData_of_def new_axisData_def axis_wf_def kept_bytes_def kept_all)

text \<open>C15: Taking a packet from the stream buffer removes a prefix of the buffered byte stream:
  the packet carries between 1 and 64 bytes, in order, none of them behind an end of packet,
  and its \<open>last\<close> mark is the end-of-packet flag of its final byte. The rest of the stream and
  the buffer's bookkeeping stay consistent.\<close>

theorem pop_packet_is_stream_prefix:
  assumes "axis_buffer_wf b" and "nextDequeuePos b \<noteq> - 1" and "popNextPacket b = (p, outp, b')"
  shows "stream b = mark (payload_bytes p) (pl_last p = 1) @ stream b' \<and>
    1 \<le> length (payload_bytes p) \<and> length (payload_bytes p) \<le> NPP_MAX_SIZE \<and>
    payload_wf p \<and> axis_buffer_wf b'"
  using popNextPacket_stream [OF assms] by (cases "payload_bytes p") auto

text \<open>A buffer that has just received a beat of 20 bytes with \<open>TLAST\<close>.\<close>

definition sample_buffer :: axisWriteBuffer where
  "sample_buffer = \<lparr> wb_entries = [new_axisWriteBufferEntry (full_beat 20 True) None 0 (- 1)], maxBeatSize = 512,
     wb_bufferSize = 20, currTid = 3, currTdest = 2, transmitting = False, tlastPositions = [20],
     nextDequeuePos = 20 \<rparr>"

lemma sample_buffer_wf: "axis_buffer_wf sample_buffer" "nextDequeuePos sample_buffer = 20"
  by (simp_all add: sample_buffer_def axis_buffer_wf_def stream_def entry_stream_def entry_wf_def
      new_axisWriteBufferEntry_def getTotalByteSize_kept ends_mark next_dequeue_pos_def NPP_SIZE_def NPP_MAX_SIZE_def)

theorem pop_packet_is_stream_prefix_witness:
  "stream sample_buffer = mark (payload_bytes (fst (popNextPacket sample_buffer)))
      (pl_last (fst (popNextPacket sample_buffer)) = 1) @ stream (snd (snd (popNextPacket sample_buffer)))"
  using pop_packet_is_stream_prefix [OF sample_buffer_wf(1), of "fst (popNextPacket sample_buffer)"
      "fst (snd (popNextPacket sample_buffer))" "snd (snd (popNextPacket sample_buffer))"] sample_buffer_wf(2)
  by simp

text \<open>The buffer offers a packet exactly when it holds 64 bytes or a complete AXI packet, so
  nothing that can be sent is held back.\<close>

lemma packet_ready_iff:
  assumes "axis_buffer_wf b"
  shows "nextDequeuePos b \<noteq> - 1 \<longleftrightarrow> NPP_MAX_SIZE \<le> length (stream b) \<or> (\<exists>x \<in> set (stream b). snd x)"
proof -
  let ?s = "stream b"
  have b: "length ?s < 65536" "nextDequeuePos b = next_dequeue_pos (ends ?s) (length ?s)"
    using assms by (simp_all add: axis_buffer_wf_def)
  have "ends ?s \<noteq> [] \<longleftrightarrow> (\<exists>x \<in> set ?s. snd x)"
    unfolding Bex_set list_ex_length by (auto simp: ends_def filter_empty_conv)
  then show ?thesis
    using b by (cases rule: next_dequeue_pos_cases [OF b(1)])
      (auto simp: NPP_SIZE_def next_dequeue_pos_def split: if_splits)
qed

lemma packet_ready_iff_witness:
  "nextDequeuePos sample_buffer \<noteq> - 1 \<and>
    (NPP_MAX_SIZE \<le> length (stream sample_buffer) \<or> (\<exists>x \<in> set (stream sample_buffer). snd x))"
  using packet_ready_iff [OF sample_buffer_wf(1)] sample_buffer_wf(2) by simp

end
