(* ===== verification/Axis_Depacketizer.thy ===== *)
theory Axis_Depacketizer
  imports Stream_Message Axis_Write_Buffer
begin

text \<open>
  Rebuilding stream beats at the destination
  (\<open>src/noc/core/network/nsu_types/AxisDepacketizer.cc\<close>): every flit of a packet is turned into
  zero or more beats of the endpoint's width. Narrow endpoints split a flit, wide endpoints
  aggregate flits in a 64-byte array that belongs to the packet.

  When the width divides, or is a multiple of, the sixteen bytes of a flit, the beats of all
  flits of a packet carry exactly the packet's valid bytes with its \<open>last\<close> mark on the final
  one. For other narrow widths the bytes behind the last whole sub-beat of a flit are lost.
\<close>

section \<open>Sideband signals and correlation ids\<close>

fun debug_ids_loop ::
  "int \<Rightarrow> int \<Rightarrow> int \<Rightarrow> (axisData \<times> int) list \<Rightarrow> int list \<Rightarrow> int list" where
  "debug_ids_loop startByte endByte cum [] out = out"
| "debug_ids_loop startByte endByte cum ((beat, dbg) # rest) out =
     (let bsz = int (axis_getTotalByteSize beat) in
      if bsz \<le> 0 then debug_ids_loop startByte endByte cum rest out
      else
        let beatStart = cum; beatEnd = cum + bsz;
            overlaps = (startByte < beatEnd \<and> endByte > beatStart);
            out' = (if overlaps \<and> dbg \<notin> set out then out @ [dbg] else out);
            cum' = cum + bsz
        in if cum' \<ge> endByte then out' else debug_ids_loop startByte endByte cum' rest out')"

definition debugIdsForNppByteRange :: "axisPayload \<Rightarrow> int \<Rightarrow> int \<Rightarrow> int \<Rightarrow> int list" where
  "debugIdsForNppByteRange ap startByte nbytes fallback =
     (let default_ids = (if fallback \<ge> 0 then [fallback] else []) in
      if nbytes \<le> 0 then default_ids
      else if length (beats ap) \<noteq> length (debugIds ap) \<or> beats ap = [] then default_ids
      else let out = debug_ids_loop startByte (startByte + nbytes) 0 (zip (beats ap) (debugIds ap)) []
           in if out = [] \<and> fallback \<ge> 0 then [fallback] else out)"

definition tkeepForValidBytes :: "int \<Rightarrow> u64" where
  "tkeepForValidBytes validBytes =
     (if validBytes \<ge> 64 then - 1 else if validBytes \<le> 0 then 0
      else push_bit (nat validBytes) 1 - 1)"

fun source_beat_loop :: "int \<Rightarrow> int \<Rightarrow> int \<Rightarrow> axisData list \<Rightarrow> axisData option" where
  "source_beat_loop startByte endByte cum [] = None"
| "source_beat_loop startByte endByte cum (sourceBeat # rest) =
     (let bsz = int (axis_getTotalByteSize sourceBeat) in
      if bsz \<le> 0 then source_beat_loop startByte endByte cum rest
      else
        let beatStart = cum; beatEnd = cum + bsz in
        if startByte < beatEnd \<and> endByte > beatStart then Some sourceBeat
        else let cum' = cum + bsz in
             if cum' \<ge> endByte then None else source_beat_loop startByte endByte cum' rest)"

definition findSourceBeatForByteRange :: "axisPayload \<Rightarrow> int \<Rightarrow> int \<Rightarrow> axisData option" where
  "findSourceBeatForByteRange source startByte nbytes =
     (if nbytes \<le> 0 then None else source_beat_loop startByte (startByte + nbytes) 0 (beats source))"

definition applySidebandForByteRange :: "axisPayload \<Rightarrow> axisData \<Rightarrow> int \<Rightarrow> int \<Rightarrow> axisData" where
  "applySidebandForByteRange source beat startByte nbytes =
     (case findSourceBeatForByteRange source startByte nbytes of
        None \<Rightarrow> beat
      | Some original \<Rightarrow>
          beat\<lparr> tid := tid original, tdest := tdest original, tuser := tuser original \<rparr>)"

section \<open>One flit\<close>

record AxisDepacketizedFlit =
  dp_payloads :: "axisData list"
  dp_debugIds :: "int list list"

text \<open>
  Appending one rebuilt beat: the data, the \<open>TLAST\<close> mark, the number of valid bytes and the
  range of packet bytes whose sideband signals it takes.
\<close>

definition emit_beat ::
  "axisPayload \<Rightarrow> nat \<Rightarrow> int \<Rightarrow> byte list \<Rightarrow> bool \<Rightarrow> int \<Rightarrow> int \<Rightarrow>
    AxisDepacketizedFlit \<Rightarrow> AxisDepacketizedFlit" where
  "emit_beat payload sDataWidth fallbackDebugId bytes lst startByte nbytes res =
     (let beat = (axisData_of bytes sDataWidth 6 4 0 0 lst True)\<lparr> tkeep := tkeepForValidBytes nbytes \<rparr>
      in res\<lparr> dp_payloads := dp_payloads res @ [applySidebandForByteRange payload beat startByte nbytes],
              dp_debugIds := dp_debugIds res @
                [debugIdsForNppByteRange payload startByte nbytes fallbackDebugId] \<rparr>)"

text \<open>One iteration of the sub-beat loop of endpoints narrower than a flit.\<close>

definition narrow_step ::
  "axisPayload \<Rightarrow> nat \<Rightarrow> int \<Rightarrow> nat \<Rightarrow> int \<Rightarrow> int \<Rightarrow> bool \<Rightarrow> int \<Rightarrow> byte list \<Rightarrow> nat \<Rightarrow>
    AxisDepacketizedFlit \<times> byte list \<Rightarrow> AxisDepacketizedFlit \<times> byte list" where
  "narrow_step payload sDataWidth fb widthBytes bytesBefore flitValid tailLast lastValid flitData i st =
     (let base = int (i * widthBytes);
          remaining = max 0 (flitValid - base);
          ncopy = min (int widthBytes) remaining
      in if ncopy \<le> 0 then st
         else
           let agg1 = copy_at (snd st) 0 (replicate widthBytes 0);
               agg2 = copy_at agg1 0 (take (nat ncopy) (drop (nat base) flitData))
           in (emit_beat payload sDataWidth fb (take widthBytes agg2)
                 (tailLast \<and> int i = lastValid) (bytesBefore + base) ncopy (fst st), agg2))"

definition last_valid_sub_beat :: "int \<Rightarrow> nat \<Rightarrow> nat \<Rightarrow> int" where
  "last_valid_sub_beat flitValid widthBytes beatsPerFlit =
     fold (\<lambda>i l. if max 0 (flitValid - int (i * widthBytes)) > 0 then int i else l)
       [0..<beatsPerFlit] (- 1)"

definition depacketizeAxisPayloadFlit ::
  "axisPayload \<Rightarrow> nat \<Rightarrow> byte list \<Rightarrow> nat \<Rightarrow> nat \<Rightarrow> bool \<Rightarrow> byte list \<Rightarrow> int \<Rightarrow>
    (AxisDepacketizedFlit \<times> byte list) result" where
  "depacketizeAxisPayloadFlit payload sDataWidth aggregateData flitId numFlits streamLast flitData fb =
     (if sDataWidth mod 8 \<noteq> 0 then Inl (Throw ''AXIS NSU data width must be byte aligned'')
      else let widthBytes = sDataWidth div 8 in
      if widthBytes = 0 \<or> widthBytes > 64 then Inl (Throw ''AXIS NSU data width must be 1..64 bytes'')
      else
        let isTailFlit = (numFlits > 0 \<and> int numFlits - 1 = int flitId);
            totalValid = totalBytes payload;
            bytesBefore = int flitId * 16;
            flitValid = min 16 (max 0 (totalValid - bytesBefore));
            result0 = \<lparr> dp_payloads = [], dp_debugIds = [] \<rparr>
        in if widthBytes < 16 then
             let beatsPerFlit = 16 div widthBytes;
                 lastValid = last_valid_sub_beat flitValid widthBytes beatsPerFlit
             in Inr (fold (narrow_step payload sDataWidth fb widthBytes bytesBefore flitValid
                   (isTailFlit \<and> streamLast) lastValid flitData) [0..<beatsPerFlit] (result0, aggregateData))
           else if widthBytes = 16 then
             let agg1 = copy_at aggregateData 0 (replicate widthBytes 0);
                 agg2 = (if flitValid > 0 then copy_at agg1 0 (take (nat flitValid) flitData) else agg1)
             in Inr (emit_beat payload sDataWidth fb (take widthBytes agg2) (isTailFlit \<and> streamLast)
                   bytesBefore flitValid result0, agg2)
           else
             let flitsPerBeat = widthBytes div 16 in
             if flitsPerBeat = 0 \<or> widthBytes mod 16 \<noteq> 0
             then Inl (Throw ''AXIS NSU data width above 16 bytes must be a multiple of 16'')
             else
               let agg = (if flitValid > 0
                          then copy_at aggregateData ((flitId mod flitsPerBeat) * 16) (take (nat flitValid) flitData)
                          else aggregateData)
               in if (flitId + 1) mod flitsPerBeat = 0 \<or> isTailFlit then
                    let beatIndex = flitId div flitsPerBeat;
                        beatStart = int (beatIndex * widthBytes);
                        beatEnd = beatStart + int widthBytes;
                        bytesUpToPrev = min totalValid beatStart;
                        bytesUpToThisBeat = min totalValid beatEnd;
                        validInBeat = min (int widthBytes) (max 0 (bytesUpToThisBeat - bytesUpToPrev))
                    in Inr (emit_beat payload sDataWidth fb (take widthBytes agg) (isTailFlit \<and> streamLast)
                          beatStart validInBeat result0, agg)
                  else Inr (result0, agg))"

text \<open>The flits of one packet, in order, on the packet's own aggregate.\<close>

fun depacketize_packet ::
  "axisPayload \<Rightarrow> nat \<Rightarrow> nat \<Rightarrow> bool \<Rightarrow> int \<Rightarrow> nat list \<Rightarrow> byte list \<Rightarrow>
    (axisData list \<times> byte list) result" where
  "depacketize_packet p w nf lst fb [] agg = Inr ([], agg)"
| "depacketize_packet p w nf lst fb (i # is) agg =
     rbind (depacketizeAxisPayloadFlit p w agg i nf lst (axis_flit_data p i) fb) (\<lambda>r.
     rbind (depacketize_packet p w nf lst fb is (snd r)) (\<lambda>rest.
       Inr (dp_payloads (fst r) @ fst rest, snd rest)))"

section \<open>The stream of the rebuilt beats\<close>

definition beats_stream :: "axisData list \<Rightarrow> (byte \<times> bool) list" where
  "beats_stream ds = concat (map beat_stream ds)"

lemma beats_stream_simps [simp]:
  "beats_stream [] = []" "beats_stream (ds @ es) = beats_stream ds @ beats_stream es"
  by (simp_all add: beats_stream_def)

lemma map_fst_beats_stream: "map fst (beats_stream ds) = concat (map kept_bytes ds)"
  by (induction ds) (simp_all add: beats_stream_def beat_stream_def)

lemma tkeepForValidBytes_low_mask:
  "0 \<le> n \<Longrightarrow> tkeepForValidBytes n = low_mask (nat n)"
  by (auto simp: tkeepForValidBytes_def low_mask_def nat_le_iff not_le)

lemma filter_less_upt: "n \<le> m \<Longrightarrow> filter (\<lambda>i. i < n) [0..<m] = [0..<n]"
  by (induction m) (auto simp: le_Suc_eq filter_id_conv)

lemma kept_low_mask:
  assumes "n \<le> length bs" and "length bs \<le> 64"
  shows "kept (low_mask n) bs = take n bs"
proof -
  have "filter (bit (low_mask n)) [0..<length bs] = filter (\<lambda>i. i < n) [0..<length bs]"
    using assms by (intro filter_cong) (auto simp: bit_low_mask)
  then show ?thesis using assms
    by (simp add: kept_def filter_less_upt) (rule nth_equalityI; simp)
qed

lemma applySideband_fields [simp]:
  "tdata (applySidebandForByteRange p d a n) = tdata d"
  "tkeep (applySidebandForByteRange p d a n) = tkeep d"
  "tlast (applySidebandForByteRange p d a n) = tlast d"
  "DATA_WIDTH (applySidebandForByteRange p d a n) = DATA_WIDTH d"
  by (simp_all add: applySidebandForByteRange_def split: option.split)

text \<open>An endpoint width: whole bytes, at most 64 of them.\<close>

definition width_ok :: "nat \<Rightarrow> bool" where
  "width_ok w \<longleftrightarrow> w mod 8 = 0 \<and> 0 < w \<and> w \<le> 512"

lemma emit_beat_stream:
  assumes "width_ok w" and "length bytes = w div 8" and "n \<le> w div 8"
  shows "beats_stream (dp_payloads (emit_beat p w fb bytes l a (int n) res)) =
      beats_stream (dp_payloads res) @ mark (take n bytes) l"
    and "list_all axis_wf (dp_payloads res) \<Longrightarrow>
      list_all axis_wf (dp_payloads (emit_beat p w fb bytes l a (int n) res))"
proof -
  have "length bytes \<le> 64" using assms(1,2) by (auto simp: width_ok_def)
  then have "kept (tkeepForValidBytes (int n)) bytes = take n bytes"
    using assms(2,3) by (simp add: tkeepForValidBytes_low_mask kept_low_mask)
  then show "beats_stream (dp_payloads (emit_beat p w fb bytes l a (int n) res)) =
      beats_stream (dp_payloads res) @ mark (take n bytes) l"
    using assms(2)
    by (simp add: emit_beat_def Let_def beats_stream_def beat_stream_def kept_bytes_def axisData_of_def)
  show "list_all axis_wf (dp_payloads (emit_beat p w fb bytes l a (int n) res))"
    if "list_all axis_wf (dp_payloads res)"
    using that assms(1,2)
    by (simp add: emit_beat_def Let_def axisData_of_def axis_wf_def new_axisData_def width_ok_def)
qed

lemma emit_padded:
  assumes "width_ok w" and "length src = n" and "n \<le> w div 8"
  shows "beats_stream (dp_payloads (emit_beat p w fb (src @ replicate (w div 8 - n) 0) l a (int n) res)) =
      beats_stream (dp_payloads res) @ mark src l"
    and "list_all axis_wf (dp_payloads res) \<Longrightarrow>
      list_all axis_wf (dp_payloads (emit_beat p w fb (src @ replicate (w div 8 - n) 0) l a (int n) res))"
  using emit_beat_stream [OF assms(1), where bytes = "src @ replicate (w div 8 - n) 0" and n = n] assms
  by simp_all

section \<open>Narrow endpoints\<close>

lemma last_valid_sub_beat_eq:
  assumes "0 < v" and "0 < W" and "v \<le> k * W"
  shows "last_valid_sub_beat (int v) W k = int ((v - 1) div W)"
proof -
  have pos: "max 0 (int v - int (i * W)) > 0 \<longleftrightarrow> i \<le> (v - 1) div W" for i
  proof -
    have "max 0 (int v - int (i * W)) > 0 \<longleftrightarrow> int (i * W) < int v" by linarith
    also have "\<dots> \<longleftrightarrow> i * W \<le> v - 1" unfolding of_nat_less_iff using assms(1) by linarith
    finally show ?thesis using assms(2) by (simp add: less_eq_div_iff_mult_less_eq)
  qed
  have "fold (\<lambda>i l. if max 0 (int v - int (i * W)) > 0 then int i else l) [0..<m] (- 1) =
      (if m = 0 then - 1 else int (min (m - 1) ((v - 1) div W)))" for m
    unfolding pos by (induction m) auto
  moreover have "(v - 1) div W < k" using assms by (intro less_mult_imp_div_less) linarith
  ultimately show ?thesis by (auto simp: last_valid_sub_beat_def)
qed

lemma sub_beat_bytes:
  assumes "length agg = 64" and "n \<le> W" and "W \<le> 64" and "length src = n"
  shows "take W (copy_at (copy_at agg 0 (replicate W 0)) 0 src) = src @ replicate (W - n) 0"
    and "length (copy_at (copy_at agg 0 (replicate W 0)) 0 src) = 64"
  using assms by (simp_all add: copy_at_def)

lemma last_sub_beat_iff:
  fixes v W m :: nat
  assumes "0 < W" and "m * W < v"
  shows "m = (v - 1) div W \<longleftrightarrow> v \<le> Suc m * W"
proof
  assume "m = (v - 1) div W"
  then have "v - 1 < Suc m * W" using assms(1) dividend_less_div_times [of W "v - 1"] by simp
  then show "v \<le> Suc m * W" by linarith
next
  assume v: "v \<le> Suc m * W"
  have "(v - 1) div W < Suc m" by (rule less_mult_imp_div_less) (use v assms in linarith)
  moreover have "m \<le> (v - 1) div W" using assms by (simp add: less_eq_div_iff_mult_less_eq)
  ultimately show "m = (v - 1) div W" by simp
qed

lemma narrow_step_emit:
  fixes p :: axisPayload and fb bB lv :: int and tl_last :: bool
  assumes w: "width_ok w" "W = w div 8" and fd: "length fd = 16" and v: "v \<le> 16"
    and agg: "length (snd st) = 64" and W: "0 < W" "W \<le> 16" and more: "m * W < v"
    and wf: "list_all axis_wf (dp_payloads (fst st))"
  defines "src \<equiv> take W (drop (m * W) (take v fd))"
    and "st' \<equiv> narrow_step p w fb W bB (int v) tl_last lv fd m st"
  shows "beats_stream (dp_payloads (fst st')) =
      beats_stream (dp_payloads (fst st)) @ mark src (tl_last \<and> int m = lv)"
    and "length (snd st') = 64" and "list_all axis_wf (dp_payloads (fst st'))" and "src \<noteq> []"
proof -
  define n where "n = min W (v - m * W)"
  have n: "0 < n" "n \<le> W" "m * W + n \<le> v" using more W by (auto simp: n_def)
  have ncopy: "min (int W) (max 0 (int v - int (m * W))) = int n"
    using more by (simp only: n_def)
  have src: "src = take n (drop (m * W) fd)" "length src = n"
    using n v fd by (simp_all add: src_def drop_take n_def min.commute)
  let ?agg = "copy_at (copy_at (snd st) 0 (replicate W 0)) 0 src"
  have W64: "W \<le> 64" using W(2) by simp
  note agg' = sub_beat_bytes [OF agg n(2) W64 src(2)]
  have st': "st' = (emit_beat p w fb (src @ replicate (W - n) 0) (tl_last \<and> int m = lv)
      (bB + int (m * W)) (int n) (fst st), ?agg)"
    using n(1) unfolding st'_def agg'(1) [symmetric] unfolding src(1)
    by (simp only: narrow_step_def Let_def ncopy) (simp del: of_nat_mult)
  note ep = emit_padded [OF w(1) src(2) n(2) [unfolded w(2)], folded w(2)]
  show "beats_stream (dp_payloads (fst st')) =
      beats_stream (dp_payloads (fst st)) @ mark src (tl_last \<and> int m = lv)"
    unfolding st' fst_conv by (rule ep(1))
  show "length (snd st') = 64" by (simp add: st' agg'(2))
  show "list_all axis_wf (dp_payloads (fst st'))" unfolding st' fst_conv by (rule ep(2) [OF wf])
  show "src \<noteq> []" using src(2) n(1) by auto
qed

lemma narrow_step_skip:
  "v \<le> m * W \<Longrightarrow> narrow_step p w fb W bB (int v) tl_last lv fd m st = st"
proof -
  assume "v \<le> m * W"
  then have "max 0 (int v - int (m * W)) = 0" by linarith
  then show ?thesis by (simp only: narrow_step_def Let_def) simp
qed

lemma narrow_fold:
  fixes p :: axisPayload and fb bB lv :: int and tl_last :: bool
  assumes w: "width_ok w" "W = w div 8" and fd: "length fd = 16" and v: "v \<le> 16"
    and agg: "length agg = 64" and W: "0 < W" "W \<le> 16"
  defines "st \<equiv> \<lambda>m. fold (narrow_step p w fb W bB (int v) tl_last lv fd) [0..<m]
    (\<lparr> dp_payloads = [], dp_debugIds = [] \<rparr>, agg)"
  shows "map fst (beats_stream (dp_payloads (fst (st m)))) = take (m * W) (take v fd) \<and>
    length (snd (st m)) = 64 \<and> list_all axis_wf (dp_payloads (fst (st m))) \<and>
    (0 < v \<longrightarrow> lv = int ((v - 1) div W) \<longrightarrow>
      beats_stream (dp_payloads (fst (st m))) = mark (take (m * W) (take v fd)) (tl_last \<and> v \<le> m * W))"
proof (induction m)
  case 0
  then show ?case using agg by (simp add: st_def)
next
  case (Suc m)
  have next_st: "st (Suc m) = narrow_step p w fb W bB (int v) tl_last lv fd m (st m)"
    by (simp add: st_def)
  show ?case
  proof (cases "v \<le> m * W")
    case True
    then have "st (Suc m) = st m" by (simp add: next_st narrow_step_skip)
    with Suc True show ?thesis by simp
  next
    case False
    then have more: "m * W < v" by simp
    have inv: "length (snd (st m)) = 64" "list_all axis_wf (dp_payloads (fst (st m)))" using Suc by simp_all
    note step = narrow_step_emit(1-3) [OF w fd v inv(1) W more inv(2), where p = p and fb = fb
        and bB = bB and tl_last = tl_last and lv = lv, folded next_st]
    note nonempty = narrow_step_emit(4) [OF w fd v inv(1) W more inv(2)]
    let ?src = "take W (drop (m * W) (take v fd))"
    have grow: "take (Suc m * W) (take v fd) = take (m * W) (take v fd) @ ?src"
      using take_add [of "m * W" W "take v fd"] by (simp add: add.commute)
    have "lv = int ((v - 1) div W) \<Longrightarrow> int m = lv \<longleftrightarrow> v \<le> Suc m * W"
      using last_sub_beat_iff [OF W(1) more] by auto
    then show ?thesis unfolding grow step(1) using Suc False step(2,3) nonempty
      by (auto simp: mark_append)
  qed
qed

section \<open>The flits of a packet\<close>

definition flits_for :: "nat \<Rightarrow> nat" where
  "flits_for n = n div 16 + (if n mod 16 = 0 then 0 else 1)"

lemma flits_for_bounds:
  assumes "i < flits_for n"
  shows "16 * i < n" and "Suc i = flits_for n \<longleftrightarrow> n \<le> 16 * Suc i"
proof -
  define q r where "q = n div 16" and "r = n mod 16"
  have n: "n = 16 * q + r" "r < 16" by (simp_all add: q_def r_def)
  have "flits_for n = (if r = 0 then q else Suc q)" by (simp add: flits_for_def q_def r_def)
  with assms n show "16 * i < n" and "Suc i = flits_for n \<longleftrightarrow> n \<le> 16 * Suc i"
    by (cases "r = 0"; simp; linarith)+
qed

lemma flits_for_pos: "0 < n \<Longrightarrow> 0 < flits_for n"
  by (auto simp: flits_for_def)

lemma flit_facts:
  assumes "payload_wf p" and "i < flits_for (length (payload_bytes p))"
  defines "bs \<equiv> payload_bytes p" and "v \<equiv> min 16 (length (payload_bytes p) - 16 * i)"
  shows "min 16 (max 0 (totalBytes p - int i * 16)) = int v" and "0 < v" and "v \<le> 16"
    and "take v (axis_flit_data p i) = flit_slice bs i" and "length (flit_slice bs i) = v"
    and "flit_slice bs i \<noteq> []"
proof -
  have L: "16 * i < length bs" using flits_for_bounds(1) [OF assms(2)] by (simp add: bs_def)
  have total: "totalBytes p = int (length bs)" using assms(1) by (simp add: payload_wf_def bs_def)
  show "min 16 (max 0 (totalBytes p - int i * 16)) = int v" unfolding total v_def bs_def [symmetric]
    using L by linarith
  show v: "0 < v" "v \<le> 16" using L by (simp_all add: v_def bs_def)
  show len: "length (flit_slice bs i) = v" by (simp add: flit_slice_def v_def bs_def)
  show "take v (axis_flit_data p i) = flit_slice bs i"
    using len by (simp add: axis_flit_data_slice bs_def)
  show "flit_slice bs i \<noteq> []" using len v by force
qed

lemma depacketize_flit_narrow:
  assumes w: "width_ok w" "w div 8 dvd 16" and p: "payload_wf p"
    and i: "i < flits_for (length (payload_bytes p))" and agg: "length agg = 64"
  defines "nf \<equiv> flits_for (length (payload_bytes p))"
  shows "\<exists>r agg'. depacketizeAxisPayloadFlit p w agg i nf lst (axis_flit_data p i) fb = Inr (r, agg') \<and>
    length agg' = 64 \<and> list_all axis_wf (dp_payloads r) \<and>
    beats_stream (dp_payloads r) = mark (flit_slice (payload_bytes p) i) (Suc i = nf \<and> lst)"
proof -
  let ?W = "w div 8" and ?fd = "axis_flit_data p i" and ?bs = "payload_bytes p"
  define v where "v = min 16 (length ?bs - 16 * i)"
  note ff = flit_facts [OF p i, folded v_def]
  have W: "0 < ?W" "?W \<le> 16" using w by (auto simp: width_ok_def dest: dvd_imp_le)
  then have W64: "\<not> (?W = 0 \<or> ?W > 64)" by auto
  have mod: "\<not> w mod 8 \<noteq> 0" using w(1) by (simp add: width_ok_def)
  have tail: "(0 < nf \<and> int nf - 1 = int i) = (Suc i = nf)" using i by (auto simp: nf_def)
  let ?r0 = "\<lparr> dp_payloads = [], dp_debugIds = [] \<rparr>"
  show ?thesis
  proof (cases "?W < 16")
    case True
    let ?k = "16 div ?W"
    have k: "?k * ?W = 16" using w(2) by simp
    have lv: "last_valid_sub_beat (int v) ?W ?k = int ((v - 1) div ?W)"
      using last_valid_sub_beat_eq [of v ?W ?k] ff(2,3) W k by simp
    define st where "st = fold (narrow_step p w fb ?W (int i * 16) (int v) (Suc i = nf \<and> lst)
        (int ((v - 1) div ?W)) ?fd) [0..<?k] (?r0, agg)"
    have "depacketizeAxisPayloadFlit p w agg i nf lst ?fd fb = Inr st"
      using True unfolding depacketizeAxisPayloadFlit_def Let_def tail ff(1) st_def lv
      by (simp only: mod W64 if_True if_False)
    moreover have "beats_stream (dp_payloads (fst st)) = mark (flit_slice ?bs i) (Suc i = nf \<and> lst) \<and>
        length (snd st) = 64 \<and> list_all axis_wf (dp_payloads (fst st))"
      using narrow_fold [OF w(1) refl length_axis_flit_data [of p i] ff(3) agg W,
          where p = p and fb = fb and bB = "int i * 16" and tl_last = "Suc i = nf \<and> lst"
            and lv = "int ((v - 1) div ?W)" and m = ?k] ff(2-5)
      unfolding st_def [symmetric] k by simp
    ultimately show ?thesis by (metis prod.collapse)
  next
    case False
    then have W16: "?W = 16" using W by simp
    let ?agg = "copy_at (copy_at agg 0 (replicate ?W 0)) 0 (take v ?fd)"
    have run: "depacketizeAxisPayloadFlit p w agg i nf lst ?fd fb =
        Inr (emit_beat p w fb (take ?W ?agg) (Suc i = nf \<and> lst) (int i * 16) (int v) ?r0, ?agg)"
      using W16 ff(2) mod unfolding depacketizeAxisPayloadFlit_def Let_def tail ff(1) by simp
    have bytes: "take ?W ?agg = flit_slice ?bs i @ replicate (?W - v) 0" "length ?agg = 64"
      using sub_beat_bytes [OF agg, of v ?W "take v ?fd"] ff(3,5) W16 unfolding ff(4) by auto
    have "v \<le> ?W" using ff(3) W16 by simp
    note ep = emit_padded [OF w(1) ff(5) this]
    show ?thesis
      by (intro exI conjI, rule run [unfolded bytes(1)], rule bytes(2), rule ep(2), simp,
          rule trans [OF ep(1)], simp)
  qed
qed

section \<open>Wide endpoints\<close>

text \<open>
  Before flit \<open>i\<close> the aggregate holds the bytes of the current beat that have arrived.
\<close>

definition aggregate_holds :: "nat \<Rightarrow> byte list \<Rightarrow> nat \<Rightarrow> byte list \<Rightarrow> bool" where
  "aggregate_holds f bs i agg \<longleftrightarrow> length agg = 64 \<and>
     take (16 * (i mod f)) agg = take (16 * (i mod f)) (drop (16 * f * (i div f)) bs)"

lemma mod_Suc_zero:
  fixes i f :: nat
  assumes "0 < f"
  shows "Suc i mod f = 0 \<longleftrightarrow> Suc (i mod f) = f"
  using assms by (auto simp: mod_Suc)

lemma aggregate_step:
  assumes "aggregate_holds f bs i agg" and "16 * i < length bs" and "0 < f" and "f \<le> 4"
  defines "s \<equiv> flit_slice bs i" and "q \<equiv> i div f" and "r \<equiv> i mod f"
  defines "agg' \<equiv> copy_at agg (16 * r) s"
  shows "length agg' = 64"
    and "take (16 * r + length s) agg' = take (16 * Suc r) (drop (16 * f * q) bs)"
proof -
  have r: "Suc r \<le> f" using assms(3) by (simp add: r_def Suc_leI)
  have len: "length s \<le> 16" "16 * r + length s \<le> length agg"
    using assms(1,4) r by (auto simp: s_def flit_slice_def aggregate_holds_def)
  show "length agg' = 64" using assms(1) len by (simp add: agg'_def aggregate_holds_def)
  have i: "16 * i = 16 * f * q + 16 * r"
    unfolding q_def r_def by (metis distrib_left mult.assoc mult_div_mod_eq)
  have "take (16 * r + length s) agg' = take (16 * r) agg @ s"
    unfolding agg'_def by (rule take_copy_at_end [OF len(2)])
  also have "\<dots> = take (16 * r) (drop (16 * f * q) bs) @ take 16 (drop (16 * r) (drop (16 * f * q) bs))"
    using assms(1) by (simp add: aggregate_holds_def s_def flit_slice_def i q_def r_def add.commute)
  also have "\<dots> = take (16 * Suc r) (drop (16 * f * q) bs)"
    using take_add [of "16 * r" 16 "drop (16 * f * q) bs"] by (simp add: add.commute)
  finally show "take (16 * r + length s) agg' = take (16 * Suc r) (drop (16 * f * q) bs)" .
qed

lemma valid_in_beat:
  fixes L W f q r i v :: nat
  assumes "i = f * q + r" and "r < f" and "16 * i < L" and "v = min 16 (L - 16 * i)"
    and "Suc r = f \<or> L \<le> 16 * Suc i" and "W = 16 * f"
  shows "min (int W) (max 0 (min (int L) (int (q * W) + int W) - min (int L) (int (q * W)))) = int (16 * r + v)"
    and "min W (L - q * W) = 16 * r + v"
proof -
  have qW: "16 * i = q * W + 16 * r" using assms(1,6) by (simp add: algebra_simps)
  have rest: "L - q * W = 16 * r + (L - 16 * i)" using qW assms(3) by linarith
  have "16 * Suc r \<le> W" using assms(2,6) by simp
  then show m: "min W (L - q * W) = 16 * r + v"
    unfolding rest using assms(4,5,6) by (elim disjE) (auto simp: min_def)
  have "q * W < L" using qW assms(3) by linarith
  then show "min (int W) (max 0 (min (int L) (int (q * W) + int W) - min (int L) (int (q * W)))) =
      int (16 * r + v)" unfolding m [symmetric] by linarith
qed

lemma depacketize_flit_wide:
  assumes w: "width_ok w" "w div 8 = 16 * f" "1 < f" and p: "payload_wf p"
    and i: "i < flits_for (length (payload_bytes p))"
    and agg: "aggregate_holds f (payload_bytes p) i agg"
  defines "nf \<equiv> flits_for (length (payload_bytes p))" and "bs \<equiv> payload_bytes p"
  shows "\<exists>res agg'. depacketizeAxisPayloadFlit p w agg i nf lst (axis_flit_data p i) fb = Inr (res, agg') \<and>
    list_all axis_wf (dp_payloads res) \<and> (Suc i < nf \<longrightarrow> aggregate_holds f bs (Suc i) agg') \<and>
    aggregate_holds f bs i agg' \<and>
    beats_stream (dp_payloads res) = (if Suc i mod f = 0 \<or> Suc i = nf
      then mark (take (16 * f) (drop (16 * f * (i div f)) bs)) (Suc i = nf \<and> lst) else [])"
proof -
  define q r v where "q = i div f" and "r = i mod f" and "v = min 16 (length (payload_bytes p) - 16 * i)"
  let ?W = "w div 8" and ?fd = "axis_flit_data p i" and ?s = "flit_slice bs i" and ?L = "length bs"
  note ff = flit_facts [OF p i, folded v_def bs_def]
  have L: "16 * i < ?L" "Suc i = nf \<longleftrightarrow> ?L \<le> 16 * Suc i" "v = min 16 (?L - 16 * i)"
    using flits_for_bounds [OF i] by (simp_all add: nf_def bs_def v_def)
  have "16 * f \<le> 64" using w(1) by (auto simp: width_ok_def simp flip: w(2))
  then have f4: "f \<le> 4" "0 < f" using w(3) by auto
  then have r: "i = f * q + r" "r < f" by (simp_all add: q_def r_def)
  define agg' where "agg' = copy_at agg (16 * r) ?s"
  note step = aggregate_step [OF agg [folded bs_def] L(1) f4(2,1), unfolded ff(5),
      folded q_def r_def, folded agg'_def]
  have tail: "(0 < nf \<and> int nf - 1 = int i) = (Suc i = nf)" using i by (auto simp: nf_def)
  have total: "totalBytes p = int ?L" using p by (simp add: payload_wf_def bs_def)
  define n where "n = min (int ?W) (max 0 (min (int ?L) (int (q * ?W) + int ?W) - min (int ?L) (int (q * ?W))))"
  let ?r0 = "\<lparr> dp_payloads = [], dp_debugIds = [] \<rparr>"
  have run: "depacketizeAxisPayloadFlit p w agg i nf lst ?fd fb =
      (if Suc i mod f = 0 \<or> Suc i = nf
       then Inr (emit_beat p w fb (take ?W agg') (Suc i = nf \<and> lst) (int (q * ?W)) n ?r0, agg')
       else Inr (?r0, agg'))"
    using w f4 ff(2,4) unfolding depacketizeAxisPayloadFlit_def Let_def tail ff(1) n_def total [symmetric]
    by (simp add: width_ok_def mult.commute agg'_def q_def r_def)
  have div': "Suc i mod f = 0 \<longleftrightarrow> Suc r = f" using mod_Suc_zero [OF f4(2)] by (simp add: r_def)
  have holds: "aggregate_holds f bs (Suc i) agg'" if "Suc i < nf"
  proof -
    from that L have "v = 16" by auto
    then show ?thesis using step div' f4(2) unfolding aggregate_holds_def
      by (auto simp: mod_Suc div_Suc q_def r_def add.commute)
  qed
  have again: "aggregate_holds f bs i agg'"
  proof -
    have "16 * r + length ?s \<le> 64" using ff(5) L(3) r(2) f4(1) by simp
    then have "take (16 * r) agg' = take (16 * r) agg"
      using agg by (simp add: agg'_def copy_at_def aggregate_holds_def)
    then show ?thesis using agg step(1) by (simp add: aggregate_holds_def r_def bs_def)
  qed
  show ?thesis
  proof (cases "Suc i mod f = 0 \<or> Suc i = nf")
    case True
    then have fin: "Suc r = f \<or> ?L \<le> 16 * Suc i" using L(2) div' by auto
    note vb = valid_in_beat [OF r L(1,3) fin w(2)]
    have n: "n = int (16 * r + v)" unfolding n_def by (rule vb(1))
    let ?b = "take ?W agg'"
    have len: "length ?b = ?W" "16 * r + v \<le> ?W" using step(1) w f4 vb(2) by auto
    have "take (16 * r + v) ?b = take (16 * Suc r) (drop (16 * f * q) bs)"
      using step(2) len(2) by (simp add: min_def)
    also have "\<dots> = take (16 * f) (drop (16 * f * q) bs)"
    proof (cases "Suc r = f")
      case False
      with fin r have "length (drop (16 * f * q) bs) \<le> 16 * Suc r" by (auto simp: algebra_simps)
      then show ?thesis using r(2) by simp
    qed simp
    finally have bytes: "take (16 * r + v) ?b = take (16 * f) (drop (16 * f * q) bs)" .
    have "beats_stream (dp_payloads (emit_beat p w fb ?b (Suc i = nf \<and> lst) (int (q * ?W)) n ?r0)) =
        mark (take (16 * f) (drop (16 * f * q) bs)) (Suc i = nf \<and> lst)"
      unfolding n by (rule trans [OF emit_beat_stream(1) [OF w(1) len]]) (simp only: bytes, simp)
    moreover have "list_all axis_wf (dp_payloads (emit_beat p w fb ?b (Suc i = nf \<and> lst) (int (q * ?W)) n ?r0))"
      unfolding n by (rule emit_beat_stream(2) [OF w(1) len]) simp
    ultimately show ?thesis unfolding run using True holds again by (auto simp: q_def)
  next
    case False
    then show ?thesis unfolding run using holds again by simp
  qed
qed

section \<open>Whole packets\<close>

lemma mark_step:
  assumes "a \<noteq> []" and "b = [] \<longleftrightarrow> fin"
  shows "mark a (fin \<and> l) @ mark b l = mark (a @ b) l"
  using assms by (cases fin) (auto simp: mark_append)

lemma mark_flit_split:
  assumes "payload_wf p" and "i < flits_for (length (payload_bytes p))"
  shows "mark (flit_slice (payload_bytes p) i) (Suc i = flits_for (length (payload_bytes p)) \<and> l) @
    mark (drop (16 * Suc i) (payload_bytes p)) l = mark (drop (16 * i) (payload_bytes p)) l"
proof -
  let ?bs = "payload_bytes p"
  have "flit_slice ?bs i @ drop (16 * Suc i) ?bs = drop (16 * i) ?bs"
    using append_take_drop_id [of 16 "drop (16 * i) ?bs"] by (simp add: flit_slice_def add.commute)
  with mark_step [OF flit_facts(6) [OF assms], of "drop (16 * Suc i) ?bs"] flits_for_bounds(2) [OF assms(2)]
  show ?thesis by simp
qed

lemma depacketize_packet_narrow:
  assumes w: "width_ok w" "w div 8 dvd 16" and p: "payload_wf p"
  defines "bs \<equiv> payload_bytes p" and "nf \<equiv> flits_for (length (payload_bytes p))"
  shows "i \<le> nf \<Longrightarrow> length agg = 64 \<Longrightarrow>
    \<exists>ds agg'. depacketize_packet p w nf lst fb [i..<nf] agg = Inr (ds, agg') \<and>
      list_all axis_wf ds \<and> beats_stream ds = mark (drop (16 * i) bs) lst"
proof (induction "nf - i" arbitrary: i agg)
  case 0
  then have "i = nf" by simp
  moreover have "drop (16 * nf) bs = []"
    by (simp add: nf_def bs_def flits_for_def) presburger
  ultimately show ?case by simp
next
  case (Suc k)
  then have i: "i < nf" and k: "k = nf - Suc i" by simp_all
  obtain res agg1 where flit: "depacketizeAxisPayloadFlit p w agg i nf lst (axis_flit_data p i) fb = Inr (res, agg1)"
    "length agg1 = 64" "list_all axis_wf (dp_payloads res)"
    "beats_stream (dp_payloads res) = mark (flit_slice bs i) (Suc i = nf \<and> lst)"
    using depacketize_flit_narrow [OF w p, of i agg lst fb] i Suc.prems by (auto simp: nf_def bs_def)
  obtain ds agg2 where rest: "depacketize_packet p w nf lst fb [Suc i..<nf] agg1 = Inr (ds, agg2)"
    "list_all axis_wf ds" "beats_stream ds = mark (drop (16 * Suc i) bs) lst"
    using Suc.hyps(1) [of "Suc i" agg1] k i flit(2) by auto
  have "mark (flit_slice bs i) (Suc i = nf \<and> lst) @ mark (drop (16 * Suc i) bs) lst = mark (drop (16 * i) bs) lst"
    using mark_flit_split [OF p] i by (simp add: nf_def bs_def)
  then show ?case using i flit rest by (simp add: upt_conv_Cons)
qed

lemma depacketize_packet_wide:
  assumes w: "width_ok w" "w div 8 = 16 * f" "1 < f" and p: "payload_wf p"
  defines "bs \<equiv> payload_bytes p" and "nf \<equiv> flits_for (length (payload_bytes p))"
  shows "i < nf \<Longrightarrow> aggregate_holds f bs i agg \<Longrightarrow>
    \<exists>ds agg'. depacketize_packet p w nf lst fb [i..<nf] agg = Inr (ds, agg') \<and>
      list_all axis_wf ds \<and> beats_stream ds = mark (drop (16 * f * (i div f)) bs) lst"
proof (induction "nf - i" arbitrary: i agg)
  case 0
  then show ?case by simp
next
  case (Suc k)
  let ?q = "i div f" and ?rest = "drop (16 * f * (i div f)) bs"
  have k: "k = nf - Suc i" using Suc.hyps(2) by simp
  obtain res agg1 where flit: "depacketizeAxisPayloadFlit p w agg i nf lst (axis_flit_data p i) fb = Inr (res, agg1)"
    "list_all axis_wf (dp_payloads res)" "Suc i < nf \<Longrightarrow> aggregate_holds f bs (Suc i) agg1"
    "beats_stream (dp_payloads res) = (if Suc i mod f = 0 \<or> Suc i = nf
      then mark (take (16 * f) ?rest) (Suc i = nf \<and> lst) else [])"
    using depacketize_flit_wide [OF w p, of i agg lst fb] Suc.prems by (auto simp: nf_def bs_def)
  note L = flits_for_bounds [of i "length bs", folded nf_def [folded bs_def], OF Suc.prems(1)]
  have i: "i = f * ?q + i mod f" "i mod f < f" using w(3) by simp_all
  show ?case
  proof (cases "Suc i = nf")
    case True
    have "16 * Suc i = 16 * f * ?q + 16 * Suc (i mod f)"
      using i(1) by (metis add_Suc_right distrib_left mult.assoc)
    then have "length bs \<le> 16 * f * ?q + 16 * Suc (i mod f)" using L(2) True by metis
    then have "length ?rest \<le> 16 * f" using i(2) by simp
    then show ?thesis using True flit by (simp add: upt_conv_Cons flip: True)
  next
    case False
    then have si: "Suc i < nf" using Suc.prems by simp
    obtain ds agg2 where rest: "depacketize_packet p w nf lst fb [Suc i..<nf] agg1 = Inr (ds, agg2)"
      "list_all axis_wf ds" "beats_stream ds = mark (drop (16 * f * (Suc i div f)) bs) lst"
      using Suc.hyps(1) [OF k si flit(3) [OF si]] by auto
    have "beats_stream (dp_payloads res) @ beats_stream ds = mark ?rest lst"
    proof (cases "Suc i mod f = 0")
      case True
      then have "Suc i div f = Suc ?q" by (simp add: div_Suc)
      then have d: "drop (16 * f * (Suc i div f)) bs = drop (16 * f) ?rest" by (simp add: algebra_simps)
      have "drop (16 * f) ?rest \<noteq> []"
        using flits_for_bounds(1) [of "Suc i" "length bs"] si True \<open>Suc i div f = Suc ?q\<close>
          mult_div_mod_eq [of f "Suc i"] by (auto simp: nf_def bs_def algebra_simps)
      then show ?thesis
        using flit(4) rest(3) True False mark_append [of "drop (16 * f) ?rest" "take (16 * f) ?rest" lst]
        unfolding d append_take_drop_id by simp
    next
      case no: False
      then have "Suc i div f = ?q" by (simp add: div_Suc)
      then show ?thesis using flit(4) rest(3) no False by simp
    qed
    then show ?thesis using flit rest si by (simp add: upt_conv_Cons)
  qed
qed

section \<open>Properties\<close>

lemma width_cases:
  assumes "width_ok w" and "w div 8 dvd 16 \<or> 16 dvd w div 8"
  obtains (narrow) "w div 8 dvd 16" | (wide) f where "w div 8 = 16 * f" "1 < f"
proof (cases "w div 8 dvd 16")
  case False
  with assms(2) obtain f where f: "w div 8 = 16 * f" by (auto simp: dvd_def)
  moreover have "f \<noteq> 0" using assms(1) f by (auto simp: width_ok_def)
  moreover have "f \<noteq> 1" using False f by auto
  ultimately show thesis by (intro wide) auto
qed (rule narrow)

text \<open>C11: Delivering all flits of a stream packet, in order, to an endpoint whose width in bytes
  divides 16 or is a multiple of 16 rebuilds beats that carry exactly the packet's valid bytes,
  in order, with \<open>TLAST\<close> on the final byte if and only if the packet was marked last.\<close>

theorem axis_packet_roundtrip:
  assumes "width_ok w" and "w div 8 dvd 16 \<or> 16 dvd w div 8" and "payload_wf p" and "payload_bytes p \<noteq> []"
  shows "\<exists>ds agg. depacketize_packet p w (flits_for (length (payload_bytes p))) l fb
      [0..<flits_for (length (payload_bytes p))] (replicate 64 0) = Inr (ds, agg) \<and>
    list_all axis_wf ds \<and> beats_stream ds = mark (payload_bytes p) l"
proof -
  consider (narrow) "w div 8 dvd 16" | (wide) f where "w div 8 = 16 * f" "1 < f"
    using width_cases [OF assms(1,2)] by metis
  then show ?thesis
  proof cases
    case narrow
    then show ?thesis
      using depacketize_packet_narrow [OF assms(1) narrow assms(3), of 0 "replicate 64 0" l fb] by simp
  next
    case (wide f)
    have "0 < flits_for (length (payload_bytes p))" using assms(4) by (intro flits_for_pos) simp
    then show ?thesis
      using depacketize_packet_wide [OF assms(1) wide assms(3), of 0 "replicate 64 0" l fb]
      by (simp add: aggregate_holds_def)
  qed
qed

definition sample_payload :: axisPayload where
  "sample_payload = axisPayload_add (axisPayload_add empty_axisPayload (full_beat 20 False) 1) (full_beat 20 True) 2"

lemma sample_payload_facts:
  "payload_wf sample_payload" "payload_bytes sample_payload = map of_nat [1..<21] @ map of_nat [1..<21]"
  by (simp_all add: sample_payload_def payload_wf_add)

theorem axis_packet_roundtrip_witness:
  "\<exists>ds agg. depacketize_packet sample_payload 256 (flits_for 40) True (- 1) [0..<flits_for 40] (replicate 64 0) =
      Inr (ds, agg) \<and> beats_stream ds = mark (map of_nat [1..<21] @ map of_nat [1..<21]) True"
  using axis_packet_roundtrip [of 256 sample_payload True "- 1"] sample_payload_facts
  by (auto simp: width_ok_def)

text \<open>C29: An endpoint narrower than a flit whose width does not divide 16 bytes is accepted by the
  depacketiser but loses data: of a full flit only the bytes of whole sub-beats are delivered.\<close>

theorem narrow_width_drops_bytes:
  assumes w: "width_ok w" "w div 8 < 16" "\<not> w div 8 dvd 16" and p: "payload_wf p"
    and full: "16 * Suc i \<le> length (payload_bytes p)" and agg: "length agg = 64"
  shows "\<exists>r agg'. depacketizeAxisPayloadFlit p w agg i nf lst (axis_flit_data p i) fb = Inr (r, agg') \<and>
    concat (map kept_bytes (dp_payloads r)) = take (16 div (w div 8) * (w div 8)) (flit_slice (payload_bytes p) i) \<and>
    length (concat (map kept_bytes (dp_payloads r))) < 16"
proof -
  let ?W = "w div 8" and ?bs = "payload_bytes p"
  have W: "0 < ?W" "?W \<le> 16" using w by (auto simp: width_ok_def)
  have v: "min 16 (max 0 (totalBytes p - int i * 16)) = int 16"
    using p full by (simp add: payload_wf_def)
  have slice: "take 16 (axis_flit_data p i) = flit_slice ?bs i" "length (flit_slice ?bs i) = 16"
    using full by (simp_all add: axis_flit_data_slice flit_slice_def)
  define st where "st = fold (narrow_step p w fb ?W (int i * 16) (int 16) ((0 < nf \<and> int nf - 1 = int i) \<and> lst)
      (last_valid_sub_beat (int 16) ?W (16 div ?W)) (axis_flit_data p i)) [0..<16 div ?W]
      (\<lparr> dp_payloads = [], dp_debugIds = [] \<rparr>, agg)"
  have "depacketizeAxisPayloadFlit p w agg i nf lst (axis_flit_data p i) fb = Inr st"
    using w W unfolding depacketizeAxisPayloadFlit_def Let_def v st_def by (simp add: width_ok_def)
  moreover have "map fst (beats_stream (dp_payloads (fst st))) = take (16 div ?W * ?W) (flit_slice ?bs i)"
    using narrow_fold [OF w(1) refl length_axis_flit_data [of p i] order_refl agg W] slice(1)
    unfolding st_def by metis
  moreover have "16 div ?W * ?W < 16"
    using w(3) W by (metis div_times_less_eq_dividend dvd_triv_right le_neq_implies_less)
  ultimately show ?thesis using slice(2) by (cases st) (auto simp: map_fst_beats_stream)
qed

theorem narrow_width_drops_bytes_witness:
  "\<exists>r agg'. depacketizeAxisPayloadFlit sample_payload 24 (replicate 64 0) 0 3 True (axis_flit_data sample_payload 0) (- 1) =
      Inr (r, agg') \<and> length (concat (map kept_bytes (dp_payloads r))) < 16"
  using narrow_width_drops_bytes [of 24 sample_payload 0 "replicate 64 0" 3 True "- 1"] sample_payload_facts
  by (auto simp: width_ok_def)

end
