(* ===== verification/Stream_NMU.thy ===== *)
theory Stream_NMU
  imports Axis_Depacketizer
begin

text \<open>
  The stream source endpoint \<open>sNocMasterUnit\<close>
  (\<open>src/noc/core/network/nmu_types/sNocMasterUnit.cc\<close>): accepted beats go through the
  packetisation buffer; the buffer's callback starts a packet; an event drains it flit by
  flit into the output virtual channel, and starts the next one behind the last flit.

  The interplay of the buffer with its callback is a locale; its instance is the unit's own
  callback. Every reachable state accounts for every accepted byte: what was injected, what is
  left of the current packet and what the buffer holds is the accepted stream, in order.
\<close>

section \<open>State\<close>

record NocRouteInfo =
  rt_vnet :: int
  src_ni :: int
  src_router :: int
  dest_ni :: int
  dest_router :: int
  hops_traversed :: int

definition default_NocRouteInfo :: NocRouteInfo where
  "default_NocRouteInfo = \<lparr> rt_vnet = 0, src_ni = 0, src_router = 0, dest_ni = 0, dest_router = 0,
     hops_traversed = 0 \<rparr>"

record NPPInfo =
  npp_valid :: bool
  flit_num :: int
  packet_id :: int
  npp_vc :: int
  route :: NocRouteInfo
  num_flits :: int
  npp_message :: "NocStreamMsg option"
  npp_oPort :: "port option"
  last_flit_size_bytes :: int

definition default_NPPInfo :: NPPInfo where
  "default_NPPInfo = \<lparr> npp_valid = False, flit_num = 0, packet_id = 0, npp_vc = 0,
     route = default_NocRouteInfo, num_flits = 0, npp_message = None, npp_oPort = None,
     last_flit_size_bytes = 0 \<rparr>"

record flit =
  fl_packet_id :: int
  fl_id :: int
  fl_vc :: int
  fl_vnet :: int
  fl_route :: NocRouteInfo
  fl_num_flits :: int
  fl_msg :: NocStreamMsg

text \<open>
  The unit without its buffer. \<open>injected\<close> are the flits handed to the output virtual
  channels so far, in order; \<open>next_packet_id\<close> is the network's counter.
\<close>

record sNMU =
  s_id :: int
  currNPPInfo :: NPPInfo
  inQueueBytes :: int
  deqScheduled :: bool
  injected :: "flit list"
  next_packet_id :: int
  enqueue_time0 :: Tick
  outVc0_active :: bool

text \<open>The tables of the network the unit asks: destination, virtual channel and router ids.\<close>

record network =
  getAxisDestNi :: "int \<Rightarrow> u32 \<Rightarrow> int"
  getPathVC :: "int \<Rightarrow> int \<Rightarrow> int"
  get_router_id :: "int \<Rightarrow> int"
  routerID :: "port \<Rightarrow> int"

text \<open>The virtual networks of the channels, and the capacity of an output channel of the interface.\<close>

definition AR_VNET :: int where "AR_VNET = 2"
definition R_VNET :: int where "R_VNET = 2"
definition AW_VNET :: int where "AW_VNET = 3"
definition B_VNET :: int where "B_VNET = 3"
definition W_VNET :: int where "W_VNET = 4"

definition kNppAssemblerMaxFlits :: nat where "kNppAssemblerMaxFlits = 7"
definition kNiOutVcMaxFlits :: nat where "kNiOutVcMaxFlits = 16"

section \<open>Readiness\<close>

text \<open>The sum is computed in 32-bit unsigned arithmetic; the in-flight count is 16 bits wide.\<close>

definition s_inFlightBytes :: "NPPInfo \<Rightarrow> int" where
  "s_inFlightBytes n =
     (if npp_valid n then ((num_flits n - flit_num n - 1) * 16 + last_flit_size_bytes n) mod 2 ^ 16 else 0)"

definition s_getAxiWReady :: "sNMU \<Rightarrow> axisWriteBuffer \<Rightarrow> axisMasterState \<Rightarrow> bool" where
  "s_getAxiWReady s b upstream \<longleftrightarrow>
     (int (wb_bufferSize b) + int (axis_getTotalByteSize (ms_data upstream)) +
      s_inFlightBytes (currNPPInfo s) + int (getDataBitWidth upstream div 8) + inQueueBytes s) mod 2 ^ 32 \<le> 512"

definition enqueueBytes :: "int \<Rightarrow> sNMU \<Rightarrow> sNMU" where
  "enqueueBytes n s = s\<lparr> inQueueBytes := inQueueBytes s + n \<rparr>"

section \<open>Starting a packet\<close>

text \<open>Scheduling an event that is already scheduled is an assertion failure.\<close>

definition schedule_deq :: "sNMU \<Rightarrow> sNMU result" where
  "schedule_deq s =
     (if deqScheduled s then Inl (Panic ''event already scheduled'')
      else Inr (s\<lparr> deqScheduled := True \<rparr>))"

definition s_bufferHeadReadyHandler :: "network \<Rightarrow> sNMU axis_handler" where
  "s_bufferHeadReadyHandler net sb =
     (let (s, b) = sb; info = currNPPInfo s in
      if npp_valid info then Inr sb
      else
        let (packet, outp, b') = popNextPacket b;
            oPort = (case outp of Some (_, op, _) \<Rightarrow> op | None \<Rightarrow> None);
            dbg_id = (case outp of Some (_, _, d) \<Rightarrow> d | None \<Rightarrow> - 1)
        in if totalBytes packet \<le> 0 \<or> totalBytes packet > int NPP_MAX_SIZE
           then Inl (Panic ''sNocMasterUnit: AXIS NPP must contain 1..64 valid bytes'')
           else
             let nf = totalBytes packet div 16 + (if totalBytes packet mod 16 = 0 then 0 else 1);
                 lfs = (if totalBytes packet mod 16 = 0 then 16 else totalBytes packet mod 16);
                 tdst = (case beats packet of [] \<Rightarrow> 0 | d # _ \<Rightarrow> tdest d);
                 dni0 = getAxisDestNi net (s_id s) tdst;
                 dni = (if dni0 < 0 then 0 else dni0);
                 rt = (route info)\<lparr> rt_vnet := W_VNET, src_ni := s_id s,
                        src_router := (case oPort of Some p \<Rightarrow> routerID net p | None \<Rightarrow> - 1),
                        dest_ni := dni, dest_router := get_router_id net dni, hops_traversed := - 1 \<rparr>
             in case beats packet of
                  [] \<Rightarrow> Inl (Undefined ''packet->beats[0]'')
                | beat0 # _ \<Rightarrow>
                    let msg = (network_NocStreamMsg (Some (PlAxis packet)))
                                \<lparr> sm_debug_id := dbg_id, sm_beat_size := trunc8 (DATA_WIDTH beat0 div 8),
                                  sm_num_flits := trunc8 (nat nf) \<rparr>;
                        info' = info\<lparr> npp_oPort := oPort, num_flits := nf, last_flit_size_bytes := lfs,
                                  packet_id := next_packet_id s, npp_vc := getPathVC net (s_id s) dni,
                                  route := rt, npp_message := Some msg, npp_valid := True, flit_num := 0 \<rparr>
                    in rbind (schedule_deq (s\<lparr> currNPPInfo := info', next_packet_id := next_packet_id s + 1 \<rparr>))
                         (\<lambda>s'. Inr (s', b')))"

section \<open>Draining a packet\<close>

text \<open>
  The event handler. \<open>full\<close> says whether the output virtual channel has reached its limit of
  sixteen flits; \<open>injectFlit\<close> tests the same condition, sets the message's source and inserts.
\<close>

definition dequeueIntermediate :: "network \<Rightarrow> bool \<Rightarrow> sNMU \<times> axisWriteBuffer \<Rightarrow> (sNMU \<times> axisWriteBuffer) result" where
  "dequeueIntermediate net full sb =
     (let (s0, b) = sb; s = s0\<lparr> deqScheduled := False \<rparr>; info = currNPPInfo s in
      if flit_num info \<ge> num_flits info then Inr (s, b)
      else if full then rbind (schedule_deq s) (\<lambda>s'. Inr (s', b))
      else case npp_message info of
             None \<Rightarrow> Inl (Undefined ''null message'')
           | Some msg \<Rightarrow>
               let msg' = msg\<lparr> sm_src_ni_id := src_ni (route info) \<rparr>;
                   fl = \<lparr> fl_packet_id = packet_id info, fl_id = flit_num info, fl_vc = npp_vc info,
                          fl_vnet = W_VNET, fl_route = route info, fl_num_flits = num_flits info,
                          fl_msg = msg' \<rparr>;
                   s1 = s\<lparr> injected := injected s @ [fl] \<rparr>
               in if flit_num info = num_flits info - 1
                  then let s2 = s1\<lparr> currNPPInfo := info\<lparr> npp_message := Some msg', npp_valid := False,
                                     npp_oPort := None \<rparr> \<rparr>
                       in rbind (checkDequeueReady (Some (s_bufferHeadReadyHandler net)) (s2, b))
                            (\<lambda>(_, sb'). Inr sb')
                  else rbind (schedule_deq (s1\<lparr> currNPPInfo := info\<lparr> npp_message := Some msg',
                                flit_num := flit_num info + 1 \<rparr> \<rparr>)) (\<lambda>s'. Inr (s', b)))"

section \<open>Accepting a beat\<close>

definition s_flitisizeMessage ::
  "network \<Rightarrow> port option \<Rightarrow> Tick \<Rightarrow> NocStreamMsg \<Rightarrow> int \<Rightarrow> sNMU \<times> axisWriteBuffer \<Rightarrow>
    (sNMU \<times> axisWriteBuffer) result" where
  "s_flitisizeMessage net outport now msg vnet sb =
     (case sm_payload msg of
        MpAxis d \<Rightarrow>
          (case outport of
             None \<Rightarrow> Inl (Panic ''assert(oPort)'')
           | Some op \<Rightarrow>
               rbind (axis_add (Some (s_bufferHeadReadyHandler net)) d (Some op) 0 (sm_debug_id msg) sb)
                 (\<lambda>(s, b). Inr (s\<lparr> inQueueBytes := inQueueBytes s - int (axis_getTotalByteSize d),
                     enqueue_time0 := now, outVc0_active := True \<rparr>, b)))
      | _ \<Rightarrow> Inl (Panic ''sNocMasterUnit::flitisizeMessage: Unsupported payload type''))"

section \<open>The callback contract\<close>

text \<open>
  A callback that takes stream data out of a buffer: \<open>out\<close> is the stream it has taken so far,
  \<open>inv\<close> its owner's invariant and \<open>busy\<close> says that the owner has a packet to send. It never
  fails on a well-formed buffer with a ready packet, and leaves its owner busy.
\<close>

locale axis_head_handler =
  fixes h :: "'s axis_handler"
    and out :: "'s \<Rightarrow> (byte \<times> bool) list"
    and inv :: "'s \<Rightarrow> bool"
    and busy :: "'s \<Rightarrow> bool"
  assumes handler_ok: "axis_buffer_wf b \<Longrightarrow> inv s \<Longrightarrow> nextDequeuePos b \<noteq> - 1 \<Longrightarrow>
    \<exists>s' b'. h (s, b) = Inr (s', b') \<and> axis_buffer_wf b' \<and> inv s' \<and> busy s' \<and>
      out s' @ stream b' = out s @ stream b"
begin

lemma check_ok:
  assumes "axis_buffer_wf b" and "inv s"
  shows "\<exists>r s' b'. checkDequeueReady (Some h) (s, b) = Inr (r, s', b') \<and> axis_buffer_wf b' \<and> inv s' \<and>
    (nextDequeuePos b' \<noteq> - 1 \<longrightarrow> busy s') \<and> out s' @ stream b' = out s @ stream b"
  using handler_ok [OF assms] assms by (cases "nextDequeuePos b = - 1") (auto simp: checkDequeueReady_def)

lemma add_ok:
  assumes wf: "axis_buffer_wf b" and inv: "inv s" and d: "axis_wf d" "kept_bytes d \<noteq> []"
    and id: "beat_accepted b d" and fits: "length (stream b) + length (kept_bytes d) < 65536"
  shows "\<exists>s' b'. axis_add (Some h) d oPort vc dbg (s, b) = Inr (s', b') \<and> axis_buffer_wf b' \<and> inv s' \<and>
    (nextDequeuePos b' \<noteq> - 1 \<longrightarrow> busy s') \<and> out s' @ stream b' = out s @ stream b @ beat_stream d"
proof -
  obtain b1 where add: "axis_append d oPort vc dbg b = Inr b1"
    using id axis_append_panic [of d oPort vc dbg b] by (cases "axis_append d oPort vc dbg b") auto
  with axis_append_stream [OF wf d fits add]
  have b1: "axis_buffer_wf b1" "stream b1 = stream b @ beat_stream d" by simp_all
  from check_ok [OF b1(1) inv] show ?thesis
    by (auto simp: axis_add_def add b1(2))
qed

end

section \<open>What the unit has sent\<close>

definition flit_stream :: "flit \<Rightarrow> (byte \<times> bool) list" where
  "flit_stream f = (case sm_pload (fl_msg f) of
     PlAxis p \<Rightarrow> mark (flit_slice (payload_bytes p) (nat (fl_id f)))
                  (fl_id f = fl_num_flits f - 1 \<and> pl_last p = 1)
   | PlAximm _ \<Rightarrow> [])"

definition sent :: "sNMU \<Rightarrow> (byte \<times> bool) list" where
  "sent s = concat (map flit_stream (injected s))"

definition inflight :: "sNMU \<Rightarrow> (byte \<times> bool) list" where
  "inflight s = (let info = currNPPInfo s in
     if npp_valid info
     then case npp_message info of
            Some m \<Rightarrow> (case sm_pload m of
                         PlAxis p \<Rightarrow> mark (drop (16 * nat (flit_num info)) (payload_bytes p)) (pl_last p = 1)
                       | PlAximm _ \<Rightarrow> [])
          | None \<Rightarrow> []
     else [])"

definition nmu_inv :: "sNMU \<Rightarrow> bool" where
  "nmu_inv s \<longleftrightarrow> (let info = currNPPInfo s in
     (deqScheduled s \<longleftrightarrow> npp_valid info) \<and>
     (npp_valid info \<longrightarrow> (\<exists>m p. npp_message info = Some m \<and> sm_pload m = PlAxis p \<and> payload_wf p \<and>
        payload_bytes p \<noteq> [] \<and> length (payload_bytes p) \<le> NPP_MAX_SIZE \<and>
        num_flits info = int (flits_for (length (payload_bytes p))) \<and>
        last_flit_size_bytes info = int (length (payload_bytes p)) - 16 * (num_flits info - 1) \<and>
        0 \<le> flit_num info \<and> flit_num info < num_flits info)))"

lemma int_flits_for:
  "int (flits_for n) = int n div 16 + (if int n mod 16 = 0 then 0 else 1)"
proof -
  have "int n mod 16 = int (n mod 16)" "int n div 16 = int (n div 16)" by (simp_all add: zmod_int zdiv_int)
  then show ?thesis by (simp add: flits_for_def)
qed

lemma last_flit_size:
  "0 < n \<Longrightarrow> (if int n mod 16 = 0 then 16 else int n mod 16) = int n - 16 * (int (flits_for n) - 1)"
  using div_mult_mod_eq [of "int n" 16] unfolding int_flits_for by (auto simp: algebra_simps)

interpretation snmu: axis_head_handler "s_bufferHeadReadyHandler net" "\<lambda>s. sent s @ inflight s" nmu_inv
  "\<lambda>s. npp_valid (currNPPInfo s)" for net
proof unfold_locales
  fix b s
  assume wf: "axis_buffer_wf b" and inv: "nmu_inv s" and pos: "nextDequeuePos b \<noteq> - 1"
  show "\<exists>s' b'. s_bufferHeadReadyHandler net (s, b) = Inr (s', b') \<and> axis_buffer_wf b' \<and> nmu_inv s' \<and>
      npp_valid (currNPPInfo s') \<and> (sent s' @ inflight s') @ stream b' = (sent s @ inflight s) @ stream b"
  proof (cases "npp_valid (currNPPInfo s)")
    case True
    then show ?thesis using wf inv by (simp add: s_bufferHeadReadyHandler_def)
  next
    case False
    obtain p outp b' where pop: "popNextPacket b = (p, outp, b')" by (metis prod_cases3)
    note ps = popNextPacket_stream [OF wf pos pop]
    have len: "totalBytes p = int (length (payload_bytes p))" "beats p \<noteq> []"
      using ps by (auto simp: payload_wf_def payload_bytes_def)
    then obtain d ds where ds: "beats p = d # ds" by (cases "beats p") auto
    have idle: "\<not> deqScheduled s" using inv False by (simp add: nmu_inv_def Let_def)
    show ?thesis
      using False ps idle flits_for_pos [of "length (payload_bytes p)"]
        last_flit_size [of "length (payload_bytes p)"]
      by (auto simp: s_bufferHeadReadyHandler_def pop ds len Let_def schedule_deq_def nmu_inv_def sent_def
          inflight_def network_NocStreamMsg_def NPP_MAX_SIZE_def simp flip: int_flits_for split: if_splits)
  qed
qed

text \<open>The callback injects nothing itself and does not touch the booked bytes.\<close>

lemma handler_frame:
  "s_bufferHeadReadyHandler net (s, b) = Inr (s', b') \<Longrightarrow>
    injected s' = injected s \<and> inQueueBytes s' = inQueueBytes s"
  by (auto simp: s_bufferHeadReadyHandler_def schedule_deq_def Let_def split: if_splits prod.splits list.splits)

lemma check_frame:
  "checkDequeueReady (Some (s_bufferHeadReadyHandler net)) (s, b) = Inr (r, s', b') \<Longrightarrow>
    injected s' = injected s \<and> inQueueBytes s' = inQueueBytes s"
  by (auto simp: checkDequeueReady_def rbind_Inr_iff dest: handler_frame split: if_splits)

lemma axis_add_frame:
  "axis_add (Some (s_bufferHeadReadyHandler net)) d op vc dbg (s, b) = Inr (s', b') \<Longrightarrow>
    injected s' = injected s \<and> inQueueBytes s' = inQueueBytes s"
  by (auto simp: axis_add_def rbind_Inr_iff dest: check_frame)

lemma dequeue_frame:
  "dequeueIntermediate net full (s, b) = Inr (s', b') \<Longrightarrow> inQueueBytes s' = inQueueBytes s"
  by (auto simp: dequeueIntermediate_def schedule_deq_def Let_def rbind_Inr_iff
      dest!: check_frame split: if_splits option.splits)

text \<open>One firing of the drain event.\<close>

text \<open>The packet of a busy unit and the flit the next firing injects.\<close>

definition next_flit :: "sNMU \<Rightarrow> NocStreamMsg \<Rightarrow> flit" where
  "next_flit s m = (let info = currNPPInfo s in
     \<lparr> fl_packet_id = packet_id info, fl_id = flit_num info, fl_vc = npp_vc info, fl_vnet = W_VNET,
       fl_route = route info, fl_num_flits = num_flits info,
       fl_msg = m\<lparr> sm_src_ni_id := src_ni (route info) \<rparr> \<rparr>)"

lemma nmu_busy:
  assumes "nmu_inv s" and "npp_valid (currNPPInfo s)"
  obtains m p n where "npp_message (currNPPInfo s) = Some m" "sm_pload m = PlAxis p" "payload_wf p"
    "flit_num (currNPPInfo s) = int n" "n < flits_for (length (payload_bytes p))"
    "num_flits (currNPPInfo s) = int (flits_for (length (payload_bytes p)))"
    "flit_stream (next_flit s m) = mark (flit_slice (payload_bytes p) n)
      (Suc n = flits_for (length (payload_bytes p)) \<and> pl_last p = 1)"
    "inflight s = flit_stream (next_flit s m) @ mark (drop (16 * Suc n) (payload_bytes p)) (pl_last p = 1)"
    "flit_stream (next_flit s m) \<noteq> []"
proof -
  let ?info = "currNPPInfo s"
  obtain m p where mp: "npp_message ?info = Some m" "sm_pload m = PlAxis p" "payload_wf p"
    "num_flits ?info = int (flits_for (length (payload_bytes p)))"
    "0 \<le> flit_num ?info" "flit_num ?info < num_flits ?info"
    using assms by (auto simp: nmu_inv_def Let_def)
  define n where "n = nat (flit_num ?info)"
  have n: "flit_num ?info = int n" "n < flits_for (length (payload_bytes p))" using mp by (simp_all add: n_def)
  then have "flit_num ?info = num_flits ?info - 1 \<longleftrightarrow> Suc n = flits_for (length (payload_bytes p))"
    using mp(4) by linarith
  then have fs: "flit_stream (next_flit s m) = mark (flit_slice (payload_bytes p) n)
      (Suc n = flits_for (length (payload_bytes p)) \<and> pl_last p = 1)"
    by (simp add: flit_stream_def next_flit_def mp n Let_def)
  show thesis
    by (rule that [OF mp(1-3) n mp(4) fs])
      (use mark_flit_split [OF mp(3) n(2)] flit_facts(6) [OF mp(3) n(2)] assms(2) mp(1,2) n(1) in
        \<open>simp_all add: fs inflight_def\<close>)
qed

lemma dequeue_full:
  "nmu_inv s \<Longrightarrow> deqScheduled s \<Longrightarrow> dequeueIntermediate net True (s, b) = Inr (s, b)"
  by (auto simp: dequeueIntermediate_def schedule_deq_def nmu_inv_def Let_def)

lemma dequeue_mid:
  assumes inv: "nmu_inv s" and ev: "deqScheduled s"
    and m: "npp_message (currNPPInfo s) = Some m" "sm_pload m = PlAxis p"
    "num_flits (currNPPInfo s) = int (flits_for (length (payload_bytes p)))"
    "flit_num (currNPPInfo s) = int n" "Suc n < flits_for (length (payload_bytes p))"
  obtains s' where "dequeueIntermediate net False (s, b) = Inr (s', b)" "nmu_inv s'"
    "npp_valid (currNPPInfo s')" "sent s' = sent s @ flit_stream (next_flit s m)"
    "inflight s' = mark (drop (16 * Suc n) (payload_bytes p)) (pl_last p = 1)"
proof
  let ?info = "currNPPInfo s"
  define s' where "s' = s\<lparr> injected := injected s @ [next_flit s m],
    currNPPInfo := ?info\<lparr> npp_message := Some (m\<lparr> sm_src_ni_id := src_ni (route ?info) \<rparr>),
      flit_num := flit_num ?info + 1 \<rparr> \<rparr>"
  have valid: "npp_valid ?info" using inv ev by (simp add: nmu_inv_def Let_def)
  show "dequeueIntermediate net False (s, b) = Inr (s', b)"
    using m ev by (simp add: dequeueIntermediate_def Let_def s'_def next_flit_def schedule_deq_def)
  show "nmu_inv s'" using inv m ev by (auto simp: nmu_inv_def s'_def Let_def)
  show "npp_valid (currNPPInfo s')" by (simp add: s'_def valid)
  show "sent s' = sent s @ flit_stream (next_flit s m)" by (simp add: s'_def sent_def)
  show "inflight s' = mark (drop (16 * Suc n) (payload_bytes p)) (pl_last p = 1)"
    using m valid by (simp add: s'_def inflight_def nat_add_distrib)
qed

lemma dequeue_tail:
  assumes wf: "axis_buffer_wf b"
    and m: "npp_message (currNPPInfo s) = Some m" "num_flits (currNPPInfo s) = int (Suc n)"
    "flit_num (currNPPInfo s) = int n"
  obtains s' b' where "dequeueIntermediate net False (s, b) = Inr (s', b')" "axis_buffer_wf b'" "nmu_inv s'"
    "\<not> npp_valid (currNPPInfo s') \<longrightarrow> nextDequeuePos b' = - 1" "sent s' = sent s @ flit_stream (next_flit s m)"
    "inflight s' @ stream b' = stream b"
proof -
  let ?info = "currNPPInfo s"
  define s2 where "s2 = s\<lparr> deqScheduled := False, injected := injected s @ [next_flit s m],
    currNPPInfo := ?info\<lparr> npp_message := Some (m\<lparr> sm_src_ni_id := src_ni (route ?info) \<rparr>),
      npp_valid := False, npp_oPort := None \<rparr> \<rparr>"
  have run: "dequeueIntermediate net False (s, b) =
      rbind (checkDequeueReady (Some (s_bufferHeadReadyHandler net)) (s2, b)) (\<lambda>(_, sb'). Inr sb')"
    using m by (simp add: dequeueIntermediate_def Let_def s2_def next_flit_def)
  have s2: "nmu_inv s2" "inflight s2 = []" "sent s2 = sent s @ flit_stream (next_flit s m)"
    by (simp_all add: s2_def nmu_inv_def inflight_def sent_def)
  obtain r s' b' where chk: "checkDequeueReady (Some (s_bufferHeadReadyHandler net)) (s2, b) = Inr (r, s', b')"
    "axis_buffer_wf b'" "nmu_inv s'" "nextDequeuePos b' \<noteq> - 1 \<longrightarrow> npp_valid (currNPPInfo s')"
    "(sent s' @ inflight s') @ stream b' = (sent s2 @ inflight s2) @ stream b"
    using snmu.check_ok [OF wf s2(1)] by blast
  have "sent s' = sent s2" using check_frame [OF chk(1)] by (simp add: sent_def)
  then show thesis using chk s2 by (intro that [of s' b']) (auto simp: run)
qed

lemma dequeueIntermediate_ok:
  assumes wf: "axis_buffer_wf b" and inv: "nmu_inv s" and ev: "deqScheduled s"
  shows "\<exists>s' b'. dequeueIntermediate net full (s, b) = Inr (s', b') \<and> axis_buffer_wf b' \<and> nmu_inv s' \<and>
    (\<not> npp_valid (currNPPInfo s') \<longrightarrow> nextDequeuePos b' = - 1) \<and>
    (sent s' @ inflight s') @ stream b' = (sent s @ inflight s) @ stream b \<and>
    (if full then sent s' = sent s else length (sent s) < length (sent s'))"
proof -
  have valid: "npp_valid (currNPPInfo s)" using inv ev by (simp add: nmu_inv_def Let_def)
  obtain m p n where b: "npp_message (currNPPInfo s) = Some m" "sm_pload m = PlAxis p" "payload_wf p"
    "flit_num (currNPPInfo s) = int n" "n < flits_for (length (payload_bytes p))"
    "num_flits (currNPPInfo s) = int (flits_for (length (payload_bytes p)))"
    "inflight s = flit_stream (next_flit s m) @ mark (drop (16 * Suc n) (payload_bytes p)) (pl_last p = 1)"
    "flit_stream (next_flit s m) \<noteq> []"
    using nmu_busy [OF inv valid] by metis
  consider (full) full | (tail) "\<not> full" "Suc n = flits_for (length (payload_bytes p))"
    | (mid) "\<not> full" "Suc n < flits_for (length (payload_bytes p))" using b(5) by linarith
  then show ?thesis
  proof cases
    case full
    then show ?thesis using dequeue_full [OF inv ev] wf inv valid by simp
  next
    case tail
    have "mark (drop (16 * Suc n) (payload_bytes p)) (pl_last p = 1) = []"
      using flits_for_bounds(2) [OF b(5)] tail(2) by simp
    moreover obtain s' b' where "dequeueIntermediate net False (s, b) = Inr (s', b')" "axis_buffer_wf b'" "nmu_inv s'"
      "\<not> npp_valid (currNPPInfo s') \<longrightarrow> nextDequeuePos b' = - 1" "sent s' = sent s @ flit_stream (next_flit s m)"
      "inflight s' @ stream b' = stream b"
      using dequeue_tail [OF wf b(1) b(6) [folded tail(2)] b(4)] by metis
    ultimately show ?thesis using tail(1) b(7,8) by (intro exI [of _ s'] exI [of _ b']) simp
  next
    case mid
    obtain s' where "dequeueIntermediate net False (s, b) = Inr (s', b)" "nmu_inv s'" "npp_valid (currNPPInfo s')"
      "sent s' = sent s @ flit_stream (next_flit s m)"
      "inflight s' = mark (drop (16 * Suc n) (payload_bytes p)) (pl_last p = 1)"
      using dequeue_mid [OF inv ev b(1,2,6,4) mid(2)] by metis
    then show ?thesis using mid(1) b(7,8) wf by (intro exI [of _ s'] exI [of _ b]) simp
  qed
qed

section \<open>Reachable states\<close>

definition new_sNMU :: "int \<Rightarrow> int \<Rightarrow> sNMU" where
  "new_sNMU i n = \<lparr> s_id = i, currNPPInfo = default_NPPInfo, inQueueBytes = 0, deqScheduled = False,
     injected = [], next_packet_id = n, enqueue_time0 = 0, outVc0_active = False \<rparr>"

text \<open>The message a handshaken beat becomes on its way through the message buffer to the unit.\<close>

definition beat_message :: "axisMasterState \<Rightarrow> NocStreamMsg" where
  "beat_message up =
     (let m = buffer_NocStreamMsg (Some (MpAxis (ms_data up)))
      in if 0 \<le> ms_debugId up then m\<lparr> sm_debug_id := ms_debugId up \<rparr> else m)"

type_synonym stream_source = "sNMU \<times> axisWriteBuffer \<times> axisMasterState list"

text \<open>
  The endpoint as a state machine: a handshake when the unit is ready books the beat and puts
  it in flight towards the unit, its arrival runs \<open>flitisizeMessage\<close>, and the drain event fires
  while it is scheduled, finding the output channel full or not. The list records the beats
  handshaken so far.
\<close>

inductive source_reach :: "network \<Rightarrow> stream_source \<Rightarrow> axisData list \<Rightarrow> bool" for net where
  start: "source_reach net (new_sNMU i n, new_axisWriteBuffer, []) []"
| handshake: "source_reach net (s, b, q) ds \<Longrightarrow> s_getAxiWReady s b up \<Longrightarrow> axis_wf (ms_data up) \<Longrightarrow>
    kept_bytes (ms_data up) \<noteq> [] \<Longrightarrow>
    source_reach net (enqueueBytes (int (axis_getTotalByteSize (ms_data up))) s, b, q @ [up]) (ds @ [ms_data up])"
| arrive: "source_reach net (s, b, up # q) ds \<Longrightarrow>
    s_flitisizeMessage net (Some op) now (beat_message up) W_VNET (s, b) = Inr (s', b') \<Longrightarrow>
    source_reach net (s', b', q) ds"
| fire: "source_reach net (s, b, q) ds \<Longrightarrow> deqScheduled s \<Longrightarrow>
    dequeueIntermediate net full (s, b) = Inr (s', b') \<Longrightarrow> source_reach net (s', b', q) ds"

definition pending_stream :: "axisMasterState list \<Rightarrow> (byte \<times> bool) list" where
  "pending_stream q = beats_stream (map ms_data q)"

lemma pending_stream_simps [simp]:
  "pending_stream [] = []"
  "pending_stream (up # q) = beat_stream (ms_data up) @ pending_stream q"
  "pending_stream (q @ q') = pending_stream q @ pending_stream q'"
  by (simp_all add: pending_stream_def beats_stream_def)

text \<open>The invariant of the endpoint.\<close>

definition source_inv :: "stream_source \<Rightarrow> bool" where
  "source_inv sbq \<longleftrightarrow> (case sbq of (s, b, q) \<Rightarrow>
     axis_buffer_wf b \<and> nmu_inv s \<and> (\<not> npp_valid (currNPPInfo s) \<longrightarrow> nextDequeuePos b = - 1) \<and>
     list_all (\<lambda>up. axis_wf (ms_data up) \<and> kept_bytes (ms_data up) \<noteq> []) q \<and>
     inQueueBytes s = int (length (pending_stream q)) \<and>
     length (stream b) + length (inflight s) + length (pending_stream q) \<le> 512)"

lemma inFlightBytes_eq:
  assumes "nmu_inv s"
  shows "s_inFlightBytes (currNPPInfo s) = int (length (inflight s))"
proof (cases "npp_valid (currNPPInfo s)")
  case True
  let ?info = "currNPPInfo s"
  obtain m p where mp: "npp_message ?info = Some m" "sm_pload m = PlAxis p"
    "length (payload_bytes p) \<le> NPP_MAX_SIZE" "num_flits ?info = int (flits_for (length (payload_bytes p)))"
    "last_flit_size_bytes ?info = int (length (payload_bytes p)) - 16 * (num_flits ?info - 1)"
    "0 \<le> flit_num ?info" "flit_num ?info < num_flits ?info"
    using assms True by (auto simp: nmu_inv_def Let_def)
  let ?n = "nat (flit_num ?info)" and ?L = "length (payload_bytes p)"
  have "16 * ?n < ?L" using flits_for_bounds(1) [of ?n ?L] mp by linarith
  then have "(num_flits ?info - flit_num ?info - 1) * 16 + last_flit_size_bytes ?info = int (?L - 16 * ?n)"
    using mp(5,6) by simp
  moreover have "?L - 16 * ?n < 65536" using mp(3) by (simp add: NPP_MAX_SIZE_def)
  ultimately show ?thesis using True mp by (simp add: s_inFlightBytes_def inflight_def)
qed (simp add: s_inFlightBytes_def inflight_def)

definition all_stream :: "stream_source \<Rightarrow> (byte \<times> bool) list" where
  "all_stream sbq = (case sbq of (s, b, q) \<Rightarrow> sent s @ inflight s @ stream b @ pending_stream q)"

lemma source_inv_start: "source_inv (new_sNMU i n, new_axisWriteBuffer, [])"
  by (simp add: source_inv_def axis_buffer_wf_def new_axisWriteBuffer_def stream_def nmu_inv_def
      new_sNMU_def default_NPPInfo_def inflight_def next_dequeue_pos_def NPP_SIZE_def NPP_MAX_SIZE_def)

lemma nmu_bookkeeping [simp]:
  "sent (s\<lparr> inQueueBytes := x \<rparr>) = sent s" "inflight (s\<lparr> inQueueBytes := x \<rparr>) = inflight s"
  "nmu_inv (s\<lparr> inQueueBytes := x \<rparr>) = nmu_inv s"
  "sent (s\<lparr> inQueueBytes := x, enqueue_time0 := t, outVc0_active := a \<rparr>) = sent s"
  "inflight (s\<lparr> inQueueBytes := x, enqueue_time0 := t, outVc0_active := a \<rparr>) = inflight s"
  "nmu_inv (s\<lparr> inQueueBytes := x, enqueue_time0 := t, outVc0_active := a \<rparr>) = nmu_inv s"
  by (simp_all add: sent_def inflight_def nmu_inv_def)

lemma source_handshake:
  assumes inv: "source_inv (s, b, q)" and ready: "s_getAxiWReady s b up"
    and up: "axis_wf (ms_data up)" "kept_bytes (ms_data up) \<noteq> []"
  shows "source_inv (enqueueBytes (int (axis_getTotalByteSize (ms_data up))) s, b, q @ [up])"
proof -
  let ?d = "ms_data up"
  have b: "wb_bufferSize b = length (stream b)" and q: "inQueueBytes s = int (length (pending_stream q))"
    and fits: "length (stream b) + length (inflight s) + length (pending_stream q) \<le> 512"
    using inv by (auto simp: source_inv_def axis_buffer_wf_def)
  have fl: "s_inFlightBytes (currNPPInfo s) = int (length (inflight s))"
    using inv by (intro inFlightBytes_eq) (simp add: source_inv_def)
  let ?sum = "int (length (stream b)) + int (length (kept_bytes ?d)) + int (length (inflight s)) +
      int (DATA_WIDTH ?d div 8) + int (length (pending_stream q))"
  have "DATA_WIDTH ?d div 8 \<le> 64" using up(1) by (auto simp: axis_wf_def)
  then have "?sum < 2 ^ 32" using fits kept_bytes_le_64 [OF up(1)] by simp
  moreover have "?sum mod 2 ^ 32 \<le> 512"
    using ready by (simp add: s_getAxiWReady_def b fl q getDataBitWidth_def getTotalByteSize_kept [OF up(1)])
  ultimately have "?sum \<le> 512" by (subst (asm) mod_pos_pos_trivial) auto
  then have "length (stream b) + length (inflight s) + length (pending_stream q) + length (kept_bytes ?d) \<le> 512"
    by linarith
  then show ?thesis using inv up
    by (simp add: source_inv_def enqueueBytes_def getTotalByteSize_kept beat_stream_def)
qed

lemma source_arrive:
  assumes inv: "source_inv (s, b, up # q)"
    and id: "beat_accepted b (ms_data up)"
  shows "\<exists>s' b'. s_flitisizeMessage net (Some op) now (beat_message up) vn (s, b) = Inr (s', b') \<and>
    source_inv (s', b', q) \<and> all_stream (s', b', q) = all_stream (s, b, up # q)"
proof -
  let ?d = "ms_data up"
  have d: "axis_wf ?d" "kept_bytes ?d \<noteq> []" and wf: "axis_buffer_wf b" "nmu_inv s"
    and fits: "length (stream b) + length (kept_bytes ?d) < 65536"
    using inv by (auto simp: source_inv_def beat_stream_def)
  obtain s1 b1 where add: "axis_add (Some (s_bufferHeadReadyHandler net)) ?d (Some op) 0
      (sm_debug_id (beat_message up)) (s, b) = Inr (s1, b1)"
    "axis_buffer_wf b1" "nmu_inv s1" "nextDequeuePos b1 \<noteq> - 1 \<longrightarrow> npp_valid (currNPPInfo s1)"
    "(sent s1 @ inflight s1) @ stream b1 = (sent s @ inflight s) @ stream b @ beat_stream ?d"
    using snmu.add_ok [OF wf d id fits] by blast
  have len: "length (inflight s1) + length (stream b1) = length (inflight s) + length (stream b) + length (kept_bytes ?d)"
    using axis_add_frame [OF add(1)] arg_cong [OF add(5), of length]
    by (simp add: sent_def beat_stream_def)
  have msg: "sm_payload (beat_message up) = MpAxis ?d"
    by (simp add: beat_message_def buffer_NocStreamMsg_def Let_def)
  define s2 where "s2 = s1\<lparr> inQueueBytes := inQueueBytes s1 - int (axis_getTotalByteSize ?d),
    enqueue_time0 := now, outVc0_active := True \<rparr>"
  have run: "s_flitisizeMessage net (Some op) now (beat_message up) vn (s, b) = Inr (s2, b1)"
    by (simp add: s_flitisizeMessage_def msg add(1) s2_def)
  have "source_inv (s2, b1, q)"
    using inv add(2-4) len axis_add_frame [OF add(1)] getTotalByteSize_kept [OF d(1)]
    by (auto simp: source_inv_def s2_def beat_stream_def)
  moreover have "all_stream (s2, b1, q) = all_stream (s, b, up # q)"
    using add(5) by (simp add: all_stream_def s2_def)
  ultimately show ?thesis using run by blast
qed

lemma source_fire:
  assumes inv: "source_inv (s, b, q)" and ev: "deqScheduled s"
  shows "\<exists>s' b'. dequeueIntermediate net full (s, b) = Inr (s', b') \<and> source_inv (s', b', q) \<and>
    all_stream (s', b', q) = all_stream (s, b, q) \<and> (\<not> full \<longrightarrow> length (sent s) < length (sent s'))"
proof -
  from inv have "axis_buffer_wf b" "nmu_inv s" by (auto simp: source_inv_def)
  from dequeueIntermediate_ok [OF this ev, of net full]
  obtain s' b' where run: "dequeueIntermediate net full (s, b) = Inr (s', b')" "axis_buffer_wf b'" "nmu_inv s'"
    "\<not> npp_valid (currNPPInfo s') \<longrightarrow> nextDequeuePos b' = - 1"
    "(sent s' @ inflight s') @ stream b' = (sent s @ inflight s) @ stream b"
    "if full then sent s' = sent s else length (sent s) < length (sent s')" by blast
  have "length (inflight s') + length (stream b') \<le> length (inflight s) + length (stream b)"
    using run(6) arg_cong [OF run(5), of length] by (auto split: if_splits)
  then have "source_inv (s', b', q)"
    using inv run(2-4) dequeue_frame [OF run(1)] by (simp add: source_inv_def)
  moreover have "all_stream (s', b', q) = all_stream (s, b, q)" using run(5) by (simp add: all_stream_def)
  ultimately show ?thesis using run(1,6) by auto
qed

lemma source_reach_inv:
  "source_reach net sbq ds \<Longrightarrow> source_inv sbq \<and> all_stream sbq = beats_stream ds"
proof (induction rule: source_reach.induct)
  case (start i n)
  then show ?case using source_inv_start
    by (simp add: all_stream_def sent_def new_sNMU_def inflight_def default_NPPInfo_def stream_def new_axisWriteBuffer_def)
next
  case (handshake s b q ds up)
  then have "all_stream (enqueueBytes (int (axis_getTotalByteSize (ms_data up))) s, b, q @ [up]) =
      beats_stream (ds @ [ms_data up])"
    by (simp add: all_stream_def enqueueBytes_def beats_stream_def)
  with source_handshake handshake show ?case by blast
next
  case (arrive s b up q ds op now s' b')
  have "beat_accepted b (ms_data up)"
  proof (rule ccontr)
    assume "\<not> beat_accepted b (ms_data up)"
    then have "axis_append (ms_data up) (Some op) 0 (sm_debug_id (beat_message up)) b =
        Inl (Panic ''AXIS Write Buffer: tid or tdest changed before tlast'')" by (simp add: axis_append_panic)
    with arrive.hyps(2) show False
      by (simp add: s_flitisizeMessage_def axis_add_def beat_message_def buffer_NocStreamMsg_def Let_def split: if_splits)
  qed
  with source_arrive [of s b up q net op now W_VNET] arrive show ?case by auto
next
  case (fire s b q ds full s' b')
  with source_fire [of s b q net full] show ?case by auto
qed

section \<open>Draining\<close>

text \<open>Letting the drain event run while the network takes every flit; \<open>k\<close> bounds the firings.\<close>

fun drain_source :: "network \<Rightarrow> nat \<Rightarrow> sNMU \<times> axisWriteBuffer \<Rightarrow> (sNMU \<times> axisWriteBuffer) result" where
  "drain_source net 0 sb = Inr sb"
| "drain_source net (Suc k) sb =
     (if deqScheduled (fst sb) then rbind (dequeueIntermediate net False sb) (drain_source net k) else Inr sb)"

lemma source_fire_shrinks:
  assumes "source_inv (s, b, q)" and "deqScheduled s"
  shows "\<exists>s' b'. dequeueIntermediate net False (s, b) = Inr (s', b') \<and> source_inv (s', b', q) \<and>
    all_stream (s', b', q) = all_stream (s, b, q) \<and>
    length (inflight s') + length (stream b') < length (inflight s) + length (stream b)"
proof -
  from source_fire [OF assms, of net False]
  obtain s' b' where run: "dequeueIntermediate net False (s, b) = Inr (s', b')" "source_inv (s', b', q)"
    "all_stream (s', b', q) = all_stream (s, b, q)" "length (sent s) < length (sent s')" by auto
  have "length (inflight s') + length (stream b') < length (inflight s) + length (stream b)"
    using arg_cong [OF run(3), of length] run(4) by (simp add: all_stream_def)
  with run show ?thesis by blast
qed

lemma drain_source_ok:
  "source_inv (s, b, q) \<Longrightarrow> length (inflight s) + length (stream b) \<le> k \<Longrightarrow>
    \<exists>s' b'. drain_source net k (s, b) = Inr (s', b') \<and> source_inv (s', b', q) \<and> \<not> deqScheduled s' \<and>
      all_stream (s', b', q) = all_stream (s, b, q)"
proof (induction k arbitrary: s b)
  case 0
  then show ?case using source_fire_shrinks [OF 0(1)] by (cases "deqScheduled s") auto
next
  case (Suc k)
  show ?case
  proof (cases "deqScheduled s")
    case True
    from source_fire_shrinks [OF Suc.prems(1) True, of net]
    obtain s' b' where run: "dequeueIntermediate net False (s, b) = Inr (s', b')" "source_inv (s', b', q)"
      "all_stream (s', b', q) = all_stream (s, b, q)"
      "length (inflight s') + length (stream b') < length (inflight s) + length (stream b)" by blast
    then have "length (inflight s') + length (stream b') \<le> k" using Suc.prems(2) by linarith
    from Suc.IH [OF run(2) this] show ?thesis using run True by auto
  qed (use Suc.prems in auto)
qed

section \<open>Properties\<close>

lemma source_reach_beats: "source_reach net sbq ds \<Longrightarrow> d \<in> set ds \<Longrightarrow> kept_bytes d \<noteq> []"
  by (induction rule: source_reach.induct) auto

lemma source_reach_inv3:
  "source_reach net (s, b, q) ds \<Longrightarrow> source_inv (s, b, q)"
  "source_reach net (s, b, q) ds \<Longrightarrow> sent s @ inflight s @ stream b @ pending_stream q = beats_stream ds"
  using source_reach_inv [of net "(s, b, q)" ds] by (simp_all add: all_stream_def)

lemma idle_buffer:
  assumes "source_inv (s, b, q)" and "\<not> deqScheduled s"
  shows "inflight s = []" and "nextDequeuePos b = - 1" and "length (stream b) < NPP_MAX_SIZE"
    and "x \<in> set (stream b) \<Longrightarrow> \<not> snd x"
proof -
  have valid: "\<not> npp_valid (currNPPInfo s)" using assms by (simp add: source_inv_def nmu_inv_def Let_def)
  then show "inflight s = []" by (simp add: inflight_def)
  show idle: "nextDequeuePos b = - 1" using assms(1) valid by (simp add: source_inv_def)
  have wf: "axis_buffer_wf b" using assms(1) by (simp add: source_inv_def)
  then have b: "length (stream b) < 65536" "nextDequeuePos b = next_dequeue_pos (ends (stream b)) (length (stream b))"
    by (simp_all add: axis_buffer_wf_def)
  have e: "ends (stream b) = [] \<and> length (stream b) < NPP_SIZE"
    using idle b(2) by (cases rule: next_dequeue_pos_cases [OF b(1)]) auto
  then show "length (stream b) < NPP_MAX_SIZE" by (simp add: NPP_SIZE_def)
  show "\<not> snd x" if "x \<in> set (stream b)"
    using e that by (auto simp: ends_def filter_empty_conv in_set_conv_nth)
qed

text \<open>A reachable endpoint: one beat of 20 bytes with \<open>TLAST\<close> has been handshaken.\<close>

definition sample_net :: network where
  "sample_net = \<lparr> getAxisDestNi = (\<lambda>_ _. 5), getPathVC = (\<lambda>_ _. 1), get_router_id = (\<lambda>_. 7), routerID = (\<lambda>_. 4) \<rparr>"

definition sample_up :: axisMasterState where
  "sample_up = (new_axisMasterState 160 6 4)\<lparr> ms_data := full_beat 20 True \<rparr>"

lemma sample_up_data [simp]: "ms_data sample_up = full_beat 20 True"
  by (simp add: sample_up_def)

lemma sample_handshaken:
  "source_reach sample_net (enqueueBytes 20 (new_sNMU 0 9), new_axisWriteBuffer, [sample_up]) [full_beat 20 True]"
proof -
  have "s_getAxiWReady (new_sNMU 0 9) new_axisWriteBuffer sample_up"
    by (simp add: s_getAxiWReady_def new_axisWriteBuffer_def getTotalByteSize_kept s_inFlightBytes_def
        new_sNMU_def default_NPPInfo_def getDataBitWidth_def)
  from source_reach.handshake [OF source_reach.start this] show ?thesis
    by (simp add: getTotalByteSize_kept)
qed

lemma sample_arrived: "\<exists>s b. source_reach sample_net (s, b, []) [full_beat 20 True] \<and> deqScheduled s"
proof -
  note r = sample_handshaken
  have "beat_accepted new_axisWriteBuffer (ms_data sample_up)"
    by (simp add: beat_accepted_def new_axisWriteBuffer_def)
  from source_arrive [OF source_reach_inv3(1) [OF r] this, of sample_net 0 0 W_VNET]
  obtain s b where run: "s_flitisizeMessage sample_net (Some 0) 0 (beat_message sample_up) W_VNET
      (enqueueBytes 20 (new_sNMU 0 9), new_axisWriteBuffer) = Inr (s, b)" "source_inv (s, b, [])"
    "all_stream (s, b, []) = all_stream (enqueueBytes 20 (new_sNMU 0 9), new_axisWriteBuffer, [sample_up])"
    by blast
  have reach: "source_reach sample_net (s, b, []) [full_beat 20 True]"
    by (rule source_reach.arrive [OF r run(1)])
  have "deqScheduled s"
  proof (rule ccontr)
    assume idle: "\<not> deqScheduled s"
    have "injected s = []"
      using run(1) axis_add_frame
      by (auto simp: s_flitisizeMessage_def beat_message_def buffer_NocStreamMsg_def Let_def rbind_Inr_iff
          enqueueBytes_def new_sNMU_def split: if_splits dest!: axis_add_frame)
    then have "stream b = mark (map of_nat [1..<21]) True"
      using source_reach_inv3(2) [OF reach] idle_buffer(1) [OF run(2) idle]
      by (simp add: sent_def beats_stream_def beat_stream_def)
    moreover have "(of_nat 20, True) \<in> set (mark (map of_nat [1..<21] :: byte list) True)"
      by (simp add: mark_def upt_rec)
    ultimately show False using idle_buffer(4) [OF run(2) idle] by fastforce
  qed
  with reach show ?thesis by blast
qed

text \<open>C5: The stream source endpoint neither loses, repeats nor reorders data. In every
  reachable state the stream of all handshaken beats is what the injected flits carry, followed
  by the rest of the packet in progress, the packetisation buffer and the beats still on their
  way to the unit, with every end of packet in its place.\<close>

theorem stream_source_conservation:
  assumes "source_reach net (s, b, q) ds"
  shows "sent s @ inflight s @ stream b @ pending_stream q = beats_stream ds"
  by (rule source_reach_inv3(2) [OF assms])

theorem stream_source_conservation_witness:
  "\<exists>s b. source_reach sample_net (s, b, []) [full_beat 20 True] \<and>
    sent s @ inflight s @ stream b @ pending_stream [] = beats_stream [full_beat 20 True]"
  using sample_arrived stream_source_conservation by blast

text \<open>Handshakes that respect the unit's ready signal never overrun it: the buffered bytes,
  the rest of the packet in progress and the booked beats together stay within 512 bytes.\<close>

lemma stream_source_capacity:
  assumes "source_reach net (s, b, q) ds"
  shows "int (wb_bufferSize b) + int (length (inflight s)) + inQueueBytes s \<le> 512"
  using source_reach_inv3(1) [OF assms] by (simp add: source_inv_def axis_buffer_wf_def)

lemma stream_source_capacity_witness:
  "int (wb_bufferSize new_axisWriteBuffer) + int (length (inflight (enqueueBytes 20 (new_sNMU 0 9)))) +
    inQueueBytes (enqueueBytes 20 (new_sNMU 0 9)) \<le> 512"
  by (rule stream_source_capacity [OF sample_handshaken])

text \<open>The drain event of a reachable endpoint never fails, whatever the output channel's
  state, and the event is pending exactly while a packet is in progress; an idle endpoint holds
  less than one packet's worth of bytes and no end of packet.\<close>

lemma stream_source_progress:
  assumes "source_reach net (s, b, q) ds"
  shows "(deqScheduled s \<longrightarrow> (\<exists>s' b'. dequeueIntermediate net full (s, b) = Inr (s', b'))) \<and>
    (deqScheduled s \<longleftrightarrow> npp_valid (currNPPInfo s)) \<and>
    (\<not> deqScheduled s \<longrightarrow> length (stream b) < NPP_MAX_SIZE \<and> (\<forall>x \<in> set (stream b). \<not> snd x))"
proof -
  note inv = source_reach_inv3(1) [OF assms]
  then have "deqScheduled s \<longleftrightarrow> npp_valid (currNPPInfo s)"
    by (simp add: source_inv_def nmu_inv_def Let_def)
  then show ?thesis using source_fire [OF inv, of net full] idle_buffer [OF inv] by blast
qed

lemma stream_source_progress_witness:
  "\<exists>s b s' b'. source_reach sample_net (s, b, []) [full_beat 20 True] \<and>
    dequeueIntermediate sample_net False (s, b) = Inr (s', b')"
  using sample_arrived stream_source_progress by metis

lemma drain_delivers:
  assumes "source_reach net (s, b, []) ds" and "ds \<noteq> []" and "tlast (last ds)"
  shows "\<exists>s' b'. drain_source net 512 (s, b) = Inr (s', b') \<and> sent s' = beats_stream ds \<and>
    inflight s' = [] \<and> stream b' = []"
proof -
  note inv = source_reach_inv3(1) [OF assms(1)]
  have "length (inflight s) + length (stream b) \<le> 512" using inv by (simp add: source_inv_def)
  from drain_source_ok [OF inv this, of net]
  obtain s' b' where run: "drain_source net 512 (s, b) = Inr (s', b')" "source_inv (s', b', [])"
    "\<not> deqScheduled s'" "all_stream (s', b', []) = all_stream (s, b, [])" by blast
  note idle = idle_buffer [OF run(2,3)]
  have all: "sent s' @ stream b' = beats_stream ds"
    using run(4) idle(1) source_reach_inv3(2) [OF assms(1)] by (simp add: all_stream_def)
  let ?d = "last ds"
  have "kept_bytes ?d \<noteq> []" using source_reach_beats [OF assms(1)] assms(2) by simp
  then have "beat_stream ?d \<noteq> []" "snd (last (beat_stream ?d))"
    using assms(3) by (simp_all add: beat_stream_def last_conv_nth snd_mark)
  moreover have "beats_stream ds = beats_stream (butlast ds) @ beat_stream ?d"
    using append_butlast_last_id [OF assms(2)] beats_stream_simps(2) [of "butlast ds" "[?d]"]
    by (simp add: beats_stream_def)
  ultimately have "snd (last (beats_stream ds))" by simp
  then have "stream b' = []"
    using idle(4) [of "last (stream b')"] unfolding all [symmetric] by (cases "stream b' = []") auto
  with all run(1) idle(1) show ?thesis by auto
qed

text \<open>C22: Once the last handshaken beat closes its packet and has arrived, letting the drain
  event run delivers everything: after at most 512 firings every accepted byte has been injected
  as flits, in order and with its packet ends, and the endpoint is empty.\<close>

theorem stream_source_delivers:
  assumes "source_reach net (s, b, []) ds" and "ds \<noteq> []" and "tlast (last ds)"
  shows "\<exists>s' b'. drain_source net 512 (s, b) = Inr (s', b') \<and> sent s' = beats_stream ds \<and>
    inflight s' = [] \<and> stream b' = []"
  by (rule drain_delivers [OF assms])

theorem stream_source_delivers_witness:
  "\<exists>s b s' b'. source_reach sample_net (s, b, []) [full_beat 20 True] \<and>
    drain_source sample_net 512 (s, b) = Inr (s', b') \<and> sent s' = beats_stream [full_beat 20 True]"
proof -
  obtain s b where "source_reach sample_net (s, b, []) [full_beat 20 True]" using sample_arrived by blast
  with stream_source_delivers [OF this] show ?thesis by auto
qed

end
