(* ===== verification/Write_Tracker.thy ===== *)
theory Write_Tracker
  imports AXI_Checkpoint
begin

text \<open>
  The tracker of outstanding AXI writes (\<open>WriteTracker\<close> in \<open>src/noc/lib/axi/WriteStructs.hh\<close>
  and \<open>WriteStructs.cc\<close>). An AXI write is split into several packets, each of which is answered
  on its own; the tracker combines the answers of one write into the single response that the
  endpoint sees.

  The master unit's response callback is a parameter with the contract \<open>write_resp_handler\<close>.
  Inside it the tracker is proved to answer, for every interleaving of the packet responses,
  each write exactly once, in order per AXI id, with an error exactly when one of its packets
  had one.
\<close>

section \<open>State and operations\<close>

type_synonym axi_id = "8 word"

record WriteTrackerEntry =
  destID :: "16 word"
  numOutstandingResponses :: "16 word"
  receivedSLVERR :: bool
  wt_vc :: int

record WriteTracker =
  writeTrackerMap :: "axi_id \<rightharpoonup> WriteTrackerEntry list"
  numAxiWrites :: "8 word"

definition new_WriteTrackerEntry :: "16 word \<Rightarrow> 16 word \<Rightarrow> int \<Rightarrow> WriteTrackerEntry" where
  "new_WriteTrackerEntry dest numNPPWrites vc =
     \<lparr> destID = dest, numOutstandingResponses = numNPPWrites, receivedSLVERR = False, wt_vc = vc \<rparr>"

definition new_WriteTracker :: WriteTracker where
  "new_WriteTracker = \<lparr> writeTrackerMap = Map.empty, numAxiWrites = 0 \<rparr>"

text \<open>The index operator of the map creates an empty queue for a new id.\<close>

definition outstanding :: "WriteTracker \<Rightarrow> axi_id \<Rightarrow> WriteTrackerEntry list" where
  "outstanding w i = (case writeTrackerMap w i of None \<Rightarrow> [] | Some dq \<Rightarrow> dq)"

definition addAxiWriteRequest ::
  "axi_id \<Rightarrow> 16 word \<Rightarrow> 16 word \<Rightarrow> int \<Rightarrow> WriteTracker \<Rightarrow> WriteTracker" where
  "addAxiWriteRequest i dest numNPPWrites vc w =
     w\<lparr> writeTrackerMap := (writeTrackerMap w)
          (i \<mapsto> outstanding w i @ [new_WriteTrackerEntry dest numNPPWrites vc]),
        numAxiWrites := numAxiWrites w + 1 \<rparr>"

text \<open>\<open>front\<close> of an empty queue has no defined result.\<close>

definition front :: "'a list \<Rightarrow> 'a result" where
  "front xs = (case xs of [] \<Rightarrow> Inl (Undefined ''front of an empty container'') | x # _ \<Rightarrow> Inr x)"

definition checkSSID :: "axi_id \<Rightarrow> 16 word \<Rightarrow> WriteTracker \<Rightarrow> bool result" where
  "checkSSID i dest w =
     (case writeTrackerMap w i of
        None \<Rightarrow> Inr True
      | Some dq \<Rightarrow> rbind (front dq) (\<lambda>e. Inr (destID e = dest)))"

definition getDestID :: "axi_id \<Rightarrow> WriteTracker \<Rightarrow> 16 word result" where
  "getDestID i w =
     (case writeTrackerMap w i of
        None \<Rightarrow> Inl (Panic ''WriteTracker::getDestID no entry'')
      | Some dq \<Rightarrow> rbind (front dq) (\<lambda>e. Inr (destID e)))"

text \<open>The callback may change its own state and the tracker, from which it takes the entry.\<close>

type_synonym 's wt_handler = "axi_id \<Rightarrow> 's \<times> WriteTracker \<Rightarrow> ('s \<times> WriteTracker) result"

definition markRespReceived ::
  "'s wt_handler option \<Rightarrow> axi_id \<Rightarrow> bool \<Rightarrow> 's \<times> WriteTracker \<Rightarrow> ('s \<times> WriteTracker) result" where
  "markRespReceived handler i err sw =
     (let (s, w) = sw in
      (case writeTrackerMap w i of
         None \<Rightarrow> Inl (Panic ''WriteTracker::markRespReceived no entry'')
       | Some dq \<Rightarrow> rbind (front dq) (\<lambda>e.
           let n = numOutstandingResponses e - 1;
               e' = e\<lparr> numOutstandingResponses := n,
                       receivedSLVERR := (if err then True else receivedSLVERR e) \<rparr>;
               w' = w\<lparr> writeTrackerMap := (writeTrackerMap w)(i \<mapsto> e' # List.tl dq) \<rparr>
           in if n = 0
              then (case handler of
                      Some h \<Rightarrow> h i (s, w')
                    | None \<Rightarrow> Inl (Panic ''No writeRrespReadyHanlder callback''))
              else Inr (s, w'))))"

definition readAndRemoveEntry :: "axi_id \<Rightarrow> WriteTracker \<Rightarrow> (WriteTrackerEntry \<times> WriteTracker) result" where
  "readAndRemoveEntry i w =
     (case writeTrackerMap w i of
        None \<Rightarrow> Inl (Panic ''WriteTracker::readAndRemoveEntry no entry'')
      | Some dq \<Rightarrow> rbind (front dq) (\<lambda>e.
          Inr (e, w\<lparr> writeTrackerMap := (if List.tl dq = [] then (writeTrackerMap w)(i := None)
                                         else (writeTrackerMap w)(i \<mapsto> List.tl dq)),
                     numAxiWrites := numAxiWrites w - 1 \<rparr>)))"

section \<open>Invariant\<close>

text \<open>
  A queue in the map is never empty, every entry waits for at least one response, and the
  counter is the number of entries.
\<close>

definition wt_inv :: "WriteTracker \<Rightarrow> bool" where
  "wt_inv w \<longleftrightarrow> (\<forall>i. writeTrackerMap w i \<noteq> Some []) \<and>
     (\<forall>i. \<forall>e \<in> set (outstanding w i). numOutstandingResponses e \<noteq> 0) \<and>
     numAxiWrites w = of_nat (\<Sum>i\<in>UNIV. length (outstanding w i))"

lemma outstanding_upd [simp]:
  "outstanding (w\<lparr> writeTrackerMap := (writeTrackerMap w)(i \<mapsto> dq) \<rparr>) = (outstanding w)(i := dq)"
  "outstanding (w\<lparr> writeTrackerMap := (writeTrackerMap w)(i := None) \<rparr>) = (outstanding w)(i := [])"
  "outstanding (w\<lparr> numAxiWrites := n \<rparr>) = outstanding w"
  by (auto simp: outstanding_def fun_eq_iff)

lemma outstanding_map: "wt_inv w \<Longrightarrow> writeTrackerMap w i = (if outstanding w i = [] then None else Some (outstanding w i))"
  by (auto simp: wt_inv_def outstanding_def split: option.splits)

lemma total_upd:
  "(\<Sum>j\<in>UNIV. length (((f :: axi_id \<Rightarrow> 'a list)(i := xs)) j)) + length (f i) =
    (\<Sum>j\<in>UNIV. length (f j)) + length xs"
proof -
  have "(\<Sum>j\<in>UNIV. length ((f(i := xs)) j)) = length xs + (\<Sum>j\<in>UNIV - {i}. length (f j))"
    by (subst sum.remove [of UNIV i]) (auto intro!: sum.cong)
  moreover have "(\<Sum>j\<in>UNIV. length (f j)) = length (f i) + (\<Sum>j\<in>UNIV - {i}. length (f j))"
    by (subst sum.remove [of UNIV i]) auto
  ultimately show ?thesis by simp
qed

lemma total_upd_eqs:
  "(\<Sum>j\<in>UNIV. length (((f :: axi_id \<Rightarrow> 'a list)(i := f i @ [x])) j)) = Suc (\<Sum>j\<in>UNIV. length (f j))"
  "f i = y # ys \<Longrightarrow> (\<Sum>j\<in>UNIV. length ((f(i := x # ys)) j)) = (\<Sum>j\<in>UNIV. length (f j))"
  "f i = y # ys \<Longrightarrow> Suc (\<Sum>j\<in>UNIV. length ((f(i := ys)) j)) = (\<Sum>j\<in>UNIV. length (f j))"
  using total_upd [of f i "f i @ [x]"] total_upd [of f i "x # ys"] total_upd [of f i ys] by auto

lemma new_WriteTracker_inv: "wt_inv new_WriteTracker" "outstanding new_WriteTracker i = []"
  by (simp_all add: wt_inv_def new_WriteTracker_def outstanding_def)

lemma addAxiWriteRequest_inv:
  assumes "wt_inv w" and "n \<noteq> 0"
  shows "wt_inv (addAxiWriteRequest i dest n vc w)"
    and "outstanding (addAxiWriteRequest i dest n vc w) =
      (outstanding w)(i := outstanding w i @ [new_WriteTrackerEntry dest n vc])"
  using assms
  by (auto simp: wt_inv_def addAxiWriteRequest_def new_WriteTrackerEntry_def total_upd_eqs(1)
      simp del: fun_upd_apply) (auto split: if_splits)

lemma wt_inv_entry: "wt_inv w \<Longrightarrow> e \<in> set (outstanding w i) \<Longrightarrow> numOutstandingResponses e \<noteq> 0"
  by (simp add: wt_inv_def)

lemma mark_head:
  assumes "wt_inv w" and "outstanding w i = e # es"
  shows "wt_inv (w\<lparr> writeTrackerMap := (writeTrackerMap w)(i \<mapsto> e' # es) \<rparr>) \<longleftrightarrow> numOutstandingResponses e' \<noteq> 0"
proof -
  let ?w = "w\<lparr> writeTrackerMap := (writeTrackerMap w)(i \<mapsto> e' # es) \<rparr>"
  have "numAxiWrites ?w = of_nat (\<Sum>j\<in>UNIV. length (outstanding ?w j))"
    using assms total_upd_eqs(2) [of "outstanding w" i e es e'] by (simp add: wt_inv_def del: fun_upd_apply)
  moreover have "\<forall>x \<in> set es. numOutstandingResponses x \<noteq> 0" using wt_inv_entry [OF assms(1)] assms(2) by (metis list.set_intros(2))
  ultimately show ?thesis using assms(1) by (auto simp: wt_inv_def split: if_splits)
qed

lemma readAndRemoveEntry_head:
  assumes "wt_inv w" and "outstanding w i = e # es" and "numOutstandingResponses e' = 0"
  shows "\<exists>w'. readAndRemoveEntry i (w\<lparr> writeTrackerMap := (writeTrackerMap w)(i \<mapsto> e' # es) \<rparr>) = Inr (e', w') \<and>
    wt_inv w' \<and> outstanding w' = (outstanding w)(i := es)"
proof -
  let ?w = "w\<lparr> writeTrackerMap := (if es = [] then (writeTrackerMap w)(i := None) else (writeTrackerMap w)(i \<mapsto> es)),
    numAxiWrites := numAxiWrites w - 1 \<rparr>"
  have r: "readAndRemoveEntry i (w\<lparr> writeTrackerMap := (writeTrackerMap w)(i \<mapsto> e' # es) \<rparr>) = Inr (e', ?w)"
    by (simp add: readAndRemoveEntry_def front_def)
  have o: "outstanding ?w = (outstanding w)(i := es)" by (simp del: fun_upd_apply)
  have "numAxiWrites ?w = of_nat (\<Sum>j\<in>UNIV. length (outstanding ?w j))"
    using assms total_upd_eqs(3) [of "outstanding w" i e es] unfolding o
    by (simp add: wt_inv_def del: fun_upd_apply of_nat_sum) (metis add_diff_cancel_left' of_nat_Suc)
  moreover have "\<forall>x \<in> set es. numOutstandingResponses x \<noteq> 0" using wt_inv_entry [OF assms(1)] assms(2) by (metis list.set_intros(2))
  ultimately have "wt_inv ?w" using assms(1) unfolding wt_inv_def o by auto
  with r o show ?thesis by blast
qed

section \<open>Responses\<close>

text \<open>
  What the endpoint should see of one id: the packet responses are cut into consecutive groups
  of the lengths that the writes wait for, and each complete group is answered once, with an
  error if the group has one (or the write had one already).
\<close>

fun answered :: "(nat \<times> bool) list \<Rightarrow> bool list \<Rightarrow> bool list" where
  "answered [] errs = []"
| "answered ((n, e) # ws) errs =
     (if length errs < n then []
      else (e \<or> True \<in> set (take n errs)) # answered ws (drop n errs))"

lemma answered_step:
  "0 < n \<Longrightarrow> answered ((n, e) # ws) (x # errs) =
    (if n = 1 then (e \<or> x) # answered ws errs else answered ((n - 1, e \<or> x) # ws) errs)"
  by (cases n) auto

lemma answered_Nil [simp]: "list_all (\<lambda>(n, _). 0 < n) ws \<Longrightarrow> answered ws [] = []"
  by (induction ws) auto

text \<open>
  A sequence of packet responses, each with the callback's view of the moment it arrives, its id and
  whether it reports an error.
\<close>

fun mark_all :: "('t \<Rightarrow> 's wt_handler) \<Rightarrow> ('t \<times> axi_id \<times> bool) list \<Rightarrow> 's \<times> WriteTracker \<Rightarrow> ('s \<times> WriteTracker) result" where
  "mark_all h [] sw = Inr sw"
| "mark_all h ((t, i, err) # rs) sw = rbind (markRespReceived (Some (h t)) i err sw) (mark_all h rs)"

definition of_id :: "axi_id \<Rightarrow> (axi_id \<times> bool) list \<Rightarrow> bool list" where
  "of_id i rs = map snd (filter (\<lambda>(j, _). j = i) rs)"

lemma of_id_simps [simp]:
  "of_id i [] = []" "of_id i ((j, b) # rs) = (if j = i then b # of_id i rs else of_id i rs)"
  "of_id i (rs @ rs') = of_id i rs @ of_id i rs'"
  by (simp_all add: of_id_def)

definition waits :: "WriteTrackerEntry list \<Rightarrow> (nat \<times> bool) list" where
  "waits es = map (\<lambda>e. (unat (numOutstandingResponses e), receivedSLVERR e)) es"

lemma waits_simps [simp]:
  "waits [] = []" "waits (e # es) = (unat (numOutstandingResponses e), receivedSLVERR e) # waits es"
  by (simp_all add: waits_def)

lemma waits_positive: "wt_inv w \<Longrightarrow> list_all (\<lambda>(n, _). 0 < n) (waits (outstanding w i))"
  by (auto simp: wt_inv_def waits_def list_all_iff unat_gt_0)

text \<open>
  The contract of the response callback: while it has room for the answers to come, it takes the
  finished entry and answers its write.
\<close>

locale write_resp_handler =
  fixes h :: "'t \<Rightarrow> 's wt_handler" and out :: "'s \<Rightarrow> (axi_id \<times> bool) list" and room :: "'s \<Rightarrow> 't list \<Rightarrow> bool"
  assumes answers: "readAndRemoveEntry i w = Inr (e, w') \<Longrightarrow> room s (t # ts) \<Longrightarrow>
      \<exists>s'. h t i (s, w) = Inr (s', w') \<and> out s' = out s @ [(i, receivedSLVERR e)] \<and> room s' ts"
    and room_later: "room s (t # ts) \<Longrightarrow> room s ts"
begin

lemma mark_one:
  assumes "wt_inv w" and "outstanding w i = e # es" and room: "room s (t # ts)"
  shows "\<exists>s' w'. markRespReceived (Some (h t)) i err (s, w) = Inr (s', w') \<and> wt_inv w' \<and> room s' ts \<and>
    (if numOutstandingResponses e = 1
     then out s' = out s @ [(i, receivedSLVERR e \<or> err)] \<and> outstanding w' = (outstanding w)(i := es)
     else out s' = out s \<and> outstanding w' = (outstanding w)(i :=
       e\<lparr> numOutstandingResponses := numOutstandingResponses e - 1, receivedSLVERR := receivedSLVERR e \<or> err \<rparr> # es))"
proof -
  let ?e = "e\<lparr> numOutstandingResponses := numOutstandingResponses e - 1, receivedSLVERR := receivedSLVERR e \<or> err \<rparr>"
  let ?w = "w\<lparr> writeTrackerMap := (writeTrackerMap w)(i \<mapsto> ?e # es) \<rparr>"
  have e: "(if err then True else receivedSLVERR e) = (receivedSLVERR e \<or> err)" by auto
  have run: "markRespReceived (Some (h t)) i err (s, w) =
      (if numOutstandingResponses e = 1 then h t i (s, ?w) else Inr (s, ?w))"
    using outstanding_map [OF assms(1), of i] assms(2)
    by (simp add: markRespReceived_def front_def Let_def e)
  show ?thesis
  proof (cases "numOutstandingResponses e = 1")
    case True
    from readAndRemoveEntry_head [OF assms(1,2), of ?e] True
    obtain w' where r: "readAndRemoveEntry i ?w = Inr (?e, w')" "wt_inv w'" "outstanding w' = (outstanding w)(i := es)"
      by auto
    from answers [OF r(1) room] r True run show ?thesis by auto
  next
    case False
    then show ?thesis using run mark_head [OF assms(1,2), of ?e] room_later [OF room] by (simp del: fun_upd_apply)
  qed
qed

lemma mark_all_answers:
  assumes "wt_inv w"
    and "\<And>i. length (of_id i (map snd rs)) \<le> sum_list (map fst (waits (outstanding w i)))"
    and "room s (map fst rs)"
  shows "\<exists>s' w'. mark_all h rs (s, w) = Inr (s', w') \<and> wt_inv w' \<and>
    (\<forall>i. of_id i (out s') = of_id i (out s) @ answered (waits (outstanding w i)) (of_id i (map snd rs)))"
  using assms
proof (induction rs arbitrary: s w)
  case Nil
  then show ?case using waits_positive by (simp add: wt_inv_def)
next
  case (Cons r rs)
  obtain t i err where r: "r = (t, i, err)" by (cases r)
  have "outstanding w i \<noteq> []" using Cons.prems(2) [of i] by (auto simp: r)
  then obtain e es where o: "outstanding w i = e # es" by (cases "outstanding w i") auto
  have n: "0 < unat (numOutstandingResponses e)"
    using wt_inv_entry [OF Cons.prems(1), of e i] o by (simp add: unat_gt_0)
  have rm: "room s (t # map fst rs)" using Cons.prems(3) by (simp add: r)
  from mark_one [OF Cons.prems(1) o rm, of err] obtain s1 w1 where
    m: "markRespReceived (Some (h t)) i err (s, w) = Inr (s1, w1)" "wt_inv w1"
      "if numOutstandingResponses e = 1
       then out s1 = out s @ [(i, receivedSLVERR e \<or> err)] \<and> outstanding w1 = (outstanding w)(i := es)
       else out s1 = out s \<and> outstanding w1 = (outstanding w)(i :=
         e\<lparr> numOutstandingResponses := numOutstandingResponses e - 1, receivedSLVERR := receivedSLVERR e \<or> err \<rparr> # es)"
      "room s1 (map fst rs)"
    by blast
  have u: "unat (numOutstandingResponses e - 1) = unat (numOutstandingResponses e) - 1"
    "numOutstandingResponses e = 1 \<longleftrightarrow> unat (numOutstandingResponses e) = 1"
    using n by (simp add: unat_minus_one unat_gt_0) (simp add: word_unat_eq_iff)
  have "length (of_id j (map snd rs)) \<le> sum_list (map fst (waits (outstanding w1 j)))" for j
    using Cons.prems(2) [of j] m(3) o n by (auto simp: r u split: if_splits)
  from Cons.IH [OF m(2) this m(4)] obtain s' w' where
    i: "mark_all h rs (s1, w1) = Inr (s', w')" "wt_inv w'"
      "\<And>j. of_id j (out s') = of_id j (out s1) @ answered (waits (outstanding w1 j)) (of_id j (map snd rs))"
    by blast
  have "of_id j (out s') = of_id j (out s) @ answered (waits (outstanding w j)) (of_id j (map snd (r # rs)))" for j
    using i(3) [of j] m(3) o answered_step [OF n, of "receivedSLVERR e" "waits es" err "of_id i (map snd rs)"]
    by (auto simp: r u split: if_splits)
  with m(1) i(1,2) show ?case by (auto simp: r)
qed

end

section \<open>One destination per id\<close>

text \<open>
  Requests are added only after \<open>checkSSID\<close>, so all outstanding writes of an id go to one
  destination and \<open>getDestID\<close> is right for each of them, not only for the oldest.
\<close>

definition same_dest :: "WriteTracker \<Rightarrow> bool" where
  "same_dest w \<longleftrightarrow> (\<forall>i. \<forall>e \<in> set (outstanding w i). \<forall>e' \<in> set (outstanding w i). destID e = destID e')"

lemma same_destD:
  "same_dest w \<Longrightarrow> e \<in> set (outstanding w i) \<Longrightarrow> e' \<in> set (outstanding w i) \<Longrightarrow> destID e = destID e'"
  unfolding same_dest_def by blast

lemma checkSSID_iff:
  assumes "wt_inv w" and "same_dest w"
  shows "checkSSID i dest w = Inr (\<forall>e \<in> set (outstanding w i). destID e = dest)"
proof (cases "outstanding w i")
  case Nil
  then show ?thesis using outstanding_map [OF assms(1), of i] by (simp add: checkSSID_def)
next
  case (Cons e es)
  have "\<forall>x \<in> set (outstanding w i). destID x = destID e"
    using same_destD [OF assms(2), of _ i e] Cons by (metis list.set_intros(1))
  then have "(\<forall>x \<in> set (outstanding w i). destID x = dest) \<longleftrightarrow> destID e = dest"
    using Cons by (metis list.set_intros(1))
  then show ?thesis using Cons outstanding_map [OF assms(1), of i]
    by (simp only: checkSSID_def front_def) simp
qed

lemma getDestID_all:
  assumes "wt_inv w" and "same_dest w" and "e \<in> set (outstanding w i)"
  shows "getDestID i w = Inr (destID e)"
proof -
  obtain x xs where o: "outstanding w i = x # xs" using assms(3) by (cases "outstanding w i") auto
  have "destID x = destID e" by (rule same_destD [OF assms(2) _ assms(3)]) (simp add: o)
  then show ?thesis using outstanding_map [OF assms(1), of i] o by (simp add: getDestID_def front_def)
qed

lemma same_dest_add:
  assumes "wt_inv w" and "same_dest w" and "checkSSID i dest w = Inr True" and "n \<noteq> 0"
  shows "same_dest (addAxiWriteRequest i dest n vc w)"
proof -
  have "\<forall>e \<in> set (outstanding w i). destID e = dest"
    using checkSSID_iff [OF assms(1,2)] assms(3) by simp
  note old = this
  show ?thesis unfolding same_dest_def addAxiWriteRequest_inv(2) [OF assms(1,4)]
  proof (intro allI ballI)
    fix j e e'
    let ?o = "((outstanding w)(i := outstanding w i @ [new_WriteTrackerEntry dest n vc])) j"
    assume e: "e \<in> set ?o" "e' \<in> set ?o"
    show "destID e = destID e'"
    proof (cases "j = i")
      case True
      with e old have "destID e = dest" "destID e' = dest" by (auto simp: new_WriteTrackerEntry_def)
      then show ?thesis by simp
    next
      case False
      with e show ?thesis by (intro same_destD [OF assms(2), of e j e']) simp_all
    qed
  qed
qed

lemma same_dest_shrink:
  assumes "same_dest w" and "\<And>i. destID ` set (outstanding w' i) \<subseteq> destID ` set (outstanding w i)"
  shows "same_dest w'"
  unfolding same_dest_def
proof (intro allI ballI)
  fix i e e' assume "e \<in> set (outstanding w' i)" "e' \<in> set (outstanding w' i)"
  then have e: "destID e \<in> destID ` set (outstanding w i)" "destID e' \<in> destID ` set (outstanding w i)"
    using assms(2) [of i] by auto
  from e(1) obtain x where x: "destID e = destID x" "x \<in> set (outstanding w i)" ..
  from e(2) obtain x' where x': "destID e' = destID x'" "x' \<in> set (outstanding w i)" ..
  show "destID e = destID e'" using same_destD [OF assms(1) x(2) x'(2)] x(1) x'(1) by simp
qed

section \<open>Checkpoint\<close>

definition serialize_WriteTrackerEntry :: "cp_path \<Rightarrow> WriteTrackerEntry \<Rightarrow> cp_line list" where
  "serialize_WriteTrackerEntry p e =
     paramOut_w ''destID'' (destID e) @
     paramOut_w ''numOutstandingResponses'' (numOutstandingResponses e) @
     paramOut_b ''receivedSLVERR'' (receivedSLVERR e) @
     paramOut_i ''vc'' (wt_vc e)"

definition unserialize_WriteTrackerEntry :: "cp_db \<Rightarrow> cp_path \<Rightarrow> WriteTrackerEntry result" where
  "unserialize_WriteTrackerEntry db p =
     rbind (paramIn_w db p ''destID'') (\<lambda>v_dest.
     rbind (paramIn_w db p ''numOutstandingResponses'') (\<lambda>numOut.
     rbind (paramIn_b db p ''receivedSLVERR'') (\<lambda>slv.
     rbind (paramIn_i db p ''vc'') (\<lambda>vc.
       Inr ((new_WriteTrackerEntry v_dest numOut vc)\<lparr> receivedSLVERR := slv \<rparr>)))))"

definition WriteTrackerEntry_ok :: "WriteTrackerEntry \<Rightarrow> bool" where
  "WriteTrackerEntry_ok e \<longleftrightarrow> - (2 ^ 31) \<le> wt_vc e \<and> wt_vc e < 2 ^ 31"

interpretation wt_entry_cp:
  flat_codec serialize_WriteTrackerEntry unserialize_WriteTrackerEntry WriteTrackerEntry_ok "\<lambda>e. e"
proof unfold_locales
  show "unserialize_WriteTrackerEntry db p = unserialize_WriteTrackerEntry db' p"
    if "\<And>k. db (p, k) = db' (p, k)" for db db' p
    by (simp add: unserialize_WriteTrackerEntry_def
        param_cong_db [where db = db and db' = db' and p = p, OF that])
qed (simp_all add: WriteTrackerEntry_ok_def serialize_WriteTrackerEntry_def
    unserialize_WriteTrackerEntry_def new_WriteTrackerEntry_def cp_write cp_read)

text \<open>One key of the map with its queue.\<close>

definition serialize_wtKey :: "cp_path \<Rightarrow> axi_id \<times> WriteTrackerEntry list \<Rightarrow> cp_line list" where
  "serialize_wtKey p kd =
     paramOut_w ''axiId'' (fst kd) @
     paramOut_n ''dequeSize'' (length (snd kd)) @
     scoped_list serialize_WriteTrackerEntry (indexed ''wtE'') p 0 (snd kd)"

definition unserialize_wtKey :: "cp_db \<Rightarrow> cp_path \<Rightarrow> (axi_id \<times> WriteTrackerEntry list) result" where
  "unserialize_wtKey db p =
     rbind (paramIn_cast db p ''axiId'') (\<lambda>i.
     rbind (paramIn_u 64 db p ''dequeSize'') (\<lambda>dqs.
     rbind (read_list (unserialize_WriteTrackerEntry db) (indexed ''wtE'') p 0 dqs) (\<lambda>dq.
       Inr (i, dq))))"

definition wtKey_ok :: "axi_id \<times> WriteTrackerEntry list \<Rightarrow> bool" where
  "wtKey_ok kd \<longleftrightarrow> length (snd kd) < 2 ^ 64 \<and> list_all WriteTrackerEntry_ok (snd kd)"

interpretation wt_key_cp: checkpoint_codec serialize_wtKey unserialize_wtKey wtKey_ok "\<lambda>kd. kd"
proof unfold_locales
  show "strict_prefix p s" if "s \<in> sections (serialize_wtKey p kd)" for s p kd
    using that by (simp add: serialize_wtKey_def paramOut_def wt_entry_cp.sections_scoped_list_strict)
next
  fix p :: cp_path and db db' :: cp_db
  assume eq: "\<And>s k. prefix p s \<Longrightarrow> db (s, k) = db' (s, k)"
  have at_p: "db (p, k) = db' (p, k)" for k by (rule eq) simp
  have "read_list (unserialize_WriteTrackerEntry db) (indexed ''wtE'') p i n =
      read_list (unserialize_WriteTrackerEntry db') (indexed ''wtE'') p i n" for i n
    by (rule wt_entry_cp.read_list_below, rule eq) (simp add: strict_prefix_def)
  then show "unserialize_wtKey db p = unserialize_wtKey db' p"
    by (simp only: unserialize_wtKey_def param_cong_db [where db = db and db' = db' and p = p, OF at_p])
next
  fix p :: cp_path and kd
  assume ok: "wtKey_ok kd"
  let ?params = "paramOut_w ''axiId'' (fst kd) @ paramOut_n ''dequeSize'' (length (snd kd))"
  have "unserialize_wtKey (IniFile_load (?params @ scoped_list serialize_WriteTrackerEntry
      (indexed ''wtE'') p 0 (snd kd)) (Some p) Map.empty) p = Inr kd"
    using ok wt_entry_cp.container_list [of ?params "indexed ''wtE''" "snd kd" p 0]
    unfolding unserialize_wtKey_def cp_read wt_entry_cp.container_here
    by (simp add: wtKey_ok_def inj_def paramOut_def)
  then show "unserialize_wtKey (IniFile_load (serialize_wtKey p kd) (Some p) Map.empty) p = Inr kd"
    by (simp add: serialize_wtKey_def)
qed

text \<open>The keys are written in ascending order.\<close>

definition sorted_ids :: "axi_id list" where
  "sorted_ids = map of_nat [0..<256]"

definition wt_keys :: "WriteTracker \<Rightarrow> (axi_id \<times> WriteTrackerEntry list) list" where
  "wt_keys w = List.map_filter (\<lambda>i. map_option (Pair i) (writeTrackerMap w i)) sorted_ids"

definition serialize_WriteTracker :: "cp_path \<Rightarrow> WriteTracker \<Rightarrow> cp_line list" where
  "serialize_WriteTracker p w =
     paramOut_w ''numAxiWrites'' (numAxiWrites w) @
     paramOut_n ''numKeys'' (length (wt_keys w)) @
     scoped_list serialize_wtKey (indexed ''wtKey'') p 0 (wt_keys w)"

definition unserialize_WriteTracker :: "cp_db \<Rightarrow> cp_path \<Rightarrow> WriteTracker result" where
  "unserialize_WriteTracker db p =
     rbind (paramIn_u 64 db p ''numAxiWrites'') (\<lambda>_.
     rbind (paramIn_u 64 db p ''numKeys'') (\<lambda>nk.
     rbind (read_list (unserialize_wtKey db) (indexed ''wtKey'') p 0 nk) (\<lambda>kds.
       let m = fold (\<lambda>(i, dq) m. m(i \<mapsto> dq)) kds Map.empty;
           total = sum_list (map (\<lambda>i. length (case m i of None \<Rightarrow> [] | Some dq \<Rightarrow> dq)) sorted_ids)
       in if total > 255 then Inl (Fatal ''WriteTracker::unserialize: too many outstanding writes'')
          else Inr \<lparr> writeTrackerMap = m, numAxiWrites = of_nat total \<rparr>)))"

definition WriteTracker_ok :: "WriteTracker \<Rightarrow> bool" where
  "WriteTracker_ok w \<longleftrightarrow> wt_inv w \<and> (\<Sum>i\<in>UNIV. length (outstanding w i)) \<le> 255 \<and>
     (\<forall>i. list_all WriteTrackerEntry_ok (outstanding w i))"

lemma sorted_ids_UNIV [simp]: "set sorted_ids = UNIV"
proof -
  have "i \<in> of_nat ` {0..<256}" for i :: axi_id
    using unsigned_less [of i, where ?'a = nat] by (intro image_eqI [of _ _ "unat i"]) auto
  then show ?thesis by (auto simp: sorted_ids_def)
qed

lemma distinct_sorted_ids: "distinct sorted_ids"
proof -
  have "inj_on (of_nat :: nat \<Rightarrow> axi_id) {0..<256}"
    by (rule inj_onI) (simp add: word_of_nat_eq_iff take_bit_nat_def)
  then show ?thesis by (simp add: sorted_ids_def distinct_map)
qed

lemma fold_keys:
  "fold (\<lambda>(i, dq) m. m(i \<mapsto> dq)) (List.map_filter (\<lambda>i. map_option (Pair i) (f i)) ks) m0 =
    (\<lambda>i. if i \<in> set ks \<and> f i \<noteq> None then f i else m0 i)"
proof (induction ks arbitrary: m0)
  case (Cons k ks)
  show ?case
    by (cases "f k") (auto simp: map_filter_simps Cons.IH fun_eq_iff simp del: fun_upd_apply, auto)
qed (simp add: map_filter_simps)

lemma wt_keys_facts:
  "(k, dq) \<in> set (wt_keys w) \<Longrightarrow> dq = outstanding w k" "length (wt_keys w) \<le> 256"
proof -
  show "dq = outstanding w k" if "(k, dq) \<in> set (wt_keys w)"
    using that by (auto simp: wt_keys_def List.map_filter_def outstanding_def)
  have "length (wt_keys w) \<le> length sorted_ids"
    by (simp add: wt_keys_def List.map_filter_def)
  then show "length (wt_keys w) \<le> 256" by (simp add: sorted_ids_def)
qed

lemma outstanding_bounded:
  assumes "WriteTracker_ok w"
  shows "length (outstanding w i) \<le> 255"
proof -
  have "length (outstanding w i) \<le> (\<Sum>j\<in>UNIV. length (outstanding w j))"
    by (rule member_le_sum) auto
  with assms show ?thesis by (simp add: WriteTracker_ok_def)
qed

lemma wt_keys_ok:
  assumes "WriteTracker_ok w"
  shows "list_all wtKey_ok (wt_keys w)"
  unfolding list_all_iff
proof
  fix kd assume "kd \<in> set (wt_keys w)"
  then have "snd kd = outstanding w (fst kd)" using wt_keys_facts(1) [of "fst kd" "snd kd" w] by simp
  then show "wtKey_ok kd" using assms outstanding_bounded [OF assms, of "fst kd"]
    by (simp add: wtKey_ok_def WriteTracker_ok_def)
qed

lemma wt_rebuilt:
  assumes "WriteTracker_ok w"
  defines "m \<equiv> fold (\<lambda>(i, dq) m. m(i \<mapsto> dq)) (wt_keys w) Map.empty"
  shows "m = writeTrackerMap w"
    and "sum_list (map (\<lambda>i. length (case m i of None \<Rightarrow> [] | Some dq \<Rightarrow> dq)) sorted_ids) =
      (\<Sum>i\<in>UNIV. length (outstanding w i))"
proof -
  show m: "m = writeTrackerMap w"
    unfolding m_def wt_keys_def fold_keys by (auto simp: fun_eq_iff)
  show "sum_list (map (\<lambda>i. length (case m i of None \<Rightarrow> [] | Some dq \<Rightarrow> dq)) sorted_ids) =
      (\<Sum>i\<in>UNIV. length (outstanding w i))"
    unfolding m outstanding_def using sum_list_distinct_conv_sum_set [OF distinct_sorted_ids] by simp
qed

text \<open>C32: A tracker restored from its checkpoint has the same writes outstanding, id by id and in
  order, and the same count, although the count itself is not read back but recomputed.\<close>

theorem write_tracker_checkpoint_roundtrip:
  assumes "WriteTracker_ok w"
  shows "unserialize_WriteTracker (load_checkpoint
      (ScopedCheckpointSection p n (\<lambda>sec. serialize_WriteTracker sec w))) (p @ [n]) = Inr w"
proof -
  let ?params = "paramOut_w ''numAxiWrites'' (numAxiWrites w) @ paramOut_n ''numKeys'' (length (wt_keys w))"
  have "unserialize_WriteTracker (IniFile_load (?params @ scoped_list serialize_wtKey
      (indexed ''wtKey'') (p @ [n]) 0 (wt_keys w)) (Some (p @ [n])) Map.empty) (p @ [n]) = Inr w"
    using wt_keys_ok [OF assms] wt_key_cp.container_list [of ?params "indexed ''wtKey''" "wt_keys w" "p @ [n]" 0]
      wt_rebuilt [OF assms] assms wt_keys_facts(2) [of w]
    unfolding unserialize_WriteTracker_def cp_read wt_key_cp.container_here
    by (simp add: inj_def paramOut_def WriteTracker_ok_def wt_inv_def Let_def)
  then show ?thesis by (simp add: serialize_WriteTracker_def ScopedCheckpointSection_def)
qed

theorem write_tracker_checkpoint_roundtrip_witness:
  "unserialize_WriteTracker (load_checkpoint (ScopedCheckpointSection [''sys''] ''wt''
      (\<lambda>sec. serialize_WriteTracker sec (addAxiWriteRequest 3 7 2 1 new_WriteTracker)))) [''sys'', ''wt''] =
    Inr (addAxiWriteRequest 3 7 2 1 new_WriteTracker)"
proof -
  have "WriteTracker_ok (addAxiWriteRequest 3 7 2 1 new_WriteTracker)"
    using addAxiWriteRequest_inv [OF new_WriteTracker_inv(1), of 2 3 7 1]
      total_upd_eqs(1) [of "outstanding new_WriteTracker" 3 "new_WriteTrackerEntry 7 2 1"]
    by (simp add: WriteTracker_ok_def new_WriteTracker_inv new_WriteTrackerEntry_def
        del: fun_upd_apply) (simp add: new_WriteTracker_inv WriteTrackerEntry_ok_def)
  from write_tracker_checkpoint_roundtrip [OF this, of "[''sys'']" "''wt''"] show ?thesis by simp
qed

end
