(* ===== verification/Aximm_Write_Buffer.thy ===== *)
theory Aximm_Write_Buffer
  imports Axis_Write_Buffer AXI_Checkpoint
begin

text \<open>
  The staging buffer for memory-mapped write data (\<open>aximmWriteBuffer\<close> of
  \<open>src/noc/lib/axi/WriteStructs.hh\<close> and \<open>WriteStructs.cc\<close>). A write request creates one entry
  per packet of at most 256 bytes; write beats then fill the entries in order, and a complete
  entry at the head is handed to the master unit.

  The specification of an entry is the list of its lanes, a byte with its strobe each: writing
  a beat appends the lanes of the beat to the first entry that is not complete, and touches no
  lane of any other entry.
\<close>

section \<open>State\<close>

record aximmWriteBufferEntry =
  axiBeatSize :: nat
  nppRequest :: aximmRWAddr
  numEmptyBytes :: nat
  nppData :: "aximmRWData list"
  beatIdx :: nat
  beatOffset :: nat
  SSIDMet :: bool
  wbe_vc :: int
  wbe_oPort :: "port option"
  isDecErr :: bool
  creationTick :: Tick
  pipelineEndTick :: Tick
  lastBeatTick :: Tick
  probeDebugId :: int

definition new_aximmWriteBufferEntry ::
  "aximmRWAddr \<Rightarrow> int \<Rightarrow> port option \<Rightarrow> bool \<Rightarrow> Tick \<Rightarrow> bool \<Rightarrow> aximmWriteBufferEntry" where
  "new_aximmWriteBufferEntry req vc oPort ssid created decErr =
     \<lparr> axiBeatSize = trunc8 (getBeatByteSize req), nppRequest = req,
       numEmptyBytes = getTotalByteSize req,
       nppData = replicate 4 (default_aximmRWData\<lparr> d_id := a_id req, d_valid := True, wstrb := 0,
         d_data := replicate 64 0 \<rparr>),
       beatIdx = 0, beatOffset = 0, SSIDMet = ssid, wbe_vc = vc, wbe_oPort = oPort,
       isDecErr = decErr, creationTick = created, pipelineEndTick = 0, lastBeatTick = 0,
       probeDebugId = - 1 \<rparr>"

record aximmWriteBuffer =
  mb_writeBuffer :: "aximmWriteBufferEntry list"
  mb_bufferSize :: nat

definition new_aximmWriteBuffer :: aximmWriteBuffer where
  "new_aximmWriteBuffer = \<lparr> mb_writeBuffer = [], mb_bufferSize = 0 \<rparr>"

definition aximm_add ::
  "aximmRWAddr \<Rightarrow> int \<Rightarrow> port option \<Rightarrow> bool \<Rightarrow> Tick \<Rightarrow> bool \<Rightarrow> aximmWriteBuffer \<Rightarrow> aximmWriteBuffer" where
  "aximm_add req vc oPort ssid created decErr b =
     b\<lparr> mb_writeBuffer := mb_writeBuffer b @ [new_aximmWriteBufferEntry req vc oPort ssid created decErr] \<rparr>"

definition removeHead :: "aximmWriteBuffer \<Rightarrow> aximmWriteBuffer result" where
  "removeHead b =
     (case mb_writeBuffer b of
        [] \<Rightarrow> Inl (Undefined ''front of an empty container'')
      | entry # es \<Rightarrow> Inr (b\<lparr> mb_bufferSize := sub16 (mb_bufferSize b) (getTotalByteSize (nppRequest entry)),
          mb_writeBuffer := es \<rparr>))"

section \<open>Writing data\<close>

text \<open>One round of the copy loop: \<open>n\<close> bytes from \<open>src\<close> into the current beat.\<close>

definition put_slice ::
  "byte list \<Rightarrow> u64 \<Rightarrow> nat \<Rightarrow> nat \<Rightarrow> nat \<Rightarrow> aximmWriteBufferEntry \<Rightarrow> aximmWriteBufferEntry" where
  "put_slice data srcWstrb src currentSrcBit n dest =
     (let beat = nppData dest ! beatIdx dest;
          relevantBits = drop_bit currentSrcBit srcWstrb AND low_mask n;
          shiftedToDest = push_bit (beatOffset dest) relevantBits;
          beat' = beat\<lparr> d_data := copy_at (d_data beat) (beatOffset dest) (take n (drop src data)),
                        wstrb := wstrb beat OR shiftedToDest \<rparr>;
          dest' = dest\<lparr> nppData := (nppData dest)[beatIdx dest := beat'],
                        beatOffset := trunc8 (beatOffset dest + n),
                        numEmptyBytes := sub16 (numEmptyBytes dest) n \<rparr>
      in if 64 - beatOffset dest - n = 0
         then dest'\<lparr> beatIdx := trunc8 (beatIdx dest + 1), beatOffset := 0 \<rparr>
         else dest')"

text \<open>
  The loop. An index outside the four beats, or a source range outside the 64 byte data
  array, is undefined behaviour of the source.
\<close>

function write_bytes ::
  "byte list \<Rightarrow> u64 \<Rightarrow> nat \<Rightarrow> nat \<Rightarrow> nat \<Rightarrow> nat \<Rightarrow> aximmWriteBufferEntry \<Rightarrow>
    (nat \<times> aximmWriteBufferEntry) result" where
  "write_bytes data srcWstrb srcOffsetStart src bytesWritten bytesToWrite dest =
     (if bytesToWrite = 0 then Inr (bytesWritten, dest)
      else if 4 \<le> beatIdx dest \<or> NPP_BEAT_SIZE \<le> beatOffset dest
      then Inl (Undefined ''write outside nppData'')
      else
        let n = min (NPP_BEAT_SIZE - beatOffset dest) bytesToWrite in
        if 64 < src + n then Inl (Undefined ''read outside the data array'')
        else write_bytes data srcWstrb srcOffsetStart (src + n) (trunc8 (bytesWritten + n))
               (bytesToWrite - n)
               (put_slice data srcWstrb src (srcOffsetStart + bytesWritten) n dest))"
  by pat_completeness auto
termination
  by (relation "measure (\<lambda>(_, _, _, _, _, todo, _). todo)") (auto simp: min_def)

declare write_bytes.simps [simp del]

definition writeSingleEntry ::
  "byte list \<Rightarrow> nat \<Rightarrow> aximmWriteBufferEntry \<Rightarrow> u64 \<Rightarrow> Tick \<Rightarrow> Tick \<Rightarrow> int \<Rightarrow>
    (nat \<times> aximmWriteBufferEntry) result" where
  "writeSingleEntry data src dest srcWstrb now period dbg =
     (let beatSize = axiBeatSize dest;
          dataValidBytes = sub8 beatSize src;
          bytesToWrite = (if numEmptyBytes dest \<ge> dataValidBytes then dataValidBytes
                          else trunc8 (numEmptyBytes dest));
          totalBytesBefore = sub16 (getTotalByteSize (nppRequest dest)) (numEmptyBytes dest);
          flitsBefore = int (totalBytesBefore div 16)
      in rbind (write_bytes data srcWstrb src src 0 bytesToWrite dest) (\<lambda>(bytesWritten, dest1).
           let totalBytesAfter = sub16 (getTotalByteSize (nppRequest dest1)) (numEmptyBytes dest1);
               flitsAfter = int (totalBytesAfter div 16);
               newFlits = flitsAfter - flitsBefore
                 + (if numEmptyBytes dest1 = 0 \<and> totalBytesAfter mod 16 \<noteq> 0 then 1 else 0);
               dest2 = (if newFlits > 0
                        then (if pipelineEndTick dest1 \<le> now
                              then dest1\<lparr> pipelineEndTick := now + nat newFlits * period \<rparr>
                              else dest1\<lparr> pipelineEndTick := pipelineEndTick dest1 + nat newFlits * period \<rparr>)
                        else dest1);
               dest3 = dest2\<lparr> lastBeatTick := now \<rparr>
           in Inr (bytesWritten, if dbg \<ge> 0 then dest3\<lparr> probeDebugId := dbg \<rparr> else dest3)))"

text \<open>The walk over the entries, up to the one that completes the beat.\<close>

fun write_entries ::
  "byte list \<Rightarrow> u64 \<Rightarrow> Tick \<Rightarrow> Tick \<Rightarrow> int \<Rightarrow> nat \<Rightarrow> nat \<Rightarrow> aximmWriteBufferEntry list \<Rightarrow>
    (nat \<times> aximmWriteBufferEntry list) result" where
  "write_entries data ws now period dbg src written [] = Inr (written, [])"
| "write_entries data ws now period dbg src written (e # es) =
     rbind (writeSingleEntry data src e ws now period dbg) (\<lambda>(n, e').
       let written' = trunc8 (written + n) in
       if written' = axiBeatSize e' then Inr (written', e' # es)
       else rbind (write_entries data ws now period dbg (src + n) written' es) (\<lambda>(t, es').
         Inr (t, e' # es')))"

text \<open>The callback of the owner may take the head entry away.\<close>

type_synonym 's aximm_handler =
  "aximmRWAddr \<Rightarrow> 's \<times> aximmWriteBuffer \<Rightarrow> ('s \<times> aximmWriteBuffer) result"

definition checkHeadReady ::
  "'s aximm_handler option \<Rightarrow> 's \<times> aximmWriteBuffer \<Rightarrow> ('s \<times> aximmWriteBuffer) result" where
  "checkHeadReady headReadyHandler sb =
     (case mb_writeBuffer (snd sb) of
        [] \<Rightarrow> Inr sb
      | entry # _ \<Rightarrow>
          if numEmptyBytes entry = 0 \<and> SSIDMet entry
          then (case headReadyHandler of
                  Some h \<Rightarrow> h (nppRequest entry) sb
                | None \<Rightarrow> Inl (Panic ''no headReadyHandler setup in WriteBuffer''))
          else Inr sb)"

definition fill_buffer ::
  "byte list \<Rightarrow> u64 \<Rightarrow> Tick \<Rightarrow> Tick \<Rightarrow> int \<Rightarrow> aximmWriteBuffer \<Rightarrow> aximmWriteBuffer result" where
  "fill_buffer data ws now period dbg b =
     rbind (write_entries data ws now period dbg 0 0 (mb_writeBuffer b)) (\<lambda>(total, es).
       Inr (b\<lparr> mb_writeBuffer := es, mb_bufferSize := trunc16 (mb_bufferSize b + total) \<rparr>))"

definition aximm_write ::
  "'s aximm_handler option \<Rightarrow> byte list \<Rightarrow> u64 \<Rightarrow> Tick \<Rightarrow> Tick \<Rightarrow> int \<Rightarrow>
    's \<times> aximmWriteBuffer \<Rightarrow> ('s \<times> aximmWriteBuffer) result" where
  "aximm_write h data ws now period dbg sb =
     rbind (fill_buffer data ws now period dbg (snd sb)) (\<lambda>b. checkHeadReady h (fst sb, b))"

text \<open>
  \<open>setSSIDMet\<close> walks the deque while the callback may pop its front. The position of the
  iterator is kept as the number \<open>k\<close> of entries from it to the end, which a pop at the front does
  not change. Advancing an iterator whose entry was popped is undefined behaviour.
\<close>

fun ssid_loop ::
  "'s aximm_handler option \<Rightarrow> nat \<Rightarrow> nat \<Rightarrow> nat \<Rightarrow> 's \<times> aximmWriteBuffer \<Rightarrow> ('s \<times> aximmWriteBuffer) result" where
  "ssid_loop h numEntries numMarked 0 sb =
     Inl (Panic ''WriteBuffer::setSSIDMet no data wating for SSID check to be met'')"
| "ssid_loop h numEntries numMarked (Suc k) sb =
     (let es = mb_writeBuffer (snd sb); i = length es - Suc k in
      if SSIDMet (es ! i) then ssid_loop h numEntries numMarked k sb
      else
        rbind (checkHeadReady h (fst sb, (snd sb)\<lparr> mb_writeBuffer := es[i := (es ! i)\<lparr> SSIDMet := True \<rparr>] \<rparr>)) (\<lambda>sb'.
          let numMarked' = trunc8 (numMarked + 1) in
          if numMarked' = numEntries then Inr sb'
          else if length (mb_writeBuffer (snd sb')) \<le> k
          then Inl (Undefined ''setSSIDMet: increment of an invalidated iterator'')
          else ssid_loop h numEntries numMarked' k sb'))"

definition setSSIDMet ::
  "'s aximm_handler option \<Rightarrow> nat \<Rightarrow> 's \<times> aximmWriteBuffer \<Rightarrow> ('s \<times> aximmWriteBuffer) result" where
  "setSSIDMet h numEntries sb = ssid_loop h numEntries 0 (length (mb_writeBuffer (snd sb))) sb"

section \<open>Lanes\<close>

definition wbe_pos :: "aximmWriteBufferEntry \<Rightarrow> nat" where
  "wbe_pos e = getTotalByteSize (nppRequest e) - numEmptyBytes e"

definition lane :: "aximmRWData list \<Rightarrow> nat \<Rightarrow> byte \<times> bool" where
  "lane ds k = (d_data (ds ! (k div 64)) ! (k mod 64), bit (wstrb (ds ! (k div 64))) (k mod 64))"

definition entry_lanes :: "aximmWriteBufferEntry \<Rightarrow> (byte \<times> bool) list" where
  "entry_lanes e = map (lane (nppData e)) [0..<wbe_pos e]"

definition beat_lanes :: "byte list \<Rightarrow> u64 \<Rightarrow> nat \<Rightarrow> nat \<Rightarrow> (byte \<times> bool) list" where
  "beat_lanes data ws i j = map (\<lambda>k. (data ! k, bit ws k)) [i..<j]"

text \<open>The write position of an entry is where its lanes end, and no strobe beyond it is set.\<close>

definition entry_geom :: "aximmWriteBufferEntry \<Rightarrow> bool" where
  "entry_geom e \<longleftrightarrow> length (nppData e) = 4 \<and> (\<forall>d \<in> set (nppData e). length (d_data d) = 64) \<and>
     getTotalByteSize (nppRequest e) \<le> 256 \<and> numEmptyBytes e \<le> getTotalByteSize (nppRequest e) \<and>
     beatIdx e = wbe_pos e div 64 \<and> beatOffset e = wbe_pos e mod 64 \<and>
     (\<forall>k. wbe_pos e \<le> k \<and> k < 256 \<longrightarrow> \<not> bit (wstrb (nppData e ! (k div 64))) (k mod 64))"

lemma entry_geomD:
  assumes "entry_geom e"
  shows "length (nppData e) = 4" "i < 4 \<Longrightarrow> length (d_data (nppData e ! i)) = 64"
    "getTotalByteSize (nppRequest e) \<le> 256" "numEmptyBytes e \<le> getTotalByteSize (nppRequest e)"
    "beatIdx e = wbe_pos e div 64" "beatOffset e = wbe_pos e mod 64"
    "wbe_pos e \<le> k \<Longrightarrow> k < 256 \<Longrightarrow> \<not> bit (wstrb (nppData e ! (k div 64))) (k mod 64)"
  using assms by (auto simp: entry_geom_def)

text \<open>The fields that writing data never changes.\<close>

definition same_request :: "aximmWriteBufferEntry \<Rightarrow> aximmWriteBufferEntry \<Rightarrow> bool" where
  "same_request e e' \<longleftrightarrow> axiBeatSize e' = axiBeatSize e \<and> nppRequest e' = nppRequest e \<and>
     SSIDMet e' = SSIDMet e \<and> wbe_vc e' = wbe_vc e \<and> wbe_oPort e' = wbe_oPort e \<and>
     isDecErr e' = isDecErr e \<and> creationTick e' = creationTick e"

lemma same_request_refl [simp]: "same_request e e"
  by (simp add: same_request_def)

lemma same_request_trans: "same_request a b \<Longrightarrow> same_request b c \<Longrightarrow> same_request a c"
  by (simp add: same_request_def)

lemma put_slice_fields:
  "same_request e (put_slice data ws src c n e)"
  "numEmptyBytes (put_slice data ws src c n e) = sub16 (numEmptyBytes e) n"
  "nppData (put_slice data ws src c n e) = (nppData e)[beatIdx e := (nppData e ! beatIdx e)
     \<lparr> d_data := copy_at (d_data (nppData e ! beatIdx e)) (beatOffset e) (take n (drop src data)),
       wstrb := wstrb (nppData e ! beatIdx e) OR push_bit (beatOffset e) (drop_bit c ws AND low_mask n) \<rparr>]"
  "beatIdx (put_slice data ws src c n e) =
    (if 64 - beatOffset e - n = 0 then trunc8 (beatIdx e + 1) else beatIdx e)"
  "beatOffset (put_slice data ws src c n e) =
    (if 64 - beatOffset e - n = 0 then 0 else trunc8 (beatOffset e + n))"
  by (simp_all add: put_slice_def Let_def same_request_def)

lemma slice_bit:
  fixes ws :: u64
  assumes "off + n \<le> 64" and "src + n \<le> 64" and "j < 64"
  shows "bit (push_bit off (drop_bit src ws AND low_mask n)) j \<longleftrightarrow>
    off \<le> j \<and> j < off + n \<and> bit ws (src + (j - off))"
  using assms by (auto simp: bit_push_bit_iff bit_and_iff bit_drop_bit_eq bit_low_mask)

text \<open>One round of the loop, lane by lane.\<close>

lemma put_slice_lane:
  assumes "entry_geom e" and "length data = 64" and "src + n \<le> 64"
    and "beatOffset e + n \<le> 64" and "beatIdx e < 4" and "k < 256"
  shows "lane (nppData (put_slice data ws src src n e)) k =
    (if wbe_pos e \<le> k \<and> k < wbe_pos e + n
     then (data ! (src + (k - wbe_pos e)), bit ws (src + (k - wbe_pos e)))
     else lane (nppData e) k)"
proof -
  note g = entry_geomD [OF assms(1)]
  define q where "q = k div 64"
  define r where "r = k mod 64"
  have k: "k = 64 * q + r" "r < 64" by (simp_all add: q_def r_def)
  have pos: "wbe_pos e = 64 * beatIdx e + beatOffset e" using g(5,6) by simp
  have len: "length (d_data (nppData e ! beatIdx e)) = 64" using g(2) assms(5) by simp
  have src: "length (take n (drop src data)) = n" using assms(2,3) by simp
  show ?thesis
  proof (cases "q = beatIdx e")
    case True
    have window: "wbe_pos e \<le> k \<and> k < wbe_pos e + n \<longleftrightarrow> beatOffset e \<le> r \<and> r < beatOffset e + n"
      and shift: "k - wbe_pos e = r - beatOffset e"
      unfolding pos k(1) True by simp_all
    have "wbe_pos e \<le> k" if "beatOffset e \<le> r" using that unfolding pos k(1) True by simp
    then have bits: "\<not> bit (wstrb (nppData e ! q)) r" if "beatOffset e \<le> r"
      using g(7) [of k] that assms(6) unfolding q_def r_def by blast
    have d: "copy_at (d_data (nppData e ! beatIdx e)) (beatOffset e) (take n (drop src data)) ! r =
        (if beatOffset e \<le> r \<and> r < beatOffset e + n then data ! (src + (r - beatOffset e))
         else d_data (nppData e ! beatIdx e) ! r)"
      using assms(2,3,4) len src k(2) by (subst nth_copy_at) (auto simp: add.commute)
    show ?thesis
      unfolding lane_def put_slice_fields(3) q_def [symmetric] r_def [symmetric] window shift
      using True g(1) assms(5) d bits slice_bit [OF assms(4,3) k(2), of ws]
      by (auto simp: bit_or_iff)
  next
    case False
    then have "q + 1 \<le> beatIdx e \<or> beatIdx e + 1 \<le> q" by linarith
    then have "\<not> (wbe_pos e \<le> k \<and> k < wbe_pos e + n)" using pos k assms(4) by linarith
    then show ?thesis unfolding lane_def put_slice_fields(3) q_def [symmetric] r_def [symmetric]
      using False by (simp only: if_False nth_list_update_neq not_False_eq_True)
  qed
qed

lemma put_slice_geom:
  fixes ws :: u64
  assumes "entry_geom e" and "length data = 64" and "src + n \<le> 64"
    and "beatOffset e + n \<le> 64" and "n \<le> numEmptyBytes e" and "0 < n"
  defines "e' \<equiv> put_slice data ws src src n e"
  shows "wbe_pos e' = wbe_pos e + n" and "numEmptyBytes e' = numEmptyBytes e - n" and "entry_geom e'"
    and "entry_lanes e' = entry_lanes e @ beat_lanes data ws src (src + n)"
proof -
  note g = entry_geomD [OF assms(1)]
  have req: "nppRequest e' = nppRequest e"
    using put_slice_fields(1) [of e data ws src src n] by (simp add: e'_def same_request_def)
  show empty: "numEmptyBytes e' = numEmptyBytes e - n"
    using g(3,4) assms(5) by (simp add: e'_def put_slice_fields)
  show pos': "wbe_pos e' = wbe_pos e + n"
    using g(4) assms(5) unfolding wbe_pos_def req empty by linarith
  have bound: "wbe_pos e + n \<le> 256" using g(3,4) assms(5) by (simp add: wbe_pos_def)
  have pos: "wbe_pos e = 64 * beatIdx e + beatOffset e" "beatOffset e < 64" using g(5,6) by simp_all
  have idx: "beatIdx e < 4" using pos bound assms(6) by linarith
  note lane = put_slice_lane [OF assms(1-4) idx, of _ ws, folded e'_def]
  have idx': "beatIdx e' = wbe_pos e' div 64 \<and> beatOffset e' = wbe_pos e' mod 64"
  proof (cases "beatOffset e + n = 64")
    case True
    then have "wbe_pos e' = 64 * (beatIdx e + 1)" using pos' pos by simp
    then show ?thesis using True idx by (simp add: e'_def put_slice_fields)
  next
    case False
    then have "beatOffset e + n < 64" using assms(4) by simp
    moreover from this have "wbe_pos e' div 64 = beatIdx e" "wbe_pos e' mod 64 = beatOffset e + n"
      using pos' pos by (simp_all add: div_mult_self3 add.assoc)
    ultimately show ?thesis by (simp add: e'_def put_slice_fields)
  qed
  have data: "length (nppData e') = 4" "\<forall>d \<in> set (nppData e'). length (d_data d) = 64"
    using g(1) g(2) idx assms(1-4) unfolding e'_def put_slice_fields entry_geom_def
    by (auto dest!: set_update_subset_insert [THEN subsetD])
  have "\<not> bit (wstrb (nppData e' ! (k div 64))) (k mod 64)" if "wbe_pos e' \<le> k" "k < 256" for k
    using lane [OF that(2)] g(7) [of k] that pos' by (simp add: lane_def)
  with data idx' req empty g(3,4) show "entry_geom e'" by (simp add: entry_geom_def)
  show "entry_lanes e' = entry_lanes e @ beat_lanes data ws src (src + n)"
  proof (rule nth_equalityI)
    show "length (entry_lanes e') = length (entry_lanes e @ beat_lanes data ws src (src + n))"
      by (simp add: entry_lanes_def beat_lanes_def pos')
    fix k assume "k < length (entry_lanes e')"
    then have k: "k < wbe_pos e + n" by (simp add: entry_lanes_def pos')
    then have "k - wbe_pos e < n" if "\<not> k < wbe_pos e" using that by linarith
    then show "entry_lanes e' ! k = (entry_lanes e @ beat_lanes data ws src (src + n)) ! k"
      using lane [of k] bound k
      by (cases "k < wbe_pos e") (simp_all add: entry_lanes_def beat_lanes_def pos' nth_append)
  qed
qed

lemma write_bytes_lanes:
  assumes "entry_geom e" and "length data = 64" and "src + todo \<le> 64" and "todo \<le> numEmptyBytes e"
    and "start + written = src"
  shows "\<exists>e'. write_bytes data ws start src written todo e = Inr (written + todo, e') \<and> entry_geom e' \<and>
    same_request e e' \<and> numEmptyBytes e' = numEmptyBytes e - todo \<and>
    entry_lanes e' = entry_lanes e @ beat_lanes data ws src (src + todo)"
  using assms
proof (induction todo arbitrary: src written e rule: less_induct)
  case (less todo)
  show ?case
  proof (cases "todo = 0")
    case True
    then show ?thesis using less.prems(1) by (simp add: write_bytes.simps beat_lanes_def)
  next
    case False
    note g = entry_geomD [OF less.prems(1)]
    define n where "n = min (64 - beatOffset e) todo"
    have off: "beatOffset e < 64" "wbe_pos e = 64 * beatIdx e + beatOffset e" using g(5,6) by simp_all
    have n: "0 < n" "n \<le> todo" "beatOffset e + n \<le> 64" using False off by (auto simp: n_def)
    have "wbe_pos e < 256" using g(3,4) less.prems(4) False by (simp add: wbe_pos_def)
    then have idx: "beatIdx e < 4" using off(2) by linarith
    let ?e = "put_slice data ws src src n e"
    have "src + n \<le> 64" "n \<le> numEmptyBytes e" using less.prems(3,4) n(2) by linarith+
    note p = put_slice_geom [OF less.prems(1,2) this(1) n(3) this(2) n(1), of ws]
    have w: "written + n \<le> 64" using less.prems(3,5) n(2) by linarith
    have step: "write_bytes data ws start src written todo e =
        write_bytes data ws start (src + n) (written + n) (todo - n) ?e"
      using False idx off(1) less.prems(3,5) n(2) w
      by (subst write_bytes.simps) (simp add: n_def [symmetric] Let_def NPP_BEAT_SIZE_def del: not_less)
    have "\<exists>e'. write_bytes data ws start (src + n) (written + n) (todo - n) ?e =
        Inr (written + n + (todo - n), e') \<and> entry_geom e' \<and> same_request ?e e' \<and>
        numEmptyBytes e' = numEmptyBytes ?e - (todo - n) \<and>
        entry_lanes e' = entry_lanes ?e @ beat_lanes data ws (src + n) (src + n + (todo - n))"
      by (rule less.IH) (use n less.prems p in auto)
    then obtain e' where e': "write_bytes data ws start (src + n) (written + n) (todo - n) ?e =
        Inr (written + n + (todo - n), e')" "entry_geom e'" "same_request ?e e'"
        "numEmptyBytes e' = numEmptyBytes ?e - (todo - n)"
        "entry_lanes e' = entry_lanes ?e @ beat_lanes data ws (src + n) (src + n + (todo - n))"
      by blast
    have "beat_lanes data ws src (src + n) @ beat_lanes data ws (src + n) (src + n + (todo - n)) =
        beat_lanes data ws src (src + todo)"
      using n(2) upt_add_eq_append [of src "src + n" "todo - n"] by (simp add: beat_lanes_def flip: map_append)
    then show ?thesis
      using step e' p n(2) same_request_trans [OF put_slice_fields(1) e'(3)] by auto
  qed
qed

section \<open>Filling the entries in order\<close>

text \<open>Timing and probe fields play no role for the lanes.\<close>

lemma entry_touch [simp]:
  "entry_geom (e\<lparr> pipelineEndTick := t \<rparr>) = entry_geom e" "entry_lanes (e\<lparr> pipelineEndTick := t \<rparr>) = entry_lanes e"
  "entry_geom (e\<lparr> lastBeatTick := t \<rparr>) = entry_geom e" "entry_lanes (e\<lparr> lastBeatTick := t \<rparr>) = entry_lanes e"
  "entry_geom (e\<lparr> probeDebugId := d \<rparr>) = entry_geom e" "entry_lanes (e\<lparr> probeDebugId := d \<rparr>) = entry_lanes e"
  "same_request x (e\<lparr> pipelineEndTick := t \<rparr>) = same_request x e"
  "same_request x (e\<lparr> lastBeatTick := t \<rparr>) = same_request x e"
  "same_request x (e\<lparr> probeDebugId := d \<rparr>) = same_request x e"
  by (simp_all add: entry_geom_def entry_lanes_def wbe_pos_def same_request_def)

lemma writeSingleEntry_lanes:
  assumes "entry_geom e" and "length data = 64" and "src \<le> axiBeatSize e" and "axiBeatSize e \<le> 64"
  defines "n \<equiv> min (axiBeatSize e - src) (numEmptyBytes e)"
  shows "\<exists>e'. writeSingleEntry data src e ws now period dbg = Inr (n, e') \<and> entry_geom e' \<and>
    same_request e e' \<and> numEmptyBytes e' = numEmptyBytes e - n \<and>
    entry_lanes e' = entry_lanes e @ beat_lanes data ws src (src + n)"
proof -
  have "sub8 (axiBeatSize e) src = axiBeatSize e - src" using assms(3,4) by simp
  then have todo: "(if numEmptyBytes e \<ge> sub8 (axiBeatSize e) src then sub8 (axiBeatSize e) src
      else trunc8 (numEmptyBytes e)) = n"
    using assms(4) by (simp add: n_def)
  have "src + n \<le> 64" "n \<le> numEmptyBytes e" using assms(3,4) by (auto simp: n_def)
  from write_bytes_lanes [OF assms(1,2) this, of src 0 ws] obtain e1 where
    e1: "write_bytes data ws src src 0 n e = Inr (n, e1)" "entry_geom e1" "same_request e e1"
      "numEmptyBytes e1 = numEmptyBytes e - n" "entry_lanes e1 = entry_lanes e @ beat_lanes data ws src (src + n)"
    by auto
  show ?thesis unfolding writeSingleEntry_def Let_def todo using e1 by simp
qed

definition entry_ok :: "aximmWriteBufferEntry \<Rightarrow> bool" where
  "entry_ok e \<longleftrightarrow> entry_geom e \<and> 0 < axiBeatSize e \<and> axiBeatSize e \<le> 64 \<and> axiBeatSize e dvd numEmptyBytes e"

text \<open>Every entry before the first incomplete one is complete; every entry after it is empty.\<close>

fun fill_order :: "aximmWriteBufferEntry list \<Rightarrow> bool" where
  "fill_order [] = True"
| "fill_order (e # es) = (if numEmptyBytes e = 0 then fill_order es else list_all (\<lambda>x. entry_lanes x = []) es)"

definition entries_ok :: "aximmWriteBufferEntry list \<Rightarrow> bool" where
  "entries_ok es \<longleftrightarrow> list_all entry_ok es \<and> fill_order es"

definition entries_lanes :: "aximmWriteBufferEntry list \<Rightarrow> (byte \<times> bool) list" where
  "entries_lanes es = concat (map entry_lanes es)"

definition incomplete :: "aximmWriteBufferEntry list \<Rightarrow> aximmWriteBufferEntry list" where
  "incomplete es = filter (\<lambda>e. numEmptyBytes e \<noteq> 0) es"

lemma length_entry_lanes [simp]: "length (entry_lanes e) = wbe_pos e"
  by (simp add: entry_lanes_def)

lemma entries_lanes_simps [simp]:
  "entries_lanes [] = []" "entries_lanes (e # es) = entry_lanes e @ entries_lanes es"
  "entries_lanes (es @ es') = entries_lanes es @ entries_lanes es'"
  by (simp_all add: entries_lanes_def)

lemma entries_lanes_empty: "list_all (\<lambda>x. entry_lanes x = []) es \<Longrightarrow> entries_lanes es = []"
  by (induction es) auto

lemma entry_okD: "entry_ok e \<Longrightarrow> numEmptyBytes e \<noteq> 0 \<Longrightarrow> axiBeatSize e \<le> numEmptyBytes e"
  by (auto simp: entry_ok_def dvd_imp_le)

lemma write_entry_full:
  assumes "entry_ok e" and "length data = 64" and "numEmptyBytes e = 0"
  shows "\<exists>e'. writeSingleEntry data 0 e ws now period dbg = Inr (0, e') \<and> entry_ok e' \<and>
    same_request e e' \<and> numEmptyBytes e' = 0 \<and> entry_lanes e' = entry_lanes e"
  using assms writeSingleEntry_lanes [of e data 0 ws now period dbg]
  by (auto simp: entry_ok_def same_request_def beat_lanes_def)

lemma write_entry_open:
  assumes "entry_ok e" and "length data = 64" and "numEmptyBytes e \<noteq> 0"
  shows "\<exists>e'. writeSingleEntry data 0 e ws now period dbg = Inr (axiBeatSize e, e') \<and> entry_ok e' \<and>
    same_request e e' \<and> numEmptyBytes e' = numEmptyBytes e - axiBeatSize e \<and>
    entry_lanes e' = entry_lanes e @ beat_lanes data ws 0 (axiBeatSize e)"
proof -
  have "min (axiBeatSize e - 0) (numEmptyBytes e) = axiBeatSize e" using entry_okD [OF assms(1,3)] by simp
  with writeSingleEntry_lanes [of e data 0 ws now period dbg] assms obtain e' where
    "writeSingleEntry data 0 e ws now period dbg = Inr (axiBeatSize e, e')" "entry_geom e'" "same_request e e'"
    "numEmptyBytes e' = numEmptyBytes e - axiBeatSize e"
    "entry_lanes e' = entry_lanes e @ beat_lanes data ws 0 (axiBeatSize e)"
    unfolding entry_ok_def by auto
  moreover have "axiBeatSize e dvd numEmptyBytes e - axiBeatSize e" using assms(1) by (simp add: entry_ok_def)
  ultimately show ?thesis using assms(1) by (auto simp: entry_ok_def same_request_def)
qed

lemma write_entries_lanes:
  assumes "entries_ok es" and "length data = 64"
  defines "n \<equiv> (if incomplete es = [] then 0 else axiBeatSize (hd (incomplete es)))"
  shows "\<exists>es'. write_entries data ws now period dbg 0 0 es = Inr (n, es') \<and> entries_ok es' \<and>
    list_all2 same_request es es' \<and> entries_lanes es' = entries_lanes es @ beat_lanes data ws 0 n"
  using assms(1) unfolding n_def
proof (induction es)
  case Nil
  then show ?case by (simp add: incomplete_def beat_lanes_def)
next
  case (Cons e es)
  then have ok: "entry_ok e" "list_all entry_ok es" "fill_order (e # es)" by (simp_all add: entries_ok_def)
  then have size: "0 < axiBeatSize e" "axiBeatSize e \<le> 64" by (simp_all add: entry_ok_def)
  show ?case
  proof (cases "numEmptyBytes e = 0")
    case True
    from write_entry_full [OF ok(1) assms(2) True, of ws now period dbg] obtain e' where
      e': "writeSingleEntry data 0 e ws now period dbg = Inr (0, e')" "entry_ok e'" "same_request e e'"
      "numEmptyBytes e' = 0" "entry_lanes e' = entry_lanes e" by blast
    have "entries_ok es" using ok True by (simp add: entries_ok_def)
    from Cons.IH [OF this] obtain es' where
      "write_entries data ws now period dbg 0 0 es =
        Inr (if incomplete es = [] then 0 else axiBeatSize (hd (incomplete es)), es')" "entries_ok es'"
      "list_all2 same_request es es'" "entries_lanes es' = entries_lanes es @
        beat_lanes data ws 0 (if incomplete es = [] then 0 else axiBeatSize (hd (incomplete es)))"
      by blast
    moreover have "axiBeatSize e' = axiBeatSize e" using e'(3) by (simp add: same_request_def)
    moreover have "incomplete (e # es) = incomplete es" using True by (simp add: incomplete_def)
    ultimately show ?thesis using e' size by (simp add: entries_ok_def)
  next
    case False
    from write_entry_open [OF ok(1) assms(2) False, of ws now period dbg] obtain e' where
      e': "writeSingleEntry data 0 e ws now period dbg = Inr (axiBeatSize e, e')" "entry_ok e'" "same_request e e'"
      "numEmptyBytes e' = numEmptyBytes e - axiBeatSize e"
      "entry_lanes e' = entry_lanes e @ beat_lanes data ws 0 (axiBeatSize e)" by blast
    have rest: "list_all (\<lambda>x. entry_lanes x = []) es" using ok(3) False by simp
    then have "fill_order es"
      by (induction es) (auto split: if_splits)
    with e' rest False size ok show ?thesis
      by (simp add: same_request_def entries_ok_def incomplete_def entries_lanes_empty list_all2_same)
  qed
qed

definition buffer_ok :: "aximmWriteBuffer \<Rightarrow> bool" where
  "buffer_ok b \<longleftrightarrow> entries_ok (mb_writeBuffer b) \<and>
     mb_bufferSize b = trunc16 (length (entries_lanes (mb_writeBuffer b)))"

lemma new_entry_ok:
  assumes "getTotalByteSize req \<le> 256" and "getBeatByteSize req \<le> 64" and "0 < getBeatByteSize req"
    and "getBeatByteSize req dvd getTotalByteSize req"
  shows "entry_ok (new_aximmWriteBufferEntry req vc oPort ssid t decErr)"
    and "entry_lanes (new_aximmWriteBufferEntry req vc oPort ssid t decErr) = []"
proof -
  have "\<not> bit (wstrb (replicate 4 (d :: aximmRWData) ! (k div 64))) (k mod 64)" if "wstrb d = 0" "k < 256" for k d
    using that by simp
  then show "entry_ok (new_aximmWriteBufferEntry req vc oPort ssid t decErr)"
    using assms by (simp add: entry_ok_def entry_geom_def new_aximmWriteBufferEntry_def wbe_pos_def)
  show "entry_lanes (new_aximmWriteBufferEntry req vc oPort ssid t decErr) = []"
    by (simp add: entry_lanes_def wbe_pos_def new_aximmWriteBufferEntry_def)
qed

lemma fill_order_snoc: "fill_order es \<Longrightarrow> entry_lanes e = [] \<Longrightarrow> fill_order (es @ [e])"
  by (induction es) auto

lemma aximm_add_ok:
  assumes "buffer_ok b" and "getTotalByteSize req \<le> 256" and "getBeatByteSize req \<le> 64"
    and "0 < getBeatByteSize req" and "getBeatByteSize req dvd getTotalByteSize req"
  shows "buffer_ok (aximm_add req vc oPort ssid t decErr b)"
    and "entries_lanes (mb_writeBuffer (aximm_add req vc oPort ssid t decErr b)) = entries_lanes (mb_writeBuffer b)"
  using assms(1) new_entry_ok [OF assms(2-5), of vc oPort ssid t decErr]
  by (simp_all add: buffer_ok_def aximm_add_def entries_ok_def fill_order_snoc)

lemma fill_buffer_lanes:
  assumes "buffer_ok b" and "length data = 64"
  defines "n \<equiv> (if incomplete (mb_writeBuffer b) = [] then 0 else axiBeatSize (hd (incomplete (mb_writeBuffer b))))"
  shows "\<exists>b'. fill_buffer data ws now period dbg b = Inr b' \<and> buffer_ok b' \<and>
    list_all2 same_request (mb_writeBuffer b) (mb_writeBuffer b') \<and>
    entries_lanes (mb_writeBuffer b') = entries_lanes (mb_writeBuffer b) @ beat_lanes data ws 0 n"
proof -
  have "entries_ok (mb_writeBuffer b)" using assms(1) by (simp add: buffer_ok_def)
  from write_entries_lanes [OF this assms(2), of ws now period dbg, folded n_def] obtain es' where
    es: "write_entries data ws now period dbg 0 0 (mb_writeBuffer b) = Inr (n, es')" "entries_ok es'"
      "list_all2 same_request (mb_writeBuffer b) es'"
      "entries_lanes es' = entries_lanes (mb_writeBuffer b) @ beat_lanes data ws 0 n" by blast
  then have "trunc16 (mb_bufferSize b + n) = trunc16 (length (entries_lanes es'))"
    using assms(1) by (simp add: buffer_ok_def trunc16_def beat_lanes_def mod_simps)
  with es show ?thesis by (simp add: fill_buffer_def buffer_ok_def)
qed

text \<open>All write beats of a burst, one after the other.\<close>

fun fill_beats ::
  "Tick \<Rightarrow> Tick \<Rightarrow> (byte list \<times> u64 \<times> int) list \<Rightarrow> aximmWriteBuffer \<Rightarrow> aximmWriteBuffer result" where
  "fill_beats now period [] b = Inr b"
| "fill_beats now period ((data, ws, dbg) # wbeats) b =
     rbind (fill_buffer data ws now period dbg b) (fill_beats now period wbeats)"

definition capacity_left :: "aximmWriteBufferEntry list \<Rightarrow> nat" where
  "capacity_left es = sum_list (map numEmptyBytes es)"

lemma incomplete_Nil: "incomplete es = [] \<longleftrightarrow> capacity_left es = 0"
  by (auto simp: incomplete_def capacity_left_def filter_empty_conv)

lemma capacity_lanes:
  "list_all entry_ok es \<Longrightarrow>
    length (entries_lanes es) + capacity_left es = sum_list (map (getTotalByteSize \<circ> nppRequest) es)"
proof (induction es)
  case (Cons e es)
  then have "numEmptyBytes e \<le> getTotalByteSize (nppRequest e)"
    by (auto simp: entry_ok_def dest: entry_geomD(4))
  with Cons show ?case by (simp add: wbe_pos_def capacity_left_def)
qed (simp add: capacity_left_def)

lemma same_request_totals:
  "list_all2 same_request es es' \<Longrightarrow>
    map (getTotalByteSize \<circ> nppRequest) es' = map (getTotalByteSize \<circ> nppRequest) es \<and>
    map axiBeatSize es' = map axiBeatSize es"
  by (induction rule: list_all2_induct) (auto simp: same_request_def)

lemma fill_buffer_capacity:
  assumes "buffer_ok b" and "length data = 64" and "list_all (\<lambda>e. axiBeatSize e = bs) (mb_writeBuffer b)"
    and "0 < capacity_left (mb_writeBuffer b)"
  shows "\<exists>b'. fill_buffer data ws now period dbg b = Inr b' \<and> buffer_ok b' \<and>
    list_all2 same_request (mb_writeBuffer b) (mb_writeBuffer b') \<and>
    list_all (\<lambda>e. axiBeatSize e = bs) (mb_writeBuffer b') \<and>
    capacity_left (mb_writeBuffer b') + bs = capacity_left (mb_writeBuffer b) \<and>
    entries_lanes (mb_writeBuffer b') = entries_lanes (mb_writeBuffer b) @ beat_lanes data ws 0 bs"
proof -
  have ne: "incomplete (mb_writeBuffer b) \<noteq> []" using assms(4) by (simp add: incomplete_Nil)
  have "hd (incomplete (mb_writeBuffer b)) \<in> set (mb_writeBuffer b)"
    using hd_in_set [OF ne] by (simp add: incomplete_def)
  then have "axiBeatSize (hd (incomplete (mb_writeBuffer b))) = bs" using assms(3) by (simp add: list_all_iff)
  with ne obtain b' where b': "fill_buffer data ws now period dbg b = Inr b'" "buffer_ok b'"
    "list_all2 same_request (mb_writeBuffer b) (mb_writeBuffer b')"
    "entries_lanes (mb_writeBuffer b') = entries_lanes (mb_writeBuffer b) @ beat_lanes data ws 0 bs"
    using fill_buffer_lanes [OF assms(1,2), of ws now period dbg] by auto
  have "list_all (\<lambda>e. axiBeatSize e = bs) (mb_writeBuffer b')"
  proof -
    have "list_all (\<lambda>x. x = bs) (map axiBeatSize (mb_writeBuffer b'))"
      using assms(3) same_request_totals [OF b'(3)] by (simp add: list_all_iff)
    then show ?thesis by (simp add: list_all_iff)
  qed
  moreover have "capacity_left (mb_writeBuffer b') + bs = capacity_left (mb_writeBuffer b)"
    using capacity_lanes [of "mb_writeBuffer b"] capacity_lanes [of "mb_writeBuffer b'"] assms(1) b'
      same_request_totals [OF b'(3)]
    by (simp add: buffer_ok_def entries_ok_def beat_lanes_def)
  ultimately show ?thesis using b' by blast
qed

lemma fill_beats_lanes:
  assumes "buffer_ok b" and "list_all (\<lambda>e. axiBeatSize e = bs) (mb_writeBuffer b)" and "0 < bs"
    and "list_all (\<lambda>(data, _, _). length data = 64) wbeats"
    and "length wbeats * bs \<le> capacity_left (mb_writeBuffer b)"
  shows "\<exists>b'. fill_beats now period wbeats b = Inr b' \<and> buffer_ok b' \<and>
    list_all2 same_request (mb_writeBuffer b) (mb_writeBuffer b') \<and>
    capacity_left (mb_writeBuffer b') + length wbeats * bs = capacity_left (mb_writeBuffer b) \<and>
    entries_lanes (mb_writeBuffer b') = entries_lanes (mb_writeBuffer b) @
      concat (map (\<lambda>(data, ws, _). beat_lanes data ws 0 bs) wbeats)"
  using assms
proof (induction wbeats arbitrary: b)
  case Nil
  then show ?case by (simp add: list_all2_same)
next
  case (Cons x wbeats)
  obtain data ws dbg where x: "x = (data, ws, dbg)" by (cases x)
  have "length data = 64" "0 < capacity_left (mb_writeBuffer b)" using Cons.prems(3,4,5) by (auto simp: x)
  from fill_buffer_capacity [OF Cons.prems(1) this(1) Cons.prems(2) this(2), of ws now period dbg]
  obtain b1 where b1: "fill_buffer data ws now period dbg b = Inr b1" "buffer_ok b1"
    "list_all2 same_request (mb_writeBuffer b) (mb_writeBuffer b1)"
    "list_all (\<lambda>e. axiBeatSize e = bs) (mb_writeBuffer b1)"
    "capacity_left (mb_writeBuffer b1) + bs = capacity_left (mb_writeBuffer b)"
    "entries_lanes (mb_writeBuffer b1) = entries_lanes (mb_writeBuffer b) @ beat_lanes data ws 0 bs" by blast
  have "length wbeats * bs \<le> capacity_left (mb_writeBuffer b1)" using Cons.prems(5) b1(5) by simp
  from Cons.IH [OF b1(2,4) Cons.prems(3) _ this] Cons.prems(4) obtain b' where
    b': "fill_beats now period wbeats b1 = Inr b'" "buffer_ok b'"
    "list_all2 same_request (mb_writeBuffer b1) (mb_writeBuffer b')"
    "capacity_left (mb_writeBuffer b') + length wbeats * bs = capacity_left (mb_writeBuffer b1)"
    "entries_lanes (mb_writeBuffer b') = entries_lanes (mb_writeBuffer b1) @
      concat (map (\<lambda>(data, ws, _). beat_lanes data ws 0 bs) wbeats)" by (auto simp: x)
  have "list_all2 same_request (mb_writeBuffer b) (mb_writeBuffer b')"
    by (rule list_all2_trans [OF _ b1(3) b'(3)]) (rule same_request_trans)
  with b1 b' show ?case by (simp add: x)
qed

section \<open>Properties\<close>

text \<open>The entries of one request, as the master unit creates them.\<close>

definition add_requests ::
  "aximmRWAddr list \<Rightarrow> int \<Rightarrow> port option \<Rightarrow> bool \<Rightarrow> Tick \<Rightarrow> aximmWriteBuffer \<Rightarrow> aximmWriteBuffer" where
  "add_requests reqs vc oPort ssid t b = fold (\<lambda>req b. aximm_add req vc oPort ssid t False b) reqs b"

definition request_ok :: "nat \<Rightarrow> aximmRWAddr \<Rightarrow> bool" where
  "request_ok bs req \<longleftrightarrow> getTotalByteSize req \<le> 256 \<and> getBeatByteSize req = bs \<and> bs dvd getTotalByteSize req"

lemma add_requests_entries:
  "mb_writeBuffer (add_requests reqs vc oPort ssid t b) =
     mb_writeBuffer b @ map (\<lambda>req. new_aximmWriteBufferEntry req vc oPort ssid t False) reqs"
  by (induction reqs arbitrary: b) (simp_all add: add_requests_def aximm_add_def)

lemma add_requests_ok:
  assumes "buffer_ok b" and "list_all (request_ok bs) reqs" and "0 < bs" and "bs \<le> 64"
  shows "buffer_ok (add_requests reqs vc oPort ssid t b) \<and>
    entries_lanes (mb_writeBuffer (add_requests reqs vc oPort ssid t b)) = entries_lanes (mb_writeBuffer b)"
  using assms
proof (induction reqs arbitrary: b)
  case (Cons req reqs)
  have "getTotalByteSize req \<le> 256" "getBeatByteSize req \<le> 64" "0 < getBeatByteSize req"
    "getBeatByteSize req dvd getTotalByteSize req"
    using Cons.prems by (auto simp: request_ok_def)
  from aximm_add_ok [OF Cons.prems(1) this, of vc oPort ssid t False] Cons.IH [of "aximm_add req vc oPort ssid t False b"]
    Cons.prems(2-4)
  show ?case by (simp add: add_requests_def)
qed (simp add: add_requests_def)

lemma add_requests_capacity:
  "capacity_left (mb_writeBuffer (add_requests reqs vc oPort ssid t b)) =
     capacity_left (mb_writeBuffer b) + sum_list (map getTotalByteSize reqs)"
  by (simp add: add_requests_entries capacity_left_def new_aximmWriteBufferEntry_def o_def)

text \<open>C16: A write burst fills its packets exactly: once as many beats as the packets have room
  for were written into a buffer that held nothing else, every packet is complete, the requests
  are those that were added, and the lanes of the packets in order, bytes and strobes, are the
  lanes of the beats in order.\<close>

theorem aximm_burst_fills_packets:
  assumes "list_all (request_ok bs) reqs" and "0 < bs" and "bs \<le> 64"
    and "list_all (\<lambda>(data, _, _). length data = 64) wbeats"
    and "length wbeats * bs = sum_list (map getTotalByteSize reqs)"
  shows "\<exists>b'. fill_beats now period wbeats (add_requests reqs vc oPort ssid t new_aximmWriteBuffer) = Inr b' \<and>
    map nppRequest (mb_writeBuffer b') = reqs \<and>
    (\<forall>e \<in> set (mb_writeBuffer b'). numEmptyBytes e = 0) \<and>
    concat (map entry_lanes (mb_writeBuffer b')) = concat (map (\<lambda>(data, ws, _). beat_lanes data ws 0 bs) wbeats)"
proof -
  let ?b = "add_requests reqs vc oPort ssid t new_aximmWriteBuffer"
  have "buffer_ok new_aximmWriteBuffer" by (simp add: new_aximmWriteBuffer_def buffer_ok_def entries_ok_def)
  from add_requests_ok [OF this assms(1-3), of vc oPort ssid t]
  have ok: "buffer_ok ?b" "entries_lanes (mb_writeBuffer ?b) = []" by (simp_all add: new_aximmWriteBuffer_def)
  have size: "list_all (\<lambda>e. axiBeatSize e = bs) (mb_writeBuffer ?b)"
    using assms(1,3) by (auto simp: add_requests_entries new_aximmWriteBuffer_def list_all_iff request_ok_def
        new_aximmWriteBufferEntry_def)
  have cap: "capacity_left (mb_writeBuffer ?b) = length wbeats * bs"
    using assms(5) unfolding add_requests_capacity by (simp add: new_aximmWriteBuffer_def capacity_left_def)
  from fill_beats_lanes [OF ok(1) size assms(2,4), of now period] cap ok(2) obtain b' where
    b': "fill_beats now period wbeats ?b = Inr b'" "list_all2 same_request (mb_writeBuffer ?b) (mb_writeBuffer b')"
      "capacity_left (mb_writeBuffer b') = 0"
      "entries_lanes (mb_writeBuffer b') = concat (map (\<lambda>(data, ws, _). beat_lanes data ws 0 bs) wbeats)"
    by auto
  have "map nppRequest (mb_writeBuffer b') = map nppRequest (mb_writeBuffer ?b)"
    using b'(2) by (induction rule: list_all2_induct) (auto simp: same_request_def)
  then have "map nppRequest (mb_writeBuffer b') = reqs"
    by (simp add: add_requests_entries new_aximmWriteBuffer_def o_def new_aximmWriteBufferEntry_def)
  then show ?thesis using b' by (auto simp: capacity_left_def entries_lanes_def)
qed

definition sample_write_req :: aximmRWAddr where
  "sample_write_req = default_aximmRWAddr\<lparr> a_cmd := CmdWRITE, a_id := 5, addr := 4096, len := 3, sz := 2 \<rparr>"

lemma sample_write_req_size [simp]:
  "getTotalByteSize sample_write_req = 16" "getBeatByteSize sample_write_req = 4"
  by (simp_all add: sample_write_req_def default_aximmRWAddr_def getTotalByteSize_def getBeatByteSize_def)

theorem aximm_burst_fills_packets_witness:
  "\<exists>b'. fill_beats 10 2 (replicate 4 (replicate 64 7, 5, 1))
      (add_requests [sample_write_req] 0 (Some 3) True 9 new_aximmWriteBuffer) = Inr b' \<and>
    map nppRequest (mb_writeBuffer b') = [sample_write_req] \<and>
    (\<forall>e \<in> set (mb_writeBuffer b'). numEmptyBytes e = 0) \<and>
    concat (map entry_lanes (mb_writeBuffer b')) =
      concat (map (\<lambda>(data, ws, _). beat_lanes data ws 0 4) (replicate 4 (replicate 64 7, 5, 1)))"
proof -
  have "request_ok 4 sample_write_req" by (simp add: request_ok_def)
  then show ?thesis
    using aximm_burst_fills_packets [of 4 "[sample_write_req]" "replicate 4 (replicate 64 7, 5, 1)" 10 2 0 "Some 3" True 9]
    by (simp add: list_all_iff)
qed

text \<open>A packet that is already complete is not left alone while it waits at the head: when
  its last flit is partial, every later write beat pushes its pipeline time back by one more
  flit and overwrites its arrival time and its probe id, although it stores no byte in it.\<close>

lemma complete_entry_disturbed:
  assumes "entry_ok e" and "numEmptyBytes e = 0" and "getTotalByteSize (nppRequest e) mod 16 \<noteq> 0"
    and "now < pipelineEndTick e" and "0 \<le> dbg"
  shows "writeSingleEntry data 0 e ws now period dbg =
    Inr (0, e\<lparr> pipelineEndTick := pipelineEndTick e + period, lastBeatTick := now, probeDebugId := dbg \<rparr>)"
proof -
  have "getTotalByteSize (nppRequest e) \<le> 256" using assms(1) by (auto simp: entry_ok_def dest: entry_geomD(3))
  then have "sub16 (getTotalByteSize (nppRequest e)) 0 = getTotalByteSize (nppRequest e)" by simp
  moreover have "sub8 (axiBeatSize e) 0 = axiBeatSize e" "0 < axiBeatSize e"
    using assms(1) by (simp_all add: entry_ok_def)
  ultimately show ?thesis using assms(2-5)
    by (simp add: writeSingleEntry_def write_bytes.simps Let_def)
qed

definition sample_full_entry :: aximmWriteBufferEntry where
  "sample_full_entry = (new_aximmWriteBufferEntry (sample_write_req\<lparr> len := 0 \<rparr>) 0 None True 3 False)
     \<lparr> numEmptyBytes := 0, beatOffset := 4, pipelineEndTick := 40 \<rparr>"

lemma complete_entry_disturbed_witness:
  "writeSingleEntry (replicate 64 0) 0 sample_full_entry 15 30 5 8 =
    Inr (0, sample_full_entry\<lparr> pipelineEndTick := 45, lastBeatTick := 30, probeDebugId := 8 \<rparr>)"
proof -
  have "nppRequest sample_full_entry = sample_write_req\<lparr> len := 0 \<rparr>" "pipelineEndTick sample_full_entry = 40"
    "numEmptyBytes sample_full_entry = 0"
    by (simp_all add: sample_full_entry_def new_aximmWriteBufferEntry_def)
  moreover have "getTotalByteSize (sample_write_req\<lparr> len := 0 \<rparr>) = 4"
    by (simp add: sample_write_req_def default_aximmRWAddr_def getTotalByteSize_def)
  moreover have "entry_ok sample_full_entry"
    using calculation by (simp add: entry_ok_def entry_geom_def wbe_pos_def)
      (simp add: sample_full_entry_def new_aximmWriteBufferEntry_def sample_write_req_def
        default_aximmRWAddr_def getBeatByteSize_def less_mult_imp_div_less)
  ultimately show ?thesis
    using complete_entry_disturbed [of sample_full_entry 30 8 "replicate 64 0" 15 5] by simp
qed

end
