(* ===== verification/Write_Buffer_Checkpoint.thy ===== *)
theory Write_Buffer_Checkpoint
  imports Aximm_Write_Buffer
begin

text \<open>
  Checkpoints of the two write buffers (\<open>axisWriteBuffer::serialize\<close> and \<open>unserialize\<close>,
  \<open>aximmWriteBuffer::serialize\<close> and \<open>unserialize\<close> in \<open>src/noc/lib/axi/WriteStructs.cc\<close>). A port is
  written as the id of its router and looked up in the list of ports on restore.

  The stream buffer is read back, up to user signals above one byte. The memory-mapped buffer is not: its writer goes on with
  parameters of an entry after the section of the request was opened, which the reader then
  looks for in the section of the entry.
\<close>

section \<open>Ports\<close>

definition port_id :: "(port \<Rightarrow> int) \<Rightarrow> port option \<Rightarrow> int" where
  "port_id rid oPort = (case oPort of None \<Rightarrow> - 1 | Some op \<Rightarrow> rid op)"

text \<open>A null pointer in the list of ports is skipped.\<close>

definition find_port :: "(port \<Rightarrow> int) \<Rightarrow> port option list \<Rightarrow> int \<Rightarrow> port option" where
  "find_port rid outPorts router_id =
     (if router_id \<ge> 0
      then (case List.find (\<lambda>op. case op of None \<Rightarrow> False | Some x \<Rightarrow> rid x = router_id) outPorts of
              None \<Rightarrow> None | Some op \<Rightarrow> op)
      else None)"

text \<open>The ports of a unit are known to its list and have different routers.\<close>

definition ports_ok :: "(port \<Rightarrow> int) \<Rightarrow> port option list \<Rightarrow> bool" where
  "ports_ok rid outPorts \<longleftrightarrow> (\<forall>x. Some x \<in> set outPorts \<longrightarrow> 0 \<le> rid x \<and> rid x < 2 ^ 31) \<and>
     (\<forall>x y. Some x \<in> set outPorts \<longrightarrow> Some y \<in> set outPorts \<longrightarrow> rid x = rid y \<longrightarrow> x = y)"

definition port_known :: "port option list \<Rightarrow> port option \<Rightarrow> bool" where
  "port_known outPorts oPort \<longleftrightarrow> oPort = None \<or> oPort \<in> set outPorts"

lemma find_port_id:
  assumes "ports_ok rid outPorts" and "port_known outPorts oPort"
  shows "find_port rid outPorts (port_id rid oPort) = oPort"
proof (cases oPort)
  case (Some x)
  then have x: "Some x \<in> set outPorts" using assms(2) by (simp add: port_known_def)
  let ?P = "\<lambda>op. case op of None \<Rightarrow> False | Some y \<Rightarrow> rid y = rid x"
  have "List.find ?P outPorts \<noteq> None" using x by (auto simp: find_None_iff)
  then obtain op where op: "List.find ?P outPorts = Some op" by blast
  then have "?P op" "op \<in> set outPorts" by (auto simp: find_Some_iff)
  then have "op = Some x" using assms(1) x by (auto simp: ports_ok_def split: option.splits)
  then show ?thesis using op assms(1) x Some by (auto simp: find_port_def port_id_def ports_ok_def)
qed (simp add: find_port_def port_id_def)

lemma port_id_range:
  "ports_ok rid outPorts \<Longrightarrow> port_known outPorts oPort \<Longrightarrow> - (2 ^ 31) \<le> port_id rid oPort \<and> port_id rid oPort < 2 ^ 31"
  by (auto simp: ports_ok_def port_known_def port_id_def split: option.splits)

section \<open>The stream buffer\<close>

definition serialize_axisEntry :: "(port \<Rightarrow> int) \<Rightarrow> cp_path \<Rightarrow> axisWriteBufferEntry \<Rightarrow> cp_line list" where
  "serialize_axisEntry rid p e =
     paramOut_n ''numTotalBytes'' (numTotalBytes e) @
     paramOut_n ''numBytesRemaining'' (numBytesRemaining e) @
     paramOut_i ''debugId'' (we_debugId e) @
     paramOut_i ''vc'' (we_vc e) @
     paramOut_i ''oPortRouterId'' (port_id rid (we_oPort e)) @
     ScopedCheckpointSection p ''nppData'' (\<lambda>sec2. serialize_axisData sec2 (we_nppData e))"

definition unserialize_axisEntry ::
  "(port \<Rightarrow> int) \<Rightarrow> port option list \<Rightarrow> cp_db \<Rightarrow> cp_path \<Rightarrow> axisWriteBufferEntry result" where
  "unserialize_axisEntry rid outPorts db p =
     rbind (paramIn_u 64 db p ''numTotalBytes'') (\<lambda>v_total.
     rbind (paramIn_u 64 db p ''numBytesRemaining'') (\<lambda>v_left.
     rbind (paramIn (parse_signed 64) db p ''debugId'') (\<lambda>v_dbg.
     rbind (paramIn_i db p ''vc'') (\<lambda>v_vc.
     rbind (paramIn_i db p ''oPortRouterId'') (\<lambda>router_id.
     rbind (unserialize_axisData db (p @ [''nppData''])) (\<lambda>v_data.
       Inr \<lparr> numTotalBytes = trunc8 v_total, we_nppData = v_data, numBytesRemaining = trunc16 v_left,
             we_debugId = sint (of_int v_dbg :: u32), we_vc = v_vc,
             we_oPort = find_port rid outPorts router_id \<rparr>))))))"

definition axisEntry_ok :: "(port \<Rightarrow> int) \<Rightarrow> port option list \<Rightarrow> axisWriteBufferEntry \<Rightarrow> bool" where
  "axisEntry_ok rid outPorts e \<longleftrightarrow> numTotalBytes e < 2 ^ 8 \<and> numBytesRemaining e < 2 ^ 16 \<and>
     - (2 ^ 31) \<le> we_debugId e \<and> we_debugId e < 2 ^ 31 \<and> - (2 ^ 31) \<le> we_vc e \<and> we_vc e < 2 ^ 31 \<and>
     axisData_ok (we_nppData e) \<and> ports_ok rid outPorts \<and> port_known outPorts (we_oPort e)"

definition axisEntry_restored :: "axisWriteBufferEntry \<Rightarrow> axisWriteBufferEntry" where
  "axisEntry_restored e = e\<lparr> we_nppData := axisData_restored (we_nppData e) \<rparr>"

lemma int32_cast: "- (2 ^ 31) \<le> i \<Longrightarrow> i < 2 ^ 31 \<Longrightarrow> sint (of_int i :: u32) = i"
  by (simp add: sint_sbintrunc' signed_take_bit_int_eq_self)

interpretation axis_entry_cp:
  checkpoint_codec "serialize_axisEntry rid" "unserialize_axisEntry rid outPorts" "axisEntry_ok rid outPorts"
    axisEntry_restored for rid outPorts
proof unfold_locales
  show "strict_prefix p s" if "s \<in> sections (serialize_axisEntry rid p e)" for s p e
    using that by (simp add: serialize_axisEntry_def paramOut_def axisData_cp.sections_scoped_strict)
next
  fix p :: cp_path and db db' :: cp_db
  assume eq: "\<And>s k. prefix p s \<Longrightarrow> db (s, k) = db' (s, k)"
  have at_p: "db (p, k) = db' (p, k)" for k by (rule eq) simp
  have "unserialize_axisData db (p @ [''nppData'']) = unserialize_axisData db' (p @ [''nppData''])"
    by (rule axisData_cp.reads_here) (simp add: eq)
  then show "unserialize_axisEntry rid outPorts db p = unserialize_axisEntry rid outPorts db' p"
    by (simp only: unserialize_axisEntry_def param_cong_db [where db = db and db' = db' and p = p, OF at_p])
next
  fix p :: cp_path and e
  assume ok: "axisEntry_ok rid outPorts e"
  let ?params = "paramOut_n ''numTotalBytes'' (numTotalBytes e) @ paramOut_n ''numBytesRemaining'' (numBytesRemaining e) @
     paramOut_i ''debugId'' (we_debugId e) @ paramOut_i ''vc'' (we_vc e) @
     paramOut_i ''oPortRouterId'' (port_id rid (we_oPort e))"
  define db0 where "db0 = IniFile_load ?params (Some p) Map.empty"
  define db1 where "db1 = IniFile_load (ScopedCheckpointSection p ''nppData'' (\<lambda>q. serialize_axisData q (we_nppData e)))
      (Some p) db0"
  have db1: "IniFile_load (serialize_axisEntry rid p e) (Some p) Map.empty = db1"
    by (simp add: serialize_axisEntry_def db1_def db0_def paramOut_def)
  have data: "unserialize_axisData db1 (p @ [''nppData'']) = Inr (axisData_restored (we_nppData e))"
    unfolding db1_def by (rule axisData_cp.restore_scoped)
      (use ok in \<open>auto simp: axisEntry_ok_def db0_def paramOut_def prefix_def\<close>)
  have at_p: "db1 (p, k) = db0 (p, k)" for k
    unfolding db1_def by (rule axisData_cp.scoped_outside) simp
  have ports: "ports_ok rid outPorts" "port_known outPorts (we_oPort e)" using ok by (simp_all add: axisEntry_ok_def)
  show "unserialize_axisEntry rid outPorts (IniFile_load (serialize_axisEntry rid p e) (Some p) Map.empty) p =
      Inr (axisEntry_restored e)"
    unfolding db1 unserialize_axisEntry_def cp_read at_p data
    using ok find_port_id [OF ports] port_id_range [OF ports]
    by (simp add: db0_def paramOut_def axisEntry_ok_def axisEntry_restored_def int32_cast)
qed

definition serialize_axisWriteBuffer :: "(port \<Rightarrow> int) \<Rightarrow> cp_path \<Rightarrow> axisWriteBuffer \<Rightarrow> cp_line list" where
  "serialize_axisWriteBuffer rid p b =
     paramOut_n ''axisChopBytes'' NPP_SIZE @
     paramOut_n ''maxBeatSize'' (maxBeatSize b) @
     paramOut_n ''bufferSize'' (wb_bufferSize b) @
     paramOut_i ''currTid'' (currTid b) @
     paramOut_i ''currTdest'' (currTdest b) @
     paramOut_b ''transmitting'' (transmitting b) @
     paramOut_i ''nextDequeuePos'' (nextDequeuePos b) @
     paramOut_n ''tlastPositionsSize'' (length (tlastPositions b)) @
     paramOut_n ''writeBufferSize'' (length (wb_entries b)) @
     param_list (indexed ''tlastPos'') 0 (map TokInt (tlastPositions b)) @
     scoped_list (serialize_axisEntry rid) (indexed ''e'') p 0 (wb_entries b)"

text \<open>A checkpoint without the chop size predates it and was written for 256 bytes.\<close>

definition unserialize_axisWriteBuffer ::
  "(port \<Rightarrow> int) \<Rightarrow> port option list \<Rightarrow> cp_db \<Rightarrow> cp_path \<Rightarrow> axisWriteBuffer result" where
  "unserialize_axisWriteBuffer rid outPorts db p =
     (let (_, checkpointChopBytes) = optParamIn (parse_unsigned 64) db p ''axisChopBytes'' 256 in
     rbind (paramIn_u 16 db p ''maxBeatSize'') (\<lambda>v_max.
     rbind (paramIn_u 16 db p ''bufferSize'') (\<lambda>v_size.
     rbind (paramIn_i db p ''currTid'') (\<lambda>v_tid.
     rbind (paramIn_i db p ''currTdest'') (\<lambda>v_tdest.
     rbind (paramIn_b db p ''transmitting'') (\<lambda>v_trans.
     rbind (paramIn_i db p ''nextDequeuePos'') (\<lambda>v_next.
     if checkpointChopBytes \<noteq> NPP_SIZE \<and> v_size \<noteq> 0
     then Inl (Fatal ''Cannot restore pending AXIS bytes with a different chop size'')
     else
       rbind (paramIn_u 64 db p ''tlastPositionsSize'') (\<lambda>tls.
       rbind (read_params (parse_signed 32) db p (indexed ''tlastPos'') 0 tls) (\<lambda>v_tls.
       rbind (paramIn_u 64 db p ''writeBufferSize'') (\<lambda>wbs.
       rbind (read_list (unserialize_axisEntry rid outPorts db) (indexed ''e'') p 0 wbs) (\<lambda>v_es.
         Inr \<lparr> wb_entries = v_es, maxBeatSize = v_max, wb_bufferSize = v_size, currTid = v_tid,
               currTdest = v_tdest, transmitting = v_trans, tlastPositions = v_tls,
               nextDequeuePos = v_next \<rparr>)))))))))))"

definition int32 :: "int \<Rightarrow> bool" where
  "int32 i \<longleftrightarrow> - (2 ^ 31) \<le> i \<and> i < 2 ^ 31"

definition axisWriteBuffer_ok :: "(port \<Rightarrow> int) \<Rightarrow> port option list \<Rightarrow> axisWriteBuffer \<Rightarrow> bool" where
  "axisWriteBuffer_ok rid outPorts b \<longleftrightarrow> maxBeatSize b < 2 ^ 16 \<and> wb_bufferSize b < 2 ^ 16 \<and>
     int32 (currTid b) \<and> int32 (currTdest b) \<and> int32 (nextDequeuePos b) \<and>
     length (tlastPositions b) < 2 ^ 64 \<and> list_all int32 (tlastPositions b) \<and>
     length (wb_entries b) < 2 ^ 64 \<and> list_all (axisEntry_ok rid outPorts) (wb_entries b)"

definition axisWriteBuffer_restored :: "axisWriteBuffer \<Rightarrow> axisWriteBuffer" where
  "axisWriteBuffer_restored b = b\<lparr> wb_entries := map axisEntry_restored (wb_entries b) \<rparr>"

lemma tlastPos_keys:
  "indexed ''tlastPos'' j \<noteq> ''axisChopBytes''" "indexed ''tlastPos'' j \<noteq> ''maxBeatSize''"
  "indexed ''tlastPos'' j \<noteq> ''bufferSize''" "indexed ''tlastPos'' j \<noteq> ''currTid''"
  "indexed ''tlastPos'' j \<noteq> ''currTdest''" "indexed ''tlastPos'' j \<noteq> ''transmitting''"
  "indexed ''tlastPos'' j \<noteq> ''nextDequeuePos''" "indexed ''tlastPos'' j \<noteq> ''tlastPositionsSize''"
  "indexed ''tlastPos'' j \<noteq> ''writeBufferSize''"
  using indexed_neq [of "CHR ''i''" "''tlastPos''" j "''tionsSize''"] by (simp_all add: indexed_def)

interpretation axis_buffer_cp:
  checkpoint_codec "serialize_axisWriteBuffer rid" "unserialize_axisWriteBuffer rid outPorts"
    "axisWriteBuffer_ok rid outPorts" axisWriteBuffer_restored for rid outPorts
proof unfold_locales
  show "strict_prefix p s" if "s \<in> sections (serialize_axisWriteBuffer rid p b)" for s p b
    using that by (simp add: serialize_axisWriteBuffer_def paramOut_def axis_entry_cp.sections_scoped_list_strict)
next
  fix p :: cp_path and db db' :: cp_db
  assume eq: "\<And>s k. prefix p s \<Longrightarrow> db (s, k) = db' (s, k)"
  have at_p: "db (p, k) = db' (p, k)" for k by (rule eq) simp
  have "read_list (unserialize_axisEntry rid outPorts db) (indexed ''e'') p i n =
      read_list (unserialize_axisEntry rid outPorts db') (indexed ''e'') p i n" for i n
    by (rule axis_entry_cp.read_list_below, rule eq) (simp add: strict_prefix_def)
  moreover have "read_params parse db p nm i n = read_params parse db' p nm i n"
    for parse :: "cp_value \<Rightarrow> int option" and nm i n
    by (rule read_params_at) (rule at_p)
  ultimately show "unserialize_axisWriteBuffer rid outPorts db p = unserialize_axisWriteBuffer rid outPorts db' p"
    by (simp only: unserialize_axisWriteBuffer_def param_cong_db [where db = db and db' = db' and p = p, OF at_p])
next
  fix p :: cp_path and b
  assume ok: "axisWriteBuffer_ok rid outPorts b"
  let ?head = "paramOut_n ''axisChopBytes'' NPP_SIZE @ paramOut_n ''maxBeatSize'' (maxBeatSize b) @
     paramOut_n ''bufferSize'' (wb_bufferSize b) @ paramOut_i ''currTid'' (currTid b) @
     paramOut_i ''currTdest'' (currTdest b) @ paramOut_b ''transmitting'' (transmitting b) @
     paramOut_i ''nextDequeuePos'' (nextDequeuePos b) @
     paramOut_n ''tlastPositionsSize'' (length (tlastPositions b)) @
     paramOut_n ''writeBufferSize'' (length (wb_entries b))"
  let ?tls = "param_list (indexed ''tlastPos'') 0 (map TokInt (tlastPositions b))"
  let ?params = "?head @ ?tls"
  define db where "db = IniFile_load (?params @ scoped_list (serialize_axisEntry rid) (indexed ''e'') p 0 (wb_entries b))
    (Some p) Map.empty"
  have inj: "inj (indexed stem)" for stem by (simp add: inj_def)
  have here: "db (p, k) = IniFile_load ?params (Some p) Map.empty (p, k)" for k
    unfolding db_def by (rule axis_entry_cp.container_here)
  have "db (p, k) = IniFile_load ?head (Some p) Map.empty (p, k)" if "\<And>j. indexed ''tlastPos'' j \<noteq> k" for k
    unfolding here load_append [of ?head ?tls]
    using load_param_list_other [where nm = "indexed ''tlastPos''" and k = k, OF that] by (simp add: paramOut_def)
  from this [OF tlastPos_keys(1)] this [OF tlastPos_keys(2)] this [OF tlastPos_keys(3)]
    this [OF tlastPos_keys(4)] this [OF tlastPos_keys(5)] this [OF tlastPos_keys(6)]
    this [OF tlastPos_keys(7)] this [OF tlastPos_keys(8)] this [OF tlastPos_keys(9)]
  have head: "db (p, ''axisChopBytes'') = Some [TokInt (int NPP_SIZE)]" "db (p, ''maxBeatSize'') = Some [TokInt (int (maxBeatSize b))]"
    "db (p, ''bufferSize'') = Some [TokInt (int (wb_bufferSize b))]" "db (p, ''currTid'') = Some [TokInt (currTid b)]"
    "db (p, ''currTdest'') = Some [TokInt (currTdest b)]" "db (p, ''transmitting'') = Some [TokBool (transmitting b)]"
    "db (p, ''nextDequeuePos'') = Some [TokInt (nextDequeuePos b)]"
    "db (p, ''tlastPositionsSize'') = Some [TokInt (int (length (tlastPositions b)))]"
    "db (p, ''writeBufferSize'') = Some [TokInt (int (length (wb_entries b)))]"
    by (simp_all add: paramOut_def)
  have "read_params (parse_signed 32) db p (indexed ''tlastPos'') 0 (length (tlastPositions b)) =
      read_params (parse_signed 32) (IniFile_load ?params (Some p) Map.empty) p (indexed ''tlastPos'') 0 (length (tlastPositions b))"
    by (rule read_params_at) (rule here)
  also have "\<dots> = Inr (tlastPositions b)"
    using ok by (simp add: paramOut_def)
      (rule read_param_list [OF inj], simp add: axisWriteBuffer_ok_def list_all_iff int32_def)
  finally have tls: "read_params (parse_signed 32) db p (indexed ''tlastPos'') 0 (length (tlastPositions b)) = Inr (tlastPositions b)" .
  have es: "read_list (unserialize_axisEntry rid outPorts db) (indexed ''e'') p 0 (length (wb_entries b)) =
      Inr (map axisEntry_restored (wb_entries b))"
    unfolding db_def
    by (rule axis_entry_cp.container_list [OF _ inj]) (use ok in \<open>simp_all add: paramOut_def axisWriteBuffer_ok_def\<close>)
  have chop: "NPP_SIZE < 2 ^ 64" by (simp add: NPP_SIZE_def NPP_MAX_SIZE_def)
  have "unserialize_axisWriteBuffer rid outPorts db p = Inr (axisWriteBuffer_restored b)"
    using ok chop unfolding unserialize_axisWriteBuffer_def cp_read head
    by (simp add: axisWriteBuffer_ok_def int32_def tls es axisWriteBuffer_restored_def)
  then show "unserialize_axisWriteBuffer rid outPorts
      (IniFile_load (serialize_axisWriteBuffer rid p b) (Some p) Map.empty) p = Inr (axisWriteBuffer_restored b)"
    by (simp only: serialize_axisWriteBuffer_def append_assoc db_def)
qed

section \<open>The memory-mapped buffer\<close>

text \<open>The address and data records are written by verbatim copies of the functions of the queue.\<close>

definition serialize_aximmRWAddrWB :: "cp_path \<Rightarrow> aximmRWAddr \<Rightarrow> cp_line list" where
  "serialize_aximmRWAddrWB = serialize_aximmRWAddr"

definition unserialize_aximmRWAddrWB :: "cp_db \<Rightarrow> cp_path \<Rightarrow> aximmRWAddr result" where
  "unserialize_aximmRWAddrWB = unserialize_aximmRWAddr"

definition serialize_aximmRWDataWB :: "cp_path \<Rightarrow> aximmRWData \<Rightarrow> cp_line list" where
  "serialize_aximmRWDataWB = serialize_aximmRWData"

definition unserialize_aximmRWDataWB :: "cp_db \<Rightarrow> cp_path \<Rightarrow> aximmRWData result" where
  "unserialize_aximmRWDataWB = unserialize_aximmRWData"

definition serialize_aximmEntry :: "(port \<Rightarrow> int) \<Rightarrow> cp_path \<Rightarrow> aximmWriteBufferEntry \<Rightarrow> cp_line list" where
  "serialize_aximmEntry rid p ent =
     paramOut_n ''axiBeatSize'' (axiBeatSize ent) @
     ScopedCheckpointSection p ''nppRequest'' (\<lambda>sec2. serialize_aximmRWAddrWB sec2 (nppRequest ent)) @
     paramOut_n ''numEmptyBytes'' (numEmptyBytes ent) @
     scoped_list serialize_aximmRWDataWB (indexed ''nppData'') p 0 (nppData ent) @
     paramOut_n ''beatIdx'' (beatIdx ent) @
     paramOut_n ''beatOffset'' (beatOffset ent) @
     paramOut_b ''SSIDMet'' (SSIDMet ent) @
     paramOut_i ''vc'' (wbe_vc ent) @
     paramOut_i ''oPortRouterId'' (port_id rid (wbe_oPort ent)) @
     paramOut_b ''isDecErr'' (isDecErr ent) @
     paramOut_n ''creationTick'' (creationTick ent) @
     paramOut_n ''pipelineEndTick'' (pipelineEndTick ent) @
     paramOut_n ''lastBeatTick'' (lastBeatTick ent) @
     paramOut_i ''probeDebugId'' (probeDebugId ent)"

definition unserialize_aximmEntry ::
  "(port \<Rightarrow> int) \<Rightarrow> port option list \<Rightarrow> cp_db \<Rightarrow> cp_path \<Rightarrow> aximmWriteBufferEntry result" where
  "unserialize_aximmEntry rid outPorts db p =
     rbind (paramIn_u 64 db p ''axiBeatSize'') (\<lambda>v_bs.
     rbind (unserialize_aximmRWAddrWB db (p @ [''nppRequest''])) (\<lambda>v_req.
     rbind (paramIn_u 16 db p ''numEmptyBytes'') (\<lambda>v_empty.
     rbind (read_list (unserialize_aximmRWDataWB db) (indexed ''nppData'') p 0 4) (\<lambda>v_data.
     rbind (paramIn_u 64 db p ''beatIdx'') (\<lambda>v_idx.
     rbind (paramIn_u 64 db p ''beatOffset'') (\<lambda>v_off.
     rbind (paramIn_b db p ''SSIDMet'') (\<lambda>v_ssid.
     rbind (paramIn_i db p ''vc'') (\<lambda>v_vc.
     rbind (paramIn_i db p ''oPortRouterId'') (\<lambda>router_id.
     rbind (paramIn_b db p ''isDecErr'') (\<lambda>v_dec.
     rbind (paramIn_u 64 db p ''creationTick'') (\<lambda>v_created.
     rbind (paramIn_u 64 db p ''pipelineEndTick'') (\<lambda>v_pipe.
     rbind (paramIn_u 64 db p ''lastBeatTick'') (\<lambda>v_last.
     rbind (paramIn_i db p ''probeDebugId'') (\<lambda>v_dbg.
       Inr \<lparr> axiBeatSize = trunc8 v_bs, nppRequest = v_req, numEmptyBytes = v_empty, nppData = v_data,
             beatIdx = trunc8 v_idx, beatOffset = trunc8 v_off, SSIDMet = v_ssid, wbe_vc = v_vc,
             wbe_oPort = find_port rid outPorts router_id, isDecErr = v_dec, creationTick = v_created,
             pipelineEndTick = v_pipe, lastBeatTick = v_last, probeDebugId = v_dbg \<rparr>))))))))))))))"

definition serialize_aximmWriteBuffer :: "(port \<Rightarrow> int) \<Rightarrow> cp_path \<Rightarrow> aximmWriteBuffer \<Rightarrow> cp_line list" where
  "serialize_aximmWriteBuffer rid p b =
     paramOut_n ''bufferSize'' (mb_bufferSize b) @
     paramOut_n ''writeBufferSize'' (length (mb_writeBuffer b)) @
     scoped_list (serialize_aximmEntry rid) (indexed ''wbe'') p 0 (mb_writeBuffer b)"

definition unserialize_aximmWriteBuffer ::
  "(port \<Rightarrow> int) \<Rightarrow> port option list \<Rightarrow> cp_db \<Rightarrow> cp_path \<Rightarrow> aximmWriteBuffer result" where
  "unserialize_aximmWriteBuffer rid outPorts db p =
     rbind (paramIn_u 16 db p ''bufferSize'') (\<lambda>v_size.
     rbind (paramIn_u 64 db p ''writeBufferSize'') (\<lambda>wbs.
     rbind (read_list (unserialize_aximmEntry rid outPorts db) (indexed ''wbe'') p 0 wbs) (\<lambda>v_es.
       Inr \<lparr> mb_writeBuffer = v_es, mb_bufferSize = v_size \<rparr>)))"

interpretation aximm_entry_cp:
  checkpoint_sections "serialize_aximmEntry rid" "unserialize_aximmEntry rid outPorts" for rid outPorts
proof unfold_locales
  show "strict_prefix p s" if "s \<in> sections (serialize_aximmEntry rid p e)" for s p e
    using that by (auto simp: serialize_aximmEntry_def paramOut_def serialize_aximmRWAddrWB_def serialize_aximmRWDataWB_def
        dest: aximmRWAddr_cp.sections_scoped_strict aximmRWData_cp.sections_scoped_list_strict)
next
  fix p :: cp_path and db db' :: cp_db
  assume eq: "\<And>s k. prefix p s \<Longrightarrow> db (s, k) = db' (s, k)"
  have at_p: "db (p, k) = db' (p, k)" for k by (rule eq) simp
  have "unserialize_aximmRWAddr db (p @ q) = unserialize_aximmRWAddr db' (p @ q)" for q
    by (rule aximmRWAddr_cp.reads_here, rule eq) simp
  moreover have "read_list (unserialize_aximmRWData db) nm p i n = read_list (unserialize_aximmRWData db') nm p i n" for nm i n
    by (rule aximmRWData_cp.read_list_below, rule eq) (simp add: strict_prefix_def)
  ultimately show "unserialize_aximmEntry rid outPorts db p = unserialize_aximmEntry rid outPorts db' p"
    by (simp only: unserialize_aximmEntry_def unserialize_aximmRWAddrWB_def unserialize_aximmRWDataWB_def
        param_cong_db [where db = db and db' = db' and p = p, OF at_p])
qed

lemma load_other_sections:
  "starts_section ls \<Longrightarrow> s \<notin> sections ls \<Longrightarrow> IniFile_load ls cur db (s, k) = db (s, k)"
  using load_outside [of s ls None db k] load_starts_section [of ls cur db] by simp

lemma starts_section_append: "ls \<noteq> [] \<Longrightarrow> starts_section ls \<Longrightarrow> starts_section (ls @ ls')"
  by (cases ls rule: starts_section.cases) auto

text \<open>The request is read back, but the next parameter of the entry is in the wrong section.\<close>

lemma aximm_entry_fatal:
  assumes "axiBeatSize e < 2 ^ 8" and "nppData e \<noteq> []"
  shows "unserialize_aximmEntry rid outPorts (IniFile_load (serialize_aximmEntry rid p e) (Some p) Map.empty) p =
    Inl (Fatal ''Can't unserialize'')"
proof -
  let ?q = "p @ [''nppRequest'']"
  let ?rest = "paramOut_n ''beatIdx'' (beatIdx e) @ paramOut_n ''beatOffset'' (beatOffset e) @
     paramOut_b ''SSIDMet'' (SSIDMet e) @ paramOut_i ''vc'' (wbe_vc e) @
     paramOut_i ''oPortRouterId'' (port_id rid (wbe_oPort e)) @ paramOut_b ''isDecErr'' (isDecErr e) @
     paramOut_n ''creationTick'' (creationTick e) @ paramOut_n ''pipelineEndTick'' (pipelineEndTick e) @
     paramOut_n ''lastBeatTick'' (lastBeatTick e) @ paramOut_i ''probeDebugId'' (probeDebugId e)"
  let ?beats = "scoped_list serialize_aximmRWData (indexed ''nppData'') p 0 (nppData e) @ ?rest"
  let ?req = "ScopedCheckpointSection p ''nppRequest'' (\<lambda>sec2. serialize_aximmRWAddr sec2 (nppRequest e))"
  define db0 where "db0 = Map.empty((p, ''axiBeatSize'') \<mapsto> [TokInt (int (axiBeatSize e))])"
  define db1 where "db1 = IniFile_load (serialize_aximmRWAddr ?q (nppRequest e)) (Some ?q) db0"
  define db2 where "db2 = db1((?q, ''numEmptyBytes'') \<mapsto> [TokInt (int (numEmptyBytes e))])"
  define db where "db = IniFile_load ?beats (Some ?q) db2"
  have flat: "end_section (serialize_aximmRWAddr ?q (nppRequest e)) (Some ?q) = Some ?q"
    by (simp add: serialize_aximmRWAddr_def paramOut_def)
  have load: "IniFile_load (serialize_aximmEntry rid p e) (Some p) Map.empty = db"
    using flat by (simp add: serialize_aximmEntry_def serialize_aximmRWAddrWB_def serialize_aximmRWDataWB_def
        ScopedCheckpointSection_def paramOut_def db_def db2_def db1_def db0_def)
  have sec: "s \<notin> sections ?beats" if "s = p \<or> s = ?q" for s
  proof
    assume "s \<in> sections ?beats"
    then have "s \<in> sections (scoped_list serialize_aximmRWData (indexed ''nppData'') p 0 (nppData e))"
      by (simp add: paramOut_def)
    from aximmRWData_cp.sections_scoped_list [OF this] that show False
      by (auto simp: prefix_def indexed_def)
  qed
  have "starts_section ?beats" using assms(2) by (cases "nppData e") (simp_all add: ScopedCheckpointSection_def)
  from load_other_sections [OF this sec] have at: "db (s, k) = db2 (s, k)" if "s = p \<or> s = ?q" for s k
    using that unfolding db_def by blast
  have db1_p: "db1 (p, k) = db0 (p, k)" for k
    unfolding db1_def by (rule aximmRWAddr_cp.load_ser_outside) simp
  have "unserialize_aximmRWAddr db2 ?q = unserialize_aximmRWAddr db1 ?q"
    by (simp add: unserialize_aximmRWAddr_def cp_read db2_def)
  moreover have "unserialize_aximmRWAddr db ?q = unserialize_aximmRWAddr db2 ?q"
    by (rule aximmRWAddr_cp.reads_here) (simp add: at)
  moreover have "unserialize_aximmRWAddr db1 ?q = Inr (aximmRWAddr_restored (nppRequest e))"
    unfolding db1_def by (rule aximmRWAddr_cp.restore) (auto simp: db0_def prefix_def)
  ultimately have req: "unserialize_aximmRWAddr db ?q = Inr (aximmRWAddr_restored (nppRequest e))" by simp
  have "db (p, ''axiBeatSize'') = Some [TokInt (int (axiBeatSize e))]" "db (p, ''numEmptyBytes'') = None"
    using at [of p] db1_p by (simp_all add: db2_def db0_def)
  then show ?thesis unfolding load using assms(1)
    by (simp add: unserialize_aximmEntry_def unserialize_aximmRWAddrWB_def req cp_read)
qed

text \<open>C30: A memory-mapped write buffer that holds any entry cannot be restored from its own
  checkpoint: the restore stops with a fatal error.\<close>

theorem aximm_buffer_checkpoint_fatal:
  assumes "mb_writeBuffer b = e # es" and "axiBeatSize e < 2 ^ 8" and "nppData e \<noteq> []"
    and "mb_bufferSize b < 2 ^ 16" and "length (mb_writeBuffer b) < 2 ^ 64"
  shows "unserialize_aximmWriteBuffer rid outPorts (load_checkpoint
      (ScopedCheckpointSection p n (\<lambda>sec. serialize_aximmWriteBuffer rid sec b))) (p @ [n]) =
    Inl (Fatal ''Can't unserialize'')"
proof -
  let ?p = "p @ [n]"
  let ?params = "paramOut_n ''bufferSize'' (mb_bufferSize b) @ paramOut_n ''writeBufferSize'' (length (mb_writeBuffer b))"
  have "unserialize_aximmWriteBuffer rid outPorts (IniFile_load (?params @ scoped_list (serialize_aximmEntry rid)
      (indexed ''wbe'') ?p 0 (mb_writeBuffer b)) (Some ?p) Map.empty) ?p = Inl (Fatal ''Can't unserialize'')"
    using assms aximm_entry_cp.container_head [of ?params "indexed ''wbe''" rid outPorts ?p 0 e es]
      aximm_entry_fatal [OF assms(2,3), of rid outPorts "?p @ [indexed ''wbe'' 0]"]
      parse_unsigned_nat [of 64 "Suc (length es)"]
    unfolding unserialize_aximmWriteBuffer_def cp_read aximm_entry_cp.container_here
    by (simp add: inj_def paramOut_def del: scoped_list.simps append_assoc)
  then show ?thesis by (simp add: serialize_aximmWriteBuffer_def ScopedCheckpointSection_def del: scoped_list.simps)
qed

theorem aximm_buffer_checkpoint_fatal_witness:
  "unserialize_aximmWriteBuffer (\<lambda>_. 2) [Some 3] (load_checkpoint (ScopedCheckpointSection [''sys''] ''wb''
      (\<lambda>sec. serialize_aximmWriteBuffer (\<lambda>_. 2) sec
        (add_requests [sample_write_req] 0 (Some 3) True 9 new_aximmWriteBuffer)))) [''sys'', ''wb''] =
    Inl (Fatal ''Can't unserialize'')"
  using aximm_buffer_checkpoint_fatal
    [of "add_requests [sample_write_req] 0 (Some 3) True 9 new_aximmWriteBuffer"
      "new_aximmWriteBufferEntry sample_write_req 0 (Some 3) True 9 False" "[]" "\<lambda>_. 2" "[Some 3]" "[''sys'']" "''wb''"]
  by (simp add: add_requests_def aximm_add_def new_aximmWriteBuffer_def)
    (simp add: new_aximmWriteBufferEntry_def)

lemma axisEntry_restored_same: "axisEntry_restored e = e \<longleftrightarrow> beat_intact (we_nppData e)"
  unfolding axisEntry_restored_def axisData_restored_same [symmetric] by (cases e) auto

lemma axisWriteBuffer_restored_same: "axisWriteBuffer_restored b = b \<longleftrightarrow> (\<forall>e \<in> set (wb_entries b). beat_intact (we_nppData e))"
proof -
  have "axisWriteBuffer_restored b = b \<longleftrightarrow> map axisEntry_restored (wb_entries b) = wb_entries b"
    unfolding axisWriteBuffer_restored_def by (cases b) auto
  then show ?thesis by (simp add: list_eq_iff_nth_eq all_set_conv_all_nth axisEntry_restored_same)
qed

text \<open>C31: Reading a checkpointed stream write buffer back gives \<^const>\<open>axisWriteBuffer_restored\<close> of it: the
  entries in order with their remaining bytes, routes and probe ids, the packet boundaries and the
  open packet's identity, where the user signal of each beat is cut to its low byte and the
  logarithm of its width is computed anew. The buffer comes back unchanged exactly if every beat in
  it has a user signal below 256 and the logarithm its width has.\<close>

theorem axis_buffer_checkpoint_roundtrip:
  assumes "axisWriteBuffer_ok rid outPorts b"
  shows "unserialize_axisWriteBuffer rid outPorts (load_checkpoint
      (ScopedCheckpointSection p n (\<lambda>sec. serialize_axisWriteBuffer rid sec b))) (p @ [n]) =
    Inr (axisWriteBuffer_restored b) \<and>
    (axisWriteBuffer_restored b = b \<longleftrightarrow> (\<forall>e \<in> set (wb_entries b). beat_intact (we_nppData e)))"
  using axis_buffer_cp.restore_scoped [OF assms] axisWriteBuffer_restored_same by simp

definition sample_beat_buffer :: "u32 \<Rightarrow> axisWriteBuffer" where
  "sample_beat_buffer u = new_axisWriteBuffer\<lparr> wb_entries :=
     [new_axisWriteBufferEntry ((new_axisData 64 6 4)\<lparr> tuser := u \<rparr>) (Some 3) 1 7], tlastPositions := [20] \<rparr>"

theorem axis_buffer_checkpoint_roundtrip_witness:
  "(let b = sample_beat_buffer 255 in unserialize_axisWriteBuffer (\<lambda>_. 2) [Some 3] (load_checkpoint
      (ScopedCheckpointSection [''sys''] ''ab'' (\<lambda>sec. serialize_axisWriteBuffer (\<lambda>_. 2) sec b))) [''sys'', ''ab''] = Inr b) \<and>
   (let b = sample_beat_buffer 256 in unserialize_axisWriteBuffer (\<lambda>_. 2) [Some 3] (load_checkpoint
      (ScopedCheckpointSection [''sys''] ''ab'' (\<lambda>sec. serialize_axisWriteBuffer (\<lambda>_. 2) sec b))) [''sys'', ''ab''] \<noteq> Inr b)"
proof -
  have "axis_getTotalByteSize d < 65536" for d by (simp add: axis_getTotalByteSize_def)
  then have "axisWriteBuffer_ok (\<lambda>_. 2) [Some 3] (sample_beat_buffer u)" for u
    by (simp add: sample_beat_buffer_def axisWriteBuffer_ok_def new_axisWriteBuffer_def new_axisWriteBufferEntry_def axisEntry_ok_def
        int32_def axisData_ok_def new_axisData_def ports_ok_def port_known_def)
  note r = axis_buffer_checkpoint_roundtrip [OF this, of "[''sys'']" "''ab''"]
  have "(\<forall>e \<in> set (wb_entries (sample_beat_buffer u)). beat_intact (we_nppData e)) \<longleftrightarrow> unat u < 256" for u
    by (simp add: sample_beat_buffer_def new_axisWriteBufferEntry_def beat_intact_def new_axisData_def)
  then show ?thesis using r [of 255] r [of 256] by simp
qed

end
