(* ===== verification/Memory_Message.thy ===== *)
theory Memory_Message
  imports Stream_Message Aximm_Write_Buffer
begin

text \<open>
  Memory-mapped messages (\<open>src/noc/core/network/NocMemoryMsg.hh\<close>, \<open>NocMemoryMsg.cc\<close> and the strobe
  function of \<open>src/noc/lib/network/NocMessage.hh\<close>): the message record with its setters, and the
  sixteen data bytes and strobes that one flit takes from the payload of up to four beats.

  For messages of 64 byte beats, the only ones that packets use, the data and the strobes of
  flit \<open>i\<close> are shown to be the lanes \<open>16 i\<close> to \<open>16 i + 15\<close> of the payload.
\<close>

section \<open>The message\<close>

record NocMemoryMsg =
  mm_size :: AxiMsgSizeType
  mm_payload :: MessagePayload
  mm_pload :: Payload
  mm_beat_size :: nat
  mm_burst_len :: nat
  mm_num_flits :: nat
  mm_writeTag :: nat
  mm_rrob_tags :: "nat list"
  mm_axi_rrob_tag :: nat
  mm_axi_beat_id :: nat
  mm_end_beat_idx :: nat
  mm_current_beat_idx :: nat
  mm_dest_ni_id :: int
  mm_src_ni_id :: int
  mm_net_probe_dbg_ids :: "int list"
  mm_original_read_bytes :: nat
  mm_final_read_chunk :: bool
  mm_debugId :: int
  mm_debugIds :: "int list"
  mm_vnet :: int
  mm_incoming_link :: int

text \<open>
  The constructor leaves several members unset. The record that holds the message before the
  construction is an argument, so that no value is assumed for them.
\<close>

definition new_NocMemoryMsg ::
  "NocMemoryMsg \<Rightarrow> AxiMsgSizeType \<Rightarrow> MessagePayload \<Rightarrow> Payload \<Rightarrow> NocMemoryMsg" where
  "new_NocMemoryMsg raw size_type payload pload =
     raw\<lparr> mm_size := size_type, mm_payload := payload, mm_pload := pload, mm_end_beat_idx := 0,
          mm_current_beat_idx := 0, mm_num_flits := 0, mm_net_probe_dbg_ids := [],
          mm_original_read_bytes := 0, mm_final_read_chunk := False, mm_debugId := - 1,
          mm_debugIds := [] \<rparr>"

text \<open>The default argument: four value-initialised beats.\<close>

definition default_pload :: Payload where
  "default_pload = PlAximm (replicate 4 default_aximmRWData)"

definition mm_setData :: "Payload \<Rightarrow> NocMemoryMsg \<Rightarrow> NocMemoryMsg result" where
  "mm_setData payload m =
     (case payload of
        PlAximm _ \<Rightarrow> Inr (m\<lparr> mm_pload := payload \<rparr>)
      | PlAxis _ \<Rightarrow> Inl (Panic ''NocMemoryMsg::setData: expected aximmPayload''))"

definition mm_appendData :: "aximmRWData \<Rightarrow> NocMemoryMsg \<Rightarrow> NocMemoryMsg result" where
  "mm_appendData beat m =
     (case mm_pload m of
        PlAxis _ \<Rightarrow> Inl (Panic ''NocMemoryMsg::appendData called on non-aximmPayload'')
      | PlAximm p \<Rightarrow>
          if length p \<le> mm_end_beat_idx m then Inl (Undefined ''aximmPayload index'')
          else Inr (m\<lparr> mm_pload := PlAximm (p[mm_end_beat_idx m := beat]),
                       mm_end_beat_idx := trunc8 (mm_end_beat_idx m + 1) \<rparr>))"

definition mm_getRespAXIID :: "NocMemoryMsg \<Rightarrow> byte result" where
  "mm_getRespAXIID m =
     (case mm_pload m of
        PlAximm (b # _) \<Rightarrow> Inr (ucast (d_id b))
      | _ \<Rightarrow> Inl (Panic ''NocMemoryMsg::getRespAXIID on non-aximmPayload''))"

definition mm_getRROBTag :: "nat \<Rightarrow> NocMemoryMsg \<Rightarrow> nat result" where
  "mm_getRROBTag idx m =
     (if idx < length (mm_rrob_tags m) then Inr (mm_rrob_tags m ! idx)
      else Inl (Undefined ''m_rrob_tags index''))"

definition mm_setRROBTag :: "nat \<Rightarrow> nat \<Rightarrow> NocMemoryMsg \<Rightarrow> NocMemoryMsg result" where
  "mm_setRROBTag idx tag m =
     (if idx < length (mm_rrob_tags m)
      then Inr (m\<lparr> mm_rrob_tags := (mm_rrob_tags m)[idx := trunc8 tag] \<rparr>)
      else Inl (Undefined ''m_rrob_tags index''))"

definition mm_getStartBeatIdx :: "NocMemoryMsg \<Rightarrow> nat \<times> NocMemoryMsg" where
  "mm_getStartBeatIdx m =
     (mm_current_beat_idx m, m\<lparr> mm_current_beat_idx := trunc8 (mm_current_beat_idx m + 1) \<rparr>)"

definition resizeRequest :: "nat \<Rightarrow> NocMemoryMsg \<Rightarrow> NocMemoryMsg result" where
  "resizeRequest newSize m =
     (case mm_payload m of
        MpRWAddr a \<Rightarrow>
          Inr (m\<lparr> mm_payload := MpRWAddr (a\<lparr>
            len := of_int (int (getTotalByteSize a div 2 ^ newSize) - 1), sz := of_nat newSize \<rparr>) \<rparr>)
      | _ \<Rightarrow> Inl (Panic ''trying to call NocMemoryMsg::resizeRequest on a non-request payload''))"

definition cloneRROBTags :: "NocMemoryMsg option \<Rightarrow> NocMemoryMsg option \<Rightarrow> NocMemoryMsg result" where
  "cloneRROBTags src dst =
     (case (src, dst) of
        (Some s, Some d) \<Rightarrow> Inr (d\<lparr> mm_rrob_tags := mm_rrob_tags s \<rparr>)
      | _ \<Rightarrow> Inl (Throw ''Null MsgPtr passed to cloneRROBTags''))"

section \<open>The data and strobes of one flit\<close>

text \<open>
  \<open>beat_size\<close> is the low byte of a shift; a value of 256 gives zero and divides by zero. Reading a
  beat outside the payload is undefined behaviour.
\<close>

definition flit_beat_size :: "NocMemoryMsg \<Rightarrow> nat" where
  "flit_beat_size m = trunc8 (2 ^ mm_beat_size m)"

definition beat_at :: "aximmRWData list \<Rightarrow> nat \<Rightarrow> aximmRWData result" where
  "beat_at p i = (if i < length p then Inr (p ! i) else Inl (Undefined ''aximmPayload index''))"

definition mm_getFlitData :: "NocMemoryMsg \<Rightarrow> nat \<Rightarrow> byte list result" where
  "mm_getFlitData m flit_id =
     (case mm_pload m of
        PlAxis _ \<Rightarrow> Inl (Panic ''NocMemoryMsg::getFlitData expected NocMemoryMsg payload'')
      | PlAximm p \<Rightarrow>
          let beat_size = flit_beat_size m in
          if beat_size = 0 then Inl (Undefined ''division by zero'')
          else if beat_size < 16 then
            let beats_per_flit = 16 div beat_size;
                start_beat_idx = trunc8 (flit_id * beats_per_flit);
                end_beat_idx = trunc8 (start_beat_idx + beats_per_flit)
            in if end_beat_idx < start_beat_idx then Inl (Undefined ''uninitialised flit data'')
               else rbind (rmap (beat_at p) [start_beat_idx..<end_beat_idx]) (\<lambda>bs.
                 Inr (concat (map (\<lambda>b. take beat_size (d_data b)) bs)))
          else if beat_size = 16 then
            rbind (beat_at p flit_id) (\<lambda>b. Inr (take 16 (d_data b)))
          else
            let flits_per_beat = beat_size div 16;
                beat_idx = trunc8 (flit_id * 16 div beat_size)
            in rbind (beat_at p beat_idx) (\<lambda>b.
                 Inr (take 16 (drop (flit_id mod flits_per_beat * 16) (d_data b)))))"

definition getFlitStrobe :: "NocMemoryMsg \<Rightarrow> nat \<Rightarrow> u64" where
  "getFlitStrobe m flit_id =
     (let beat_size = flit_beat_size m;
          from_payload = (case mm_payload m of
              MpRWData d \<Rightarrow> if d_valid d then wstrb d else 0
            | _ \<Rightarrow> 0)
      in case mm_pload m of
           PlAxis _ \<Rightarrow> from_payload
         | PlAximm p \<Rightarrow>
             if beat_size \<ge> 64 then
               let beat_idx = trunc8 (flit_id * 16 div beat_size) in
               if beat_idx < length p \<and> d_valid (p ! beat_idx)
               then drop_bit (flit_id mod (beat_size div 16) * 16) (wstrb (p ! beat_idx)) AND mask 16
               else from_payload
             else if flit_id < length p \<and> d_valid (p ! flit_id) then wstrb (p ! flit_id)
             else from_payload)"

section \<open>Flits of 64 byte beats\<close>

text \<open>A packet payload as the master unit builds it: four valid beats of 64 bytes.\<close>

definition packet_beats :: "aximmRWData list \<Rightarrow> bool" where
  "packet_beats ds \<longleftrightarrow> length ds = 4 \<and> (\<forall>d \<in> set ds. length (d_data d) = 64 \<and> d_valid d)"

definition flit_lanes :: "byte list \<Rightarrow> u64 \<Rightarrow> (byte \<times> bool) list" where
  "flit_lanes data strobe = beat_lanes data strobe 0 16"

lemma packet_beatsD:
  assumes "packet_beats ds" and "i < 4"
  shows "length (d_data (ds ! i)) = 64" "d_valid (ds ! i)" "length ds = 4"
  using assms by (auto simp: packet_beats_def)

lemma mm_flit_lanes:
  assumes "packet_beats ds" and "mm_pload m = PlAximm ds" and "mm_beat_size m = 6" and "f < 16"
  shows "\<exists>data. mm_getFlitData m f = Inr data \<and> length data = 16 \<and>
    flit_lanes data (getFlitStrobe m f) = map (lane ds) [16 * f..<16 * f + 16]"
proof -
  define q where "q = f div 4"
  define r where "r = f mod 4"
  have f: "f = 4 * q + r" "r < 4" "q < 4" using assms(4) by (auto simp: q_def r_def)
  note d = packet_beatsD [OF assms(1) f(3)]
  have size: "flit_beat_size m = 64" by (simp add: flit_beat_size_def assms(3))
  have idx: "f * 16 div 64 = q" "f mod 4 = r" using f by (auto simp: q_def r_def)
  have "q < 256" using f(3) by simp
  let ?data = "take 16 (drop (r * 16) (d_data (ds ! q)))"
  have data: "mm_getFlitData m f = Inr ?data"
    using d(3) f(3) \<open>q < 256\<close> idx by (simp add: mm_getFlitData_def assms(2) size Let_def beat_at_def)
  have strobe: "getFlitStrobe m f = drop_bit (r * 16) (wstrb (ds ! q)) AND mask 16"
    using d f(3) \<open>q < 256\<close> idx by (simp add: getFlitStrobe_def assms(2) size Let_def)
  have len: "length ?data = 16" using d(1) f(2) by simp
  have "(?data ! k, bit (getFlitStrobe m f) k) = lane ds (16 * f + k)" if k: "k < 16" for k
  proof -
    have "16 * f + k = 64 * q + (16 * r + k)" "16 * r + k < 64" using f(1,2) k by linarith+
    then have "(16 * f + k) div 64 = q" "(16 * f + k) mod 64 = r * 16 + k"
      by (metis div_mult_self4 div_less add.right_neutral zero_neq_numeral,
          metis mod_mult_self4 mod_less mult.commute)
    then show ?thesis using d(1) f(2) k
      by (simp add: lane_def strobe bit_and_iff bit_mask_iff bit_drop_bit_eq add.commute)
  qed
  then have "flit_lanes ?data (getFlitStrobe m f) = map (lane ds) [16 * f..<16 * f + 16]"
    by (intro nth_equalityI) (simp_all add: flit_lanes_def beat_lanes_def)
  with data len show ?thesis by blast
qed

text \<open>For a packet payload of 64 byte beats and every flit index below sixteen, the data and
  strobes that the message hands to flit \<open>f\<close> are exactly the lanes \<open>16 f\<close> to \<open>16 f + 15\<close> of the
  payload.\<close>

lemma mm_flit_is_slice:
  assumes "packet_beats ds" and "mm_pload m = PlAximm ds" and "mm_beat_size m = 6" and "f < 16"
  shows "\<exists>data. mm_getFlitData m f = Inr data \<and> length data = 16 \<and>
    flit_lanes data (getFlitStrobe m f) = map (lane ds) [16 * f..<16 * f + 16]"
  by (rule mm_flit_lanes [OF assms])

definition sample_packet_msg :: NocMemoryMsg where
  "sample_packet_msg =
     \<lparr> mm_size = MsgW, mm_payload = MpRWAddr default_aximmRWAddr,
       mm_pload = PlAximm (replicate 4 (default_aximmRWData\<lparr> d_valid := True \<rparr>)), mm_beat_size = 6,
       mm_burst_len = 4, mm_num_flits = 0, mm_writeTag = 0, mm_rrob_tags = replicate 8 0,
       mm_axi_rrob_tag = 0, mm_axi_beat_id = 0, mm_end_beat_idx = 0, mm_current_beat_idx = 0,
       mm_dest_ni_id = 0, mm_src_ni_id = 0, mm_net_probe_dbg_ids = [], mm_original_read_bytes = 0,
       mm_final_read_chunk = False, mm_debugId = - 1, mm_debugIds = [], mm_vnet = 0,
       mm_incoming_link = 0 \<rparr>"

lemma mm_flit_is_slice_witness:
  "\<exists>data. mm_getFlitData sample_packet_msg 5 = Inr data \<and> length data = 16 \<and>
    flit_lanes data (getFlitStrobe sample_packet_msg 5) =
      map (lane (replicate 4 (default_aximmRWData\<lparr> d_valid := True \<rparr>))) [80..<96]"
  using mm_flit_is_slice [of "replicate 4 (default_aximmRWData\<lparr> d_valid := True \<rparr>)"
      sample_packet_msg 5]
  by (simp add: packet_beats_def sample_packet_msg_def default_aximmRWData_def del: upt_rec_numeral)

end
