(* ===== verification/Mm_Depacketizer.thy ===== *)
theory Mm_Depacketizer
  imports Memory_Message
begin

text \<open>
  Reassembly of memory-mapped write data
  (\<open>src/noc/core/network/nsu_types/MmWriteDataDepacketizer.hh\<close> and \<open>.cc\<close>): one flit of sixteen
  bytes becomes several narrow beats, one beat, or a part of a wide beat that is collected in the
  assembly state.

  The beats of a whole packet are determined lane by lane: they are the lanes of the packet cut
  at the endpoint width, where a wide endpoint shifts every beat by the misalignment of the write
  address. An aligned packet is therefore reproduced, and a misaligned one of more than one beat
  loses lanes.
\<close>

section \<open>The reassembly function\<close>

record MmWriteDataAssemblyState =
  aggregateData :: "byte list"
  aggregateStrobe :: u64

definition new_MmWriteDataAssemblyState :: MmWriteDataAssemblyState where
  "new_MmWriteDataAssemblyState = \<lparr> aggregateData = replicate 64 0, aggregateStrobe = 0 \<rparr>"

record MmWriteDataDebugRange =
  startByte :: int
  validBytes :: int

record MmWriteDataDepacketizedFlit =
  payloads :: "aximmRWData list"
  debugRanges :: "MmWriteDataDebugRange list"

definition popcountll :: "u64 \<Rightarrow> nat" where
  "popcountll w = length (filter (bit w) [0..<64])"

definition makeDebugRange :: "nat \<Rightarrow> u64 \<Rightarrow> MmWriteDataDebugRange" where
  "makeDebugRange start strobe = \<lparr> startByte = int start, validBytes = int (popcountll strobe) \<rparr>"

definition new_aximmRWData :: "AximmCommand \<Rightarrow> u32 \<Rightarrow> bool \<Rightarrow> byte list \<Rightarrow> u64 \<Rightarrow> aximmRWData" where
  "new_aximmRWData cmd axi_id is_last data strobe =
     default_aximmRWData\<lparr> d_cmd := cmd, d_id := axi_id, d_last := is_last, d_valid := True,
       d_data := data, wstrb := strobe \<rparr>"

text \<open>One narrow beat: the bytes and strobes of its part of the flit. A width that does not
  divide the flit can read past its end.\<close>

definition narrow_beat ::
  "nat \<Rightarrow> u32 \<Rightarrow> bool \<Rightarrow> byte list \<Rightarrow> u64 \<Rightarrow> nat \<Rightarrow> aximmRWData result" where
  "narrow_beat w axiId is_last flitData flitStrobe i =
     (if length flitData < w * i + w then Inl (Undefined ''read past the flit'')
      else Inr (new_aximmRWData CmdWRITE axiId is_last
             (copy_at (replicate 64 0) 0 (take w (drop (w * i) flitData)))
             (drop_bit (w * i) flitStrobe AND low_mask w)))"

definition bytes_in_flit :: "nat \<Rightarrow> nat \<Rightarrow> nat" where
  "bytes_in_flit transferBytes bytesBefore =
     (if transferBytes \<noteq> 0
      then min 16 (if transferBytes > bytesBefore then transferBytes - bytesBefore else 0)
      else 16)"

definition depacketizeMmWriteDataFlit ::
  "nat \<Rightarrow> u32 \<Rightarrow> u64 \<Rightarrow> MmWriteDataAssemblyState \<Rightarrow> nat \<Rightarrow> nat \<Rightarrow> byte list \<Rightarrow> u64 \<Rightarrow> nat \<Rightarrow>
     (MmWriteDataAssemblyState \<times> MmWriteDataDepacketizedFlit) result" where
  "depacketizeMmWriteDataFlit w axiId writeAddress assembly flitId numFlits flitData flitStrobe
     transferBytes =
     (let bytesBefore = flitId * 16;
          isTailFlit = (numFlits = flitId + 1)
      in if w = 0 then Inl (Undefined ''division by zero'')
      else if w < 16 then
        let bytesInFlit = bytes_in_flit transferBytes bytesBefore;
            beatsPerFlit = trunc8 ((bytesInFlit + w - 1) div w)
        in rbind (rmap (\<lambda>i. narrow_beat w axiId (isTailFlit \<and> i + 1 = beatsPerFlit)
                     flitData flitStrobe i) [0..<beatsPerFlit]) (\<lambda>bs.
             Inr (assembly, \<lparr> payloads = bs,
               debugRanges = map (\<lambda>i. makeDebugRange (bytesBefore + i * w) (wstrb (bs ! i)))
                 [0..<beatsPerFlit] \<rparr>))
      else if w = 16 then
        Inr (assembly, \<lparr> payloads = [new_aximmRWData CmdWRITE axiId isTailFlit
                (copy_at (replicate 64 0) 0 flitData) flitStrobe],
               debugRanges = [makeDebugRange bytesBefore flitStrobe] \<rparr>)
      else
        let flitsPerBeat = trunc8 (w div 16) in
        if flitsPerBeat = 0 then Inl (Undefined ''division by zero'')
        else
          let offsetIdx = flitId mod flitsPerBeat in
          if 64 < offsetIdx * 16 + 16 then Inl (Undefined ''write past the assembly buffer'')
          else
            let assembly1 = assembly\<lparr>
                  aggregateData := copy_at (aggregateData assembly) (offsetIdx * 16) flitData,
                  aggregateStrobe := aggregateStrobe assembly OR push_bit (offsetIdx * 16) flitStrobe \<rparr>
            in if (flitId + 1) mod flitsPerBeat \<noteq> 0 \<and> \<not> isTailFlit
               then Inr (assembly1, \<lparr> payloads = [], debugRanges = [] \<rparr>)
               else
                 let beatStart = flitId div flitsPerBeat * w;
                     alignShift = unat writeAddress mod w
                 in if 64 \<le> alignShift then Inl (Undefined ''shift by the word size'')
                    else
                      let alignedData = copy_at (replicate 64 0) alignShift
                            (take (64 - alignShift) (aggregateData assembly1));
                          alignedStrobe = push_bit alignShift (aggregateStrobe assembly1)
                      in Inr (new_MmWriteDataAssemblyState,
                           \<lparr> payloads = [new_aximmRWData CmdWRITE axiId isTailFlit alignedData
                                alignedStrobe],
                             debugRanges = [makeDebugRange beatStart alignedStrobe] \<rparr>))"

text \<open>The flits of a packet in order, and the beats they give.\<close>

fun depacketize_flits ::
  "nat \<Rightarrow> u32 \<Rightarrow> u64 \<Rightarrow> nat \<Rightarrow> nat \<Rightarrow> MmWriteDataAssemblyState \<Rightarrow> nat \<Rightarrow> (byte list \<times> u64) list \<Rightarrow>
     (MmWriteDataAssemblyState \<times> aximmRWData list) result" where
  "depacketize_flits w axiId wa n t st f [] = Inr (st, [])"
| "depacketize_flits w axiId wa n t st f (x # xs) =
     rbind (depacketizeMmWriteDataFlit w axiId wa st f n (fst x) (snd x) t) (\<lambda>(st1, r).
     rbind (depacketize_flits w axiId wa n t st1 (f + 1) xs) (\<lambda>(st2, bs).
       Inr (st2, payloads r @ bs)))"

section \<open>The lanes on the endpoint bus\<close>

definition bus_lanes :: "nat \<Rightarrow> aximmRWData \<Rightarrow> (byte \<times> bool) list" where
  "bus_lanes w b = beat_lanes (d_data b) (wstrb b) 0 w"

definition pad_lanes :: "nat \<Rightarrow> (byte \<times> bool) list \<Rightarrow> (byte \<times> bool) list" where
  "pad_lanes w xs = xs @ replicate (w - length xs) (0, False)"

fun bus_beats :: "nat \<Rightarrow> nat \<Rightarrow> (byte \<times> bool) list \<Rightarrow> (byte \<times> bool) list list" where
  "bus_beats w a xs =
     (if w = 0 \<or> xs = [] then []
      else (replicate a (0, False) @ take (w - a) (pad_lanes w (take w xs))) #
           bus_beats w a (drop w xs))"

declare bus_beats.simps [simp del]

lemma bus_beats_Nil [simp]: "bus_beats w a [] = []"
  by (simp add: bus_beats.simps)

lemma bus_beats_chunk:
  "0 < w \<Longrightarrow> length xs = w \<Longrightarrow>
    bus_beats w a (xs @ ys) = (replicate a (0, False) @ take (w - a) xs) # bus_beats w a ys"
  by (subst bus_beats.simps) (auto simp: pad_lanes_def)

lemma bus_beats_last:
  "xs \<noteq> [] \<Longrightarrow> length xs \<le> w \<Longrightarrow>
    bus_beats w a xs = [replicate a (0, False) @ take (w - a) (pad_lanes w xs)]"
  by (subst bus_beats.simps) (cases w, auto)

lemma bus_beats_append:
  "0 < w \<Longrightarrow> length xs = n * w \<Longrightarrow> bus_beats w a (xs @ ys) = bus_beats w a xs @ bus_beats w a ys"
proof (induction n arbitrary: xs)
  case (Suc n)
  then have "xs = take w xs @ drop w xs" "length (take w xs) = w" "length (drop w xs) = n * w"
    by simp_all
  with Suc show ?case
    by (metis append_assoc append_Cons bus_beats_chunk)
qed simp

lemma bus_beats_slices:
  "0 < w \<Longrightarrow> length xs = n * w \<Longrightarrow>
    bus_beats w 0 xs = map (\<lambda>i. take w (drop (w * i) xs)) [0..<n]"
proof (induction n arbitrary: xs)
  case (Suc n)
  then have x: "length (take w xs) = w" "length (drop w xs) = n * w"
    by simp_all
  have "bus_beats w 0 xs = take w xs # bus_beats w 0 (drop w xs)"
    using bus_beats_chunk [OF Suc.prems(1) x(1), of 0 "drop w xs"] by simp
  with Suc.IH [OF Suc.prems(1) x(2)] show ?case
    by (simp add: upt_conv_Cons map_Suc_upt [symmetric] comp_def add.commute del: upt_Suc)
qed simp

lemma length_bus_lanes [simp]: "length (bus_lanes w b) = w"
  by (simp add: bus_lanes_def beat_lanes_def)

lemma length_flit_lanes [simp]: "length (flit_lanes d s) = 16"
  by (simp add: flit_lanes_def beat_lanes_def)

lemma length_beat_lanes [simp]: "length (beat_lanes d s i j) = j - i"
  by (simp add: beat_lanes_def)

lemma nth_beat_lanes [simp]: "k < j \<Longrightarrow> beat_lanes d s 0 j ! k = (d ! k, bit s k)"
  by (simp add: beat_lanes_def)

section \<open>Narrow endpoints\<close>

definition none_last :: "aximmRWData list \<Rightarrow> bool" where
  "none_last bs \<longleftrightarrow> (\<forall>b \<in> set bs. \<not> d_last b)"

definition last_only :: "aximmRWData list \<Rightarrow> bool" where
  "last_only bs \<longleftrightarrow> bs \<noteq> [] \<and> d_last (last bs) \<and> none_last (butlast bs)"

lemma last_only_append: "none_last xs \<Longrightarrow> last_only ys \<Longrightarrow> last_only (xs @ ys)"
  by (auto simp: last_only_def none_last_def butlast_append)

lemma narrow_beat_lanes:
  assumes "length d = 16" and "w * i + w \<le> 16"
  shows "\<exists>b. narrow_beat w axiId l d s i = Inr b \<and> d_last b = l \<and>
    bus_lanes w b = take w (drop (w * i) (flit_lanes d s))"
proof -
  let ?b = "new_aximmRWData CmdWRITE axiId l (copy_at (replicate 64 0) 0 (take w (drop (w * i) d)))
    (drop_bit (w * i) s AND low_mask w)"
  have "bus_lanes w ?b = take w (drop (w * i) (flit_lanes d s))"
    using assms by (intro nth_equalityI)
      (simp_all add: bus_lanes_def beat_lanes_def new_aximmRWData_def flit_lanes_def nth_copy_at
        bit_and_iff bit_low_mask bit_drop_bit_eq add.commute)
  then show ?thesis using assms by (simp add: narrow_beat_def new_aximmRWData_def)
qed

lemma depacketize_narrow_flit:
  assumes "0 < w" "w < 16" "w dvd 16" and d: "length d = 16"
    and nb: "nb = (bytes_in_flit t (f * 16) + w - 1) div w"
  shows "\<exists>r. depacketizeMmWriteDataFlit w axiId wa st f n d s t = Inr (st, r) \<and>
    map (bus_lanes w) (payloads r) = bus_beats w 0 (take (nb * w) (flit_lanes d s)) \<and>
    (if n = f + 1 then 0 < nb \<longrightarrow> last_only (payloads r) else none_last (payloads r))"
proof -
  obtain q where q: "16 = w * q" using assms(3) by (rule dvdE)
  have "nb * w \<le> 16"
  proof -
    have "(bytes_in_flit t (f * 16) + w - 1) div w \<le> (w * q + (w - 1)) div w"
      using q by (intro div_le_mono) (auto simp: bytes_in_flit_def)
    also have "\<dots> = q" using assms(1) by (simp add: div_mult_self4 del: Nat.add_diff_assoc)
    finally have "nb * w \<le> q * w" using nb by (simp only: mult_le_mono1)
    then show ?thesis using q by (simp only: mult.commute)
  qed
  then have room: "w * i + w \<le> 16" if "i < nb" for i
    using that by (metis Suc_leI le_trans mult.commute mult_Suc_right mult_le_mono1 add.commute)
  have "nb * 1 \<le> nb * w" using assms(1) by (intro mult_le_mono2) simp
  then have nb8: "trunc8 nb = nb" using \<open>nb * w \<le> 16\<close> by (intro trunc8_id) linarith
  let ?l = "\<lambda>i. n = f + 1 \<and> i + 1 = nb"
  define bt where "bt i = (SOME b. narrow_beat w axiId (?l i) d s i = Inr b)" for i
  have bt: "narrow_beat w axiId (?l i) d s i = Inr (bt i)" "d_last (bt i) = ?l i"
    "bus_lanes w (bt i) = take w (drop (w * i) (flit_lanes d s))" if "i < nb" for i
    using narrow_beat_lanes [OF d room [OF that], of axiId "?l i" s] unfolding bt_def by auto
  have "rmap (\<lambda>i. narrow_beat w axiId (?l i) d s i) [0..<nb] = Inr (map bt [0..<nb])"
    using bt(1) by (intro rmap_Inr) auto
  moreover have "map (bus_lanes w) (map bt [0..<nb]) =
      bus_beats w 0 (take (nb * w) (flit_lanes d s))"
  proof -
    have "bus_beats w 0 (take (nb * w) (flit_lanes d s)) =
        map (\<lambda>i. take w (drop (w * i) (take (nb * w) (flit_lanes d s)))) [0..<nb]"
      using assms(1) \<open>nb * w \<le> 16\<close> by (intro bus_beats_slices) auto
    moreover have "take w (drop (w * i) (take (nb * w) (flit_lanes d s))) =
        take w (drop (w * i) (flit_lanes d s))" if "i < nb" for i
    proof -
      have "w * i + w \<le> nb * w" using that
        by (metis Suc_leI mult.commute mult_Suc_right mult_le_mono1 add.commute)
      then show ?thesis by (simp add: drop_take min_def)
    qed
    ultimately show ?thesis using bt(3) by auto
  qed
  moreover have "none_last (map bt [0..<nb])" if "n \<noteq> f + 1"
    using bt(2) that by (auto simp: none_last_def)
  moreover have "last_only (map bt [0..<nb])" if "n = f + 1" "0 < nb"
    using bt(2) that by (cases nb) (auto simp: last_only_def none_last_def)
  ultimately show ?thesis using assms(1,2) nb nb8
    by (simp add: depacketizeMmWriteDataFlit_def Let_def result_simps)
qed

section \<open>Wide endpoints\<close>

text \<open>The assembly state holds the lanes of the flits seen so far and nothing beyond them.\<close>

definition assembled :: "MmWriteDataAssemblyState \<Rightarrow> (byte \<times> bool) list \<Rightarrow> bool" where
  "assembled st ls \<longleftrightarrow> length (aggregateData st) = 64 \<and>
     beat_lanes (aggregateData st) (aggregateStrobe st) 0 64 = pad_lanes 64 ls"

lemma assembled_new [simp]: "assembled new_MmWriteDataAssemblyState []"
  by (auto simp: assembled_def new_MmWriteDataAssemblyState_def beat_lanes_def pad_lanes_def
      intro!: nth_equalityI)

lemma nth_pad_lanes:
  "k < w \<Longrightarrow> length ls \<le> w \<Longrightarrow> pad_lanes w ls ! k = (if k < length ls then ls ! k else (0, False))"
  by (simp add: pad_lanes_def nth_append)

lemma assembledD:
  assumes "assembled st ls" and "length ls \<le> 64" and "k < 64"
  shows "aggregateData st ! k = fst (pad_lanes 64 ls ! k)" "bit (aggregateStrobe st) k = snd (pad_lanes 64 ls ! k)"
proof -
  have "beat_lanes (aggregateData st) (aggregateStrobe st) 0 64 ! k = pad_lanes 64 ls ! k"
    using assms(1) by (simp add: assembled_def)
  then show "aggregateData st ! k = fst (pad_lanes 64 ls ! k)"
    "bit (aggregateStrobe st) k = snd (pad_lanes 64 ls ! k)"
    using assms(3) by (simp_all add: prod_eq_iff)
qed

lemma assemble_flit:
  assumes "assembled st ls" and ls: "length ls = o16" and "o16 + 16 \<le> 64" and d: "length d = 16"
    and s: "\<forall>k \<ge> 16. \<not> bit s k"
  shows "assembled (st\<lparr> aggregateData := copy_at (aggregateData st) o16 d,
      aggregateStrobe := aggregateStrobe st OR push_bit o16 s \<rparr>) (ls @ flit_lanes d s)"
proof -
  have len: "length (aggregateData st) = 64" using assms(1) by (simp add: assembled_def)
  have "(copy_at (aggregateData st) o16 d ! k, bit (aggregateStrobe st OR push_bit o16 s) k) =
      pad_lanes 64 (ls @ flit_lanes d s) ! k" if k: "k < 64" for k
  proof -
    have "length ls \<le> 64" using assms(3) ls by linarith
    note a = assembledD [OF assms(1) this k]
    consider "k < o16" | "o16 \<le> k" "k < o16 + 16" | "o16 + 16 \<le> k" by linarith
    then show ?thesis
    proof cases
      case 1
      then show ?thesis using k a ls len assms(3) d
        by (simp add: nth_copy_at nth_pad_lanes nth_append bit_or_iff bit_push_bit_iff)
    next
      case 2
      then show ?thesis using k a ls len assms(3) d
        by (simp add: nth_copy_at nth_pad_lanes nth_append bit_or_iff bit_push_bit_iff)
          (simp add: flit_lanes_def)
    next
      case 3
      then have "\<not> bit s (k - o16)" using s by auto
      with 3 show ?thesis using k a ls len assms(3) d
        by (simp add: nth_copy_at nth_pad_lanes nth_append bit_or_iff bit_push_bit_iff)
    qed
  qed
  then show ?thesis using len assms(3) d
    by (auto simp: assembled_def pad_lanes_def ls intro!: nth_equalityI)
qed

lemma aligned_beat_lanes:
  assumes "assembled st ls" and "length ls \<le> w" and "w \<le> 64" and "a < w"
  shows "bus_lanes w (new_aximmRWData CmdWRITE axiId l
      (copy_at (replicate 64 0) a (take (64 - a) (aggregateData st))) (push_bit a (aggregateStrobe st))) =
    replicate a (0, False) @ take (w - a) (pad_lanes w ls)"
proof (rule nth_equalityI)
  have len: "length (aggregateData st) = 64" using assms(1) by (simp add: assembled_def)
  show "length (bus_lanes w (new_aximmRWData CmdWRITE axiId l
      (copy_at (replicate 64 0) a (take (64 - a) (aggregateData st))) (push_bit a (aggregateStrobe st)))) =
    length (replicate a (0, False) @ take (w - a) (pad_lanes w ls))"
    using assms(2,4) by (simp add: pad_lanes_def)
  fix k
  assume "k < length (bus_lanes w (new_aximmRWData CmdWRITE axiId l
      (copy_at (replicate 64 0) a (take (64 - a) (aggregateData st))) (push_bit a (aggregateStrobe st))))"
  then have k: "k < w" by simp
  have "length ls \<le> 64" "k - a < 64" using assms k by linarith+
  note ak = assembledD [OF assms(1) this]
  show "bus_lanes w (new_aximmRWData CmdWRITE axiId l
      (copy_at (replicate 64 0) a (take (64 - a) (aggregateData st))) (push_bit a (aggregateStrobe st))) ! k =
    (replicate a (0, False) @ take (w - a) (pad_lanes w ls)) ! k"
    using ak assms len k
    by (cases "k < a") (auto simp: bus_lanes_def new_aximmRWData_def nth_copy_at nth_append
        bit_push_bit_iff nth_pad_lanes)
qed

lemma depacketize_wide_flit:
  assumes w: "w = 16 * g" "g = 2 \<or> g = 4" and st: "assembled st ls" "length ls = 16 * (f mod g)"
    and d: "length d = 16" "\<forall>k \<ge> 16. \<not> bit s k"
  shows "\<exists>st' r. depacketizeMmWriteDataFlit w axiId wa st f n d s t = Inr (st', r) \<and>
    (if (f + 1) mod g \<noteq> 0 \<and> n \<noteq> f + 1 then payloads r = [] \<and> assembled st' (ls @ flit_lanes d s)
     else st' = new_MmWriteDataAssemblyState \<and> (\<exists>b. payloads r = [b] \<and> d_last b = (n = f + 1) \<and>
       bus_lanes w b = replicate (unat wa mod w) (0, False) @
         take (w - unat wa mod w) (pad_lanes w (ls @ flit_lanes d s))))"
proof -
  have g: "w div 16 = g" "trunc8 g = g" "16 < w" "w \<noteq> 16" "\<not> w < 16" "w \<noteq> 0" "g \<noteq> 0" "w \<le> 64"
    using w by auto
  have "f mod g < g" using g(7) by simp
  then have off: "f mod g * 16 + 16 \<le> w" using w(1) by linarith
  have a: "unat wa mod w < w" using g(6) by simp
  let ?st1 = "st\<lparr> aggregateData := copy_at (aggregateData st) (f mod g * 16) d,
    aggregateStrobe := aggregateStrobe st OR push_bit (f mod g * 16) s \<rparr>"
  have st1: "assembled ?st1 (ls @ flit_lanes d s)"
    using st(2) off g(8) d by (intro assemble_flit [OF st(1)]) auto
  have room: "length (ls @ flit_lanes d s) \<le> w" using st(2) off by simp
  have fits: "\<not> 64 < f mod g * 16 + 16" using off g(8) by simp
  show ?thesis
  proof (cases "(f + 1) mod g \<noteq> 0 \<and> n \<noteq> f + 1")
    case True
    then have "depacketizeMmWriteDataFlit w axiId wa st f n d s t =
        Inr (?st1, \<lparr> payloads = [], debugRanges = [] \<rparr>)"
      using fits g(1-7) by (simp add: depacketizeMmWriteDataFlit_def Let_def)
    with True st1 show ?thesis by simp
  next
    case False
    moreover have "\<not> 64 \<le> unat wa mod w" using a g(8) by linarith
    ultimately show ?thesis
      using aligned_beat_lanes [OF st1 room g(8) a, of axiId "n = f + 1"] st1 fits g(1-7) False
      by (simp add: depacketizeMmWriteDataFlit_def Let_def) (simp add: new_aximmRWData_def)
  qed
qed

section \<open>Whole packets\<close>

definition flit_ok :: "byte list \<times> u64 \<Rightarrow> bool" where
  "flit_ok x \<longleftrightarrow> length (fst x) = 16 \<and> (\<forall>k \<ge> 16. \<not> bit (snd x) k)"

definition flits_lanes :: "(byte list \<times> u64) list \<Rightarrow> (byte \<times> bool) list" where
  "flits_lanes xs = concat (map (\<lambda>x. flit_lanes (fst x) (snd x)) xs)"

lemma flits_lanes_simps [simp]:
  "flits_lanes [] = []" "flits_lanes (x # xs) = flit_lanes (fst x) (snd x) @ flits_lanes xs"
  by (simp_all add: flits_lanes_def)

lemma length_flits_lanes [simp]: "length (flits_lanes xs) = 16 * length xs"
  by (induction xs) auto

lemma mod_step: "0 < (g :: nat) \<Longrightarrow> (f + 1) mod g \<noteq> 0 \<Longrightarrow> (f + 1) mod g = f mod g + 1"
  by (metis Suc_eq_plus1 mod_Suc)

lemma depacketize_wide_packet:
  assumes w: "w = 16 * g" "g = 2 \<or> g = 4"
  shows "assembled st ls \<Longrightarrow> length ls = 16 * (f mod g) \<Longrightarrow> list_all flit_ok xs \<Longrightarrow> xs \<noteq> [] \<Longrightarrow>
    n = f + length xs \<Longrightarrow>
    \<exists>st' bs. depacketize_flits w axiId wa n t st f xs = Inr (st', bs) \<and> last_only bs \<and>
      map (bus_lanes w) bs = bus_beats w (unat wa mod w) (ls @ flits_lanes xs)"
proof (induction xs arbitrary: st ls f)
  case (Cons x xs)
  have d: "length (fst x) = 16" "\<forall>k \<ge> 16. \<not> bit (snd x) k"
    using Cons.prems(3) by (simp_all add: flit_ok_def)
  let ?ls = "ls @ flit_lanes (fst x) (snd x)" and ?a = "unat wa mod w"
  obtain st1 r where r: "depacketizeMmWriteDataFlit w axiId wa st f n (fst x) (snd x) t = Inr (st1, r)"
      "if (f + 1) mod g \<noteq> 0 \<and> n \<noteq> f + 1 then payloads r = [] \<and> assembled st1 ?ls
     else st1 = new_MmWriteDataAssemblyState \<and> (\<exists>b. payloads r = [b] \<and> d_last b = (n = f + 1) \<and>
       bus_lanes w b = replicate ?a (0, False) @ take (w - ?a) (pad_lanes w ?ls))"
    using depacketize_wide_flit [OF w Cons.prems(1,2) d] by blast
  have n: "n = f + 1 \<longleftrightarrow> xs = []" "n = f + 1 + length xs" using Cons.prems(5) by auto
  show ?case
  proof (cases "(f + 1) mod g \<noteq> 0 \<and> xs \<noteq> []")
    case True
    then have "length ?ls = 16 * ((f + 1) mod g)" using Cons.prems(2) w(2) mod_step [of g f] by auto
    with True r n Cons.IH [of st1 ?ls "f + 1"] Cons.prems(3) show ?thesis
      by (auto simp: result_simps)
  next
    case False
    then obtain b where b: "st1 = new_MmWriteDataAssemblyState" "payloads r = [b]"
      "d_last b = (xs = [])" "bus_lanes w b = replicate ?a (0, False) @ take (w - ?a) (pad_lanes w ?ls)"
      using r(2) n by auto
    show ?thesis
    proof (cases "xs = []")
      case True
      have "f mod g < g" using w(2) by auto
      then have "length ?ls \<le> w" using Cons.prems(2) w(1) by simp
      moreover have "?ls \<noteq> []" by (metis append_is_Nil_conv length_flit_lanes list.size(3) zero_neq_numeral)
      ultimately have "bus_beats w ?a ?ls = [bus_lanes w b]" using b(4) by (subst bus_beats_last) auto
      with True r(1) b show ?thesis by (simp add: result_simps last_only_def none_last_def)
    next
      case xs: False
      with False have f: "(f + 1) mod g = 0" by simp
      then have "f mod g + 1 = g" using w(2) by (metis Suc_eq_plus1 mod_Suc nat.distinct(1) mod_0 zero_neq_numeral)
      then have len: "length ?ls = w" using Cons.prems(2) w(1) by simp
      then have "bus_beats w ?a (?ls @ flits_lanes xs) = bus_lanes w b # bus_beats w ?a (flits_lanes xs)"
        using b(4) w by (subst bus_beats_chunk) (auto simp: pad_lanes_def)
      moreover obtain st' bs where "depacketize_flits w axiId wa n t st1 (f + 1) xs = Inr (st', bs)"
        "last_only bs" "map (bus_lanes w) bs = bus_beats w ?a (flits_lanes xs)"
        using Cons.IH [of st1 "[]" "f + 1"] b(1) f xs n(2) Cons.prems(3) by auto
      moreover have "last_only (b # bs)"
        using last_only_append [of "[b]" bs] \<open>last_only bs\<close> b(3) xs by (simp add: none_last_def)
      ultimately show ?thesis using r(1) b(2) by (simp add: result_simps)
    qed
  qed
qed simp

definition round_up :: "nat \<Rightarrow> nat \<Rightarrow> nat" where
  "round_up w t = (t + w - 1) div w * w"

lemma round_up_bounds:
  assumes "0 < w"
  shows "t \<le> round_up w t" "round_up w t < t + w" "w dvd round_up w t"
proof -
  have "(t + w - 1) div w * w + (t + w - 1) mod w = t + w - 1" by simp
  moreover have "(t + w - 1) mod w < w" using assms by simp
  ultimately show "t \<le> round_up w t" "round_up w t < t + w" using assms unfolding round_up_def by linarith+
qed (simp add: round_up_def)

lemma round_up_shift:
  assumes "0 < w" and "w dvd c"
  shows "round_up w (c + t) = c + round_up w t"
proof -
  obtain k where k: "c = w * k" using assms(2) by (rule dvdE)
  have "w * k + t + w - 1 = (t + w - 1) + w * k" using assms(1) by linarith
  then have "(w * k + t + w - 1) div w = k + (t + w - 1) div w"
    using assms(1) div_mult_self4 [of w k "t + w - 1"] by (simp only: add.commute)
  then show ?thesis by (simp add: round_up_def k algebra_simps)
qed

lemma round_up_between:
  assumes "0 < w" and "w dvd 16" and "16 * m < t" and "t \<le> 16 * (m + 1)"
  shows "16 * m < round_up w t" "round_up w t \<le> 16 * (m + 1)"
proof -
  show "16 * m < round_up w t" using round_up_bounds(1) [OF assms(1), of t] assms(3) by linarith
  have "w dvd 16 * (m + 1)" using assms(2) by (simp add: dvd_mult2)
  then obtain c where c: "16 * (m + 1) = w * c" by (rule dvdE)
  obtain e where e: "round_up w t = w * e" using round_up_bounds(3) [OF assms(1)] by (rule dvdE)
  have "w * e < w * c + w" using round_up_bounds(2) [OF assms(1), of t] assms(4) c e by linarith
  then have "e < c + 1" using assms(1) by (metis mult_less_cancel1 distrib_left mult.right_neutral)
  then show "round_up w t \<le> 16 * (m + 1)" unfolding c e by simp
qed

lemma depacketize_narrow_packet:
  assumes w: "0 < w" "w < 16" "w dvd 16"
  shows "list_all flit_ok xs \<Longrightarrow> xs \<noteq> [] \<Longrightarrow> n = f + length xs \<Longrightarrow> 16 * (n - 1) < t \<Longrightarrow> t \<le> 16 * n \<Longrightarrow>
    \<exists>bs. depacketize_flits w axiId wa n t st f xs = Inr (st, bs) \<and> last_only bs \<and>
      map (bus_lanes w) bs = bus_beats w 0 (take (round_up w t - 16 * f) (flits_lanes xs))"
proof (induction xs arbitrary: f)
  case (Cons x xs)
  let ?nb = "(bytes_in_flit t (f * 16) + w - 1) div w" and ?x = "flit_lanes (fst x) (snd x)"
  have d: "length (fst x) = 16" using Cons.prems(1) by (simp add: flit_ok_def)
  obtain r where r: "depacketizeMmWriteDataFlit w axiId wa st f n (fst x) (snd x) t = Inr (st, r)"
      "map (bus_lanes w) (payloads r) = bus_beats w 0 (take (?nb * w) ?x)"
      "if n = f + 1 then 0 < ?nb \<longrightarrow> last_only (payloads r) else none_last (payloads r)"
    using depacketize_narrow_flit [OF w d refl] by blast
  have nb: "?nb * w = round_up w (bytes_in_flit t (f * 16))" by (simp add: round_up_def)
  show ?case
  proof (cases "xs = []")
    case True
    then have n: "n = f + 1" "16 * f < t" using Cons.prems(3,4) by simp_all
    then have t: "bytes_in_flit t (f * 16) = t - 16 * f" "t = 16 * f + (t - 16 * f)"
      using Cons.prems(5) by (auto simp: bytes_in_flit_def)
    have "round_up w t = 16 * f + round_up w (t - 16 * f)"
      using round_up_shift [OF w(1), of "16 * f" "t - 16 * f"] w(3) t(2) by simp
    then have T: "round_up w t - 16 * f = ?nb * w" using nb t(1) by simp
    have "0 < ?nb * w" using round_up_bounds(1) [OF w(1), of "t - 16 * f"] nb t(1) n(2) by simp
    then have "0 < ?nb" by (cases ?nb) auto
    with True r n T show ?thesis by (simp add: result_simps)
  next
    case False
    then have f: "16 * f + 16 < t" "n \<noteq> f + 1" using Cons.prems(3,4) by (cases xs; simp)+
    then have "bytes_in_flit t (f * 16) = 16" by (simp add: bytes_in_flit_def)
    moreover have "round_up w 16 = 16" using round_up_between [of w 0 16] w round_up_bounds(1) [OF w(1), of 16] by simp
    ultimately have b16: "?nb * w = 16" using nb by simp
    have T: "16 * f + 16 < round_up w t" using round_up_bounds(1) [OF w(1), of t] f by linarith
    have "take (round_up w t - 16 * f) (flits_lanes (x # xs)) =
        ?x @ take (round_up w t - 16 * (f + 1)) (flits_lanes xs)" using T by (simp add: add.commute)
    moreover have "bus_beats w 0 (?x @ ys) = bus_beats w 0 ?x @ bus_beats w 0 ys" for ys
      using b16 w(1) by (intro bus_beats_append) auto
    moreover obtain bs where "depacketize_flits w axiId wa n t st (f + 1) xs = Inr (st, bs)" "last_only bs"
      "map (bus_lanes w) bs = bus_beats w 0 (take (round_up w t - 16 * (f + 1)) (flits_lanes xs))"
      using Cons.IH [of "f + 1"] False Cons.prems by auto
    ultimately show ?thesis using r f(2) b16 last_only_append by (simp add: result_simps)
  qed
qed simp

lemma depacketize_equal_packet:
  "list_all flit_ok xs \<Longrightarrow> xs \<noteq> [] \<Longrightarrow> n = f + length xs \<Longrightarrow>
    \<exists>bs. depacketize_flits 16 axiId wa n t st f xs = Inr (st, bs) \<and> last_only bs \<and>
      map (bus_lanes 16) bs = bus_beats 16 0 (flits_lanes xs)"
proof (induction xs arbitrary: f)
  case (Cons x xs)
  let ?b = "new_aximmRWData CmdWRITE axiId (n = f + 1) (copy_at (replicate 64 0) 0 (fst x)) (snd x)"
  have d: "length (fst x) = 16" using Cons.prems(1) by (simp add: flit_ok_def)
  have b: "bus_lanes 16 ?b = flit_lanes (fst x) (snd x)"
    using d by (intro nth_equalityI) (simp_all add: bus_lanes_def flit_lanes_def new_aximmRWData_def nth_copy_at)
  have beats: "bus_beats 16 0 (flits_lanes (x # xs)) = bus_lanes 16 ?b # bus_beats 16 0 (flits_lanes xs)"
    unfolding b using bus_beats_chunk [of 16 "flit_lanes (fst x) (snd x)" 0 "flits_lanes xs"] by simp
  have last: "d_last ?b = (xs = [])" using Cons.prems(3) by (cases xs) (auto simp: new_aximmRWData_def)
  show ?case
  proof (cases "xs = []")
    case True
    then show ?thesis using beats last
      by (simp add: depacketizeMmWriteDataFlit_def Let_def result_simps last_only_def none_last_def)
  next
    case False
    then obtain bs where "depacketize_flits 16 axiId wa n t st (f + 1) xs = Inr (st, bs)" "last_only bs"
      "map (bus_lanes 16) bs = bus_beats 16 0 (flits_lanes xs)"
      using Cons.IH [of "f + 1"] Cons.prems by auto
    moreover from this have "last_only (?b # bs)"
      using last_only_append [of "[?b]" bs] last False by (simp add: none_last_def)
    ultimately show ?thesis using beats
      by (simp add: depacketizeMmWriteDataFlit_def Let_def result_simps)
  qed
qed simp

definition bus_widths :: "nat list" where
  "bus_widths = [1, 2, 4, 8, 16, 32, 64]"

definition align_shift :: "nat \<Rightarrow> u64 \<Rightarrow> nat" where
  "align_shift w wa = (if w \<le> 16 then 0 else unat wa mod w)"

lemma bus_width_cases:
  assumes "w \<in> set bus_widths"
  obtains "0 < w" "w < 16" "w dvd 16" | "w = 16" | g where "w = 16 * g" "g = 2 \<or> g = 4"
  using assms by (auto simp: bus_widths_def)

lemma round_up_full:
  assumes "16 dvd w" and "0 < w" and "16 * m < t"
  shows "16 * (m + 1) \<le> round_up w t"
proof -
  have "16 dvd round_up w t" using assms(1) round_up_bounds(3) [OF assms(2)] by (rule dvd_trans)
  then obtain c where "round_up w t = 16 * c" by (rule dvdE)
  moreover have "16 * m < round_up w t" using round_up_bounds(1) [OF assms(2), of t] assms(3) by linarith
  ultimately show ?thesis by simp
qed

lemma mm_packet_bus_beats:
  assumes "w \<in> set bus_widths" and "list_all flit_ok xs" and "xs \<noteq> []"
    and t: "16 * (length xs - 1) < t" "t \<le> 16 * length xs"
  shows "\<exists>st bs. depacketize_flits w axiId wa (length xs) t new_MmWriteDataAssemblyState 0 xs =
      Inr (st, bs) \<and> last_only bs \<and>
    map (bus_lanes w) bs = bus_beats w (align_shift w wa) (take (round_up w t) (flits_lanes xs))"
proof -
  have all: "take (round_up w t) (flits_lanes xs) = flits_lanes xs" if "16 dvd w" "0 < w"
    using round_up_full [OF that t(1)] assms(3) by (simp add: Suc_leI)
  from assms(1) show ?thesis
  proof (cases rule: bus_width_cases)
    case 1
    then show ?thesis
      using depacketize_narrow_packet [OF 1 assms(2,3), of "length xs" 0 t axiId wa
          new_MmWriteDataAssemblyState] t
      by (auto simp: align_shift_def)
  next
    case 2
    then show ?thesis
      using depacketize_equal_packet [OF assms(2,3), of "length xs" 0 axiId wa t
          new_MmWriteDataAssemblyState] all
      by (auto simp: align_shift_def)
  next
    case (3 g)
    then have "align_shift w wa = unat wa mod w" "16 dvd w" "0 < w" by (auto simp: align_shift_def)
    then show ?thesis
      using depacketize_wide_packet [OF 3 assembled_new _ assms(2,3), of 0 "length xs" axiId wa t] all
      by auto
  qed
qed

lemma concat_bus_beats:
  "0 < w \<Longrightarrow> concat (bus_beats w 0 xs) = pad_lanes (round_up w (length xs)) xs"
proof (induction w "0::nat" xs rule: bus_beats.induct)
  case (1 w xs)
  show ?case
  proof (cases "length xs \<le> w")
    case True
    have "round_up w (length xs) = w" if "xs \<noteq> []"
    proof -
      obtain c where "round_up w (length xs) = w * c" using round_up_bounds(3) [OF 1(2)] by (rule dvdE)
      moreover have "0 < round_up w (length xs)" "round_up w (length xs) < w * 2"
        using round_up_bounds(1,2) [OF 1(2), of "length xs"] that True
        by (simp_all flip: length_greater_0_conv)
      ultimately show ?thesis by (cases c) (auto simp: mult_less_cancel1 less_Suc_eq)
    qed
    then show ?thesis using True
      by (cases "xs = []") (auto simp: bus_beats_last pad_lanes_def round_up_def)
  next
    case False
    then have split: "length (take w xs) = w" by simp
    have len: "length xs = w + length (drop w xs)" using False by simp
    have "bus_beats w 0 xs = take w xs # bus_beats w 0 (drop w xs)"
      using bus_beats_chunk [OF 1(2) split, of 0 "drop w xs"] by simp
    moreover have "concat (bus_beats w 0 (drop w xs)) =
        pad_lanes (round_up w (length (drop w xs))) (drop w xs)"
      using 1(2) False by (intro 1(1)) auto
    moreover have "round_up w (length xs) = w + round_up w (length (drop w xs))"
      using round_up_shift [OF 1(2) dvd_refl, of "length (drop w xs)"] by (simp only: len [symmetric])
    moreover have "w + r - length xs = r - length (drop w xs)" for r using len by linarith
    ultimately show ?thesis
      by (simp only: pad_lanes_def concat.simps append_assoc [symmetric] append_take_drop_id)
  qed
qed

lemma round_up_squeeze:
  assumes w: "0 < w" and "t \<le> x" and "x \<le> round_up w t"
  shows "round_up w x = round_up w t"
proof -
  obtain c where c: "round_up w t = w * c" using round_up_bounds(3) [OF w] by (rule dvdE)
  obtain e where e: "round_up w x = w * e" using round_up_bounds(3) [OF w] by (rule dvdE)
  have "w * e < w * c + w" "w * c < w * e + w"
    using round_up_bounds(1,2) [OF w, of x] round_up_bounds(1,2) [OF w, of t] assms(2,3) c e by linarith+
  then have "w * e < w * (c + 1)" "w * c < w * (e + 1)" by (simp_all add: algebra_simps)
  then have "e < c + 1" "c < e + 1" using w by (simp_all only: mult_less_cancel1)
  then show ?thesis using c e by simp
qed

lemma bus_beats_agree:
  "length xs = length ys \<Longrightarrow> (\<And>k. k < length xs \<Longrightarrow> k mod w < w - a \<Longrightarrow> xs ! k = ys ! k) \<Longrightarrow>
    bus_beats w a xs = bus_beats w a ys"
proof (induction w a xs arbitrary: ys rule: bus_beats.induct)
  case (1 w a xs)
  show ?case
  proof (cases "w = 0 \<or> xs = []")
    case True
    then show ?thesis using "1.prems"(1) by (auto simp: bus_beats.simps)
  next
    case False
    have "bus_beats w a (drop w xs) = bus_beats w a (drop w ys)"
      using False "1.prems" by (intro "1.IH") auto
    moreover have "take (w - a) (pad_lanes w (take w xs)) = take (w - a) (pad_lanes w (take w ys))"
      using "1.prems" by (intro nth_equalityI) (auto simp: nth_pad_lanes pad_lanes_def nth_append)
    ultimately show ?thesis using False "1.prems"(1) by (auto simp: bus_beats.simps [of w a])
  qed
qed

section \<open>Write data through the network\<close>

definition message_flits :: "NocMemoryMsg \<Rightarrow> nat \<Rightarrow> (byte list \<times> u64) list result" where
  "message_flits m n = rmap (\<lambda>f. rbind (mm_getFlitData m f) (\<lambda>d. Inr (d, getFlitStrobe m f))) [0..<n]"

lemma getFlitStrobe_low:
  assumes "packet_beats ds" and "mm_pload m = PlAximm ds" and "mm_beat_size m = 6" and "f < 16"
  shows "\<forall>k \<ge> 16. \<not> bit (getFlitStrobe m f) k"
proof -
  have "f * 16 div 64 < 4" "f * 16 div 64 < 256" using assms(4) by auto
  then show ?thesis using packet_beatsD [OF assms(1), of "f * 16 div 64"]
    by (simp add: getFlitStrobe_def flit_beat_size_def assms(2,3) Let_def bit_and_iff bit_mask_iff)
qed

lemma message_flits_lanes:
  assumes "packet_beats ds" and "mm_pload m = PlAximm ds" and "mm_beat_size m = 6" and "n \<le> 16"
  shows "\<exists>xs. message_flits m n = Inr xs \<and> length xs = n \<and> list_all flit_ok xs \<and>
    flits_lanes xs = map (lane ds) [0..<16 * n]"
  using assms(4)
proof (induction n)
  case (Suc n)
  then obtain xs where xs: "message_flits m n = Inr xs" "length xs = n" "list_all flit_ok xs"
    "flits_lanes xs = map (lane ds) [0..<16 * n]" by auto
  have "n < 16" using Suc.prems by simp
  obtain d where d: "mm_getFlitData m n = Inr d" "length d = 16"
    "flit_lanes d (getFlitStrobe m n) = map (lane ds) [16 * n..<16 * n + 16]"
    using mm_flit_lanes [OF assms(1-3) \<open>n < 16\<close>] by blast
  have "message_flits m (Suc n) = Inr (xs @ [(d, getFlitStrobe m n)])"
    using xs(1) d(1) by (simp add: message_flits_def rmap_append result_simps)
  moreover have "flit_ok (d, getFlitStrobe m n)"
    using d(2) getFlitStrobe_low [OF assms(1-3) \<open>n < 16\<close>] by (simp add: flit_ok_def)
  moreover have "flits_lanes (xs @ [(d, getFlitStrobe m n)]) = map (lane ds) [0..<16 * Suc n]"
    using xs(4) d(3) upt_add_eq_append [of 0 "16 * n" 16]
    by (simp add: flits_lanes_def add.commute)
  ultimately show ?case using xs(2,3) by auto
qed (simp add: message_flits_def)

text \<open>C12: Write data survives the network. A packet of \<open>t\<close> bytes that is cut into its flits and
  reassembled at an endpoint of any supported width gives, for an address aligned to that width (or
  an endpoint of at most one flit), exactly the bytes and strobes of the packet in their lanes,
  in the number of beats announced to the endpoint, and only the last beat is marked as last.\<close>

theorem mm_write_data_roundtrip:
  assumes "w \<in> set bus_widths" and "packet_beats ds" and "mm_pload m = PlAximm ds"
    and "mm_beat_size m = 6" and "0 < t" and "t \<le> 256" and "w \<le> 16 \<or> unat wa mod w = 0"
  shows "\<exists>xs st bs. message_flits m ((t + 15) div 16) = Inr xs \<and>
    depacketize_flits w axiId wa ((t + 15) div 16) t new_MmWriteDataAssemblyState 0 xs = Inr (st, bs) \<and>
    last_only bs \<and> length bs = (t + w - 1) div w \<and>
    take t (concat (map (bus_lanes w) bs)) = map (lane ds) [0..<t]"
proof -
  let ?n = "(t + 15) div 16"
  have n: "?n \<le> 16" "16 * (?n - 1) < t" "t \<le> 16 * ?n" "?n \<noteq> 0" using assms(5,6) by auto
  obtain xs where xs: "message_flits m ?n = Inr xs" "length xs = ?n" "list_all flit_ok xs"
    "flits_lanes xs = map (lane ds) [0..<16 * ?n]"
    using message_flits_lanes [OF assms(2-4) n(1)] by blast
  have "xs \<noteq> []" using xs(2) n(4) by auto
  then obtain st bs where bs: "depacketize_flits w axiId wa ?n t new_MmWriteDataAssemblyState 0 xs = Inr (st, bs)"
    "last_only bs" "map (bus_lanes w) bs = bus_beats w (align_shift w wa) (take (round_up w t) (flits_lanes xs))"
    using mm_packet_bus_beats [OF assms(1) xs(3), of t axiId wa] n xs(2) by metis
  have w: "0 < w" using assms(1) by (auto simp: bus_widths_def)
  have shift: "align_shift w wa = 0" using assms(7) by (auto simp: align_shift_def)
  have lanes: "concat (map (bus_lanes w) bs) = pad_lanes (round_up w (min (16 * ?n) (round_up w t)))
      (take (round_up w t) (map (lane ds) [0..<16 * ?n]))"
    unfolding bs(3) shift concat_bus_beats [OF w] xs(4) by (simp add: min.commute)
  have "take t (concat (map (bus_lanes w) bs)) = map (lane ds) [0..<t]"
    unfolding lanes using n(3) round_up_bounds(1) [OF w, of t]
    by (simp add: pad_lanes_def take_map)
  moreover have "length bs = (t + w - 1) div w"
  proof -
    have "length (concat (map (bus_lanes w) bs)) = w * length bs"
      by (induction bs) (auto simp: algebra_simps)
    also have "length (concat (map (bus_lanes w) bs)) = round_up w t"
      unfolding lanes
      using round_up_squeeze [OF w, of t "min (16 * ?n) (round_up w t)"] n(3) round_up_bounds(1) [OF w]
      by (simp add: pad_lanes_def)
    finally show ?thesis using w by (simp add: round_up_def mult.commute)
  qed
  ultimately show ?thesis using xs(1) bs(1,2) by blast
qed

theorem mm_write_data_roundtrip_witness:
  "\<exists>xs st bs. message_flits sample_packet_msg 7 = Inr xs \<and>
    depacketize_flits 32 3 64 7 100 new_MmWriteDataAssemblyState 0 xs = Inr (st, bs) \<and>
    last_only bs \<and> length bs = 4 \<and>
    take 100 (concat (map (bus_lanes 32) bs)) =
      map (lane (replicate 4 (default_aximmRWData\<lparr> d_valid := True \<rparr>))) [0..<100]"
  using mm_write_data_roundtrip [of 32 "replicate 4 (default_aximmRWData\<lparr> d_valid := True \<rparr>)"
      sample_packet_msg 100 64 3]
  by (simp add: bus_widths_def packet_beats_def sample_packet_msg_def default_aximmRWData_def
      del: upt_rec_numeral)

section \<open>Misaligned packets at wide endpoints\<close>

text \<open>C33: At an endpoint wider than one flit every beat of a packet is shifted by the misalignment
  \<open>a\<close> of the write address, so the last \<open>a\<close> lanes of each beat are lost: two packets that differ
  only in lanes \<open>k\<close> with \<open>k mod w \<ge> w - a\<close> cannot be told apart on the bus.\<close>

theorem misaligned_write_loses_lanes:
  assumes "w \<in> set bus_widths" and "16 < w" and "list_all flit_ok xs" and "list_all flit_ok ys"
    and "xs \<noteq> []" and "length ys = length xs"
    and "16 * (length xs - 1) < t" and "t \<le> 16 * length xs"
    and "\<forall>k < 16 * length xs. k mod w < w - unat wa mod w \<longrightarrow> flits_lanes xs ! k = flits_lanes ys ! k"
  shows "\<exists>st bs st' bs'.
    depacketize_flits w axiId wa (length xs) t new_MmWriteDataAssemblyState 0 xs = Inr (st, bs) \<and>
    depacketize_flits w axiId wa (length xs) t new_MmWriteDataAssemblyState 0 ys = Inr (st', bs') \<and>
    map (bus_lanes w) bs = map (bus_lanes w) bs'"
proof -
  have "ys \<noteq> []" using assms(5,6) by auto
  obtain st bs where bs: "depacketize_flits w axiId wa (length xs) t new_MmWriteDataAssemblyState 0 xs = Inr (st, bs)"
    "map (bus_lanes w) bs = bus_beats w (align_shift w wa) (take (round_up w t) (flits_lanes xs))"
    using mm_packet_bus_beats [OF assms(1,3,5,7,8)] by blast
  obtain st' bs' where bs': "depacketize_flits w axiId wa (length ys) t new_MmWriteDataAssemblyState 0 ys = Inr (st', bs')"
    "map (bus_lanes w) bs' = bus_beats w (align_shift w wa) (take (round_up w t) (flits_lanes ys))"
    using mm_packet_bus_beats [OF assms(1,4) \<open>ys \<noteq> []\<close>, of t axiId wa] assms(6,7,8) by auto
  have "map (bus_lanes w) bs = map (bus_lanes w) bs'"
    unfolding bs(2) bs'(2) using assms(2,6,9) by (intro bus_beats_agree) (auto simp: align_shift_def)
  with bs(1) bs'(1) assms(6) show ?thesis by auto
qed

text \<open>Two packets of 64 bytes for address 16 on a 32 byte bus, different in bytes 16 to 31.\<close>

definition sample_flits :: "byte \<Rightarrow> (byte list \<times> u64) list" where
  "sample_flits b = [(replicate 16 1, mask 16), (replicate 16 b, mask 16),
     (replicate 16 3, mask 16), (replicate 16 4, mask 16)]"

lemma sample_flits_ok: "list_all flit_ok (sample_flits b)"
  by (simp add: sample_flits_def flit_ok_def bit_mask_iff)

lemma sample_flits_lanes:
  assumes "k < 64" and "k mod 32 < 16"
  shows "flits_lanes (sample_flits b) ! k = flits_lanes (sample_flits c) ! k"
proof -
  have "k < 16 \<or> 32 \<le> k" using assms by (cases "k < 32") auto
  then show ?thesis by (auto simp: sample_flits_def nth_append)
qed

theorem misaligned_write_loses_lanes_witness:
  "\<exists>st bs st' bs'.
    depacketize_flits 32 0 16 4 64 new_MmWriteDataAssemblyState 0 (sample_flits 0) = Inr (st, bs) \<and>
    depacketize_flits 32 0 16 4 64 new_MmWriteDataAssemblyState 0 (sample_flits 2) = Inr (st', bs') \<and>
    map (bus_lanes 32) bs = map (bus_lanes 32) bs'"
proof -
  have "length (sample_flits b) = 4" for b by (simp add: sample_flits_def)
  then show ?thesis
    using misaligned_write_loses_lanes [of 32 "sample_flits 0" "sample_flits 2" 64 16 0]
      sample_flits_ok sample_flits_lanes [of _ 0 2]
    by (simp add: bus_widths_def) (auto simp: sample_flits_def)
qed

end
