(* ===== verification/Request_Chop.thy ===== *)
theory Request_Chop
  imports AXI_Types
begin

text \<open>
  The cut of an AXI burst into requests that stay within one 256 byte block
  (\<open>chopInto256BRequests\<close> in \<open>src/noc/core/network/nmu_types/mmNocMasterUnit.cc\<close>), used for reads and writes.

  For a start address that is a multiple of the beat size the requests list the beats of the burst
  exactly, in order, and there is exactly one for each block touched. For
  other addresses the loop stops with a panic at the first beat that crosses a block border.
\<close>

section \<open>The loop\<close>

definition bytes_to_boundary :: "u64 \<Rightarrow> nat" where
  "bytes_to_boundary a = unat ((a OR 0xFF) + 1 - a)"

text \<open>One round: the bytes of this request, a whole number of beats.\<close>

definition chunk_bytes :: "nat \<Rightarrow> u64 \<Rightarrow> nat \<Rightarrow> nat" where
  "chunk_bytes bytes_per_beat a bytes_left =
     (let n = min (bytes_to_boundary a) bytes_left in n - n mod bytes_per_beat)"

function chop_loop :: "aximmRWAddr \<Rightarrow> nat \<Rightarrow> u64 \<Rightarrow> nat \<Rightarrow> aximmRWAddr list result" where
  "chop_loop og bytes_per_beat current_addr bytes_left =
     (if bytes_left = 0 then Inr []
      else
        let n = chunk_bytes bytes_per_beat current_addr bytes_left;
            beats = n div bytes_per_beat
        in if n = 0 then Inl (Panic ''chopInto256BRequests: start address leaves zero usable bytes'')
           else rbind (chop_loop og bytes_per_beat (current_addr + of_nat n) (bytes_left - n))
                  (\<lambda>rs. Inr (og\<lparr> addr := current_addr, len := of_nat (beats - 1) \<rparr> # rs)))"
  by pat_completeness auto
termination
  by (relation "measure (\<lambda>(_, _, _, bytes_left). bytes_left)") auto

declare chop_loop.simps [simp del]

text \<open>A shift by 32 or more is undefined behaviour; the beat size is kept in sixteen bits.\<close>

definition chopInto256BRequests :: "aximmRWAddr \<Rightarrow> aximmRWAddr list result" where
  "chopInto256BRequests og =
     (if 32 \<le> unat (sz og) then Inl (Undefined ''shift out of range'')
      else let bytes_per_beat = trunc16 (2 ^ unat (sz og))
           in chop_loop og bytes_per_beat (addr og) (trunc32 ((unat (len og) + 1) * bytes_per_beat)))"

section \<open>The beats of a request\<close>

definition beat_addrs :: "aximmRWAddr \<Rightarrow> nat list" where
  "beat_addrs a = map (\<lambda>i. unat (addr a) + i * 2 ^ unat (sz a)) [0..<unat (len a) + 1]"

definition in_one_block :: "aximmRWAddr \<Rightarrow> bool" where
  "in_one_block a \<longleftrightarrow> unat (addr a) mod 256 + (unat (len a) + 1) * 2 ^ unat (sz a) \<le> 256"

lemma or_255: "(n :: nat) OR 255 = n div 256 * 256 + 255"
proof -
  have "n OR mask 8 = push_bit 8 (drop_bit 8 (n OR mask 8)) + take_bit 8 (n OR mask 8)"
    by (simp only: bits_ident)
  also have "drop_bit 8 (n OR mask 8) = n div 256"
    by (simp add: drop_bit_or) (simp add: drop_bit_eq_div mask_eq_exp_minus_1)
  also have "take_bit 8 (n OR mask 8) = mask 8"
    by (rule bit_eqI) (auto simp: bit_simps)
  finally show ?thesis by (simp add: push_bit_eq_mult mask_eq_exp_minus_1)
qed

lemma bytes_to_boundary_eq: "bytes_to_boundary a = 256 - unat a mod 256"
proof -
  have "unat (a OR 0xFF) = unat a div 256 * 256 + 255" by (simp add: unsigned_or_eq or_255)
  moreover have "unat a = unat a div 256 * 256 + unat a mod 256" "unat a mod 256 < 256" by simp_all
  ultimately have "a \<le> a OR 0xFF" "unat (a OR 0xFF) - unat a = 255 - unat a mod 256"
    unfolding word_le_nat_alt by linarith+
  then have "unat ((a OR 0xFF) - a) = 255 - unat a mod 256" by (simp add: unat_sub)
  moreover have "(a OR 0xFF) + 1 - a = ((a OR 0xFF) - a) + 1" by simp
  ultimately show ?thesis unfolding bytes_to_boundary_def
    by (simp only:) (subst unat_add_lem [THEN iffD1], simp_all)
qed

lemma chunk_bytes_aligned:
  assumes "k \<le> 7" and "2 ^ k dvd unat a" and "2 ^ k dvd L" and "0 < L"
  shows "chunk_bytes (2 ^ k) a L = min (256 - unat a mod 256) L" and "2 ^ k dvd chunk_bytes (2 ^ k) a L"
    and "0 < chunk_bytes (2 ^ k) a L"
proof -
  have "(2 :: nat) ^ k dvd 2 ^ 8" using assms(1) by (intro le_imp_power_dvd) simp
  then have k: "(2 :: nat) ^ k dvd 256" by simp
  have "2 ^ k dvd unat a mod 256" using assms(2) k by (simp add: dvd_mod)
  then have "2 ^ k dvd min (256 - unat a mod 256) L" using k assms(3) by (simp add: min_def dvd_diff_nat)
  then show "chunk_bytes (2 ^ k) a L = min (256 - unat a mod 256) L" "2 ^ k dvd chunk_bytes (2 ^ k) a L"
    "0 < chunk_bytes (2 ^ k) a L"
    using assms(4) by (simp_all add: chunk_bytes_def bytes_to_boundary_eq Let_def)
qed

lemma beat_list_append:
  "map (\<lambda>i. a + i * b) [0..<m] @ map (\<lambda>i. a + m * b + i * b) [0..<n] = map (\<lambda>i. a + i * b) [0..<m + (n :: nat)]"
  by (rule nth_equalityI) (auto simp: nth_append algebra_simps diff_mult_distrib)

text \<open>The 256 byte blocks that \<open>L\<close> bytes from \<open>a\<close> on touch.\<close>

definition touched :: "nat \<Rightarrow> nat \<Rightarrow> nat list" where
  "touched a L = (if L = 0 then [] else [a div 256..<(a + L - 1) div 256 + 1])"

lemma length_touched: "length (touched a L) \<le> (a mod 256 + L + 255) div 256"
proof (cases "L = 0")
  case False
  have "a + L - 1 + 1 * 256 = (a mod 256 + L + 255) + a div 256 * 256" using False by simp
  then have "(a + L - 1 + 1 * 256) div 256 = (a mod 256 + L + 255 + a div 256 * 256) div 256" by (simp only:)
  then have "1 + (a + L - 1) div 256 = a div 256 + (a mod 256 + L + 255) div 256" by (subst (asm) (1 2) div_mult_self1) simp_all
  then show ?thesis using False by (simp add: touched_def)
qed (simp add: touched_def)

lemma touched_one: "0 < n \<Longrightarrow> a mod 256 + n \<le> 256 \<Longrightarrow> touched a n = [a div 256]"
proof -
  assume n: "0 < n" "a mod 256 + n \<le> 256"
  have "a + n - 1 = (a mod 256 + n - 1) + a div 256 * 256" using n(1) by simp
  then have "(a + n - 1) div 256 = a div 256 + (a mod 256 + n - 1) div 256" by (simp only: div_mult_self1)
  moreover have "(a mod 256 + n - 1) div 256 = 0" using n by simp
  ultimately have "(a + n - 1) div 256 = a div 256" by simp
  then show ?thesis using n(1) by (simp add: touched_def)
qed

lemma touched_next: "a mod 256 + n = 256 \<Longrightarrow> 0 < L \<Longrightarrow> touched a (n + L) = a div 256 # touched (a + n) L"
proof -
  assume n: "a mod 256 + n = 256" "0 < L"
  have "a + n = a div 256 * 256 + (a mod 256 + n)" by (metis add.assoc div_mult_mod_eq)
  then have a: "(a + n) div 256 = a div 256 + 1" using n(1) by simp
  have "(a + n) div 256 \<le> (a + n + L - 1) div 256" using n(2) by (intro div_le_mono) simp
  then have "a div 256 < (a + n + L - 1) div 256 + 1" using a by simp
  then show ?thesis using n(2) a by (simp add: touched_def upt_conv_Cons add.assoc)
qed

definition chop_result :: "aximmRWAddr \<Rightarrow> nat \<Rightarrow> nat \<Rightarrow> nat \<Rightarrow> aximmRWAddr list \<Rightarrow> bool" where
  "chop_result og k a L rs \<longleftrightarrow> concat (map beat_addrs rs) = map (\<lambda>i. a + i * 2 ^ k) [0..<L div 2 ^ k] \<and>
     (\<forall>r \<in> set rs. in_one_block r \<and> r = og\<lparr> addr := addr r, len := len r \<rparr>) \<and>
     map (\<lambda>r. unat (addr r) div 256) rs = touched a L"

lemma chop_result_length: "chop_result og k a L rs \<Longrightarrow> length rs \<le> (a mod 256 + L + 255) div 256"
  using length_touched [of a L] unfolding chop_result_def by (metis length_map)

lemma chop_loop_aligned:
  "unat (sz og) = k \<Longrightarrow> k \<le> 7 \<Longrightarrow> B = 2 ^ k \<Longrightarrow> 2 ^ k dvd unat a \<Longrightarrow> 2 ^ k dvd L \<Longrightarrow> unat a + L \<le> 2 ^ 64 \<Longrightarrow>
   \<exists>rs. chop_loop og B a L = Inr rs \<and> chop_result og k (unat a) L rs"
proof (induction og B a L rule: chop_loop.induct)
  case (1 og B a L)
  show ?case
  proof (cases "L = 0")
    case True
    then show ?thesis by (simp add: chop_loop.simps chop_result_def touched_def)
  next
    case False
    define n where "n = chunk_bytes B a L"
    have n: "n = min (256 - unat a mod 256) L" "2 ^ k dvd n" "0 < n" "n \<le> L" "n \<le> 256"
      using chunk_bytes_aligned [OF 1(3,5,6)] False 1(4) by (simp_all add: n_def)
    define b where "b = n div B"
    define r where "r = og\<lparr> addr := a, len := of_nat (b - 1) \<rparr>"
    have a': "unat (a + of_nat n) = (unat a + n) mod 2 ^ 64" 
      by (simp add: unat_word_ariths unat_of_nat mod_add_right_eq)
    have "(2 :: nat) ^ k dvd 2 ^ 64" using 1(3) by (intro le_imp_power_dvd) simp
    then have d: "2 ^ k dvd unat (a + of_nat n)"
      unfolding a' using 1(5) n(2) by (intro dvd_mod dvd_add)
    have "unat (a + of_nat n) + (L - n) \<le> 2 ^ 64"
      unfolding a' using 1(7) n(4) mod_less_eq_dividend [of "unat a + n" "2 ^ 64"] by linarith
    then obtain rs where rs: "chop_loop og B (a + of_nat n) (L - n) = Inr rs" "chop_result og k (unat (a + of_nat n)) (L - n) rs"
      using 1(1) [OF False n_def refl _ 1(2-4) d] n(2,3) 1(6) by (auto simp: dvd_diff_nat)
    have step: "chop_loop og B a L = Inr (r # rs)"
      using False n(3) rs(1) by (subst chop_loop.simps) (simp add: n_def [symmetric] r_def b_def Let_def)
    have b: "n = b * 2 ^ k" using n(2) 1(4) by (simp add: b_def)
    have "0 < b" using b n(3) by (cases b) simp_all
    moreover have "b \<le> 256" using div_le_dividend [of n B] n(5) unfolding b_def by linarith
    ultimately have "unat (of_nat (b - 1) :: byte) + 1 = b" by (simp only: unat_of_nat) simp
    moreover have "len r = of_nat (b - 1)" by (simp add: r_def)
    ultimately have len: "unat (len r) + 1 = b" by (simp only:)
    have m: "n \<le> 256 - unat a mod 256" "unat a mod 256 < 256" using n(1) by simp_all
    then have "unat a mod 256 + b * 2 ^ k \<le> 256" unfolding b [symmetric] by linarith
    then have "in_one_block r" unfolding in_one_block_def len using 1(2) by (simp add: r_def)
    moreover have "concat (map beat_addrs (r # rs)) = map (\<lambda>i. unat a + i * 2 ^ k) [0..<L div 2 ^ k]"
    proof -
      have "beat_addrs r = map (\<lambda>i. unat a + i * 2 ^ k) [0..<b]"
        unfolding beat_addrs_def len using 1(2) by (simp add: r_def)
      moreover have "L div 2 ^ k = b + (L - n) div 2 ^ k"
        using n(4) div_mult_self1 [of "2 ^ k" "L - n" b] unfolding b by (simp add: mult.commute)
      moreover have "L \<noteq> n \<Longrightarrow> unat (a + of_nat n) = unat a + b * 2 ^ k"
        unfolding a' using 1(7) n(4) b by simp
      ultimately show ?thesis using rs(2) beat_list_append [of "unat a" "2 ^ k" b "(L - n) div 2 ^ k"]
        by (cases "L = n") (simp_all add: chop_result_def)
    qed
    moreover have "map (\<lambda>r. unat (addr r) div 256) (r # rs) = touched (unat a) L"
    proof (cases "L = n")
      case True
      then have "rs = []" using rs(1) by (simp add: chop_loop.simps)
      then show ?thesis using True n(3) m touched_one [of n "unat a"] by (simp add: r_def)
    next
      case False
      then have n': "unat a mod 256 + n = 256" "0 < L - n" "n + (L - n) = L" using n(1,4) m(2) by auto
      have "unat (a + of_nat n) = unat a + n" unfolding a' using 1(7) n(4) False by simp
      then show ?thesis using touched_next [OF n'(1,2)] rs(2) n'(3) by (simp add: chop_result_def r_def)
    qed
    ultimately show ?thesis using step rs(2) by (auto simp: chop_result_def r_def)
  qed
qed

lemma chop_aligned:
  assumes "unat (sz a) \<le> 7" and "2 ^ unat (sz a) dvd unat (addr a)"
    and "unat (addr a) + (unat (len a) + 1) * 2 ^ unat (sz a) \<le> 2 ^ 64"
  shows "\<exists>rs. chopInto256BRequests a = Inr rs \<and>
      chop_result a (unat (sz a)) (unat (addr a)) ((unat (len a) + 1) * 2 ^ unat (sz a)) rs"
    and "(unat (len a) + 1) * 2 ^ unat (sz a) \<le> 32768"
proof -
  define B L where "B = (2 :: nat) ^ unat (sz a)" and "L = (unat (len a) + 1) * B"
  have "(2 :: nat) ^ unat (sz a) \<le> 2 ^ 7" using assms(1) by (intro power_increasing) simp_all
  then have b: "B \<le> 128" by (simp add: B_def)
  have "unat (len a) < 256" using unsigned_less [where ?w = "len a" and ?'a = nat] by simp
  then have "unat (len a) + 1 \<le> 256" by simp
  then have "L \<le> 256 * 128" unfolding L_def using b by (rule mult_le_mono)
  then have L: "L \<le> 32768" by simp
  then show "(unat (len a) + 1) * 2 ^ unat (sz a) \<le> 32768" by (simp add: L_def B_def)
  have "chopInto256BRequests a = chop_loop a B (addr a) L"
    using assms(1) b L unfolding chopInto256BRequests_def B_def [symmetric] Let_def by (simp add: L_def)
  moreover have "2 ^ unat (sz a) dvd L" by (simp add: L_def B_def)
  ultimately show "\<exists>rs. chopInto256BRequests a = Inr rs \<and>
      chop_result a (unat (sz a)) (unat (addr a)) ((unat (len a) + 1) * 2 ^ unat (sz a)) rs"
    using chop_loop_aligned [OF refl assms(1) B_def assms(2), of L] assms(3) unfolding L_def B_def by metis
qed

section \<open>Properties\<close>

text \<open>C9: Cutting a burst into 256 byte requests: for a start address aligned to the beat size (beats of up
  to 128 bytes) the cut succeeds, the requests list exactly the beats of the burst in order, each stays
  within one 256 byte block and differs from the burst only in its address and length.\<close>

theorem chop_covers_burst:
  assumes "unat (sz a) \<le> 7" and "2 ^ unat (sz a) dvd unat (addr a)"
    and "unat (addr a) + (unat (len a) + 1) * 2 ^ unat (sz a) \<le> 2 ^ 64"
  shows "\<exists>rs. chopInto256BRequests a = Inr rs \<and> concat (map beat_addrs rs) = beat_addrs a \<and>
    (\<forall>r \<in> set rs. in_one_block r \<and> r = a\<lparr> addr := addr r, len := len r \<rparr>)"
  using chop_aligned(1) [OF assms] unfolding chop_result_def beat_addrs_def by auto

definition sample_burst :: aximmRWAddr where
  "sample_burst = default_aximmRWAddr\<lparr> addr := 0x1F0, len := 3, sz := 4 \<rparr>"

theorem chop_covers_burst_witness:
  "\<exists>rs. chopInto256BRequests sample_burst = Inr rs \<and> concat (map beat_addrs rs) = [0x1F0, 0x200, 0x210, 0x220]"
  using chop_covers_burst [of sample_burst] by (auto simp: sample_burst_def beat_addrs_def upt_rec)

text \<open>C26: The loop of the cut takes exactly one round per 256 byte block that the burst touches: the blocks of the requests
  are the blocks from that of the first byte to that of the last byte of the burst, in order and each once. There are at
  most 129 of them, so their number fits the eight bit counter of the write path.\<close>

theorem chop_rounds:
  assumes "unat (sz a) \<le> 7" and "2 ^ unat (sz a) dvd unat (addr a)"
    and "unat (addr a) + (unat (len a) + 1) * 2 ^ unat (sz a) \<le> 2 ^ 64"
  shows "\<exists>rs. chopInto256BRequests a = Inr rs \<and>
    map (\<lambda>r. unat (addr r) div 256) rs =
      [unat (addr a) div 256..<(unat (addr a) + (unat (len a) + 1) * 2 ^ unat (sz a) - 1) div 256 + 1] \<and> length rs \<le> 129"
proof -
  define L where "L = (unat (len a) + 1) * 2 ^ unat (sz a)"
  obtain rs where rs: "chopInto256BRequests a = Inr rs" "map (\<lambda>r. unat (addr r) div 256) rs = touched (unat (addr a)) L"
    using chop_aligned(1) [OF assms] by (auto simp: chop_result_def L_def)
  have "unat (addr a) mod 256 + L + 255 \<le> 33278" using chop_aligned(2) [OF assms] by (simp add: L_def)
  from div_le_mono [OF this, of 256] have "(unat (addr a) mod 256 + L + 255) div 256 \<le> 129" by simp
  moreover have "length rs \<le> (unat (addr a) mod 256 + L + 255) div 256" using length_touched rs(2) by (metis length_map)
  ultimately have "length rs \<le> 129" by simp
  moreover have "0 < L" by (simp add: L_def)
  ultimately show ?thesis using rs unfolding L_def [symmetric] by (intro exI [of _ rs]) (simp add: touched_def)
qed

theorem chop_rounds_witness:
  "\<exists>rs. chopInto256BRequests sample_burst = Inr rs \<and> map (\<lambda>r. unat (addr r) div 256) rs = [1, 2] \<and> length rs \<le> 129"
proof -
  have f: "unat (addr sample_burst) = 496" "unat (len sample_burst) = 3" "unat (sz sample_burst) = 4" by (simp_all add: sample_burst_def)
  have u: "[496 div 256..<(496 + (3 + 1) * 2 ^ 4 - 1) div 256 + 1] = [1, 2 :: nat]" by (simp add: upt_rec)
  show ?thesis using chop_rounds [of sample_burst] unfolding f u by simp
qed

lemma chop_loop_stuck:
  assumes "bytes_to_boundary a < B" and "B \<le> L"
  shows "chop_loop og B a L = Inl (Panic ''chopInto256BRequests: start address leaves zero usable bytes'')"
proof -
  have "chunk_bytes B a L = 0" using assms by (simp add: chunk_bytes_def Let_def min_def)
  then show ?thesis using assms by (subst chop_loop.simps) simp
qed

lemma chop_loop_misaligned:
  assumes k: "k \<le> 7" and mis: "\<not> 2 ^ k dvd unat a" and L: "2 ^ k dvd L" and cross: "256 < unat a mod 256 + L"
  shows "chop_loop og (2 ^ k) a L = Inl (Panic ''chopInto256BRequests: start address leaves zero usable bytes'')"
proof -
  define B t where "B = (2 :: nat) ^ k" and "t = 256 - unat a mod 256"
  have "(2 :: nat) ^ k dvd 2 ^ 8" using k by (intro le_imp_power_dvd) simp
  then have B: "B dvd 256" "0 < B" by (simp_all add: B_def)
  have t: "bytes_to_boundary a = t" "0 < t" "t < L" "unat a mod 256 + t = 256"
    using cross by (simp_all add: t_def bytes_to_boundary_eq)
  have "\<not> B dvd unat a mod 256" using mis B(1) by (simp add: B_def dvd_mod_iff)
  then have "\<not> B dvd t" using B(1) dvd_add_left_iff [of B t "unat a mod 256"] unfolding t(4) by blast
  then have r: "0 < t mod B" by (simp add: dvd_eq_mod_eq_0)
  show ?thesis
  proof (cases "t < B")
    case True
    have "B \<le> L" using L t(3) by (intro dvd_imp_le) (simp_all add: B_def)
    then show ?thesis using chop_loop_stuck [of a B L og] True t(1) by (simp add: B_def)
  next
    case False
    define n where "n = t - t mod B"
    have n: "chunk_bytes B a L = n" using t by (simp add: chunk_bytes_def Let_def n_def)
    have m: "t mod B < B" "t mod B \<le> t" using B(2) by simp_all
    have "B dvd n" unfolding n_def by (rule dvd_minus_mod)
    moreover have "0 < n" "n < t" "t - n = t mod B" "n \<le> 256" using False r m t(4) unfolding n_def by linarith+
    ultimately have nt: "0 < n" "n < t" "t - n = t mod B" "B dvd n" "n \<le> 256" by simp_all
    have lt: "unat a mod 256 + n < 256" using nt(2) t(4) by linarith
    have "unat (a + of_nat n) mod 256 = (unat a + n) mod 256"
      by (simp add: unat_word_ariths unat_of_nat mod_add_right_eq mod_mod_cancel)
    also have "\<dots> = (unat a mod 256 + n) mod 256" by (simp only: mod_add_left_eq)
    also have "\<dots> = unat a mod 256 + n" using lt by (rule mod_less)
    finally have "bytes_to_boundary (a + of_nat n) = t mod B"
      using nt(3) t(4) by (simp add: bytes_to_boundary_eq)
    moreover have "B \<le> L - n" using L nt(2,4) t(3) by (intro dvd_imp_le) (auto simp: B_def dvd_diff_nat)
    ultimately have "chop_loop og B (a + of_nat n) (L - n) = Inl (Panic ''chopInto256BRequests: start address leaves zero usable bytes'')"
      using B(2) by (intro chop_loop_stuck) simp_all
    then show ?thesis using nt(1) t(3) n unfolding B_def [symmetric] by (subst chop_loop.simps) (simp add: Let_def)
  qed
qed

text \<open>C35: A burst with a start address that is not aligned to the beat size, which AXI allows, cannot cross a
  256 byte block: the cut panics as soon as the remaining bytes of a block are less than a beat.\<close>

theorem chop_panics_misaligned:
  assumes "unat (sz a) \<le> 7" and "\<not> 2 ^ unat (sz a) dvd unat (addr a)"
    and "256 < unat (addr a) mod 256 + (unat (len a) + 1) * 2 ^ unat (sz a)"
  shows "chopInto256BRequests a = Inl (Panic ''chopInto256BRequests: start address leaves zero usable bytes'')"
proof -
  have "(2 :: nat) ^ unat (sz a) \<le> 2 ^ 7" using assms(1) by (intro power_increasing) simp_all
  then have b: "(2 :: nat) ^ unat (sz a) \<le> 128" by simp
  have "unat (len a) < 256" using unsigned_less [where ?w = "len a" and ?'a = nat] by simp
  then have "(unat (len a) + 1) * 2 ^ unat (sz a) \<le> 256 * 128" using b by (intro mult_le_mono) simp_all
  then have "trunc32 ((unat (len a) + 1) * 2 ^ unat (sz a)) = (unat (len a) + 1) * 2 ^ unat (sz a)" by (intro trunc32_id) simp
  moreover have "trunc16 (2 ^ unat (sz a)) = 2 ^ unat (sz a)" using b by simp
  ultimately have "chopInto256BRequests a = chop_loop a (2 ^ unat (sz a)) (addr a) ((unat (len a) + 1) * 2 ^ unat (sz a))"
    using assms(1) unfolding chopInto256BRequests_def Let_def by simp
  then show ?thesis using chop_loop_misaligned [OF assms(1,2) dvd_triv_right assms(3)] by simp
qed

definition sample_unaligned :: aximmRWAddr where
  "sample_unaligned = default_aximmRWAddr\<lparr> addr := 0x1F8, len := 1, sz := 4 \<rparr>"

theorem chop_panics_misaligned_witness:
  "chopInto256BRequests sample_unaligned = Inl (Panic ''chopInto256BRequests: start address leaves zero usable bytes'')"
  using chop_panics_misaligned [of sample_unaligned] by (simp add: sample_unaligned_def)

end
