(* ===== verification/Read_Reorder_Buffer.thy ===== *)
theory Read_Reorder_Buffer
  imports Memory_Message Write_Tracker
begin

text \<open>
  The read reorder buffer (\<open>src/noc/core/network/rrob.hh\<close> and \<open>rrob.cc\<close>): entries of a fixed number
  of bytes, one list per AXI id, tags that identify entries in the network, the beats that become
  valid as flits arrive, and the beats handed to the endpoint in request order.

  The \<open>std::list\<close> iterators that the source stores per tag are pairs of the list's key and the
  number of the node: they stay valid while other nodes come and go. Using the iterator of an
  erased node is undefined behaviour.
\<close>

section \<open>Entries\<close>

definition FLIT_SIZE :: nat where
  "FLIT_SIZE = 16"

record beatStatus =
  bs_valid :: bool
  bs_read :: bool
  bs_sent :: bool

definition new_beatStatus :: beatStatus where
  "new_beatStatus = \<lparr> bs_valid = False, bs_read = False, bs_sent = False \<rparr>"

record RROBEntry =
  re_tag :: int
  re_axi_id :: axi_id
  re_beat_size :: nat
  entry_size :: nat
  filled_flits :: nat
  flit_written :: "bool list"
  re_data :: "byte list"
  need_next_entry :: bool
  beat_statuses :: "beatStatus list"
  contains_last :: bool
  last_beat_idx :: nat
  re_vnet :: int

definition new_RROBEntry ::
  "axi_id \<Rightarrow> nat \<Rightarrow> nat \<Rightarrow> bool \<Rightarrow> bool \<Rightarrow> nat \<Rightarrow> int \<Rightarrow> int \<Rightarrow> RROBEntry result" where
  "new_RROBEntry axi beat_size e_size need_next has_last last_idx tag vnet =
     (if beat_size = 0 \<and> 0 < e_size then Inl (Undefined ''division by zero'')
      else Inr \<lparr> re_tag = tag, re_axi_id = axi, re_beat_size = beat_size, entry_size = e_size,
         filled_flits = 0, flit_written = replicate (e_size div FLIT_SIZE) False,
         re_data = replicate e_size 0, need_next_entry = need_next,
         beat_statuses = replicate (if beat_size < e_size then e_size div beat_size else 1) new_beatStatus,
         contains_last = has_last, last_beat_idx = last_idx, re_vnet = vnet \<rparr>)"

text \<open>The beat with index \<open>i\<close> after the arrival of the flit with index \<open>flit_index\<close>.\<close>

definition beat_touched :: "RROBEntry \<Rightarrow> nat \<Rightarrow> nat \<Rightarrow> bool" where
  "beat_touched e flit_index i \<longleftrightarrow>
     (let byte_start = flit_index * FLIT_SIZE;
          byte_end = min (byte_start + FLIT_SIZE) (entry_size e);
          beat_start = i * re_beat_size e;
          beat_end = min (beat_start + re_beat_size e) (entry_size e)
      in \<not> (byte_end \<le> beat_start \<or> byte_start \<ge> beat_end))"

definition beat_flits :: "RROBEntry \<Rightarrow> nat \<Rightarrow> nat list" where
  "beat_flits e i =
     (let beat_start = i * re_beat_size e;
          beat_end = min (beat_start + re_beat_size e) (entry_size e)
      in [beat_start div FLIT_SIZE..<(beat_end - 1) div FLIT_SIZE + 1])"

definition mark_beat :: "RROBEntry \<Rightarrow> nat \<Rightarrow> nat \<Rightarrow> beatStatus result" where
  "mark_beat e flit_index i =
     (let s = beat_statuses e ! i in
      if \<not> beat_touched e flit_index i then Inr s
      else if \<exists>f \<in> set (beat_flits e i). length (flit_written e) \<le> f
      then Inl (Undefined ''flit_written index'')
      else if list_all ((!) (flit_written e)) (beat_flits e i)
      then Inr (s\<lparr> bs_valid := True \<rparr>) else Inr s)"

definition markBeatsValid :: "nat \<Rightarrow> RROBEntry \<Rightarrow> RROBEntry result" where
  "markBeatsValid flit_index e =
     (if entry_size e \<le> re_beat_size e then
        if filled_flits e = length (flit_written e) then
          (case beat_statuses e of
             [] \<Rightarrow> Inl (Undefined ''beat_statuses index'')
           | s # ss \<Rightarrow> Inr (e\<lparr> beat_statuses := s\<lparr> bs_valid := True \<rparr> # ss \<rparr>))
        else Inr e
      else rbind (rmap (mark_beat e flit_index) [0..<length (beat_statuses e)]) (\<lambda>ss.
             Inr (e\<lparr> beat_statuses := ss \<rparr>)))"

definition write_flit :: "byte list \<Rightarrow> int \<Rightarrow> RROBEntry \<Rightarrow> RROBEntry result" where
  "write_flit data flit_idx e =
     (let flitIndex = size_t_of_int flit_idx in
      if flitIndex < length (flit_written e) then
        if length (re_data e) < flitIndex * FLIT_SIZE + length data
        then Inl (Undefined ''write outside the entry data'')
        else markBeatsValid flitIndex
               (e\<lparr> re_data := copy_at (re_data e) (flitIndex * FLIT_SIZE) data,
                   flit_written := (flit_written e)[flitIndex := True],
                   filled_flits := filled_flits e + 1 \<rparr>)
      else Inr e)"

section \<open>The lists\<close>

type_synonym node = "nat \<times> RROBEntry"
type_synonym iterator = "axi_id \<times> nat"
type_synonym Tag = "8 word"

record AxiListManager =
  lists :: "axi_id \<rightharpoonup> node list"
  tagToIterator :: "Tag \<rightharpoonup> iterator"
  tagToAxiID :: "Tag \<rightharpoonup> axi_id"
  nextTag :: Tag
  numEntries :: int
  m_max_entries :: nat
  m_entry_size :: nat
  rr_scan_axi_key :: int
  next_node :: nat

definition new_AxiListManager :: "nat \<Rightarrow> nat \<Rightarrow> AxiListManager" where
  "new_AxiListManager max_entries e_size =
     \<lparr> lists = Map.empty, tagToIterator = Map.empty, tagToAxiID = Map.empty, nextTag = 1,
       numEntries = 0, m_max_entries = max_entries, m_entry_size = e_size, rr_scan_axi_key = - 1,
       next_node = 0 \<rparr>"

definition list_of :: "AxiListManager \<Rightarrow> axi_id \<Rightarrow> node list" where
  "list_of m a = (case lists m a of Some l \<Rightarrow> l | None \<Rightarrow> [])"

definition deref :: "AxiListManager \<Rightarrow> iterator \<Rightarrow> RROBEntry result" where
  "deref m it = (case map_of (list_of m (fst it)) (snd it) of
      Some e \<Rightarrow> Inr e
    | None \<Rightarrow> Inl (Undefined ''iterator of an erased node''))"

definition set_node :: "nat \<Rightarrow> RROBEntry \<Rightarrow> node list \<Rightarrow> node list" where
  "set_node n e l = map (\<lambda>x. if fst x = n then (n, e) else x) l"

definition store :: "iterator \<Rightarrow> RROBEntry \<Rightarrow> AxiListManager \<Rightarrow> AxiListManager" where
  "store it e m = m\<lparr> lists := (lists m)(fst it \<mapsto> set_node (snd it) e (list_of m (fst it))) \<rparr>"

text \<open>\<open>std::next\<close> of a node, \<open>None\<close> for the end of its list.\<close>

definition next_of :: "nat \<Rightarrow> node list \<Rightarrow> node option" where
  "next_of n l = (case dropWhile (\<lambda>x. fst x \<noteq> n) l of _ # y # _ \<Rightarrow> Some y | _ \<Rightarrow> None)"

definition erase_node :: "nat \<Rightarrow> node list \<Rightarrow> node list" where
  "erase_node n l = filter (\<lambda>x. fst x \<noteq> n) l"

definition addEntry ::
  "axi_id \<Rightarrow> nat \<Rightarrow> bool \<Rightarrow> nat \<Rightarrow> int \<Rightarrow> bool \<Rightarrow> AxiListManager \<Rightarrow> (Tag \<times> AxiListManager) result" where
  "addEntry a beat_size has_last last_idx vnet need_next m =
     (if m_max_entries m \<le> size_t_of_int (numEntries m) then Inr (- 1, m)
      else
        let tag = nextTag m in
        rbind (new_RROBEntry a beat_size (m_entry_size m) need_next has_last last_idx (uint tag) vnet) (\<lambda>e.
          Inr (tag, m\<lparr> nextTag := tag + 1,
            lists := (lists m)(a \<mapsto> list_of m a @ [(next_node m, e)]),
            next_node := next_node m + 1,
            tagToIterator := (tagToIterator m)(tag \<mapsto> (a, next_node m)),
            tagToAxiID := (tagToAxiID m)(tag \<mapsto> a),
            numEntries := numEntries m + 1 \<rparr>)))"

definition getVnet :: "axi_id \<Rightarrow> Tag \<Rightarrow> AxiListManager \<Rightarrow> int result" where
  "getVnet a tag m =
     (case lists m a of
        None \<Rightarrow> Inl (Panic ''getVnet: No entries found for AXI ID'')
      | Some l \<Rightarrow> (case find (\<lambda>x. re_tag (snd x) = uint tag) l of
            Some x \<Rightarrow> Inr (re_vnet (snd x))
          | None \<Rightarrow> Inl (Panic ''getVnet: Tag not found under AXI ID'')))"

text \<open>An unknown tag and an index beyond the entry only print a message.\<close>

definition writeFlitEntry :: "Tag \<Rightarrow> byte list \<Rightarrow> int \<Rightarrow> AxiListManager \<Rightarrow> AxiListManager result" where
  "writeFlitEntry tag data flit_idx m =
     (case tagToIterator m tag of
        None \<Rightarrow> Inr m
      | Some it \<Rightarrow> rbind (deref m it) (\<lambda>e.
          rbind (write_flit data flit_idx e) (\<lambda>e'. Inr (store it e' m))))"

definition readEntry :: "axi_id \<Rightarrow> AxiListManager \<Rightarrow> (RROBEntry \<times> AxiListManager) result" where
  "readEntry a m =
     (case list_of m a of
        [] \<Rightarrow> Inl (Panic ''no entry to read from RROB'')
      | x # xs \<Rightarrow> Inr (snd x, m\<lparr> lists := (lists m)(a \<mapsto> xs), numEntries := numEntries m - 1 \<rparr>))"

definition updateValue :: "Tag \<Rightarrow> RROBEntry \<Rightarrow> AxiListManager \<Rightarrow> (bool \<times> AxiListManager) result" where
  "updateValue tag newValue m =
     (case tagToIterator m tag of
        Some it \<Rightarrow> rbind (deref m it) (\<lambda>_. Inr (True, store it newValue m))
      | None \<Rightarrow> Inr (False, m))"

definition getAxiID :: "Tag \<Rightarrow> AxiListManager \<Rightarrow> axi_id result" where
  "getAxiID tag m =
     (case tagToAxiID m tag of
        Some a \<Rightarrow> Inr a
      | None \<Rightarrow> Inl (Panic ''AxiListManager Get Axi ID could not find tag''))"

definition getList :: "axi_id \<Rightarrow> AxiListManager \<Rightarrow> node list result" where
  "getList a m =
     (case lists m a of
        Some l \<Rightarrow> Inr l
      | None \<Rightarrow> Inl (Panic ''AxiListManager::getList: No list exists for AxiID''))"

text \<open>The keys in increasing order, and the round-robin scan over them.\<close>

definition sorted_keys :: "(axi_id \<rightharpoonup> 'b) \<Rightarrow> axi_id list" where
  "sorted_keys f = filter (\<lambda>a. f a \<noteq> None) sorted_ids"

definition entry_full :: "RROBEntry \<Rightarrow> bool" where
  "entry_full e \<longleftrightarrow> filled_flits e = length (flit_written e)"

definition head_ready :: "node list \<Rightarrow> bool" where
  "head_ready l =
     (case l of
        [] \<Rightarrow> False
      | x # xs \<Rightarrow> entry_full (snd x) \<and>
          (\<not> need_next_entry (snd x) \<or> (case xs of y # _ \<Rightarrow> entry_full (snd y) | [] \<Rightarrow> False)))"

fun key_after :: "axi_id \<Rightarrow> axi_id list \<Rightarrow> axi_id list \<Rightarrow> axi_id result" where
  "key_after k keys [] = Inl (Panic ''RROB: rr_scan_axi_key missing from sorted keys'')"
| "key_after k keys (x # xs) =
     (if x = k then (case xs of y # _ \<Rightarrow> Inr y | [] \<Rightarrow> Inr (hd keys)) else key_after k keys xs)"

definition getNextReadyAxiID :: "AxiListManager \<Rightarrow> (int \<times> AxiListManager) result" where
  "getNextReadyAxiID m =
     (case sorted_keys (lists m) of
        [] \<Rightarrow> Inr (- 1, m\<lparr> rr_scan_axi_key := - 1 \<rparr>)
      | k0 # ks \<Rightarrow>
          let keys = k0 # ks;
              key = (if rr_scan_axi_key m < 0 \<or> (of_int (rr_scan_axi_key m) :: axi_id) \<notin> set keys then k0
                     else of_int (rr_scan_axi_key m))
          in rbind (key_after key keys keys) (\<lambda>next.
               Inr (if head_ready (list_of m key) then uint key else - 1,
                    m\<lparr> rr_scan_axi_key := uint next \<rparr>)))"

section \<open>Removal\<close>

definition erase_tag :: "Tag \<Rightarrow> AxiListManager \<Rightarrow> AxiListManager" where
  "erase_tag tag m = m\<lparr> tagToIterator := (tagToIterator m)(tag := None),
     tagToAxiID := (tagToAxiID m)(tag := None) \<rparr>"

definition erase_at :: "iterator \<Rightarrow> AxiListManager \<Rightarrow> AxiListManager" where
  "erase_at it m = m\<lparr> lists := (lists m)(fst it \<mapsto> erase_node (snd it) (list_of m (fst it))),
     numEntries := numEntries m - 1 \<rparr>"

text \<open>
  The second half of a two-entry beat is found by searching the tag map for its iterator; at most
  one tag maps to a node, so the order of the search is immaterial.
\<close>

definition remove_partner :: "iterator \<Rightarrow> AxiListManager \<Rightarrow> AxiListManager result" where
  "remove_partner it m =
     (case next_of (snd it) (list_of m (fst it)) of
        None \<Rightarrow> Inl (Panic ''RROB: Entry required next entry, but none found'')
      | Some y \<Rightarrow>
          (case find (\<lambda>t. tagToIterator m t = Some (fst it, fst y)) sorted_ids of
             None \<Rightarrow> Inl (Panic ''RROB: Could not find tag for second half of multi-entry read'')
           | Some t \<Rightarrow> Inr (erase_at (fst it, fst y) (erase_tag t m))))"

definition removeEntry :: "axi_id \<Rightarrow> Tag \<Rightarrow> AxiListManager \<Rightarrow> AxiListManager result" where
  "removeEntry a tag m =
     (case tagToIterator m tag of
        None \<Rightarrow> Inl (Panic ''RROB: Tag not found in tagToIterator map'')
      | Some it \<Rightarrow>
          if tagToAxiID m tag \<noteq> Some a then Inl (Panic ''RROB: AXI ID mismatch for tag'')
          else if fst it \<noteq> a then Inl (Undefined ''iterator of another list'')
          else rbind (deref m it) (\<lambda>e.
            rbind (if need_next_entry e then remove_partner it m else Inr m) (\<lambda>m1.
              let m2 = erase_tag tag (erase_at it m1) in
              Inr (if list_of m2 a = [] then m2\<lparr> lists := (lists m2)(a := None) \<rparr> else m2))))"

section \<open>Beats for the endpoint\<close>

definition read_message ::
  "NocMemoryMsg \<Rightarrow> axi_id \<Rightarrow> RROBEntry \<Rightarrow> nat \<Rightarrow> byte list \<Rightarrow> bool \<Rightarrow> NocMemoryMsg" where
  "read_message raw a e i data is_last =
     (new_NocMemoryMsg raw MsgR
        (MpRWData (default_aximmRWData\<lparr> d_cmd := CmdREAD, d_id := ucast a \<rparr>))
        (PlAximm (default_aximmRWData\<lparr> d_id := ucast (re_axi_id e), d_valid := True, d_last := is_last,
             d_data := copy_at (replicate 64 0) 0 data \<rparr> # replicate 3 default_aximmRWData)))
       \<lparr> mm_axi_beat_id := trunc8 i, mm_axi_rrob_tag := nat (re_tag e mod 256),
         mm_beat_size := re_beat_size e \<rparr>"

definition mark_sent :: "nat \<Rightarrow> RROBEntry \<Rightarrow> RROBEntry" where
  "mark_sent i e = e\<lparr> beat_statuses := (beat_statuses e)[i := (beat_statuses e ! i)\<lparr> bs_sent := True \<rparr>] \<rparr>"

fun send_beats ::
  "NocMemoryMsg \<Rightarrow> axi_id \<Rightarrow> nat list \<Rightarrow> RROBEntry \<Rightarrow> (RROBEntry \<times> NocMemoryMsg list \<times> bool) result" where
  "send_beats raw a [] e = Inr (e, [], False)"
| "send_beats raw a (i # is) e =
     (if length (beat_statuses e) \<le> i then Inl (Undefined ''beat_statuses index'')
      else
        let s = beat_statuses e ! i in
        if bs_valid s \<and> \<not> bs_sent s then
          if length (re_data e) < (i + 1) * re_beat_size e \<or> 64 < re_beat_size e
          then Inl (Undefined ''copy outside the entry data'')
          else rbind (send_beats raw a is (mark_sent i e)) (\<lambda>(e', ms, stop).
                 Inr (e', read_message raw a e i (take (re_beat_size e) (drop (i * re_beat_size e) (re_data e)))
                        (contains_last e \<and> last_beat_idx e = i) # ms, stop))
        else if \<not> bs_valid s then Inr (e, [], True)
        else send_beats raw a is e)"

function gen_list ::
  "NocMemoryMsg \<Rightarrow> axi_id \<Rightarrow> node list \<Rightarrow> (node list \<times> NocMemoryMsg list) result" where
  "gen_list raw a [] = Inr ([], [])"
| "gen_list raw a (x # rest) =
     (let e = snd x in
      if need_next_entry e then
        (case rest of
           [] \<Rightarrow> Inl (Panic ''AxiListManager::generateAxiReadPayloads no next entry exists'')
         | y # rest' \<Rightarrow>
             let e2 = snd y in
             if beat_statuses e = [] \<or> beat_statuses e2 = [] then Inl (Undefined ''beat_statuses index'')
             else
               let s = beat_statuses e ! 0; s2 = beat_statuses e2 ! 0 in
               if bs_valid s \<and> \<not> bs_sent s \<and> bs_valid s2 \<and> \<not> bs_sent s2 then
                 if 64 < length (re_data e) + length (re_data e2)
                 then Inl (Undefined ''copy outside the payload data'')
                 else rbind (gen_list raw a ((fst y, mark_sent 0 e2) # rest')) (\<lambda>(l, ms).
                        Inr ((fst x, mark_sent 0 e) # l,
                             read_message raw a e 0 (re_data e @ re_data e2) (contains_last e2) # ms))
               else if \<not> bs_valid s \<or> \<not> bs_valid s2 then Inr (x # rest, [])
               else rbind (gen_list raw a rest) (\<lambda>(l, ms). Inr (x # l, ms)))
      else rbind (send_beats raw a [0..<last_beat_idx e + 1] e) (\<lambda>(e', ms, stop).
             if stop then Inr ((fst x, e') # rest, ms)
             else rbind (gen_list raw a rest) (\<lambda>(l, ms'). Inr ((fst x, e') # l, ms @ ms'))))"
  by pat_completeness auto
termination
  by (relation "measure (\<lambda>(_, _, l). length l)") auto

declare gen_list.simps [simp del]

definition generateAxiReadPayloads ::
  "NocMemoryMsg \<Rightarrow> axi_id \<Rightarrow> AxiListManager \<Rightarrow> (NocMemoryMsg list \<times> AxiListManager) result" where
  "generateAxiReadPayloads raw a m =
     (case lists m a of
        None \<Rightarrow> Inl (Panic ''No RROB entry found for axi_id'')
      | Some l \<Rightarrow> rbind (gen_list raw a l) (\<lambda>(l', ms). Inr (ms, m\<lparr> lists := (lists m)(a \<mapsto> l') \<rparr>)))"

section \<open>The reorder buffer\<close>

record ReadReorderBuffer =
  axiListManager :: AxiListManager
  rr_max_entries :: nat
  rr_entry_size :: nat
  numAxiReads :: nat

definition new_ReadReorderBuffer :: "nat \<Rightarrow> nat \<Rightarrow> ReadReorderBuffer result" where
  "new_ReadReorderBuffer max_entries e_size =
     (if trunc16 e_size = 0 \<or> trunc16 e_size mod FLIT_SIZE \<noteq> 0
      then Inl (Fatal ''RROB entry_size must be a non-zero multiple of flit size'')
      else Inr \<lparr> axiListManager = new_AxiListManager max_entries e_size, rr_max_entries = trunc16 max_entries,
             rr_entry_size = trunc16 e_size, numAxiReads = 0 \<rparr>)"

definition getNumRemainingEntries :: "ReadReorderBuffer \<Rightarrow> nat" where
  "getNumRemainingEntries r = nat ((int (rr_max_entries r) - numEntries (axiListManager r)) mod 65536)"

definition incrementNumAxiReads :: "ReadReorderBuffer \<Rightarrow> ReadReorderBuffer" where
  "incrementNumAxiReads r = r\<lparr> numAxiReads := trunc8 (numAxiReads r + 1) \<rparr>"

definition reserve ::
  "axi_id \<Rightarrow> nat \<Rightarrow> bool \<Rightarrow> nat \<Rightarrow> int \<Rightarrow> bool \<Rightarrow> ReadReorderBuffer \<Rightarrow> (int \<times> ReadReorderBuffer) result" where
  "reserve a beat_size has_last last_idx vnet need_next r =
     rbind (addEntry a beat_size has_last last_idx vnet need_next (axiListManager r)) (\<lambda>(tag, m).
       Inr (uint tag, r\<lparr> axiListManager := m \<rparr>))"

definition rrob_read :: "axi_id \<Rightarrow> ReadReorderBuffer \<Rightarrow> (byte list \<times> ReadReorderBuffer) result" where
  "rrob_read a r =
     rbind (readEntry a (axiListManager r)) (\<lambda>(e, m). Inr (re_data e, r\<lparr> axiListManager := m \<rparr>))"

type_synonym 's wakeup_handler =
  "axi_id \<Rightarrow> 's \<times> ReadReorderBuffer \<Rightarrow> ('s \<times> ReadReorderBuffer) result"

definition writeFlit ::
  "'s wakeup_handler option \<Rightarrow> int \<Rightarrow> byte list \<Rightarrow> int \<Rightarrow> 's \<times> ReadReorderBuffer \<Rightarrow>
    ('s \<times> ReadReorderBuffer) result" where
  "writeFlit wakeup tag data flit_idx sr =
     rbind (writeFlitEntry (of_int tag) data flit_idx (axiListManager (snd sr))) (\<lambda>m.
       case wakeup of
         Some h \<Rightarrow> rbind (getAxiID (of_int tag) m) (\<lambda>a. h a (fst sr, (snd sr)\<lparr> axiListManager := m \<rparr>))
       | None \<Rightarrow> Inl (Panic ''no wakeup_handler setup in RROB for when read data written''))"

definition rrob_generate ::
  "NocMemoryMsg \<Rightarrow> axi_id \<Rightarrow> ReadReorderBuffer \<Rightarrow> (NocMemoryMsg list \<times> ReadReorderBuffer) result" where
  "rrob_generate raw a r =
     rbind (generateAxiReadPayloads raw a (axiListManager r)) (\<lambda>(ms, m).
       Inr (ms, r\<lparr> axiListManager := m \<rparr>))"

text \<open>The scan over the beats up to the last one, which stops at the first unread beat.\<close>

fun all_read :: "beatStatus list \<Rightarrow> nat list \<Rightarrow> bool result" where
  "all_read ss [] = Inr True"
| "all_read ss (i # is) =
     (if length ss \<le> i then Inl (Undefined ''beat_statuses index'')
      else if bs_read (ss ! i) then all_read ss is else Inr False)"

definition mark_read :: "nat \<Rightarrow> RROBEntry \<Rightarrow> RROBEntry" where
  "mark_read i e = e\<lparr> beat_statuses := (beat_statuses e)[i := (beat_statuses e ! i)\<lparr> bs_read := True \<rparr>] \<rparr>"

definition markBeatRead ::
  "axi_id \<Rightarrow> int \<Rightarrow> nat \<Rightarrow> ReadReorderBuffer \<Rightarrow> ReadReorderBuffer result" where
  "markBeatRead a tag beat_idx r =
     (let m = axiListManager r in
      rbind (getList a m) (\<lambda>_.
      case tagToIterator m (of_int tag) of
        None \<Rightarrow> Inl (Undefined ''end iterator of a temporary list'')
      | Some it \<Rightarrow>
          rbind (deref m it) (\<lambda>e.
            let nextIt = next_of (snd it) (list_of m (fst it));
                next_last = (case nextIt of Some y \<Rightarrow> contains_last (snd y) | None \<Rightarrow> False)
            in if nextIt = None \<and> fst it \<noteq> a then Inl (Undefined ''end iterator of another list'')
               else if re_axi_id e \<noteq> a then Inl (Panic ''RROB: AXI ID mismatch for tag'')
               else if length (beat_statuses e) \<le> beat_idx then Inl (Panic ''RROB: Invalid beat index for tag'')
               else
                 let e' = mark_read beat_idx e; m' = store it e' m in
                 rbind (all_read (beat_statuses e') [0..<last_beat_idx e + 1]) (\<lambda>done.
                   if done then
                     let r' = (if contains_last e \<or> (need_next_entry e \<and> next_last)
                               then r\<lparr> numAxiReads := sub8 (numAxiReads r) 1 \<rparr> else r)
                     in rbind (removeEntry a (of_int tag) m') (\<lambda>m''. Inr (r'\<lparr> axiListManager := m'' \<rparr>))
                   else Inr (r\<lparr> axiListManager := m' \<rparr>)))))"

end
