(* ===== verification/Rrob_Order.thy ===== *)
theory Rrob_Order
  imports Read_Reorder_Buffer
begin

text \<open>
  Correctness of the read reorder buffer. A list of entries stands for a sequence of beats: each
  entry gives the beats up to its last one, and two entries of a beat that is wider than one entry
  give one beat together. Generating payloads sends the longest run of complete beats that follow the
  beats already sent; over every interleaving of reservations, arriving flits, generation and
  retirement, the endpoint sees the reserved beats of an id in order, once, with the bytes that arrived.
\<close>

section \<open>Beats of a list of entries\<close>

record rbeat =
  rb_tag :: int
  rb_axi :: axi_id
  rb_idx :: nat
  rb_size :: nat
  rb_data :: "byte list"
  rb_last :: bool
  rb_valid :: bool
  rb_read :: bool
  rb_sent :: bool

definition entry_beat :: "RROBEntry \<Rightarrow> nat \<Rightarrow> rbeat" where
  "entry_beat e i =
     \<lparr> rb_tag = re_tag e, rb_axi = re_axi_id e, rb_idx = i, rb_size = re_beat_size e,
       rb_data = take (re_beat_size e) (drop (i * re_beat_size e) (re_data e)),
       rb_last = (contains_last e \<and> last_beat_idx e = i),
       rb_valid = bs_valid (beat_statuses e ! i), rb_read = bs_read (beat_statuses e ! i),
       rb_sent = bs_sent (beat_statuses e ! i) \<rparr>"

definition entry_beats :: "RROBEntry \<Rightarrow> rbeat list" where
  "entry_beats e = map (entry_beat e) [0..<last_beat_idx e + 1]"

definition pair_beat :: "RROBEntry \<Rightarrow> RROBEntry \<Rightarrow> rbeat" where
  "pair_beat e e2 =
     \<lparr> rb_tag = re_tag e, rb_axi = re_axi_id e, rb_idx = 0, rb_size = re_beat_size e,
       rb_data = re_data e @ re_data e2, rb_last = contains_last e2,
       rb_valid = (bs_valid (beat_statuses e ! 0) \<and> bs_valid (beat_statuses e2 ! 0)),
       rb_read = bs_read (beat_statuses e ! 0), rb_sent = bs_sent (beat_statuses e ! 0) \<rparr>"

fun list_beats :: "RROBEntry list \<Rightarrow> rbeat list" where
  "list_beats [] = []"
| "list_beats (e # es) =
     (if need_next_entry e then (case es of [] \<Rightarrow> [] | e2 # es' \<Rightarrow> pair_beat e e2 # list_beats es')
      else entry_beats e @ list_beats es)"

text \<open>Entries that can be read out: indices and copies stay in range, and only complete beats
  were sent.\<close>

definition single_ok :: "RROBEntry \<Rightarrow> bool" where
  "single_ok e \<longleftrightarrow> \<not> need_next_entry e \<and> last_beat_idx e < length (beat_statuses e) \<and> re_beat_size e \<le> 64 \<and>
     (last_beat_idx e + 1) * re_beat_size e \<le> length (re_data e) \<and>
     (\<forall>i \<le> last_beat_idx e. bs_sent (beat_statuses e ! i) \<longrightarrow> bs_valid (beat_statuses e ! i))"

definition pair_ok :: "RROBEntry \<Rightarrow> RROBEntry \<Rightarrow> bool" where
  "pair_ok e e2 \<longleftrightarrow> need_next_entry e \<and> \<not> need_next_entry e2 \<and> beat_statuses e \<noteq> [] \<and>
     beat_statuses e2 \<noteq> [] \<and> last_beat_idx e = 0 \<and> last_beat_idx e2 = 0 \<and>
     re_beat_size e = length (re_data e) + length (re_data e2) \<and> re_beat_size e \<le> 64 \<and>
     entry_size e \<le> re_beat_size e \<and> entry_size e2 \<le> re_beat_size e2 \<and>
     bs_sent (beat_statuses e2 ! 0) = bs_sent (beat_statuses e ! 0) \<and>
     (bs_sent (beat_statuses e ! 0) \<longrightarrow> bs_valid (beat_statuses e ! 0) \<and> bs_valid (beat_statuses e2 ! 0))"

fun list_ok :: "RROBEntry list \<Rightarrow> bool" where
  "list_ok [] = True"
| "list_ok (e # es) =
     (if need_next_entry e then (case es of [] \<Rightarrow> False | e2 # es' \<Rightarrow> pair_ok e e2 \<and> list_ok es')
      else single_ok e \<and> list_ok es)"

section \<open>Generation\<close>

text \<open>What one call sends: the complete beats before the first incomplete one that were not sent.\<close>

fun run :: "rbeat list \<Rightarrow> rbeat list \<times> rbeat list" where
  "run [] = ([], [])"
| "run (b # bs) =
     (if rb_valid b
      then if rb_sent b then (b # fst (run bs), snd (run bs))
           else (b\<lparr> rb_sent := True \<rparr> # fst (run bs), b # snd (run bs))
      else (b # bs, []))"

definition all_valid :: "rbeat list \<Rightarrow> bool" where
  "all_valid bs \<longleftrightarrow> (\<forall>b \<in> set bs. rb_valid b)"

lemma all_valid_simps [simp]:
  "all_valid []" "all_valid (b # bs) \<longleftrightarrow> rb_valid b \<and> all_valid bs"
  by (auto simp: all_valid_def)

lemma list_all_valid: "all_valid bs \<longleftrightarrow> list_all id (map rb_valid bs)"
  by (auto simp: all_valid_def list_all_iff)

lemma run_append:
  "run (xs @ ys) = (if all_valid xs then (fst (run xs) @ fst (run ys), snd (run xs) @ snd (run ys))
     else (fst (run xs) @ ys, snd (run xs)))"
  by (induction xs) auto

definition beat_message :: "NocMemoryMsg \<Rightarrow> axi_id \<Rightarrow> rbeat \<Rightarrow> NocMemoryMsg" where
  "beat_message raw a b =
     (new_NocMemoryMsg raw MsgR
        (MpRWData (default_aximmRWData\<lparr> d_cmd := CmdREAD, d_id := ucast a \<rparr>))
        (PlAximm (default_aximmRWData\<lparr> d_id := ucast (rb_axi b), d_valid := True, d_last := rb_last b,
             d_data := copy_at (replicate 64 0) 0 (rb_data b) \<rparr> # replicate 3 default_aximmRWData)))
       \<lparr> mm_axi_beat_id := trunc8 (rb_idx b), mm_axi_rrob_tag := nat (rb_tag b mod 256),
         mm_beat_size := rb_size b \<rparr>"

lemma read_message_entry:
  "read_message raw a e i (take (re_beat_size e) (drop (i * re_beat_size e) (re_data e)))
     (contains_last e \<and> last_beat_idx e = i) = beat_message raw a (entry_beat e i)"
  "read_message raw a e 0 (re_data e @ re_data e2) (contains_last e2) = beat_message raw a (pair_beat e e2)"
  by (simp_all add: read_message_def beat_message_def entry_beat_def pair_beat_def)

lemma entry_beat_mark_sent:
  assumes "i < length (beat_statuses e)"
  shows "entry_beat (mark_sent i e) j =
    (if j = i then (entry_beat e i)\<lparr> rb_sent := True \<rparr> else entry_beat e j)"
  using assms by (simp add: entry_beat_def mark_sent_def)

text \<open>The fields that reading out never changes.\<close>

definition only_sent :: "RROBEntry \<Rightarrow> RROBEntry \<Rightarrow> bool" where
  "only_sent e e' \<longleftrightarrow> (\<exists>ss. e' = e\<lparr> beat_statuses := ss \<rparr> \<and> length ss = length (beat_statuses e) \<and>
     map bs_valid ss = map bs_valid (beat_statuses e) \<and> map bs_read ss = map bs_read (beat_statuses e) \<and>
     (\<forall>i < length ss. bs_sent (beat_statuses e ! i) \<longrightarrow> bs_sent (ss ! i)))"

lemma only_sent_refl [simp]: "only_sent e e"
  by (auto simp: only_sent_def intro!: exI [of _ "beat_statuses e"])

lemma only_sent_trans: "only_sent e e1 \<Longrightarrow> only_sent e1 e2 \<Longrightarrow> only_sent e e2"
  by (auto simp: only_sent_def)

lemma only_sent_mark: "i < length (beat_statuses e) \<Longrightarrow> only_sent e (mark_sent i e)"
  unfolding only_sent_def mark_sent_def
  by (rule exI [of _ "(beat_statuses e)[i := (beat_statuses e ! i)\<lparr> bs_sent := True \<rparr>]"])
    (auto simp: nth_list_update intro!: nth_equalityI split: if_splits)

lemma only_sentD:
  assumes "only_sent e e'"
  shows "re_tag e' = re_tag e" "re_axi_id e' = re_axi_id e" "re_beat_size e' = re_beat_size e"
    "need_next_entry e' = need_next_entry e" "last_beat_idx e' = last_beat_idx e"
    "length (beat_statuses e') = length (beat_statuses e)" "re_data e' = re_data e"
    "i < length (beat_statuses e) \<Longrightarrow> bs_valid (beat_statuses e' ! i) = bs_valid (beat_statuses e ! i)"
    "i < length (beat_statuses e) \<Longrightarrow> bs_read (beat_statuses e' ! i) = bs_read (beat_statuses e ! i)"
    "i < length (beat_statuses e) \<Longrightarrow> bs_sent (beat_statuses e ! i) \<Longrightarrow> bs_sent (beat_statuses e' ! i)"
    "entry_size e' = entry_size e"
  using assms by (auto simp: only_sent_def) (metis nth_map)+

lemma send_beats_run:
  assumes "\<forall>i \<in> set is. i < length (beat_statuses e) \<and> (i + 1) * re_beat_size e \<le> length (re_data e)"
    and "distinct is" and "re_beat_size e \<le> 64"
  shows "\<exists>e'. send_beats raw a is e =
      Inr (e', map (beat_message raw a) (snd (run (map (entry_beat e) is))), \<not> all_valid (map (entry_beat e) is)) \<and>
    only_sent e e' \<and> map (entry_beat e') is = fst (run (map (entry_beat e) is)) \<and>
    (\<forall>j. j \<notin> set is \<longrightarrow> beat_statuses e' ! j = beat_statuses e ! j)"
  using assms
proof (induction "is" arbitrary: e)
  case (Cons i "is")
  have i: "i < length (beat_statuses e)" "(i + 1) * re_beat_size e \<le> length (re_data e)" using Cons.prems(1) by auto
  have valid: "bs_valid (beat_statuses e ! i) = rb_valid (entry_beat e i)"
    "bs_sent (beat_statuses e ! i) = rb_sent (entry_beat e i)" by (simp_all add: entry_beat_def)
  show ?case
  proof (cases "rb_valid (entry_beat e i) \<and> \<not> rb_sent (entry_beat e i)")
    case True
    define e1 where "e1 = mark_sent i e"
    have frame: "only_sent e e1" unfolding e1_def by (rule only_sent_mark [OF i(1)])
    note same = only_sentD [OF frame]
    have rest: "map (entry_beat e1) is = map (entry_beat e) is"
      using Cons.prems(2) by (auto simp: e1_def entry_beat_mark_sent [OF i(1)])
    have "\<forall>i \<in> set is. i < length (beat_statuses e1) \<and> (i + 1) * re_beat_size e1 \<le> length (re_data e1)"
      "distinct is" "re_beat_size e1 \<le> 64"
      unfolding same(3,6,7) using Cons.prems by auto
    from Cons.IH [OF this] obtain e' where e': "send_beats raw a is e1 = Inr (e',
          map (beat_message raw a) (snd (run (map (entry_beat e) is))), \<not> all_valid (map (entry_beat e) is))"
        "only_sent e1 e'" "map (entry_beat e') is = fst (run (map (entry_beat e) is))"
        "\<forall>j. j \<notin> set is \<longrightarrow> beat_statuses e' ! j = beat_statuses e1 ! j"
      unfolding rest by blast
    have "entry_beat e' i = entry_beat e1 i"
      using e'(2,4) Cons.prems(2) by (auto simp: entry_beat_def only_sent_def)
    then have "entry_beat e' i = (entry_beat e i)\<lparr> rb_sent := True \<rparr>"
      by (simp add: e1_def entry_beat_mark_sent [OF i(1)])
    moreover have "\<forall>j. j \<notin> set (i # is) \<longrightarrow> beat_statuses e' ! j = beat_statuses e ! j"
      using e'(4) by (auto simp: e1_def mark_sent_def)
    ultimately show ?thesis using True i e'(1,3) only_sent_trans [OF frame e'(2)] valid Cons.prems(3)
      by (auto simp: read_message_entry(1) not_less e1_def)
  next
    case False
    show ?thesis
    proof (cases "rb_valid (entry_beat e i)")
      case True
      with False have sent: "rb_sent (entry_beat e i)" by simp
      obtain e' where e': "send_beats raw a is e = Inr (e',
            map (beat_message raw a) (snd (run (map (entry_beat e) is))), \<not> all_valid (map (entry_beat e) is))"
          "only_sent e e'" "map (entry_beat e') is = fst (run (map (entry_beat e) is))"
          "\<forall>j. j \<notin> set is \<longrightarrow> beat_statuses e' ! j = beat_statuses e ! j"
        using Cons.IH [of e] Cons.prems by auto
      have "entry_beat e' i = entry_beat e i"
        using e'(2,4) Cons.prems(2) by (auto simp: entry_beat_def only_sent_def)
      then show ?thesis using True sent i e' valid by auto
    next
      case False
      then show ?thesis using i valid by (auto intro!: exI [of _ e])
    qed
  qed
qed auto

lemma single_ok_sent:
  assumes "single_ok e" and "only_sent e e'" and "entry_beats e' = fst (run (entry_beats e))"
  shows "single_ok e'"
proof -
  note same = only_sentD [OF assms(2)]
  have "rb_sent b \<longrightarrow> rb_valid b" if "b \<in> set (fst (run bs))" "\<forall>b \<in> set bs. rb_sent b \<longrightarrow> rb_valid b" for b bs
    using that by (induction bs) (auto split: if_splits)
  moreover have "\<forall>b \<in> set (entry_beats e). rb_sent b \<longrightarrow> rb_valid b"
    using assms(1) by (auto simp: single_ok_def entry_beats_def entry_beat_def)
  ultimately have "\<forall>b \<in> set (entry_beats e'). rb_sent b \<longrightarrow> rb_valid b" using assms(3) by metis
  then show ?thesis using assms(1) unfolding single_ok_def same(3-7)
    by (auto simp: entry_beats_def entry_beat_def same)
qed

lemma gen_single:
  assumes "single_ok e"
  shows "\<exists>e'. send_beats raw a [0..<last_beat_idx e + 1] e =
      Inr (e', map (beat_message raw a) (snd (run (entry_beats e))), \<not> all_valid (entry_beats e)) \<and>
    only_sent e e' \<and> entry_beats e' = fst (run (entry_beats e)) \<and> single_ok e'"
proof -
  have "(i + 1) * re_beat_size e \<le> length (re_data e)" if "i \<le> last_beat_idx e" for i
  proof -
    have "(i + 1) * re_beat_size e \<le> (last_beat_idx e + 1) * re_beat_size e"
      using that by (intro mult_le_mono1) simp
    then show ?thesis using assms unfolding single_ok_def by linarith
  qed
  then have "\<forall>i \<in> set [0..<last_beat_idx e + 1]. i < length (beat_statuses e) \<and>
      (i + 1) * re_beat_size e \<le> length (re_data e)" "re_beat_size e \<le> 64"
    using assms by (auto simp: single_ok_def simp del: upt_Suc)
  from send_beats_run [OF this(1) _ this(2), of raw a] obtain e' where
    e': "send_beats raw a [0..<last_beat_idx e + 1] e =
      Inr (e', map (beat_message raw a) (snd (run (entry_beats e))), \<not> all_valid (entry_beats e))"
    "only_sent e e'" "map (entry_beat e') [0..<last_beat_idx e + 1] = fst (run (entry_beats e))"
    unfolding entry_beats_def by auto
  then have "entry_beats e' = fst (run (entry_beats e))"
    by (simp only: entry_beats_def only_sentD(5) [OF e'(2)])
  with e' single_ok_sent [OF assms e'(2)] show ?thesis by blast
qed

text \<open>A partner whose beat was sent gives nothing more.\<close>

lemma send_partner:
  assumes "pair_ok e e2" and "bs_sent (beat_statuses e2 ! 0)" and "bs_valid (beat_statuses e2 ! 0)"
  shows "send_beats raw a [0..<last_beat_idx e2 + 1] e2 = Inr (e2, [], False)"
  using assms by (simp add: pair_ok_def)

lemma gen_list_run:
  assumes "list_ok (map snd l)"
  shows "\<exists>l'. gen_list raw a l = Inr (l', map (beat_message raw a) (snd (run (list_beats (map snd l))))) \<and>
    list_all2 (\<lambda>x y. fst x = fst y \<and> only_sent (snd x) (snd y)) l l' \<and> list_ok (map snd l') \<and>
    list_beats (map snd l') = fst (run (list_beats (map snd l)))"
  using assms
proof (induction "map snd l" arbitrary: l rule: list_ok.induct)
  case (2 e es)
  then obtain x rest where l: "l = x # rest" "e = snd x" "es = map snd rest" by (cases l) auto
  show ?case
  proof (cases "need_next_entry e")
    case False
    with 2 l have ok: "single_ok e" "list_ok (map snd rest)" by auto
    obtain e' where e': "send_beats raw a [0..<last_beat_idx e + 1] e =
        Inr (e', map (beat_message raw a) (snd (run (entry_beats e))), \<not> all_valid (entry_beats e))"
      "only_sent e e'" "entry_beats e' = fst (run (entry_beats e))" "single_ok e'"
      using gen_single [OF ok(1)] by blast
    note same = only_sentD [OF e'(2)]
    have beats: "list_beats (map snd l) = entry_beats e @ list_beats (map snd rest)" using l False by simp
    show ?thesis
    proof (cases "all_valid (entry_beats e)")
      case True
      obtain l' where "gen_list raw a rest = Inr (l', map (beat_message raw a) (snd (run (list_beats (map snd rest)))))"
        "list_all2 (\<lambda>x y. fst x = fst y \<and> only_sent (snd x) (snd y)) rest l'" "list_ok (map snd l')"
        "list_beats (map snd l') = fst (run (list_beats (map snd rest)))"
        using "2.hyps"(2) [OF False l(3)] ok(2) l by auto
      then show ?thesis unfolding beats run_append using True l e' False same(4)
        by (simp add: gen_list.simps(2) result_simps del: upt_Suc)
    next
      case invalid: False
      have "list_all2 (\<lambda>x y. fst x = fst y \<and> only_sent (snd x) (snd y)) rest rest"
        by (simp add: list_all2_same)
      then show ?thesis unfolding beats run_append using invalid l e' False same(4) ok(2)
        by (simp add: gen_list.simps(2) result_simps del: upt_Suc)
    qed
  next
    case True
    then obtain y rest' where r: "rest = y # rest'" "pair_ok e (snd y)" "list_ok (map snd rest')"
      using 2 l by (cases rest) auto
    let ?e2 = "snd y" and ?s = "beat_statuses e ! 0" and ?s2 = "beat_statuses (snd y) ! 0"
    have beats: "list_beats (map snd l) = pair_beat e ?e2 # list_beats (map snd rest')" using l True r by simp
    have ne: "beat_statuses e \<noteq> []" "beat_statuses ?e2 \<noteq> []" "\<not> need_next_entry ?e2"
      "length (re_data e) + length (re_data ?e2) \<le> 64" "bs_sent ?s2 = bs_sent ?s" using r(2) by (auto simp: pair_ok_def)
    have same_rest: "list_all2 (\<lambda>x y. fst x = fst y \<and> only_sent (snd x) (snd y)) rest' rest'"
      by (simp add: list_all2_same)
    obtain l' where l': "gen_list raw a rest' = Inr (l', map (beat_message raw a) (snd (run (list_beats (map snd rest')))))"
      "list_all2 (\<lambda>x y. fst x = fst y \<and> only_sent (snd x) (snd y)) rest' l'" "list_ok (map snd l')"
      "list_beats (map snd l') = fst (run (list_beats (map snd rest')))"
      using "2.hyps"(1) [OF True] r l by auto
    show ?thesis
    proof (cases "bs_valid ?s \<and> bs_valid ?s2")
      case False
      then show ?thesis unfolding beats using l r True ne same_rest
        by (auto simp: gen_list.simps(2) Let_def pair_beat_def)
    next
      case valid: True
      show ?thesis
      proof (cases "bs_sent ?s")
        case sent: True
        have "send_beats raw a [0..<last_beat_idx ?e2 + 1] ?e2 = Inr (?e2, [], False)"
          using send_partner [OF r(2)] sent ne(5) valid by simp
        then have "gen_list raw a (y # rest') = Inr (y # l', map (beat_message raw a) (snd (run (list_beats (map snd rest')))))"
          using l'(1) ne(3) by (simp add: gen_list.simps(2) result_simps del: upt_Suc)
        then show ?thesis unfolding beats using l r True ne sent valid l'
          by (auto simp: gen_list.simps(2) [of raw a x] Let_def pair_beat_def)
      next
        case unsent: False
        let ?e2' = "mark_sent 0 ?e2" and ?e' = "mark_sent 0 e"
        have pair': "pair_ok ?e' ?e2'" "\<not> need_next_entry ?e2'" "need_next_entry ?e'"
          "bs_sent (beat_statuses ?e2' ! 0)" "bs_valid (beat_statuses ?e2' ! 0)"
          using r(2) valid by (auto simp: pair_ok_def mark_sent_def)
        have only: "only_sent e ?e'" "only_sent ?e2 ?e2'" using ne by (auto intro!: only_sent_mark)
        have "send_beats raw a [0..<last_beat_idx ?e2' + 1] ?e2' = Inr (?e2', [], False)"
          by (rule send_partner [OF pair'(1,4,5)])
        then have "gen_list raw a ((fst y, ?e2') # rest') =
            Inr ((fst y, ?e2') # l', map (beat_message raw a) (snd (run (list_beats (map snd rest')))))"
          using l'(1) pair'(2) by (simp add: gen_list.simps(2) result_simps del: upt_Suc)
        moreover have "pair_beat ?e' ?e2' = (pair_beat e ?e2)\<lparr> rb_sent := True \<rparr>"
          using ne by (simp add: pair_beat_def mark_sent_def)
        ultimately show ?thesis unfolding beats using l r True ne unsent valid l' pair' only
          by (auto simp: gen_list.simps(2) [of raw a x] Let_def read_message_entry(2)) (auto simp: pair_beat_def)
      qed
    qed
  qed
qed (simp add: gen_list.simps)

section \<open>Arriving flits\<close>

text \<open>
  An entry that waits for the bytes \<open>xs\<close>: the flits that arrived hold the bytes of \<open>xs\<close>, and a
  beat is valid only when all its flits arrived.
\<close>

definition re_geom :: "byte list \<Rightarrow> RROBEntry \<Rightarrow> bool" where
  "re_geom xs e \<longleftrightarrow> length xs = entry_size e \<and> length (re_data e) = entry_size e \<and>
     0 < re_beat_size e \<and> 0 < entry_size e \<and> entry_size e = 16 * length (flit_written e) \<and>
     length (beat_statuses e) = (if re_beat_size e < entry_size e then entry_size e div re_beat_size e else 1) \<and>
     filled_flits e = length (filter id (flit_written e))"

definition arrived :: "RROBEntry \<Rightarrow> nat \<Rightarrow> bool" where
  "arrived e i \<longleftrightarrow> (\<forall>k < entry_size e. i * re_beat_size e \<le> k \<and> k < (i + 1) * re_beat_size e \<longrightarrow>
     flit_written e ! (k div 16))"

definition entry_inv :: "byte list \<Rightarrow> RROBEntry \<Rightarrow> bool" where
  "entry_inv xs e \<longleftrightarrow> re_geom xs e \<and>
     (\<forall>k < entry_size e. flit_written e ! (k div 16) \<longrightarrow> re_data e ! k = xs ! k) \<and>
     (\<forall>i < length (beat_statuses e). bs_valid (beat_statuses e ! i) \<longleftrightarrow> arrived e i)"

text \<open>The entry between the arrival of flit \<open>f\<close> and the update of the beats it touches.\<close>

definition entry_pre :: "byte list \<Rightarrow> nat \<Rightarrow> RROBEntry \<Rightarrow> bool" where
  "entry_pre xs f e \<longleftrightarrow> re_geom xs e \<and>
     (\<forall>k < entry_size e. flit_written e ! (k div 16) \<longrightarrow> re_data e ! k = xs ! k) \<and>
     (\<forall>i < length (beat_statuses e). (bs_valid (beat_statuses e ! i) \<longrightarrow> arrived e i) \<and>
        (arrived e i \<longrightarrow> bs_valid (beat_statuses e ! i) \<or> beat_touched e f i))"

definition only_valid :: "RROBEntry \<Rightarrow> RROBEntry \<Rightarrow> bool" where
  "only_valid e e' \<longleftrightarrow> re_tag e' = re_tag e \<and> re_axi_id e' = re_axi_id e \<and> re_beat_size e' = re_beat_size e \<and>
     entry_size e' = entry_size e \<and> need_next_entry e' = need_next_entry e \<and>
     contains_last e' = contains_last e \<and> last_beat_idx e' = last_beat_idx e \<and> re_vnet e' = re_vnet e \<and>
     length (re_data e') = length (re_data e) \<and> length (beat_statuses e') = length (beat_statuses e) \<and>
     (\<forall>i < length (beat_statuses e).
        bs_sent (beat_statuses e' ! i) = bs_sent (beat_statuses e ! i) \<and>
        (bs_read (beat_statuses e' ! i) \<longrightarrow> bs_read (beat_statuses e ! i) \<or> bs_sent (beat_statuses e ! i)) \<and>
        (bs_valid (beat_statuses e ! i) \<longrightarrow> bs_valid (beat_statuses e' ! i)))"

lemma filter_id_update:
  "i < length xs \<Longrightarrow> \<not> xs ! i \<Longrightarrow> length (filter id (xs[i := True])) = Suc (length (filter id xs))"
  by (induction xs arbitrary: i) (auto split: nat.splits)

lemma filter_id_full: "length (filter id xs) = length xs \<Longrightarrow> i < length xs \<Longrightarrow> xs ! i"
  by (metis filter_id_conv id_apply length_filter_less less_irrefl nth_mem)

lemma beat_flits_range:
  assumes "0 < re_beat_size e" and "i * re_beat_size e < entry_size e" and "16 dvd entry_size e"
  shows "f \<in> set (beat_flits e i) \<Longrightarrow> f < entry_size e div 16"
    and "i * re_beat_size e \<le> k \<Longrightarrow> k < (i + 1) * re_beat_size e \<Longrightarrow> k < entry_size e \<Longrightarrow> k div 16 \<in> set (beat_flits e i)"
    and "f \<in> set (beat_flits e i) \<Longrightarrow> \<exists>k < entry_size e. i * re_beat_size e \<le> k \<and> k < (i + 1) * re_beat_size e \<and> k div 16 = f"
proof -
  define b where "b = min (i * re_beat_size e + re_beat_size e) (entry_size e) - 1"
  have set: "set (beat_flits e i) = {i * re_beat_size e div 16..b div 16}"
    by (auto simp: beat_flits_def Let_def FLIT_SIZE_def b_def)
  have b: "b < entry_size e" using assms(1,2) by (auto simp: b_def)
  then show "f < entry_size e div 16" if "f \<in> set (beat_flits e i)"
    using that assms(3) unfolding set by (auto elim!: dvdE)
  show "\<exists>k < entry_size e. i * re_beat_size e \<le> k \<and> k < (i + 1) * re_beat_size e \<and> k div 16 = f"
    if "f \<in> set (beat_flits e i)"
  proof (intro exI conjI)
    let ?k = "max (i * re_beat_size e) (16 * f)"
    have f: "i * re_beat_size e div 16 \<le> f" "f \<le> b div 16" using that unfolding set by auto
    then have "16 * f \<le> b" by linarith
    moreover have "i * re_beat_size e \<le> b" using assms(1,2) by (auto simp: b_def)
    ultimately have k: "?k \<le> b" by simp
    then show "?k < entry_size e" using b by linarith
    show "?k < (i + 1) * re_beat_size e" using k assms(1) by (auto simp: b_def algebra_simps)
    show "?k div 16 = f" using f(1) by (auto simp: max_def)
  qed simp
  show "k div 16 \<in> set (beat_flits e i)"
    if "i * re_beat_size e \<le> k" "k < (i + 1) * re_beat_size e" "k < entry_size e"
  proof -
    have "k \<le> b" using that by (auto simp: b_def algebra_simps)
    then show ?thesis using that(1) unfolding set by (auto intro: div_le_mono)
  qed
qed

lemma mark_beat_valid:
  assumes "0 < re_beat_size e" and "re_beat_size e < entry_size e" and "entry_size e = 16 * length (flit_written e)"
    and "i < entry_size e div re_beat_size e"
  shows "\<exists>s. mark_beat e f i = Inr s \<and> bs_sent s = bs_sent (beat_statuses e ! i) \<and>
    bs_read s = bs_read (beat_statuses e ! i) \<and> (bs_valid (beat_statuses e ! i) \<longrightarrow> bs_valid s) \<and>
    (bs_valid s \<longrightarrow> bs_valid (beat_statuses e ! i) \<or> arrived e i) \<and>
    (beat_touched e f i \<and> arrived e i \<longrightarrow> bs_valid s)"
proof -
  have "(i + 1) * re_beat_size e \<le> entry_size e div re_beat_size e * re_beat_size e"
    using assms(4) by (intro mult_le_mono1) simp
  then have i: "i * re_beat_size e < entry_size e"
    using assms(1) div_times_less_eq_dividend [of "entry_size e" "re_beat_size e"]
    unfolding add_mult_distrib by linarith
  have dvd: "16 dvd entry_size e" using assms(3) by simp
  have "\<not> (\<exists>f \<in> set (beat_flits e i). length (flit_written e) \<le> f)"
    using beat_flits_range(1) [OF assms(1) i dvd] assms(3) by force
  moreover have "list_all ((!) (flit_written e)) (beat_flits e i) \<longleftrightarrow> arrived e i"
  proof
    assume "list_all ((!) (flit_written e)) (beat_flits e i)"
    then show "arrived e i" unfolding arrived_def using beat_flits_range(2) [OF assms(1) i dvd] by (auto simp: list_all_iff)
  next
    assume a: "arrived e i"
    have "flit_written e ! j" if "j \<in> set (beat_flits e i)" for j
      using beat_flits_range(3) [OF assms(1) i dvd that] a unfolding arrived_def by blast
    then show "list_all ((!) (flit_written e)) (beat_flits e i)" by (simp add: list_all_iff)
  qed
  ultimately show ?thesis by (auto simp: mark_beat_def Let_def)
qed

lemma markBeatsValid_inv:
  assumes "entry_pre xs f e"
  shows "\<exists>e'. markBeatsValid f e = Inr e' \<and> entry_inv xs e' \<and> only_valid e e' \<and> flit_written e' = flit_written e"
proof (cases "re_beat_size e < entry_size e")
  case False
  obtain s where s: "beat_statuses e = [s]"
    using assms False by (auto simp: entry_pre_def re_geom_def length_Suc_conv)
  have geom: "entry_size e = 16 * length (flit_written e)" "filled_flits e = length (filter id (flit_written e))"
    using assms by (auto simp: entry_pre_def re_geom_def)
  have full: "filled_flits e = length (flit_written e) \<longleftrightarrow> arrived e 0"
  proof
    assume "filled_flits e = length (flit_written e)"
    then show "arrived e 0" unfolding arrived_def using geom by (auto intro!: filter_id_full)
  next
    assume a: "arrived e 0"
    have "flit_written e ! i" if "i < length (flit_written e)" for i
      using a [unfolded arrived_def, rule_format, of "16 * i"] that geom(1) False by auto
    then show "filled_flits e = length (flit_written e)"
      using geom(2) by (simp add: filter_id_conv all_set_conv_all_nth)
  qed
  have "arrived (e\<lparr> beat_statuses := ss \<rparr>) = arrived e" for ss by (simp add: arrived_def fun_eq_iff)
  moreover have "re_geom xs (e\<lparr> beat_statuses := [s'] \<rparr>) = re_geom xs e" for s' by (simp add: re_geom_def s)
  ultimately show ?thesis using assms False s full
    by (auto simp: markBeatsValid_def entry_inv_def entry_pre_def only_valid_def)
next
  case True
  have geom: "0 < re_beat_size e" "entry_size e = 16 * length (flit_written e)"
    "length (beat_statuses e) = entry_size e div re_beat_size e"
    using assms True unfolding entry_pre_def re_geom_def by presburger+
  define g where "g i = projr (mark_beat e f i)" for i
  have g: "mark_beat e f i = Inr (g i)" "bs_sent (g i) = bs_sent (beat_statuses e ! i)"
      "bs_read (g i) = bs_read (beat_statuses e ! i)" "bs_valid (beat_statuses e ! i) \<Longrightarrow> bs_valid (g i)"
      "bs_valid (g i) \<Longrightarrow> bs_valid (beat_statuses e ! i) \<or> arrived e i"
      "beat_touched e f i \<Longrightarrow> arrived e i \<Longrightarrow> bs_valid (g i)"
    if "i < length (beat_statuses e)" for i
    using mark_beat_valid [OF geom(1) True geom(2), of i f] that geom(3) unfolding g_def by auto
  let ?e = "e\<lparr> beat_statuses := map g [0..<length (beat_statuses e)] \<rparr>"
  have marked: "markBeatsValid f e = Inr ?e"
    using True rmap_Inr [of "[0..<length (beat_statuses e)]" "mark_beat e f" g] g(1)
    by (simp add: markBeatsValid_def)
  have "re_geom xs ?e = re_geom xs e" "arrived ?e = arrived e"
    by (simp_all add: re_geom_def arrived_def fun_eq_iff)
  moreover have "bs_valid (g i) \<longleftrightarrow> arrived e i" if "i < length (beat_statuses e)" for i
    using assms g(4-6) [OF that] that unfolding entry_pre_def by metis
  ultimately have "entry_inv xs ?e" using assms by (simp add: entry_inv_def entry_pre_def)
  moreover have "only_valid e ?e" using g by (auto simp: only_valid_def)
  ultimately show ?thesis using marked by auto
qed

lemma only_valid_trans_flit:
  "only_valid (e\<lparr> re_data := d, flit_written := w, filled_flits := n \<rparr>) e' \<Longrightarrow>
    length d = length (re_data e) \<Longrightarrow> only_valid e e'"
  by (simp add: only_valid_def)

lemma update_True: "xs ! j \<Longrightarrow> (xs[f := True]) ! j"
  by (cases "f < length xs") (simp_all add: nth_list_update list_update_beyond)

lemma arrived_more:
  "arrived e i \<Longrightarrow> arrived (e\<lparr> re_data := d, flit_written := (flit_written e)[f := True], filled_flits := n \<rparr>) i"
  by (auto simp: arrived_def intro: update_True)

lemma arrived_touched:
  assumes "f < length (flit_written e)" and "entry_size e = 16 * length (flit_written e)"
    and "arrived (e\<lparr> re_data := d, flit_written := (flit_written e)[f := True], filled_flits := n \<rparr>) i"
  shows "arrived e i \<or> beat_touched (e\<lparr> re_data := d, flit_written := (flit_written e)[f := True], filled_flits := n \<rparr>) f i"
proof (rule disjCI)
  assume "\<not> beat_touched (e\<lparr> re_data := d, flit_written := (flit_written e)[f := True], filled_flits := n \<rparr>) f i"
  then have "k div 16 \<noteq> f" if "k < entry_size e" "i * re_beat_size e \<le> k" "k < (i + 1) * re_beat_size e" for k
    using that by (auto simp: beat_touched_def Let_def FLIT_SIZE_def)
  then show "arrived e i" using assms(3) unfolding arrived_def by (simp add: nth_list_update_neq [OF not_sym])
qed

lemma write_flit_inv:
  assumes "entry_inv xs e" and f: "f < length (flit_written e)" "\<not> flit_written e ! f"
    and "entry_size e < 65536"
  shows "\<exists>e'. write_flit (take 16 (drop (16 * f) xs)) (int f) e = Inr e' \<and> entry_inv xs e' \<and> only_valid e e' \<and>
    flit_written e' = (flit_written e)[f := True]"
proof -
  have geom: "length xs = entry_size e" "length (re_data e) = entry_size e"
    "entry_size e = 16 * length (flit_written e)" "\<And>k. k < entry_size e \<Longrightarrow> flit_written e ! (k div 16) \<Longrightarrow> re_data e ! k = xs ! k"
    using assms(1) by (auto simp: entry_inv_def re_geom_def)
  let ?d = "take 16 (drop (16 * f) xs)"
  have room: "16 * f + 16 \<le> entry_size e" using f(1) geom(3) by linarith
  then have d: "length ?d = 16" using geom(1) by simp
  let ?e = "e\<lparr> re_data := copy_at (re_data e) (f * 16) ?d, flit_written := (flit_written e)[f := True],
    filled_flits := filled_flits e + 1 \<rparr>"
  have len: "length (copy_at (re_data e) (f * 16) ?d) = entry_size e" using room d geom(2) by simp
  have bytes: "copy_at (re_data e) (f * 16) ?d ! k = xs ! k"
    if k: "k < entry_size e" "(flit_written e)[f := True] ! (k div 16)" for k
  proof (cases "k div 16 = f")
    case True
    then have "f * 16 \<le> k" "k < f * 16 + 16" by auto
    then show ?thesis using room d geom(1,2) k(1) by (subst nth_copy_at) (auto simp: mult.commute)
  next
    case False
    then have "k < f * 16 \<or> f * 16 + 16 \<le> k" by auto
    then show ?thesis using False k geom(4) [OF k(1)] room d geom(2) by (subst nth_copy_at) auto
  qed
  have "re_geom xs ?e" using assms(1) len filter_id_update [OF f]
    unfolding entry_inv_def re_geom_def by auto
  then have "entry_pre xs f ?e"
    using assms(1) bytes arrived_more [of e] arrived_touched [OF f(1)] geom(3) by (simp add: entry_inv_def entry_pre_def)
  then obtain e' where e': "markBeatsValid f ?e = Inr e'" "entry_inv xs e'" "only_valid ?e e'"
    "flit_written e' = (flit_written e)[f := True]"
    using markBeatsValid_inv [of xs f ?e] by auto
  have "only_valid e e'" by (rule only_valid_trans_flit [OF e'(3)]) (use len geom(2) in simp)
  moreover have "size_t_of_int (int f) = f" using f(1) geom(3) assms(4) by simp
  then have "write_flit ?d (int f) e = Inr e'"
    using e'(1) f(1) d room geom(2) by (simp add: write_flit_def Let_def FLIT_SIZE_def)
  ultimately show ?thesis using e' by blast
qed

section \<open>Expected beats\<close>

text \<open>
  The beats that a list of nodes will deliver, with the bytes the nodes wait for. Their contents
  do not depend on what has arrived; arrived beats carry the same bytes.
\<close>

type_synonym content = "int \<times> nat \<times> byte list \<times> bool"

definition content :: "rbeat \<Rightarrow> content" where
  "content b = (rb_tag b, rb_idx b, rb_data b, rb_last b)"

definition exp_entry :: "(nat \<Rightarrow> byte list) \<Rightarrow> node \<Rightarrow> RROBEntry" where
  "exp_entry X x = (snd x)\<lparr> re_data := X (fst x) \<rparr>"

definition expected :: "(nat \<Rightarrow> byte list) \<Rightarrow> node list \<Rightarrow> rbeat list" where
  "expected X l = list_beats (map (exp_entry X) l)"

definition unsent :: "(nat \<Rightarrow> byte list) \<Rightarrow> node list \<Rightarrow> content list" where
  "unsent X l = map content (filter (\<lambda>b. \<not> rb_sent b) (expected X l))"

lemma list_ok_append: "list_ok xs \<Longrightarrow> list_ok (xs @ ys) = list_ok ys"
proof (induction xs rule: list_ok.induct)
  case (2 e es)
  then show ?case by (cases "need_next_entry e"; cases es) auto
qed simp

lemma list_beats_append: "list_ok xs \<Longrightarrow> list_beats (xs @ ys) = list_beats xs @ list_beats ys"
proof (induction xs rule: list_ok.induct)
  case (2 e es)
  then show ?case by (cases "need_next_entry e"; cases es) auto
qed simp

text \<open>Two lists of nodes that differ in statuses and data only.\<close>

definition same_shape :: "RROBEntry \<Rightarrow> RROBEntry \<Rightarrow> bool" where
  "same_shape e e' \<longleftrightarrow> re_tag e' = re_tag e \<and> re_axi_id e' = re_axi_id e \<and> re_beat_size e' = re_beat_size e \<and>
     need_next_entry e' = need_next_entry e \<and> contains_last e' = contains_last e \<and>
     last_beat_idx e' = last_beat_idx e \<and> length (re_data e') = length (re_data e) \<and>
     length (beat_statuses e') = length (beat_statuses e)"

definition nodes_rel :: "(RROBEntry \<Rightarrow> RROBEntry \<Rightarrow> bool) \<Rightarrow> node list \<Rightarrow> node list \<Rightarrow> bool" where
  "nodes_rel R = list_all2 (\<lambda>x y. fst x = fst y \<and> R (snd x) (snd y))"

lemma nodes_rel_simps [simp]:
  "nodes_rel R [] l' \<longleftrightarrow> l' = []"
  "nodes_rel R (x # l) l' \<longleftrightarrow> (\<exists>y k. l' = y # k \<and> fst x = fst y \<and> R (snd x) (snd y) \<and> nodes_rel R l k)"
  by (auto simp: nodes_rel_def list_all2_Cons1)

lemma only_sent_shape: "only_sent e e' \<Longrightarrow> same_shape e e'"
  by (auto simp: only_sent_def same_shape_def)

lemma only_valid_shape: "only_valid e e' \<Longrightarrow> same_shape e e'"
  by (simp add: only_valid_def same_shape_def)

lemma nodes_rel_mono: "nodes_rel R l l' \<Longrightarrow> (\<And>e e'. R e e' \<Longrightarrow> S e e') \<Longrightarrow> nodes_rel S l l'"
  unfolding nodes_rel_def by (erule list_all2_mono) auto

text \<open>Related entries have related beats.\<close>

lemma list_beats_rel:
  assumes "\<And>e e'. R e e' \<Longrightarrow> need_next_entry e' = need_next_entry e"
    and "\<And>e e'. R e e' \<Longrightarrow> single_ok e \<Longrightarrow> list_all2 Q (entry_beats e) (entry_beats e')"
    and "\<And>e e' f f'. R e e' \<Longrightarrow> R f f' \<Longrightarrow> pair_ok e f \<Longrightarrow> Q (pair_beat e f) (pair_beat e' f')"
  shows "list_ok es \<Longrightarrow> list_all2 R es es' \<Longrightarrow> list_all2 Q (list_beats es) (list_beats es')"
proof (induction es arbitrary: es' rule: list_beats.induct)
  case (2 e es)
  then obtain e' k where k: "es' = e' # k" "R e e'" "list_all2 R es k" by (auto simp: list_all2_Cons1)
  show ?case
  proof (cases "need_next_entry e")
    case False
    then show ?thesis using k 2 assms(1,2) [OF k(2)] by (auto intro: list_all2_appendI)
  next
    case True
    then show ?thesis using k 2 assms(1) [OF k(2)] assms(3) [OF k(2)]
      by (cases es; cases k) auto
  qed
qed simp

lemma map_eq_list_all2: "list_all2 (\<lambda>x y. f x = g y) xs ys \<longleftrightarrow> map f xs = map g ys"
  by (auto simp: list_all2_conv_all_nth list_eq_iff_nth_eq)

lemma entry_beats_rel:
  "last_beat_idx e' = last_beat_idx e \<Longrightarrow> (\<And>i. i \<le> last_beat_idx e \<Longrightarrow> Q (entry_beat e i) (entry_beat e' i)) \<Longrightarrow>
    list_all2 Q (entry_beats e) (entry_beats e')"
  by (simp add: entry_beats_def list_all2_map1 list_all2_map2 list_all2_same del: upt_Suc)

lemma contents_shape:
  assumes "list_ok (map (exp_entry X) l)" and "nodes_rel same_shape l l'"
  shows "map content (expected X l') = map content (expected X l)"
proof -
  let ?R = "\<lambda>e e'. same_shape e e' \<and> re_data e' = re_data e"
  have "list_all2 ?R (map (exp_entry X) l) (map (exp_entry X) l')"
    using assms(2) by (auto simp: nodes_rel_def list_all2_conv_all_nth exp_entry_def same_shape_def)
  with assms(1) have "list_all2 (\<lambda>b b'. content b = content b') (expected X l) (expected X l')"
    unfolding expected_def
  proof (rule list_beats_rel [rotated 3])
    fix e e' assume "?R e e'"
    then show "list_all2 (\<lambda>b b'. content b = content b') (entry_beats e) (entry_beats e')"
      by (intro entry_beats_rel) (auto simp: same_shape_def entry_beat_def content_def)
  qed (simp_all add: same_shape_def pair_beat_def content_def)
  then show ?thesis by (simp add: map_eq_list_all2)
qed

text \<open>
  The beats of a list and the expected ones: the same flags, and the same content where the beat
  is valid.
\<close>

definition agree :: "rbeat \<Rightarrow> rbeat \<Rightarrow> bool" where
  "agree b b' \<longleftrightarrow> rb_sent b = rb_sent b' \<and> rb_valid b = rb_valid b' \<and> (rb_valid b \<longrightarrow> content b = content b')"

lemma arrived_data:
  assumes "entry_inv xs e" and "arrived e i" 
  shows "take (re_beat_size e) (drop (i * re_beat_size e) (re_data e)) =
    take (re_beat_size e) (drop (i * re_beat_size e) xs)"
proof (rule nth_equalityI)
  have len: "length (re_data e) = entry_size e" "length xs = entry_size e"
    using assms(1) by (auto simp: entry_inv_def re_geom_def)
  then show "length (take (re_beat_size e) (drop (i * re_beat_size e) (re_data e))) =
      length (take (re_beat_size e) (drop (i * re_beat_size e) xs))" by simp
  fix k
  assume k: "k < length (take (re_beat_size e) (drop (i * re_beat_size e) (re_data e)))"
  then have "i * re_beat_size e + k < entry_size e" "flit_written e ! ((i * re_beat_size e + k) div 16)"
    using assms(2) len by (auto simp: arrived_def)
  then have "re_data e ! (i * re_beat_size e + k) = xs ! (i * re_beat_size e + k)"
    using assms(1) by (auto simp: entry_inv_def)
  moreover have "i * re_beat_size e \<le> entry_size e" using \<open>i * re_beat_size e + k < entry_size e\<close> by linarith
  ultimately show "take (re_beat_size e) (drop (i * re_beat_size e) (re_data e)) ! k =
      take (re_beat_size e) (drop (i * re_beat_size e) xs) ! k" using k len by simp
qed

lemma arrived_all:
  assumes "entry_inv xs e" and "arrived e 0" and "entry_size e \<le> re_beat_size e"
  shows "re_data e = xs"
  using arrived_data [OF assms(1,2)] assms by (simp add: entry_inv_def re_geom_def)

lemma expected_agree:
  assumes "list_ok (map snd l)" and "\<forall>x \<in> set l. entry_inv (X (fst x)) (snd x)"
  shows "list_all2 agree (list_beats (map snd l)) (expected X l)"
  unfolding expected_def
proof (rule list_beats_rel [OF _ _ _ assms(1)])
  let ?R = "\<lambda>e e'. \<exists>xs. entry_inv xs e \<and> e' = e\<lparr> re_data := xs \<rparr>"
  show "list_all2 ?R (map snd l) (map (exp_entry X) l)"
    using assms(2) by (auto simp: list_all2_conv_all_nth exp_entry_def)
  fix e e' f f'
  assume R: "?R e e'"
  then show "need_next_entry e' = need_next_entry e" by auto
  from R obtain xs where xs: "entry_inv xs e" "e' = e\<lparr> re_data := xs \<rparr>" by blast
  show "list_all2 agree (entry_beats e) (entry_beats e')" if "single_ok e"
  proof (rule entry_beats_rel)
    fix i
    assume "i \<le> last_beat_idx e"
    then have "bs_valid (beat_statuses e ! i) \<longrightarrow> arrived e i"
      using that xs(1) by (auto simp: single_ok_def entry_inv_def)
    then show "agree (entry_beat e i) (entry_beat e' i)"
      using arrived_data [OF xs(1)] xs(2) by (auto simp: agree_def entry_beat_def content_def)
  qed (use xs in simp)
  assume "?R f f'" and pair: "pair_ok e f"
  then obtain ys where ys: "entry_inv ys f" "f' = f\<lparr> re_data := ys \<rparr>" by blast
  have "bs_valid (beat_statuses e ! 0) \<longrightarrow> arrived e 0" "bs_valid (beat_statuses f ! 0) \<longrightarrow> arrived f 0"
    using pair xs(1) ys(1) by (auto simp: pair_ok_def entry_inv_def)
  then show "agree (pair_beat e f) (pair_beat e' f')"
    using arrived_all [OF xs(1)] arrived_all [OF ys(1)] pair xs(2) ys(2)
    by (auto simp: agree_def pair_beat_def content_def pair_ok_def)
qed

lemma expected_ok:
  assumes "list_ok (map snd l)" and "\<forall>x \<in> set l. entry_inv (X (fst x)) (snd x)"
  shows "list_ok (map (exp_entry X) l)"
  using assms
proof (induction "map snd l" arbitrary: l rule: list_ok.induct)
  case (2 e es)
  then obtain x rest where l: "l = x # rest" "e = snd x" "es = map snd rest" by (cases l) auto
  have len: "length (X (fst y)) = length (re_data (snd y))" if "y \<in> set l" for y
    using "2.prems"(2) that by (auto simp: entry_inv_def re_geom_def)
  show ?case
  proof (cases "need_next_entry e")
    case False
    then show ?thesis using l 2 len [of x] by (auto simp: exp_entry_def single_ok_def)
  next
    case True
    then obtain y rest' where "rest = y # rest'" using l 2 by (cases rest) auto
    then show ?thesis using l 2 True len [of x] len [of y] by (auto simp: exp_entry_def pair_ok_def)
  qed
qed simp

section \<open>One generation\<close>

lemma run_content: "map content (fst (run xs)) = map content xs"
  by (induction xs) (auto simp: content_def)

lemma run_unsent: "filter (\<lambda>b. \<not> rb_sent b) xs = snd (run xs) @ filter (\<lambda>b. \<not> rb_sent b) (fst (run xs))"
  by (induction xs) auto

lemma agree_flags:
  "list_all2 agree xs ys \<Longrightarrow> map rb_sent xs = map rb_sent ys \<and> map rb_valid xs = map rb_valid ys"
  by (induction rule: list_all2_induct) (auto simp: agree_def)

lemma run_agree:
  "list_all2 agree xs ys \<Longrightarrow> map content (snd (run xs)) = map content (snd (run ys)) \<and>
    map rb_sent (fst (run xs)) = map rb_sent (fst (run ys))"
proof (induction rule: list_all2_induct)
  case (Cons x xs y ys)
  note flags = agree_flags [OF Cons.hyps(2)]
  show ?case using Cons.hyps(1) Cons.IH flags by (auto simp: agree_def)
qed simp

lemma run_subset: "set (snd (run bs)) \<subseteq> set bs"
  by (induction bs) auto

lemma run_all_valid: "all_valid bs \<Longrightarrow> filter (\<lambda>b. \<not> rb_sent b) (fst (run bs)) = []"
  by (induction bs) auto

lemma unsent_cong:
  "map content xs = map content ys \<Longrightarrow> map rb_sent xs = map rb_sent ys \<Longrightarrow>
    map content (filter (\<lambda>b. \<not> rb_sent b) xs) = map content (filter (\<lambda>b. \<not> rb_sent b) ys)"
proof (induction xs arbitrary: ys)
  case (Cons x xs)
  then show ?case by (cases ys) auto
qed simp

definition nodes_inv :: "(nat \<Rightarrow> byte list) \<Rightarrow> node list \<Rightarrow> bool" where
  "nodes_inv X l \<longleftrightarrow> list_ok (map snd l) \<and> (\<forall>x \<in> set l. entry_inv (X (fst x)) (snd x))"

lemma entry_inv_only_sent:
  assumes "only_sent e e'" and "entry_inv xs e"
  shows "entry_inv xs e'"
proof -
  obtain ss where ss: "e' = e\<lparr> beat_statuses := ss \<rparr>" "length ss = length (beat_statuses e)"
    "map bs_valid ss = map bs_valid (beat_statuses e)" using assms(1) by (auto simp: only_sent_def)
  have "bs_valid (ss ! i) = bs_valid (beat_statuses e ! i)" if "i < length ss" for i
    using ss(2,3) that by (metis nth_map)
  then show ?thesis using assms(2) ss(1,2) by (auto simp: entry_inv_def re_geom_def arrived_def)
qed

lemma nodes_rel_entry_inv:
  assumes "nodes_rel R l l'" and "\<forall>x \<in> set l. entry_inv (X (fst x)) (snd x)"
    and "\<And>n e e'. R e e' \<Longrightarrow> entry_inv (X n) e \<Longrightarrow> entry_inv (X n) e'"
  shows "\<forall>x \<in> set l'. entry_inv (X (fst x)) (snd x)"
  using assms(1,2) unfolding nodes_rel_def
  by (induction rule: list_all2_induct) (auto intro: assms(3))

lemma generate_unsent:
  assumes "nodes_inv X l"
  shows "\<exists>l' bs. gen_list raw a l = Inr (l', map (beat_message raw a) bs) \<and> nodes_rel only_sent l l' \<and>
    nodes_inv X l' \<and> unsent X l = map content bs @ unsent X l' \<and>
    (\<forall>b \<in> set bs. b \<in> set (list_beats (map snd l))) \<and>
    (all_valid (list_beats (map snd l)) \<longrightarrow> unsent X l' = [])"
proof -
  let ?bs = "list_beats (map snd l)" and ?xs = "expected X l"
  have ok: "list_ok (map snd l)" "\<forall>x \<in> set l. entry_inv (X (fst x)) (snd x)" using assms by (auto simp: nodes_inv_def)
  obtain l' where l': "gen_list raw a l = Inr (l', map (beat_message raw a) (snd (run ?bs)))"
      "nodes_rel only_sent l l'" "list_ok (map snd l')" "list_beats (map snd l') = fst (run ?bs)"
    using gen_list_run [OF ok(1), of raw a] unfolding nodes_rel_def by blast
  have inv': "nodes_inv X l'"
    using l'(3) nodes_rel_entry_inv [OF l'(2) ok(2) entry_inv_only_sent] by (simp add: nodes_inv_def)
  have agree: "list_all2 agree ?bs ?xs" "list_all2 agree (fst (run ?bs)) (expected X l')"
    using expected_agree [OF ok] expected_agree [of l' X] inv' l'(4) by (simp_all add: nodes_inv_def)
  have sent: "map rb_sent (expected X l') = map rb_sent (fst (run ?xs))"
    using run_agree [OF agree(1)] agree_flags [OF agree(2)] by simp
  have "nodes_rel same_shape l l'" using l'(2) only_sent_shape by (rule nodes_rel_mono)
  then have "map content (expected X l') = map content (fst (run ?xs))"
    using contents_shape [OF expected_ok [OF ok]] by (simp add: run_content)
  then have rest: "unsent X l' = map content (filter (\<lambda>b. \<not> rb_sent b) (fst (run ?xs)))"
    unfolding unsent_def using sent by (rule unsent_cong)
  have "unsent X l = map content (snd (run ?bs)) @ unsent X l'"
    using run_unsent [of ?xs] run_agree [OF agree(1)] rest by (simp add: unsent_def)
  moreover have "unsent X l' = []" if "all_valid ?bs"
  proof -
    have "all_valid ?xs" using agree_flags [OF agree(1)] that by (simp only: list_all_valid)
    then show ?thesis unfolding rest by (simp add: run_all_valid)
  qed
  ultimately show ?thesis using l'(1,2) inv' run_subset [of ?bs]
    by (intro exI [of _ l'] exI [of _ "snd (run ?bs)"]) auto
qed

end
