(* ===== verification/Rrob_Reach.thy ===== *)
theory Rrob_Reach
  imports Rrob_Order
begin

text \<open>
  Executions of the read reorder buffer: reservations of single entries and of pairs, flits that
  arrive in any order, generation of payloads and retirement of read beats, in any interleaving.
  For every id the delivered beats are a prefix of the reserved ones, with the bytes that the
  network delivered, and no operation fails.
\<close>

section \<open>The invariant of the lists and the tag maps\<close>

definition node_ok :: "AxiListManager \<Rightarrow> axi_id \<Rightarrow> node \<Rightarrow> bool" where
  "node_ok m a x \<longleftrightarrow> entry_size (snd x) = m_entry_size m \<and> re_axi_id (snd x) = a \<and> fst x < next_node m \<and>
     0 \<le> re_tag (snd x) \<and> re_tag (snd x) < 256 \<and> last_beat_idx (snd x) < 256 \<and>
     tagToIterator m (of_int (re_tag (snd x))) = Some (a, fst x) \<and>
     (\<forall>i < length (beat_statuses (snd x)).
        bs_read (beat_statuses (snd x) ! i) \<longrightarrow> bs_sent (beat_statuses (snd x) ! i))"

definition total_entries :: "AxiListManager \<Rightarrow> nat" where
  "total_entries m = (\<Sum>a\<in>UNIV. length (list_of m a))"

definition lists_inv :: "(nat \<Rightarrow> byte list) \<Rightarrow> AxiListManager \<Rightarrow> bool" where
  "lists_inv X m \<longleftrightarrow> (\<forall>a. nodes_inv X (list_of m a) \<and> distinct (map fst (list_of m a)) \<and>
     lists m a \<noteq> Some [] \<and> (\<forall>x \<in> set (list_of m a). node_ok m a x))"

definition tags_inv :: "AxiListManager \<Rightarrow> bool" where
  "tags_inv m \<longleftrightarrow> (\<forall>t a n. tagToIterator m t = Some (a, n) \<longrightarrow>
       (\<exists>e. (n, e) \<in> set (list_of m a) \<and> re_tag e = uint t)) \<and>
     tagToAxiID m = (\<lambda>t. map_option fst (tagToIterator m t))"

definition rrob_inv :: "(nat \<Rightarrow> byte list) \<Rightarrow> AxiListManager \<Rightarrow> bool" where
  "rrob_inv X m \<longleftrightarrow> 0 < m_entry_size m \<and> 16 dvd m_entry_size m \<and> m_entry_size m < 65536 \<and>
     lists_inv X m \<and> tags_inv m \<and> numEntries m = int (total_entries m) \<and>
     total_entries m \<le> m_max_entries m \<and> m_max_entries m < 2 ^ 64"

lemma list_of_upd [simp]:
  "list_of (m\<lparr> lists := (lists m)(a \<mapsto> l) \<rparr>) = (list_of m)(a := l)"
  "list_of (m\<lparr> lists := (lists m)(a := None) \<rparr>) = (list_of m)(a := [])"
  by (auto simp: list_of_def fun_eq_iff)

lemma list_of_lists: "lists m' = (lists m)(a \<mapsto> l) \<Longrightarrow> list_of m' = (list_of m)(a := l)"
  by (auto simp: list_of_def fun_eq_iff)

lemma list_of_other [simp]:
  "list_of (m\<lparr> tagToIterator := ti \<rparr>) = list_of m" "list_of (m\<lparr> tagToAxiID := ta \<rparr>) = list_of m"
  "list_of (m\<lparr> nextTag := t \<rparr>) = list_of m" "list_of (m\<lparr> numEntries := n \<rparr>) = list_of m"
  "list_of (m\<lparr> next_node := k \<rparr>) = list_of m" "list_of (m\<lparr> rr_scan_axi_key := i \<rparr>) = list_of m"
  by (simp_all add: list_of_def fun_eq_iff)

lemma list_of_Some: "rrob_inv X m \<Longrightarrow> lists m a = (if list_of m a = [] then None else Some (list_of m a))"
  by (auto simp: rrob_inv_def lists_inv_def list_of_def split: option.splits)

lemma total_change:
  "list_of m' = (list_of m)(a := l) \<Longrightarrow> total_entries m' + length (list_of m a) = total_entries m + length l"
  unfolding total_entries_def using total_upd [of "list_of m" a l] by simp

lemma nodes_inv_cong: "(\<And>x. x \<in> set l \<Longrightarrow> X' (fst x) = X (fst x)) \<Longrightarrow> nodes_inv X' l = nodes_inv X l"
  by (simp add: nodes_inv_def)

lemma expected_cong: "(\<And>x. x \<in> set l \<Longrightarrow> X' (fst x) = X (fst x)) \<Longrightarrow> expected X' l = expected X l"
  by (simp add: expected_def exp_entry_def cong: map_cong)

lemma nodes_inv_append:
  "nodes_inv X l \<Longrightarrow> nodes_inv X (l @ k) = nodes_inv X k"
  by (auto simp: nodes_inv_def list_ok_append)

lemma expected_append:
  assumes "nodes_inv X l"
  shows "expected X (l @ k) = expected X l @ expected X k"
  using expected_ok [of l X] assms by (simp add: expected_def nodes_inv_def list_beats_append)

lemma unsent_append: "nodes_inv X l \<Longrightarrow> unsent X (l @ k) = unsent X l @ unsent X k"
  by (simp add: unsent_def expected_append)

section \<open>Appending, replacing and removing nodes\<close>

lemma append_nodes_inv:
  assumes inv: "rrob_inv X m"
    and lists: "lists m' = (lists m)(a \<mapsto> list_of m a @ ns)" "ns \<noteq> []"
    and new: "nodes_inv X' ns" "\<forall>x \<in> set ns. node_ok m' a x \<and> next_node m \<le> fst x" "distinct (map fst ns)"
    and frame: "\<forall>n < next_node m. X' n = X n" "next_node m \<le> next_node m'" "m_entry_size m' = m_entry_size m"
    and tags: "\<And>t it. tagToIterator m t = Some it \<Longrightarrow> tagToIterator m' t = Some it"
      "\<And>t it. tagToIterator m' t = Some it \<Longrightarrow> tagToIterator m t = Some it \<or>
         (\<exists>x \<in> set ns. it = (a, fst x) \<and> re_tag (snd x) = uint t)"
      "tagToAxiID m' = (\<lambda>t. map_option fst (tagToIterator m' t))"
    and count: "numEntries m' = numEntries m + int (length ns)" "m_max_entries m' = m_max_entries m"
      "total_entries m + length ns \<le> m_max_entries m"
  shows "rrob_inv X' m'" and "list_of m' = (list_of m)(a := list_of m a @ ns)"
    and "b \<noteq> a \<Longrightarrow> unsent X' (list_of m b) = unsent X (list_of m b)"
    and "unsent X' (list_of m a @ ns) = unsent X (list_of m a) @ unsent X' ns"
proof -
  show lo: "list_of m' = (list_of m)(a := list_of m a @ ns)"
    using lists(1) by (auto simp: list_of_def fun_eq_iff)
  have old: "nodes_inv X (list_of m b)" "distinct (map fst (list_of m b))" "lists m b \<noteq> Some []"
    "x \<in> set (list_of m b) \<Longrightarrow> node_ok m b x" for b x
    using inv by (auto simp: rrob_inv_def lists_inv_def)
  have low: "fst x < next_node m" if "x \<in> set (list_of m b)" for x b
    using old(4) [OF that] by (simp add: node_ok_def)
  have same: "nodes_inv X' (list_of m b)" for b
    using old(1) [of b] nodes_inv_cong [of "list_of m b" X' X] low frame(1) by blast
  have exp: "expected X' (list_of m b) = expected X (list_of m b)" for b
    using low frame(1) by (intro expected_cong) blast
  then show "unsent X' (list_of m b) = unsent X (list_of m b)" if "b \<noteq> a" by (simp add: unsent_def)
  show "unsent X' (list_of m a @ ns) = unsent X (list_of m a) @ unsent X' ns"
    using unsent_append [OF same] exp by (simp add: unsent_def)
  have node: "node_ok m' b x" if "x \<in> set (list_of m b)" for b x
    using old(4) [OF that] frame(2,3) tags(1) unfolding node_ok_def by auto
  have apart: "fst x \<noteq> fst y" if "x \<in> set (list_of m a)" "y \<in> set ns" for x y
    using low [OF that(1)] new(2) that(2) by auto
  have "distinct (map fst (list_of m a @ ns))" using old(2) [of a] new(3) apart by auto
  moreover have "nodes_inv X' (list_of m a @ ns)" using nodes_inv_append [OF same] new(1) by blast
  moreover have "node_ok m' a x" if "x \<in> set (list_of m a @ ns)" for x using that node [of x a] new(2) by auto
  moreover have "lists m' a \<noteq> Some []" "b \<noteq> a \<Longrightarrow> lists m' b \<noteq> Some []" for b using lists old(3) by auto
  ultimately have "lists_inv X' m'"
    unfolding lists_inv_def lo using same old(2) node by (simp del: map_append set_append)
  moreover have "\<exists>e. (n, e) \<in> set (list_of m' b) \<and> re_tag e = uint t" if "tagToIterator m' t = Some (b, n)" for t b n
    using tags(2) [OF that] inv unfolding rrob_inv_def tags_inv_def lo by fastforce
  then have "tags_inv m'" unfolding tags_inv_def using tags(3) by blast
  moreover have "total_entries m' = total_entries m + length ns" using total_change [OF lo] by simp
  ultimately show "rrob_inv X' m'" using inv frame(3) count by (simp add: rrob_inv_def)
qed

section \<open>Reservations\<close>

text \<open>The beats that one entry, or a pair, will deliver.\<close>

definition single_contents :: "Tag \<Rightarrow> nat \<Rightarrow> bool \<Rightarrow> nat \<Rightarrow> byte list \<Rightarrow> content list" where
  "single_contents t bs has_last last_idx xs =
     map (\<lambda>i. (uint t, i, take bs (drop (i * bs) xs), has_last \<and> last_idx = i)) [0..<last_idx + 1]"

definition can_reserve :: "nat \<Rightarrow> AxiListManager \<Rightarrow> bool" where
  "can_reserve k m \<longleftrightarrow> total_entries m + k \<le> m_max_entries m \<and>
     (\<forall>i < k. tagToIterator m (nextTag m + of_nat i) = None)"

definition fresh_entry :: "axi_id \<Rightarrow> nat \<Rightarrow> nat \<Rightarrow> bool \<Rightarrow> bool \<Rightarrow> nat \<Rightarrow> int \<Rightarrow> int \<Rightarrow> RROBEntry" where
  "fresh_entry a bs ez nn hl li t v =
     \<lparr> re_tag = t, re_axi_id = a, re_beat_size = bs, entry_size = ez,
       filled_flits = 0, flit_written = replicate (ez div 16) False,
       re_data = replicate ez 0, need_next_entry = nn,
       beat_statuses = replicate (if bs < ez then ez div bs else 1) new_beatStatus,
       contains_last = hl, last_beat_idx = li, re_vnet = v \<rparr>"

lemma fresh_entry_fields [simp]:
  "re_tag (fresh_entry a bs ez nn hl li t v) = t" "re_axi_id (fresh_entry a bs ez nn hl li t v) = a"
  "re_beat_size (fresh_entry a bs ez nn hl li t v) = bs" "entry_size (fresh_entry a bs ez nn hl li t v) = ez"
  "need_next_entry (fresh_entry a bs ez nn hl li t v) = nn"
  "contains_last (fresh_entry a bs ez nn hl li t v) = hl" "last_beat_idx (fresh_entry a bs ez nn hl li t v) = li"
  "re_data (fresh_entry a bs ez nn hl li t v) = replicate ez 0"
  "beat_statuses (fresh_entry a bs ez nn hl li t v) = replicate (if bs < ez then ez div bs else 1) new_beatStatus"
  by (simp_all add: fresh_entry_def)

lemma fresh_entry_inv:
  assumes "0 < bs" and "0 < ez" and "16 dvd ez" and "length xs = ez"
  shows "entry_inv xs (fresh_entry a bs ez nn hl li t v)"
proof -
  have "\<not> replicate (ez div 16) False ! (k div 16)" if "k < ez" for k
    using that assms(3) by (auto elim!: dvdE)
  moreover have "\<exists>k < ez. i * bs \<le> k \<and> k < (i + 1) * bs" if "i < (if bs < ez then ez div bs else 1)" for i
  proof (intro exI conjI)
    show "i * bs < ez"
    proof (cases "bs < ez")
      case True
      then have "(i + 1) * bs \<le> ez div bs * bs" using that by (intro mult_le_mono1) simp
      then show ?thesis using assms(1) div_times_less_eq_dividend [of ez bs] unfolding add_mult_distrib by linarith
    qed (use that assms(2) in simp)
  qed (use assms(1) in simp_all)
  ultimately have "\<not> arrived (fresh_entry a bs ez nn hl li t v) i" if "i < (if bs < ez then ez div bs else 1)" for i
    using that unfolding arrived_def fresh_entry_def by fastforce
  then show ?thesis using assms
    by (auto simp: entry_inv_def re_geom_def new_beatStatus_def) (auto simp: fresh_entry_def elim!: dvdE)
qed

definition added :: "axi_id \<Rightarrow> RROBEntry \<Rightarrow> AxiListManager \<Rightarrow> AxiListManager" where
  "added a e m = m\<lparr> nextTag := nextTag m + 1, lists := (lists m)(a \<mapsto> list_of m a @ [(next_node m, e)]),
     next_node := next_node m + 1, tagToIterator := (tagToIterator m)(nextTag m \<mapsto> (a, next_node m)),
     tagToAxiID := (tagToAxiID m)(nextTag m \<mapsto> a), numEntries := numEntries m + 1 \<rparr>"

lemma addEntry_room:
  assumes "numEntries m = int k" and "k < m_max_entries m" and "m_max_entries m < 2 ^ 64" and "0 < bs"
  shows "addEntry a bs hl li v nn m =
    Inr (nextTag m, added a (fresh_entry a bs (m_entry_size m) nn hl li (uint (nextTag m)) v) m)"
  using assms by (simp add: addEntry_def new_RROBEntry_def added_def fresh_entry_def FLIT_SIZE_def Let_def)

lemma rrob_inv_room:
  "rrob_inv X m \<Longrightarrow> numEntries m = int (total_entries m) \<and> m_max_entries m < 2 ^ 64"
  by (simp add: rrob_inv_def)

lemma uint_tag_bounds: "0 \<le> uint (t :: Tag)" "uint (t :: Tag) < 256"
  using uint_lt2p [of t] by auto

lemma reserve_single:
  assumes inv: "rrob_inv X m" and room: "can_reserve 1 m"
    and bs: "0 < bs" "bs \<le> 64" "li < m_entry_size m div bs" "li < 256" and xs: "length xs = m_entry_size m"
  shows "\<exists>m'. addEntry a bs hl li v False m = Inr (nextTag m, m') \<and> rrob_inv (X(next_node m := xs)) m' \<and>
    (\<forall>b. unsent (X(next_node m := xs)) (list_of m' b) =
       unsent X (list_of m b) @ (if b = a then single_contents (nextTag m) bs hl li xs else []))"
proof -
  let ?t = "nextTag m" and ?n = "next_node m"
  define X1 where "X1 = X(?n := xs)"
  define e where "e = fresh_entry a bs (m_entry_size m) False hl li (uint ?t) v"
  define m' where "m' = added a e m"
  have ez: "0 < m_entry_size m" "16 dvd m_entry_size m" using inv by (auto simp: rrob_inv_def)
  have le: "(li + 1) * bs \<le> m_entry_size m"
    using bs(3) by (metis Suc_eq_plus1 Suc_leI div_times_less_eq_dividend le_trans mult_le_mono1)
  have li: "li < (if bs < m_entry_size m then m_entry_size m div bs else 1)"
  proof (cases "bs < m_entry_size m")
    case False
    then have "m_entry_size m = bs" using le by simp
    then show ?thesis using bs by simp
  qed (use bs in simp)
  have "single_ok e" using li le bs(2) by (auto simp: single_ok_def e_def new_beatStatus_def)
  then have ns: "nodes_inv X1 [(?n, e)]"
    using fresh_entry_inv [OF bs(1) ez xs] by (simp add: nodes_inv_def X1_def) (simp add: e_def)
  have node: "\<forall>x \<in> set [(?n, e)]. node_ok m' a x \<and> ?n \<le> fst x"
    using uint_tag_bounds [of ?t] bs(4) by (simp add: m'_def added_def node_ok_def e_def new_beatStatus_def)
  have fresh: "tagToIterator m ?t = None" "total_entries m + length [(?n, e)] \<le> m_max_entries m"
    using room by (simp_all add: can_reserve_def)
  have tags: "tagToIterator m' u = Some it" if "tagToIterator m u = Some it" for u it
    using that fresh(1) by (auto simp: m'_def added_def)
  have src: "tagToIterator m u = Some it \<or> (\<exists>x \<in> set [(?n, e)]. it = (a, fst x) \<and> re_tag (snd x) = uint u)"
    if "tagToIterator m' u = Some it" for u it
    using that by (auto simp: m'_def added_def e_def split: if_splits)
  have ids: "tagToAxiID m' = (\<lambda>t. map_option fst (tagToIterator m' t))"
    using inv by (auto simp: m'_def added_def rrob_inv_def tags_inv_def)
  have other: "lists m' = (lists m)(a \<mapsto> list_of m a @ [(?n, e)])" "[(?n, e)] \<noteq> []" "distinct (map fst [(?n, e)])"
    "\<forall>n < ?n. X1 n = X n" "?n \<le> next_node m'" "m_entry_size m' = m_entry_size m"
    "numEntries m' = numEntries m + int (length [(?n, e)])" "m_max_entries m' = m_max_entries m"
    by (simp_all add: m'_def added_def X1_def)
  note app = append_nodes_inv [OF inv other(1,2) ns node other(3-6) tags src ids other(7,8) fresh(2)]
  moreover have "unsent X1 [(?n, e)] = single_contents ?t bs hl li xs"
  proof -
    have "bs_sent (beat_statuses e ! i) = False" if "i \<le> li" for i
      using that li by (simp add: e_def new_beatStatus_def)
    then show ?thesis
      by (simp add: unsent_def expected_def exp_entry_def entry_beats_def entry_beat_def content_def
          single_contents_def filter_map comp_def X1_def cong: filter_cong del: upt_Suc) (simp add: e_def)
  qed
  moreover have "addEntry a bs hl li v False m = Inr (?t, m')"
    unfolding m'_def e_def using rrob_inv_room [OF inv] fresh(2) bs(1) by (intro addEntry_room) auto
  ultimately show ?thesis unfolding X1_def [symmetric] by (intro exI [of _ m']) auto
qed

text \<open>A beat of two entries: the first one is marked as needing the next.\<close>

lemma reserve_pair:
  assumes inv: "rrob_inv X m" and room: "can_reserve 2 m"
    and bs: "bs = 2 * m_entry_size m" "bs \<le> 64"
    and xs: "length xs = m_entry_size m" "length ys = m_entry_size m"
  shows "\<exists>m1 m'. addEntry a bs hl1 0 v True m = Inr (nextTag m, m1) \<and>
    addEntry a bs hl 0 v2 False m1 = Inr (nextTag m + 1, m') \<and>
    rrob_inv (X(next_node m := xs, next_node m + 1 := ys)) m' \<and>
    (\<forall>b. unsent (X(next_node m := xs, next_node m + 1 := ys)) (list_of m' b) =
       unsent X (list_of m b) @ (if b = a then [(uint (nextTag m), 0, xs @ ys, hl)] else []))"
proof -
  let ?t = "nextTag m" and ?n = "next_node m"
  define X1 where "X1 = X(?n := xs, ?n + 1 := ys)"
  define e where "e = fresh_entry a bs (m_entry_size m) True hl1 0 (uint ?t) v"
  define e2 where "e2 = fresh_entry a bs (m_entry_size m) False hl 0 (uint (?t + 1)) v2"
  define m1 where "m1 = added a e m"
  define m' where "m' = added a e2 m1"
  let ?ns = "[(?n, e), (?n + 1, e2)]"
  have ez: "0 < m_entry_size m" "16 dvd m_entry_size m" using inv by (auto simp: rrob_inv_def)
  then have bs0: "0 < bs" using bs(1) by simp
  have t: "?t + 1 \<noteq> ?t" by simp
  have "pair_ok e e2" using bs ez by (auto simp: pair_ok_def e_def e2_def new_beatStatus_def)
  moreover have "entry_inv xs e" "entry_inv ys e2" unfolding e_def e2_def by (rule fresh_entry_inv [OF bs0 ez], fact)+
  ultimately have ns: "nodes_inv X1 ?ns" by (simp add: nodes_inv_def X1_def pair_ok_def)
  have node: "\<forall>x \<in> set ?ns. node_ok m' a x \<and> ?n \<le> fst x"
    using uint_tag_bounds [of ?t] uint_tag_bounds [of "?t + 1"]
    by (simp add: m'_def m1_def added_def node_ok_def e_def e2_def new_beatStatus_def)
  have fresh: "tagToIterator m ?t = None" "tagToIterator m (?t + 1) = None"
      "total_entries m + length ?ns \<le> m_max_entries m"
  proof -
    have "\<forall>i < 2. tagToIterator m (?t + of_nat i) = None" using room by (simp add: can_reserve_def)
    from this [rule_format, of 0] this [rule_format, of 1]
    show "tagToIterator m ?t = None" "tagToIterator m (?t + 1) = None" by simp_all
  qed (use room in \<open>simp add: can_reserve_def\<close>)
  have tags: "tagToIterator m' u = Some it" if "tagToIterator m u = Some it" for u it
    using that fresh(1,2) by (auto simp: m'_def m1_def added_def)
  have src: "tagToIterator m u = Some it \<or> (\<exists>x \<in> set ?ns. it = (a, fst x) \<and> re_tag (snd x) = uint u)"
    if "tagToIterator m' u = Some it" for u it
    using that by (auto simp: m'_def m1_def added_def e_def e2_def split: if_splits)
  have ids: "tagToAxiID m' = (\<lambda>t. map_option fst (tagToIterator m' t))"
    using inv by (auto simp: m'_def m1_def added_def rrob_inv_def tags_inv_def)
  have other: "lists m' = (lists m)(a \<mapsto> list_of m a @ ?ns)" "?ns \<noteq> []" "distinct (map fst ?ns)"
    "\<forall>n < ?n. X1 n = X n" "?n \<le> next_node m'" "m_entry_size m' = m_entry_size m"
    "numEntries m' = numEntries m + int (length ?ns)" "m_max_entries m' = m_max_entries m"
    by (simp_all add: m'_def m1_def added_def X1_def list_of_def)
  note app = append_nodes_inv [OF inv other(1,2) ns node other(3-6) tags src ids other(7,8) fresh(3)]
  moreover have "unsent X1 ?ns = [(uint ?t, 0, xs @ ys, hl)]"
    using bs ez by (simp add: unsent_def expected_def exp_entry_def pair_beat_def content_def X1_def e_def e2_def new_beatStatus_def)
  moreover have "addEntry a bs hl1 0 v True m = Inr (?t, m1)"
    unfolding m1_def e_def using rrob_inv_room [OF inv] fresh(3) bs0 by (intro addEntry_room) auto
  moreover have "addEntry a bs hl 0 v2 False m1 = Inr (?t + 1, m')"
    using addEntry_room [of m1 "total_entries m + 1" bs a hl 0 v2 False] rrob_inv_room [OF inv] fresh(3) bs0
    unfolding m'_def by (simp add: m1_def e2_def) (simp add: added_def)
  ultimately show ?thesis unfolding X1_def [symmetric] by (intro exI [of _ m1] exI [of _ m'] conjI) auto
qed

section \<open>Changing one list in place\<close>

lemma only_valid_refl [simp]: "only_valid e e"
  by (simp add: only_valid_def)

lemma list_ok_only_valid:
  "list_ok (map snd l) \<Longrightarrow> nodes_rel only_valid l l' \<Longrightarrow> list_ok (map snd l')"
proof (induction "map snd l" arbitrary: l l' rule: list_ok.induct)
  case (2 e es)
  then obtain x rest y rest' where l: "l = x # rest" "e = snd x" "es = map snd rest"
      "l' = y # rest'" "only_valid (snd x) (snd y)" "nodes_rel only_valid rest rest'"
    by (cases l) auto
  show ?case
  proof (cases "need_next_entry e")
    case False
    then show ?thesis using l 2 by (auto simp: only_valid_def single_ok_def)
  next
    case True
    then obtain x2 rest2 y2 rest2' where r: "rest = x2 # rest2" "rest' = y2 # rest2'"
        "only_valid (snd x2) (snd y2)" "nodes_rel only_valid rest2 rest2'" "pair_ok (snd x) (snd x2)"
        "list_ok (map snd rest2)"
      using 2 l by (cases rest) auto
    have "pair_ok (snd y) (snd y2)" using r(3,5) l(5) by (auto simp: only_valid_def pair_ok_def)
    then show ?thesis using l r True "2.hyps"(1) [OF True] by (auto simp: only_valid_def)
  qed
qed simp

lemma sent_only_valid:
  assumes "list_ok (map snd l)" and "nodes_rel only_valid l l'"
  shows "map rb_sent (list_beats (map snd l)) = map rb_sent (list_beats (map snd l'))"
proof -
  have R: "list_all2 only_valid (map snd l) (map snd l')"
    using assms(2) by (auto simp: nodes_rel_def list_all2_conv_all_nth)
  have "list_all2 (\<lambda>b b'. rb_sent b = rb_sent b') (list_beats (map snd l)) (list_beats (map snd l'))"
  proof (rule list_beats_rel [OF _ _ _ assms(1) R])
    fix e e' assume "only_valid e e'" "single_ok e"
    then show "list_all2 (\<lambda>b b'. rb_sent b = rb_sent b') (entry_beats e) (entry_beats e')"
      by (intro entry_beats_rel) (auto simp: only_valid_def single_ok_def entry_beat_def)
  qed (auto simp: only_valid_def pair_beat_def pair_ok_def)
  then show ?thesis by (simp add: map_eq_list_all2)
qed

lemma unsent_only_valid:
  assumes "nodes_inv X l" and "nodes_rel only_valid l l'" and "\<forall>x \<in> set l'. entry_inv (X (fst x)) (snd x)"
  shows "nodes_inv X l'" and "unsent X l' = unsent X l"
proof -
  have ok: "list_ok (map snd l)" "\<forall>x \<in> set l. entry_inv (X (fst x)) (snd x)" using assms(1) by (auto simp: nodes_inv_def)
  show inv': "nodes_inv X l'" using list_ok_only_valid [OF ok(1) assms(2)] assms(3) by (simp add: nodes_inv_def)
  have "map rb_sent (expected X l') = map rb_sent (expected X l)"
    using agree_flags [OF expected_agree [OF ok]] agree_flags [OF expected_agree [of l' X]] inv'
      sent_only_valid [OF ok(1) assms(2)] by (simp add: nodes_inv_def)
  moreover have "nodes_rel same_shape l l'" using assms(2) only_valid_shape by (rule nodes_rel_mono)
  then have "map content (expected X l') = map content (expected X l)"
    by (rule contents_shape [OF expected_ok [OF ok]])
  ultimately show "unsent X l' = unsent X l" unfolding unsent_def by (intro unsent_cong)
qed

lemma change_list_inv:
  assumes inv: "rrob_inv X m" and l': "nodes_inv X l'" "map fst l' = map fst (list_of m a)" "list_of m a \<noteq> []"
    and node: "\<And>n e e'. (n, e) \<in> set (list_of m a) \<Longrightarrow> (n, e') \<in> set l' \<Longrightarrow> same_shape e e' \<and> entry_size e' = entry_size e \<and>
      (\<forall>i < length (beat_statuses e'). bs_read (beat_statuses e' ! i) \<longrightarrow> bs_sent (beat_statuses e' ! i))"
  shows "rrob_inv X (m\<lparr> lists := (lists m)(a \<mapsto> l') \<rparr>)"
proof -
  let ?m = "m\<lparr> lists := (lists m)(a \<mapsto> l') \<rparr>"
  have old: "nodes_inv X (list_of m b)" "distinct (map fst (list_of m b))" "lists m b \<noteq> Some []"
    "x \<in> set (list_of m b) \<Longrightarrow> node_ok m b x" for b x
    using inv by (auto simp: rrob_inv_def lists_inv_def)
  have len: "length l' = length (list_of m a)" using l'(2) by (metis length_map)
  have find: "\<exists>e. (n, e) \<in> set (list_of m a)" if "(n, e') \<in> set l'" for n e'
  proof -
    have "n \<in> set (map fst l')" using that by force
    then show ?thesis using l'(2) by auto
  qed
  have "node_ok ?m a x" if x: "x \<in> set l'" for x
  proof -
    obtain n e' where [simp]: "x = (n, e')" by (cases x)
    obtain e where e: "(n, e) \<in> set (list_of m a)" using find x by auto
    show ?thesis using old(4) [OF e] node [OF e, of e'] x by (auto simp: node_ok_def same_shape_def)
  qed
  moreover have "node_ok ?m b x" if "x \<in> set (list_of m b)" for x b
    using old(4) [OF that] by (simp add: node_ok_def)
  ultimately have "lists_inv X ?m"
    unfolding lists_inv_def list_of_upd using old l' by (auto simp del: list_of_upd)
  moreover have "tags_inv ?m"
  proof -
    have "\<exists>e'. (n, e') \<in> set l' \<and> re_tag e' = uint t" if e: "(n, e) \<in> set (list_of m a)" "re_tag e = uint t" for n e t
    proof -
      have "n \<in> set (map fst l')" using e(1) l'(2) by force
      then obtain e' where "(n, e') \<in> set l'" by auto
      with node [OF e(1) this] e(2) show ?thesis by (auto simp: same_shape_def)
    qed
    then show ?thesis using inv by (fastforce simp: rrob_inv_def tags_inv_def)
  qed
  moreover have "total_entries ?m = total_entries m" using total_change [of ?m m a l'] len by simp
  ultimately show ?thesis using inv by (simp add: rrob_inv_def)
qed

section \<open>Arriving flits and generation\<close>

lemma set_node_rel:
  "distinct (map fst l) \<Longrightarrow> (n, e) \<in> set l \<Longrightarrow> R e e' \<Longrightarrow> (\<And>x. R x x) \<Longrightarrow> nodes_rel R l (set_node n e' l)"
proof (induction l)
  case (Cons x l)
  show ?case
  proof (cases "fst x = n")
    case True
    then have "n \<notin> fst ` set l" using Cons.prems(1) by auto
    moreover have "x = (n, e)" using Cons.prems(2) calculation by (metis fst_conv image_eqI set_ConsD)
    ultimately have "n \<notin> fst ` set l" "x = (n, e)" by simp_all
    then have "set_node n e' l = l" by (force simp: set_node_def intro: map_idI)
    then show ?thesis using \<open>x = (n, e)\<close> Cons.prems(3,4)
      by (simp add: set_node_def) (simp add: nodes_rel_def list_all2_same)
  next
    case False
    then show ?thesis using Cons by (auto simp: set_node_def)
  qed
qed simp

lemma node_facts:
  assumes "rrob_inv X m" and "(n, e) \<in> set (list_of m a)"
  shows "entry_inv (X n) e" "node_ok m a (n, e)"
  using assms unfolding rrob_inv_def lists_inv_def nodes_inv_def by (metis fst_conv snd_conv)+

lemma deref_node:
  "rrob_inv X m \<Longrightarrow> (n, e) \<in> set (list_of m a) \<Longrightarrow> deref m (a, n) = Inr e"
  by (simp add: deref_def rrob_inv_def lists_inv_def)

lemma store_inv:
  assumes inv: "rrob_inv X m" and e: "(n, e) \<in> set (list_of m a)"
    and e': "only_valid e e'" "entry_inv (X n) e'"
  shows "rrob_inv X (store (a, n) e' m)" and "unsent X (list_of (store (a, n) e' m) b) = unsent X (list_of m b)"
    and "list_of (store (a, n) e' m) = (list_of m)(a := set_node n e' (list_of m a))"
proof -
  let ?l = "list_of m a" and ?l' = "set_node n e' (list_of m a)"
  have old: "nodes_inv X ?l" "distinct (map fst ?l)" "x \<in> set ?l \<Longrightarrow> node_ok m a x" for x
    using inv by (auto simp: rrob_inv_def lists_inv_def)
  have rel: "nodes_rel only_valid ?l ?l'" using set_node_rel [OF old(2) e, of only_valid e'] e'(1) by simp
  have "\<forall>x \<in> set ?l'. entry_inv (X (fst x)) (snd x)"
    using old(1) e'(2) by (auto simp: set_node_def nodes_inv_def)
  note un = unsent_only_valid [OF old(1) rel this]
  have fst: "map fst ?l' = map fst ?l" by (auto simp: set_node_def)
  have "same_shape f f' \<and> entry_size f' = entry_size f \<and>
      (\<forall>i < length (beat_statuses f'). bs_read (beat_statuses f' ! i) \<longrightarrow> bs_sent (beat_statuses f' ! i))"
    if f: "(k, f) \<in> set ?l" "(k, f') \<in> set ?l'" for k f f'
  proof -
    have "only_valid f f'"
    proof (cases "k = n")
      case True
      then have "f = e" "f' = e'" using f e eq_key_imp_eq_value [OF old(2)] by (auto simp: set_node_def split: if_splits)
      with e'(1) show ?thesis by simp
    next
      case False
      then have "(k, f') \<in> set ?l" using f(2) by (auto simp: set_node_def split: if_splits)
      then show ?thesis using eq_key_imp_eq_value [OF old(2) f(1)] by auto
    qed
    then show ?thesis using old(3) [OF f(1)] by (auto simp: only_valid_def same_shape_def node_ok_def)
  qed
  then have "rrob_inv X (m\<lparr> lists := (lists m)(a \<mapsto> ?l') \<rparr>)"
    using e by (intro change_list_inv [OF inv un(1) fst]) auto
  then show "rrob_inv X (store (a, n) e' m)" by (simp add: store_def)
  show "list_of (store (a, n) e' m) = (list_of m)(a := ?l')" by (simp add: store_def)
  then show "unsent X (list_of (store (a, n) e' m) b) = unsent X (list_of m b)" using un(2) by simp
qed

lemma flit_step:
  assumes inv: "rrob_inv X m" and t: "tagToIterator m t = Some (a, n)" "(n, e) \<in> set (list_of m a)"
    and f: "f < length (flit_written e)" "\<not> flit_written e ! f"
  shows "\<exists>m'. writeFlitEntry t (take 16 (drop (16 * f) (X n))) (int f) m = Inr m' \<and> rrob_inv X m' \<and>
    (\<forall>b. unsent X (list_of m' b) = unsent X (list_of m b))"
proof -
  note nf = node_facts [OF inv t(2)]
  have "entry_size e < 65536" using nf(2) inv by (simp add: node_ok_def rrob_inv_def)
  then obtain e' where e': "write_flit (take 16 (drop (16 * f) (X n))) (int f) e = Inr e'"
    "entry_inv (X n) e'" "only_valid e e'"
    using write_flit_inv [OF nf(1) f] by blast
  then show ?thesis using store_inv [OF inv t(2) e'(3,2)] t(1) deref_node [OF inv t(2)]
    by (simp add: writeFlitEntry_def)
qed

text \<open>What the endpoint reads from a message.\<close>

definition msg_content :: "NocMemoryMsg \<Rightarrow> content" where
  "msg_content msg = (int (mm_axi_rrob_tag msg), mm_axi_beat_id msg,
     (case mm_pload msg of PlAximm (d # _) \<Rightarrow> take (mm_beat_size msg) (d_data d) | _ \<Rightarrow> []),
     (case mm_pload msg of PlAximm (d # _) \<Rightarrow> d_last d | _ \<Rightarrow> False))"

definition beat_fits :: "rbeat \<Rightarrow> bool" where
  "beat_fits b \<longleftrightarrow> 0 \<le> rb_tag b \<and> rb_tag b < 256 \<and> rb_idx b < 256 \<and> length (rb_data b) = rb_size b \<and> rb_size b \<le> 64"

lemma msg_content_beat: "beat_fits b \<Longrightarrow> msg_content (beat_message raw a b) = content b"
  by (simp add: msg_content_def beat_message_def new_NocMemoryMsg_def content_def beat_fits_def copy_at_def)

lemma list_beats_fit:
  "list_ok es \<Longrightarrow> \<forall>e \<in> set es. 0 \<le> re_tag e \<and> re_tag e < 256 \<and> last_beat_idx e < 256 \<Longrightarrow>
    b \<in> set (list_beats es) \<Longrightarrow> beat_fits b"
proof (induction es rule: list_ok.induct)
  case (2 e es)
  show ?case
  proof (cases "need_next_entry e")
    case False
    have "beat_fits (entry_beat e i)" if "i \<le> last_beat_idx e" "single_ok e" for i
    proof -
      have "i * re_beat_size e + re_beat_size e \<le> (last_beat_idx e + 1) * re_beat_size e"
        using that(1) mult_le_mono1 [of "i + 1" "last_beat_idx e + 1" "re_beat_size e"] by (simp add: algebra_simps)
      then have "i * re_beat_size e + re_beat_size e \<le> length (re_data e)"
        using that(2) unfolding single_ok_def by linarith
      then show ?thesis using 2 that by (auto simp: beat_fits_def entry_beat_def single_ok_def)
    qed
    then show ?thesis using 2 False by (auto simp: entry_beats_def less_Suc_eq_le simp del: upt_Suc)
  next
    case True
    then obtain e2 es' where "es = e2 # es'" "pair_ok e e2" using 2 by (cases es) auto
    moreover have "beat_fits (pair_beat e e2)"
      using calculation 2 by (auto simp: beat_fits_def pair_beat_def pair_ok_def)
    ultimately show ?thesis using 2 True by auto
  qed
qed simp

lemma beats_fit: "rrob_inv X m \<Longrightarrow> b \<in> set (list_beats (map snd (list_of m a))) \<Longrightarrow> beat_fits b"
  by (rule list_beats_fit) (auto simp: rrob_inv_def lists_inv_def nodes_inv_def node_ok_def)

lemma gen_step:
  assumes inv: "rrob_inv X m" and a: "list_of m a \<noteq> []"
  shows "\<exists>ms m'. generateAxiReadPayloads raw a m = Inr (ms, m') \<and> rrob_inv X m' \<and>
    unsent X (list_of m a) = map msg_content ms @ unsent X (list_of m' a) \<and>
    (\<forall>b. b \<noteq> a \<longrightarrow> list_of m' b = list_of m b) \<and> nodes_rel only_sent (list_of m a) (list_of m' a) \<and>
    (all_valid (list_beats (map snd (list_of m a))) \<longrightarrow> unsent X (list_of m' a) = [])"
proof -
  let ?l = "list_of m a"
  have old: "nodes_inv X ?l" "distinct (map fst ?l)" "\<And>x. x \<in> set ?l \<Longrightarrow> node_ok m a x"
    using inv by (auto simp: rrob_inv_def lists_inv_def)
  obtain l' bs where l': "gen_list raw a ?l = Inr (l', map (beat_message raw a) bs)" "nodes_rel only_sent ?l l'"
      "nodes_inv X l'" "unsent X ?l = map content bs @ unsent X l'"
      "\<forall>b \<in> set bs. b \<in> set (list_beats (map snd ?l))" "all_valid (list_beats (map snd ?l)) \<longrightarrow> unsent X l' = []"
    using generate_unsent [OF old(1)] by blast
  have fst: "map fst l' = map fst ?l"
    using l'(2) by (auto simp: nodes_rel_def list_all2_conv_all_nth list_eq_iff_nth_eq)
  have "same_shape f f' \<and> entry_size f' = entry_size f \<and>
      (\<forall>i < length (beat_statuses f'). bs_read (beat_statuses f' ! i) \<longrightarrow> bs_sent (beat_statuses f' ! i))"
    if f: "(k, f) \<in> set ?l" "(k, f') \<in> set l'" for k f f'
  proof -
    obtain i where i: "i < length l'" "l' ! i = (k, f')" using f(2) by (auto simp: in_set_conv_nth)
    then have "fst (?l ! i) = k" "only_sent (snd (?l ! i)) f'" "i < length ?l"
      using l'(2) by (auto simp: nodes_rel_def list_all2_conv_all_nth)
    then have "(k, snd (?l ! i)) \<in> set ?l" by (metis nth_mem prod.collapse)
    then have "snd (?l ! i) = f" using eq_key_imp_eq_value [OF old(2) f(1)] by simp
    with \<open>only_sent (snd (?l ! i)) f'\<close> have "only_sent f f'" by simp
    then show ?thesis using old(3) [OF f(1)] only_sentD [OF \<open>only_sent f f'\<close>] only_sent_shape
      by (auto simp: node_ok_def)
  qed
  then have "rrob_inv X (m\<lparr> lists := (lists m)(a \<mapsto> l') \<rparr>)"
    using a by (intro change_list_inv [OF inv l'(3) fst]) auto
  moreover have "generateAxiReadPayloads raw a m =
      Inr (map (beat_message raw a) bs, m\<lparr> lists := (lists m)(a \<mapsto> l') \<rparr>)"
    using l'(1) list_of_Some [OF inv, of a] a by (simp add: generateAxiReadPayloads_def)
  moreover have "map msg_content (map (beat_message raw a) bs) = map content bs"
    using l'(5) beats_fit [OF inv] msg_content_beat by auto
  ultimately show ?thesis using l'(2,4,6) by (intro exI conjI) auto
qed

section \<open>Retirement\<close>

definition tag_of :: "node \<Rightarrow> Tag" where
  "tag_of x = of_int (re_tag (snd x))"

lemma node_tag:
  assumes "rrob_inv X m" and "x \<in> set (list_of m a)"
  shows "tagToIterator m (tag_of x) = Some (a, fst x)" "tagToAxiID m (tag_of x) = Some a"
    "uint (tag_of x) = re_tag (snd x)"
proof -
  have n: "node_ok m a x" using assms by (auto simp: rrob_inv_def lists_inv_def)
  then show "tagToIterator m (tag_of x) = Some (a, fst x)" by (simp add: node_ok_def tag_of_def)
  then show "tagToAxiID m (tag_of x) = Some a" using assms(1) by (simp add: rrob_inv_def tags_inv_def)
  show "uint (tag_of x) = re_tag (snd x)" using n by (simp add: node_ok_def tag_of_def uint_word_of_int_eq take_bit_int_eq_self_iff)
qed

lemma tag_of_unique:
  assumes "rrob_inv X m" and "x \<in> set (list_of m a)" and "y \<in> set (list_of m b)" and "tag_of x = tag_of y"
  shows "a = b" "x = y"
proof -
  have "(a, fst x) = (b, fst y)" using node_tag(1) [OF assms(1,2)] node_tag(1) [OF assms(1,3)] assms(4) by simp
  moreover have "distinct (map fst (list_of m a))" using assms(1) by (simp add: rrob_inv_def lists_inv_def)
  note key = eq_key_imp_eq_value [OF this]
  ultimately show "a = b" "x = y" using assms(2,3) by (cases x; cases y; auto intro: key)+
qed

lemma remove_nodes_inv:
  assumes inv: "rrob_inv X m" and l: "list_of m a = xs @ zs @ ys" and ok: "nodes_inv X xs" "nodes_inv X zs"
    and lists: "list_of m' = (list_of m)(a := xs @ ys)" "\<And>b. lists m' b \<noteq> Some []"
    and tags: "tagToIterator m' = (\<lambda>t. if t \<in> tag_of ` set zs then None else tagToIterator m t)"
      "tagToAxiID m' = (\<lambda>t. map_option fst (tagToIterator m' t))"
    and frame: "numEntries m' = numEntries m - int (length zs)" "m_max_entries m' = m_max_entries m"
      "m_entry_size m' = m_entry_size m" "next_node m' = next_node m"
  shows "rrob_inv X m'"
proof -
  have old: "nodes_inv X (list_of m b)" "distinct (map fst (list_of m b))"
    "x \<in> set (list_of m b) \<Longrightarrow> node_ok m b x" for b x
    using inv by (auto simp: rrob_inv_def lists_inv_def)
  have ys: "nodes_inv X (xs @ ys)" using old(1) [of a] ok unfolding l by (simp add: nodes_inv_append)
  have dist: "distinct (map fst (xs @ ys))" "\<forall>x \<in> set (xs @ ys). x \<notin> set zs"
    using old(2) [of a] unfolding l by auto
  have sub: "x \<in> set (list_of m b) \<and> x \<notin> set zs" if "x \<in> set (list_of m' b)" for x b
  proof (cases "b = a")
    case True
    then show ?thesis using that lists(1) l dist(2) by auto
  next
    case False
    then have x: "x \<in> set (list_of m b)" using that lists(1) by simp
    then show ?thesis using tag_of_unique(1) [OF inv x, of x a] False l by auto
  qed
  have kept: "tagToIterator m' (tag_of x) = tagToIterator m (tag_of x)" if "x \<in> set (list_of m' b)" for x b
  proof -
    have "tag_of x \<noteq> tag_of z" if "z \<in> set zs" for z
      using tag_of_unique(2) [OF inv, of x b z a] sub [OF \<open>x \<in> set (list_of m' b)\<close>] that l by auto
    then show ?thesis by (auto simp: tags(1))
  qed
  have "node_ok m' b x" if "x \<in> set (list_of m' b)" for x b
    using old(3) [of x b] sub [OF that] kept [OF that] frame(3,4) by (auto simp: node_ok_def tag_of_def)
  then have "lists_inv X m'"
    unfolding lists_inv_def lists(1) using ys dist(1) old(1,2) lists(2) by (auto simp: lists(1))
  moreover have "\<exists>e. (n, e) \<in> set (list_of m' b) \<and> re_tag e = uint t" if t: "tagToIterator m' t = Some (b, n)" for t b n
  proof -
    have t': "t \<notin> tag_of ` set zs" "tagToIterator m t = Some (b, n)" using t by (auto simp: tags(1) split: if_splits)
    then obtain e where e: "(n, e) \<in> set (list_of m b)" "re_tag e = uint t"
      using inv unfolding rrob_inv_def tags_inv_def by blast
    then have "tag_of (n, e) = t" by (simp add: tag_of_def)
    then have "(n, e) \<notin> set zs" using t'(1) by auto
    then have "(n, e) \<in> set (list_of m' b)" using e(1) lists(1) l by (cases "b = a") auto
    with e(2) show ?thesis by blast
  qed
  then have "tags_inv m'" unfolding tags_inv_def using tags(2) by blast
  moreover have "total_entries m' + length zs = total_entries m" using total_change [OF lists(1)] l by simp
  ultimately show ?thesis using inv frame by (simp add: rrob_inv_def)
qed

lemma locate_beat:
  "list_ok (map snd l) \<Longrightarrow> b \<in> set (list_beats (map snd l)) \<Longrightarrow>
    \<exists>xs zs ys x. l = xs @ zs @ ys \<and> list_ok (map snd xs) \<and> list_ok (map snd zs) \<and> list_ok (map snd ys) \<and>
      b \<in> set (list_beats (map snd zs)) \<and>
      (zs = [x] \<and> single_ok (snd x) \<or> (\<exists>y. zs = [x, y] \<and> pair_ok (snd x) (snd y)))"
proof (induction "map snd l" arbitrary: l rule: list_ok.induct)
  case (2 e es)
  then obtain x rest where l: "l = x # rest" "e = snd x" "es = map snd rest" by (cases l) auto
  define zs where "zs = (if need_next_entry e then take 2 l else [x])"
  define tl' where "tl' = (if need_next_entry e then drop 1 rest else rest)"
  have split: "l = zs @ tl'" "list_ok (map snd zs)" "list_ok (map snd tl')"
    "zs = [x] \<and> single_ok (snd x) \<or> (\<exists>y. zs = [x, y] \<and> pair_ok (snd x) (snd y))"
    using 2 l by (cases rest; auto simp: zs_def tl'_def pair_ok_def split: if_splits)+
  show ?case
  proof (cases "b \<in> set (list_beats (map snd zs))")
    case True
    then show ?thesis using split by (intro exI [of _ "[]"] exI [of _ zs] exI [of _ tl'] exI [of _ x]) auto
  next
    case False
    then have "b \<in> set (list_beats (map snd tl'))"
      using "2.prems"(2) list_beats_append [OF split(2), of "map snd tl'"] split(1) by (metis map_append set_append UnE)
    moreover have "list_ok (map snd tl') \<Longrightarrow> b \<in> set (list_beats (map snd tl')) \<Longrightarrow>
        \<exists>xs zs ys x. tl' = xs @ zs @ ys \<and> list_ok (map snd xs) \<and> list_ok (map snd zs) \<and> list_ok (map snd ys) \<and>
          b \<in> set (list_beats (map snd zs)) \<and>
          (zs = [x] \<and> single_ok (snd x) \<or> (\<exists>y. zs = [x, y] \<and> pair_ok (snd x) (snd y)))"
      using 2 l by (cases "need_next_entry e"; cases rest) (auto simp: tl'_def)
    ultimately obtain xs zs' ys z where r: "tl' = xs @ zs' @ ys" "list_ok (map snd xs)" "list_ok (map snd zs')"
        "list_ok (map snd ys)" "b \<in> set (list_beats (map snd zs'))"
        "zs' = [z] \<and> single_ok (snd z) \<or> (\<exists>y. zs' = [z, y] \<and> pair_ok (snd z) (snd y))"
      using split(3) by blast
    have "list_ok (map snd (zs @ xs))" using r(2) split(2) by (simp add: list_ok_append)
    then show ?thesis using r split(1) by (intro exI [of _ "zs @ xs"] exI [of _ zs'] exI [of _ ys] exI [of _ z]) auto
  qed
qed simp

lemma erase_middle:
  assumes "distinct (map fst (xs @ x # ys))"
  shows "erase_node (fst x) (xs @ x # ys) = xs @ ys"
proof -
  have "\<forall>z \<in> set xs. fst z \<noteq> fst x" "\<forall>z \<in> set ys. fst z \<noteq> fst x" using assms by (auto simp: image_iff)
  then show ?thesis by (simp add: erase_node_def)
qed

lemma find_unique: "(\<And>t. P t \<longleftrightarrow> t = u) \<Longrightarrow> u \<in> set l \<Longrightarrow> find P l = Some u"
  by (induction l) auto

lemma next_of_middle:
  assumes "distinct (map fst (xs @ x # ys))"
  shows "next_of (fst x) (xs @ x # ys) = (case ys of y # _ \<Rightarrow> Some y | [] \<Rightarrow> None)"
proof -
  have "\<forall>z \<in> set xs. fst z \<noteq> fst x" using assms by (auto simp: image_iff)
  then have "dropWhile (\<lambda>z. fst z \<noteq> fst x) (xs @ x # ys) = x # ys" by (simp add: dropWhile_append2)
  then show ?thesis by (simp add: next_of_def)
qed

text \<open>The last part of a removal: the tag, the node, and the list when it became empty.\<close>

definition removed :: "axi_id \<Rightarrow> Tag \<Rightarrow> nat \<Rightarrow> AxiListManager \<Rightarrow> AxiListManager" where
  "removed a t n m = (let m2 = erase_tag t (erase_at (a, n) m) in
     if list_of m2 a = [] then m2\<lparr> lists := (lists m2)(a := None) \<rparr> else m2)"

lemma removed_facts:
  assumes "list_of m a = xs @ x # ys" and "distinct (map fst (xs @ x # ys))" and "\<forall>b. b \<noteq> a \<longrightarrow> lists m b \<noteq> Some []"
  shows "list_of (removed a t (fst x) m) = (list_of m)(a := xs @ ys)"
    "lists (removed a t (fst x) m) b \<noteq> Some []"
    "tagToIterator (removed a t (fst x) m) = (tagToIterator m)(t := None)"
    "tagToAxiID (removed a t (fst x) m) = (tagToAxiID m)(t := None)"
    "numEntries (removed a t (fst x) m) = numEntries m - 1"
    "m_max_entries (removed a t (fst x) m) = m_max_entries m" "m_entry_size (removed a t (fst x) m) = m_entry_size m"
    "next_node (removed a t (fst x) m) = next_node m"
proof -
  have l: "list_of (erase_tag t (erase_at (a, fst x) m)) = (list_of m)(a := xs @ ys)"
    using erase_middle [OF assms(2)] assms(1) by (auto simp: erase_tag_def erase_at_def list_of_def fun_eq_iff)
  have ls: "lists (erase_tag t (erase_at (a, fst x) m)) = (lists m)(a \<mapsto> xs @ ys)"
    using erase_middle [OF assms(2)] assms(1) by (simp add: erase_tag_def erase_at_def)
  show "list_of (removed a t (fst x) m) = (list_of m)(a := xs @ ys)"
    using l list_of_upd(2) [of "erase_tag t (erase_at (a, fst x) m)" a] unfolding removed_def Let_def
    by (cases "xs @ ys = []") (simp_all only: if_True if_False fun_upd_same fun_upd_upd simp_thms)
  show "lists (removed a t (fst x) m) b \<noteq> Some []"
    using l ls assms(3) by (auto simp: removed_def Let_def)
qed (auto simp: removed_def Let_def erase_tag_def erase_at_def)

lemma remove_single:
  assumes inv: "rrob_inv X m" and l: "list_of m a = xs @ x # ys" and ok: "nodes_inv X xs" "nodes_inv X [x]"
    and "\<not> need_next_entry (snd x)"
  shows "\<exists>m'. removeEntry a (tag_of x) m = Inr m' \<and> rrob_inv X m' \<and> list_of m' = (list_of m)(a := xs @ ys)"
proof -
  have x: "x \<in> set (list_of m a)" using l by simp
  have dist: "distinct (map fst (xs @ x # ys))" "\<forall>b. b \<noteq> a \<longrightarrow> lists m b \<noteq> Some []"
    using inv l unfolding rrob_inv_def lists_inv_def by metis+
  note tag = node_tag [OF inv x]
  have "deref m (a, fst x) = Inr (snd x)" using deref_node [OF inv, of "fst x" "snd x" a] x by simp
  then have r: "removeEntry a (tag_of x) m = Inr (removed a (tag_of x) (fst x) m)"
    using tag assms(5) by (simp add: removeEntry_def removed_def Let_def)
  note rf = removed_facts [OF l dist, where t = "tag_of x"]
  have "rrob_inv X (removed a (tag_of x) (fst x) m)"
  proof (rule remove_nodes_inv [OF inv _ ok(1,2)])
    show "list_of m a = xs @ [x] @ ys" using l by simp
    show "tagToAxiID (removed a (tag_of x) (fst x) m) =
        (\<lambda>t. map_option fst (tagToIterator (removed a (tag_of x) (fst x) m) t))"
      using inv unfolding rf(3,4) by (auto simp: rrob_inv_def tags_inv_def)
  qed (use rf in auto)
  with r rf(1) show ?thesis by blast
qed

lemma remove_pair:
  assumes inv: "rrob_inv X m" and l: "list_of m a = xs @ x # y # ys" and ok: "nodes_inv X xs" "nodes_inv X [x, y]"
    and "need_next_entry (snd x)"
  shows "\<exists>m'. removeEntry a (tag_of x) m = Inr m' \<and> rrob_inv X m' \<and> list_of m' = (list_of m)(a := xs @ ys)"
proof -
  have x: "x \<in> set (list_of m a)" and y: "y \<in> set (list_of m a)" using l by simp_all
  have dist: "distinct (map fst (xs @ x # y # ys))" "\<forall>b. lists m b \<noteq> Some []"
    using inv l unfolding rrob_inv_def lists_inv_def by metis+
  note tag = node_tag [OF inv x] node_tag [OF inv y]
  have deref: "deref m (a, fst x) = Inr (snd x)" using deref_node [OF inv, of "fst x" "snd x" a] x by simp
  have uniq: "t = tag_of y" if "tagToIterator m t = Some (a, fst y)" for t
  proof -
    obtain e where "(fst y, e) \<in> set (list_of m a)" "re_tag e = uint t"
      using inv \<open>tagToIterator m t = Some (a, fst y)\<close> unfolding rrob_inv_def tags_inv_def by blast
    moreover from this have "e = snd y"
      using eq_key_imp_eq_value [of "list_of m a" "fst y" e "snd y"] y dist(1) l by auto
    ultimately show ?thesis by (simp add: tag_of_def)
  qed
  have found: "find (\<lambda>t. tagToIterator m t = Some (a, fst y)) sorted_ids = Some (tag_of y)"
  proof (rule find_unique)
    show "tagToIterator m t = Some (a, fst y) \<longleftrightarrow> t = tag_of y" for t using uniq tag(4) by blast
  qed simp
  let ?m1 = "erase_at (a, fst y) (erase_tag (tag_of y) m)"
  have nxt: "next_of (fst x) (xs @ x # y # ys) = Some y" using next_of_middle [OF dist(1)] by simp
  have m1: "remove_partner (a, fst x) m = Inr ?m1" using nxt l found by (simp add: remove_partner_def)
  have yd: "distinct (map fst ((xs @ [x]) @ y # ys))" using dist(1) by simp
  have l1: "list_of ?m1 = (list_of m)(a := xs @ x # ys)" "\<forall>b. b \<noteq> a \<longrightarrow> lists ?m1 b \<noteq> Some []"
    using erase_middle [OF yd] l dist(2) by (simp_all add: erase_at_def erase_tag_def list_of_lists)
  then have l1a: "list_of ?m1 a = xs @ x # ys" by simp
  have m1f: "tagToIterator ?m1 = (tagToIterator m)(tag_of y := None)" "tagToAxiID ?m1 = (tagToAxiID m)(tag_of y := None)"
    "numEntries ?m1 = numEntries m - 1" "m_max_entries ?m1 = m_max_entries m" "m_entry_size ?m1 = m_entry_size m"
    "next_node ?m1 = next_node m" by (simp_all add: erase_at_def erase_tag_def)
  have d1: "distinct (map fst (xs @ x # ys))" using dist(1) by auto
  have r: "removeEntry a (tag_of x) m = Inr (removed a (tag_of x) (fst x) ?m1)"
    using tag deref assms(5) m1 by (simp add: removeEntry_def removed_def Let_def)
  note rf = removed_facts [OF l1a d1 l1(2), where t = "tag_of x"]
  have lo: "list_of (removed a (tag_of x) (fst x) ?m1) = (list_of m)(a := xs @ ys)"
    unfolding rf(1) l1(1) by simp
  have "rrob_inv X (removed a (tag_of x) (fst x) ?m1)"
  proof (rule remove_nodes_inv [OF inv _ ok lo rf(2)])
    show "list_of m a = xs @ [x, y] @ ys" using l by simp
    show "tagToAxiID (removed a (tag_of x) (fst x) ?m1) =
        (\<lambda>t. map_option fst (tagToIterator (removed a (tag_of x) (fst x) ?m1) t))"
      using inv unfolding rf(3,4) m1f(1,2) by (auto simp: rrob_inv_def tags_inv_def)
  qed (unfold rf(3,5-8) m1f, auto)
  with r lo show ?thesis by blast
qed

lemma all_read_iff: "n \<le> length ss \<Longrightarrow> all_read ss [k..<n] = Inr (\<forall>i. k \<le> i \<and> i < n \<longrightarrow> bs_read (ss ! i))"
proof (induction "n - k" arbitrary: k)
  case (Suc d)
  then have "[k..<n] = k # [Suc k..<n]" by (simp add: upt_conv_Cons)
  moreover have "all_read ss [Suc k..<n] = Inr (\<forall>i. Suc k \<le> i \<and> i < n \<longrightarrow> bs_read (ss ! i))" using Suc by auto
  moreover have "(\<forall>i. k \<le> i \<and> i < n \<longrightarrow> bs_read (ss ! i)) \<longleftrightarrow>
      bs_read (ss ! k) \<and> (\<forall>i. Suc k \<le> i \<and> i < n \<longrightarrow> bs_read (ss ! i))"
  proof -
    have "k < n" using Suc.hyps(2) by simp
    then show ?thesis by (metis Suc_leD Suc_leI le_eq_less_or_eq)
  qed
  ultimately show ?case using Suc by auto
qed auto

lemma mark_read_valid:
  "i < length (beat_statuses e) \<Longrightarrow> bs_sent (beat_statuses e ! i) \<Longrightarrow> only_valid e (mark_read i e)"
  "entry_inv xs e \<Longrightarrow> i < length (beat_statuses e) \<Longrightarrow> entry_inv xs (mark_read i e)"
  by (auto simp: only_valid_def mark_read_def nth_list_update entry_inv_def re_geom_def arrived_def split: if_splits)

text \<open>A removed group of nodes has no beat left to send.\<close>

lemma sent_group:
  assumes "single_ok e" and "\<forall>i \<le> last_beat_idx e. bs_sent (beat_statuses e ! i)"
  shows "unsent X [(n, e)] = []"
  using assms by (auto simp: unsent_def expected_def exp_entry_def single_ok_def entry_beats_def entry_beat_def
      filter_empty_conv simp del: upt_Suc)

lemma sent_pair:
  "pair_ok e e2 \<Longrightarrow> bs_sent (beat_statuses e ! 0) \<Longrightarrow> unsent X [(n, e), (n2, e2)] = []"
  by (simp add: unsent_def expected_def exp_entry_def pair_ok_def pair_beat_def)

lemma set_node_middle:
  "distinct (map fst (xs @ (n, e) # ys)) \<Longrightarrow> set_node n e' (xs @ (n, e) # ys) = xs @ (n, e') # ys"
  by (auto simp: set_node_def image_iff intro!: map_idI)

definition read_pending :: "AxiListManager \<Rightarrow> axi_id \<Rightarrow> int \<Rightarrow> nat \<Rightarrow> bool" where
  "read_pending m a tag idx \<longleftrightarrow>
     (\<exists>b \<in> set (list_beats (map snd (list_of m a))). rb_tag b = tag \<and> rb_idx b = idx \<and> rb_sent b)"

lemma read_pending_cases:
  assumes inv: "rrob_inv X m" and "read_pending m a tag idx"
  obtains xs n e ws ys where "list_of m a = xs @ (n, e) # ws @ ys" "nodes_inv X xs" "nodes_inv X ((n, e) # ws)"
    "re_tag e = tag" "idx \<le> last_beat_idx e" "last_beat_idx e < length (beat_statuses e)"
    "bs_sent (beat_statuses e ! idx)"
    "\<not> need_next_entry e \<and> ws = [] \<and> single_ok e \<or>
     need_next_entry e \<and> (\<exists>n2 e2. ws = [(n2, e2)] \<and> pair_ok e e2)"
proof -
  obtain b where b: "b \<in> set (list_beats (map snd (list_of m a)))" "rb_tag b = tag" "rb_idx b = idx" "rb_sent b"
    using assms(2) by (auto simp: read_pending_def)
  have old: "nodes_inv X (list_of m a)" using inv by (simp add: rrob_inv_def lists_inv_def)
  then obtain xs zs ys x where l: "list_of m a = xs @ zs @ ys" "list_ok (map snd xs)" "list_ok (map snd zs)"
      "b \<in> set (list_beats (map snd zs))"
      "zs = [x] \<and> single_ok (snd x) \<or> (\<exists>y. zs = [x, y] \<and> pair_ok (snd x) (snd y))"
    using locate_beat [OF _ b(1)] unfolding nodes_inv_def by metis
  obtain n e where x: "x = (n, e)" by (cases x)
  define ws where "ws = tl zs"
  have zs: "zs = (n, e) # ws" using l(5) x by (auto simp: ws_def)
  have inv': "nodes_inv X xs" "nodes_inv X ((n, e) # ws)"
    using old l(1,2,3) unfolding zs by (auto simp: nodes_inv_def)
  have "\<not> need_next_entry e \<and> ws = [] \<and> single_ok e \<or> need_next_entry e \<and> (\<exists>n2 e2. ws = [(n2, e2)] \<and> pair_ok e e2)"
    using l(5) x by (auto simp: ws_def single_ok_def pair_ok_def)
  moreover from this have "re_tag e = tag" "idx \<le> last_beat_idx e" "last_beat_idx e < length (beat_statuses e)"
    "bs_sent (beat_statuses e ! idx)"
    using l(4) b unfolding zs
    by (auto simp: entry_beats_def entry_beat_def pair_beat_def single_ok_def pair_ok_def less_Suc_eq_le simp del: upt_Suc)
  ultimately show ?thesis using that [of xs n e ws ys] l(1) zs inv' by simp
qed

lemma retire_step:
  assumes inv: "rrob_inv X (axiListManager r)" and rd: "read_pending (axiListManager r) a tag idx"
  shows "\<exists>r'. markBeatRead a tag idx r = Inr r' \<and> rrob_inv X (axiListManager r') \<and>
    (\<forall>b. unsent X (list_of (axiListManager r') b) = unsent X (list_of (axiListManager r) b))"
proof -
  define m where "m = axiListManager r"
  note inv = inv [folded m_def] and rd = rd [folded m_def]
  obtain xs n e ws ys where l: "list_of m a = xs @ (n, e) # ws @ ys" "nodes_inv X xs" "nodes_inv X ((n, e) # ws)"
    and e: "re_tag e = tag" "idx \<le> last_beat_idx e" "last_beat_idx e < length (beat_statuses e)"
      "bs_sent (beat_statuses e ! idx)"
    and kind: "\<not> need_next_entry e \<and> ws = [] \<and> single_ok e \<or>
     need_next_entry e \<and> (\<exists>n2 e2. ws = [(n2, e2)] \<and> pair_ok e e2)"
    using read_pending_cases [OF inv rd] by metis
  have x: "(n, e) \<in> set (list_of m a)" using l(1) by simp
  define e' where "e' = mark_read idx e"
  define m1 where "m1 = store (a, n) e' m"
  have idx: "idx < length (beat_statuses e)" using e(2,3) by simp
  have e': "only_valid e e'" "entry_inv (X n) e'"
    unfolding e'_def using mark_read_valid idx e(4) node_facts(1) [OF inv x] by blast+
  note st = store_inv [OF inv x e', folded m1_def]
  have same: "re_tag e' = tag" "need_next_entry e' = need_next_entry e" "last_beat_idx e' = last_beat_idx e"
    "length (beat_statuses e') = length (beat_statuses e)" using e'(1) e(1) by (auto simp: only_valid_def)
  have dist: "distinct (map fst (xs @ (n, e) # ws @ ys))" using inv l(1) unfolding rrob_inv_def lists_inv_def by metis
  have l1: "list_of m1 = (list_of m)(a := xs @ (n, e') # ws @ ys)"
    using st(3) set_node_middle [OF dist] l(1) by simp
  then have x1: "(n, e') \<in> set (list_of m1 a)" by simp
  note tag = node_tag [OF inv x]
  have tag': "tag_of (n, e) = of_int tag" "tag_of (n, e') = of_int tag" using same(1) e(1) by (simp_all add: tag_of_def)
  define full where "full \<longleftrightarrow> (\<forall>i \<le> last_beat_idx e. bs_read (beat_statuses e' ! i))"
  have read: "all_read (beat_statuses e') [0..<last_beat_idx e + 1] = Inr full"
    unfolding full_def using all_read_iff [of "last_beat_idx e + 1" "beat_statuses e'" 0] e(3) same(4)
    by (simp add: less_Suc_eq_le del: upt_Suc)
  define r0 where "r0 = (if contains_last e \<or> (need_next_entry e \<and>
      (case next_of n (list_of m a) of Some y \<Rightarrow> contains_last (snd y) | None \<Rightarrow> False))
    then r\<lparr> numAxiReads := sub8 (numAxiReads r) 1 \<rparr> else r)"
  have "lists m a = Some (list_of m a)" using list_of_Some [OF inv, of a] l(1) by simp
  moreover have "re_axi_id e = a" using node_facts(2) [OF inv x] by (simp add: node_ok_def)
  ultimately have mark: "markBeatRead a tag idx r =
      (if full then rbind (removeEntry a (of_int tag) m1) (\<lambda>m2. Inr (r0\<lparr> axiListManager := m2 \<rparr>))
       else Inr (r\<lparr> axiListManager := m1 \<rparr>))"
    using tag tag' deref_node [OF inv x] idx read
    by (simp add: markBeatRead_def getList_def m_def [symmetric] e'_def [symmetric] m1_def [symmetric] Let_def
        r0_def del: upt_Suc)
  show ?thesis
  proof (cases full)
    case False
    then show ?thesis using mark st(1,2) by (simp add: m_def)
  next
    case True
    have sent: "\<forall>i \<le> last_beat_idx e. bs_sent (beat_statuses e' ! i)"
      using True [unfolded full_def] node_facts(2) [OF st(1) x1] e(3) same(4) by (auto simp: node_ok_def)
    have group: "nodes_inv X ((n, e') # ws)"
    proof (rule unsent_only_valid(1) [OF l(3)])
      show "nodes_rel only_valid ((n, e) # ws) ((n, e') # ws)"
        using e'(1) by (simp add: nodes_rel_def list_all2_same)
    qed (use l(3) e'(2) in \<open>auto simp: nodes_inv_def\<close>)
    have "\<exists>m2. removeEntry a (of_int tag) m1 = Inr m2 \<and> rrob_inv X m2 \<and> list_of m2 = (list_of m1)(a := xs @ ys)"
      using kind
    proof
      assume k: "\<not> need_next_entry e \<and> ws = [] \<and> single_ok e"
      then show ?thesis using remove_single [OF st(1), of a xs "(n, e')" ys] l1 l(2) group tag'(2) same(2) by auto
    next
      assume k: "need_next_entry e \<and> (\<exists>n2 e2. ws = [(n2, e2)] \<and> pair_ok e e2)"
      then show ?thesis using remove_pair [OF st(1), of a xs "(n, e')" "hd ws" ys] l1 l(2) group tag'(2) same(2) by auto
    qed
    then obtain m2 where m2: "removeEntry a (of_int tag) m1 = Inr m2" "rrob_inv X m2"
      "list_of m2 = (list_of m1)(a := xs @ ys)" by blast
    have "unsent X ((n, e') # ws) = []"
      using kind group sent sent_group [of e' X n] sent_pair [of e' _ X n] same(2,3)
      by (auto simp: nodes_inv_def)
    then have "unsent X (xs @ ys) = unsent X (xs @ ((n, e') # ws) @ ys)"
      using unsent_append [OF l(2)] unsent_append [OF group] by simp
    then have "unsent X (list_of m2 b) = unsent X (list_of m b)" for b
      using st(2) [of b] m2(3) l1 by (cases "b = a") auto
    then show ?thesis using mark True m2 by (simp add: m_def)
  qed
qed

lemma removeEntry_max: "removeEntry a t m = Inr m' \<Longrightarrow> m_max_entries m' = m_max_entries m"
  by (auto simp: removeEntry_def remove_partner_def erase_at_def erase_tag_def Let_def
      split: if_splits option.splits elim!: rbind_Inr_E)

lemma markBeatRead_max:
  "markBeatRead a tag idx r = Inr r' \<Longrightarrow> m_max_entries (axiListManager r') = m_max_entries (axiListManager r) \<and>
    rr_max_entries r' = rr_max_entries r"
  by (auto simp: markBeatRead_def Let_def store_def split: if_splits option.splits elim!: rbind_Inr_E
      dest!: removeEntry_max)

section \<open>Executions\<close>

text \<open>
  The history of an execution: the buffer, the bytes each reserved entry waits for, the beats
  reserved and the beats delivered for each id. The environment reserves only when there is room
  and the next tags are free, delivers each flit of a reserved entry once, and retires beats that it
  received.
\<close>

record rrob_trace =
  rt_rrob :: ReadReorderBuffer
  rt_bytes :: "nat \<Rightarrow> byte list"
  rt_reserved :: "axi_id \<Rightarrow> content list"
  rt_delivered :: "axi_id \<Rightarrow> content list"

abbreviation rt_mgr :: "rrob_trace \<Rightarrow> AxiListManager" where
  "rt_mgr s \<equiv> axiListManager (rt_rrob s)"

definition single_request :: "AxiListManager \<Rightarrow> nat \<Rightarrow> nat \<Rightarrow> byte list \<Rightarrow> bool" where
  "single_request m bs li xs \<longleftrightarrow> can_reserve 1 m \<and> 0 < bs \<and> bs \<le> 64 \<and> li < m_entry_size m div bs \<and> li < 256 \<and>
     length xs = m_entry_size m"

definition pair_request :: "AxiListManager \<Rightarrow> nat \<Rightarrow> byte list \<Rightarrow> byte list \<Rightarrow> bool" where
  "pair_request m bs xs ys \<longleftrightarrow> can_reserve 2 m \<and> bs = 2 * m_entry_size m \<and> bs \<le> 64 \<and>
     length xs = m_entry_size m \<and> length ys = m_entry_size m"

definition flit_pending :: "AxiListManager \<Rightarrow> Tag \<Rightarrow> nat \<Rightarrow> nat \<Rightarrow> bool" where
  "flit_pending m t n f \<longleftrightarrow> (\<exists>a e. tagToIterator m t = Some (a, n) \<and> (n, e) \<in> set (list_of m a) \<and>
     f < length (flit_written e) \<and> \<not> flit_written e ! f)"

inductive rrob_step :: "rrob_trace \<Rightarrow> rrob_trace \<Rightarrow> bool" where
  step_single: "rrob_step s (s\<lparr> rt_rrob := r',
      rt_bytes := (rt_bytes s)(next_node (rt_mgr s) := xs),
      rt_reserved := (rt_reserved s)(a := rt_reserved s a @ single_contents (nextTag (rt_mgr s)) bs hl li xs) \<rparr>)"
  if "single_request (rt_mgr s) bs li xs" and "reserve a bs hl li v False (rt_rrob s) = Inr (t, r')"
| step_pair: "rrob_step s (s\<lparr> rt_rrob := r2,
      rt_bytes := (rt_bytes s)(next_node (rt_mgr s) := xs, next_node (rt_mgr s) + 1 := ys),
      rt_reserved := (rt_reserved s)(a := rt_reserved s a @ [(uint (nextTag (rt_mgr s)), 0, xs @ ys, hl)]) \<rparr>)"
  if "pair_request (rt_mgr s) bs xs ys" and "reserve a bs hl1 0 v True (rt_rrob s) = Inr (t, r1)"
    and "reserve a bs hl 0 v2 False r1 = Inr (t2, r2)"
| step_flit: "rrob_step s (s\<lparr> rt_rrob := (rt_rrob s)\<lparr> axiListManager := m' \<rparr> \<rparr>)"
  if "flit_pending (rt_mgr s) t n f"
    and "writeFlitEntry t (take 16 (drop (16 * f) (rt_bytes s n))) (int f) (rt_mgr s) = Inr m'"
| step_generate: "rrob_step s (s\<lparr> rt_rrob := r',
      rt_delivered := (rt_delivered s)(a := rt_delivered s a @ map msg_content ms) \<rparr>)"
  if "list_of (rt_mgr s) a \<noteq> []" and "rrob_generate raw a (rt_rrob s) = Inr (ms, r')"
| step_retire: "rrob_step s (s\<lparr> rt_rrob := r' \<rparr>)"
  if "read_pending (rt_mgr s) a tag idx" and "markBeatRead a tag idx (rt_rrob s) = Inr r'"

definition rrob_start :: "ReadReorderBuffer \<Rightarrow> rrob_trace" where
  "rrob_start r = \<lparr> rt_rrob = r, rt_bytes = (\<lambda>_. []), rt_reserved = (\<lambda>_. []), rt_delivered = (\<lambda>_. []) \<rparr>"

definition rrob_reach :: "nat \<Rightarrow> nat \<Rightarrow> rrob_trace \<Rightarrow> bool" where
  "rrob_reach max_entries e_size s \<longleftrightarrow>
     (\<exists>r. new_ReadReorderBuffer max_entries e_size = Inr r \<and> rrob_step\<^sup>*\<^sup>* (rrob_start r) s)"

definition trace_inv :: "rrob_trace \<Rightarrow> bool" where
  "trace_inv s \<longleftrightarrow> rrob_inv (rt_bytes s) (rt_mgr s) \<and>
     (\<forall>a. rt_reserved s a = rt_delivered s a @ unsent (rt_bytes s) (list_of (rt_mgr s) a))"

lemma new_rrob_inv:
  assumes "new_ReadReorderBuffer max_entries e_size = Inr r" and "max_entries < 65536" and "e_size < 65536"
  shows "trace_inv (rrob_start r)"
proof -
  have r: "axiListManager r = new_AxiListManager max_entries e_size" "0 < e_size" "16 dvd e_size"
    using assms by (auto simp: new_ReadReorderBuffer_def FLIT_SIZE_def split: if_splits)
  have "list_of (new_AxiListManager max_entries e_size) a = []" for a
    by (simp add: list_of_def new_AxiListManager_def)
  then show ?thesis using assms(2,3) r
    by (simp add: trace_inv_def rrob_start_def rrob_inv_def lists_inv_def tags_inv_def nodes_inv_def
        total_entries_def unsent_def expected_def) (simp add: new_AxiListManager_def)
qed

lemma step_trace_inv: "rrob_step s s' \<Longrightarrow> trace_inv s \<Longrightarrow> trace_inv s'"
proof (induction rule: rrob_step.induct)
  case (step_single s bs li xs a hl v t r')
  have inv: "rrob_inv (rt_bytes s) (rt_mgr s)" using step_single.prems by (simp add: trace_inv_def)
  show ?case using reserve_single [OF inv, of bs li xs a hl v] step_single
    by (auto simp: single_request_def reserve_def trace_inv_def)
next
  case (step_pair s bs xs ys a hl1 v t r1 hl v2 t2 r2)
  have inv: "rrob_inv (rt_bytes s) (rt_mgr s)" using step_pair.prems by (simp add: trace_inv_def)
  show ?case using reserve_pair [OF inv, of bs xs ys a hl1 v hl v2] step_pair
    by (auto simp: pair_request_def reserve_def trace_inv_def)
next
  case (step_flit s t n f m')
  have inv: "rrob_inv (rt_bytes s) (rt_mgr s)" using step_flit.prems by (simp add: trace_inv_def)
  show ?case using flit_step [OF inv, of t _ n _ f] step_flit by (auto simp: flit_pending_def trace_inv_def)
next
  case (step_generate s a raw ms r')
  have inv: "rrob_inv (rt_bytes s) (rt_mgr s)" using step_generate.prems by (simp add: trace_inv_def)
  show ?case using gen_step [OF inv step_generate(1), of raw] step_generate by (auto simp: rrob_generate_def trace_inv_def)
next
  case (step_retire s a tag idx r')
  have inv: "rrob_inv (rt_bytes s) (rt_mgr s)" using step_retire.prems by (simp add: trace_inv_def)
  show ?case using retire_step [OF inv step_retire(1)] step_retire by (auto simp: trace_inv_def)
qed

lemma step_limits:
  "rrob_step s s' \<Longrightarrow> m_max_entries (rt_mgr s') = m_max_entries (rt_mgr s) \<and> rr_max_entries (rt_rrob s') = rr_max_entries (rt_rrob s)"
  by (induction rule: rrob_step.induct)
    (auto simp: reserve_def rrob_generate_def addEntry_def writeFlitEntry_def generateAxiReadPayloads_def store_def
      Let_def split: if_splits option.splits elim!: rbind_Inr_E dest!: markBeatRead_max)

lemma reach_trace_inv:
  assumes "rrob_reach max_entries e_size s" and "max_entries < 65536" and "e_size < 65536"
  shows "trace_inv s" "m_max_entries (rt_mgr s) = max_entries" "rr_max_entries (rt_rrob s) = max_entries"
proof -
  obtain r where r: "new_ReadReorderBuffer max_entries e_size = Inr r" "rrob_step\<^sup>*\<^sup>* (rrob_start r) s"
    using assms(1) by (auto simp: rrob_reach_def)
  have start: "trace_inv (rrob_start r)" by (rule new_rrob_inv [OF r(1) assms(2,3)])
  from r(2) show "trace_inv s" by (induction rule: rtranclp_induct) (auto intro: start step_trace_inv)
  have max: "m_max_entries (rt_mgr (rrob_start r)) = max_entries \<and> rr_max_entries (rt_rrob (rrob_start r)) = max_entries"
    using r(1) assms(2) by (auto simp: new_ReadReorderBuffer_def rrob_start_def new_AxiListManager_def split: if_splits)
  from r(2) have "m_max_entries (rt_mgr s) = max_entries \<and> rr_max_entries (rt_rrob s) = max_entries"
    by (induction rule: rtranclp_induct) (auto simp: max dest: step_limits)
  then show "m_max_entries (rt_mgr s) = max_entries" "rr_max_entries (rt_rrob s) = max_entries" by simp_all
qed

lemma reach_single:
  assumes "trace_inv s" and "single_request (rt_mgr s) bs li xs"
  shows "\<exists>t r'. reserve a bs hl li v False (rt_rrob s) = Inr (t, r')"
proof -
  have inv: "rrob_inv (rt_bytes s) (rt_mgr s)" using assms(1) by (simp add: trace_inv_def)
  show ?thesis using reserve_single [OF inv, of bs li xs a hl v] assms(2)
    by (auto simp: single_request_def reserve_def)
qed

lemma reach_pair:
  assumes "trace_inv s" and "pair_request (rt_mgr s) bs xs ys"
  shows "\<exists>t r1 t2 r2. reserve a bs hl1 0 v True (rt_rrob s) = Inr (t, r1) \<and> reserve a bs hl 0 v2 False r1 = Inr (t2, r2)"
proof -
  have inv: "rrob_inv (rt_bytes s) (rt_mgr s)" using assms(1) by (simp add: trace_inv_def)
  show ?thesis using reserve_pair [OF inv, of bs xs ys a hl1 v hl v2] assms(2)
    by (auto simp: pair_request_def reserve_def)
qed

lemma reach_flit:
  assumes "trace_inv s" and "flit_pending (rt_mgr s) t n f"
  shows "\<exists>m'. writeFlitEntry t (take 16 (drop (16 * f) (rt_bytes s n))) (int f) (rt_mgr s) = Inr m'"
proof -
  have inv: "rrob_inv (rt_bytes s) (rt_mgr s)" using assms(1) by (simp add: trace_inv_def)
  obtain a e where "tagToIterator (rt_mgr s) t = Some (a, n)" "(n, e) \<in> set (list_of (rt_mgr s) a)"
    "f < length (flit_written e)" "\<not> flit_written e ! f"
    using assms(2) by (auto simp: flit_pending_def)
  from flit_step [OF inv this] show ?thesis by blast
qed

lemma reach_generate:
  assumes "trace_inv s" and "list_of (rt_mgr s) a \<noteq> []"
  shows "\<exists>ms r'. rrob_generate raw a (rt_rrob s) = Inr (ms, r')"
proof -
  have inv: "rrob_inv (rt_bytes s) (rt_mgr s)" using assms(1) by (simp add: trace_inv_def)
  show ?thesis using gen_step [OF inv assms(2), of raw] by (auto simp: rrob_generate_def)
qed

lemma reach_retire:
  assumes "trace_inv s" and "read_pending (rt_mgr s) a tag idx"
  shows "\<exists>r'. markBeatRead a tag idx (rt_rrob s) = Inr r'"
  using retire_step [of "rt_bytes s" "rt_rrob s" a tag idx] assms by (auto simp: trace_inv_def)

definition all_arrived :: "AxiListManager \<Rightarrow> axi_id \<Rightarrow> bool" where
  "all_arrived m a \<longleftrightarrow> (\<forall>x \<in> set (list_of m a). list_all id (flit_written (snd x)))"

section \<open>A sample execution\<close>

text \<open>One read of 16 bytes for id 3 in a buffer of four entries of one flit: reserved, then filled.\<close>

definition sample_flit :: "byte list" where
  "sample_flit = map of_nat [0..<16]"

definition sample_empty :: rrob_trace where
  "sample_empty = rrob_start (projr (new_ReadReorderBuffer 4 16))"

definition sample_reserved :: rrob_trace where
  "sample_reserved = sample_empty\<lparr> rt_rrob := snd (projr (reserve 3 16 True 0 0 False (rt_rrob sample_empty))),
     rt_bytes := (rt_bytes sample_empty)(0 := sample_flit),
     rt_reserved := (rt_reserved sample_empty)(3 := [(1, 0, sample_flit, True)]) \<rparr>"

definition sample_filled :: rrob_trace where
  "sample_filled = sample_reserved\<lparr> rt_rrob := (rt_rrob sample_reserved)\<lparr> axiListManager :=
     projr (writeFlitEntry 1 sample_flit 0 (rt_mgr sample_reserved)) \<rparr> \<rparr>"

lemma sample_empty_reach: "rrob_reach 4 16 sample_empty"
  by (auto simp: rrob_reach_def sample_empty_def new_ReadReorderBuffer_def FLIT_SIZE_def)

lemma sample_flit_length: "length sample_flit = 16"
  by (simp add: sample_flit_def)

lemma sample_empty_mgr: "rt_mgr sample_empty = new_AxiListManager 4 16"
  by (simp add: sample_empty_def rrob_start_def new_ReadReorderBuffer_def FLIT_SIZE_def)

lemma sample_single_request: "single_request (rt_mgr sample_empty) 16 0 sample_flit"
  unfolding sample_empty_mgr
  by (simp add: single_request_def can_reserve_def total_entries_def list_of_def sample_flit_length)
    (simp add: new_AxiListManager_def)

lemma sample_reserved_reach: "rrob_reach 4 16 sample_reserved"
proof -
  have "trace_inv sample_empty" using reach_trace_inv(1) [OF sample_empty_reach] by simp
  from reach_single [OF this sample_single_request]
  obtain t r' where r: "reserve 3 16 True 0 0 False (rt_rrob sample_empty) = Inr (t, r')" by blast
  have "rt_bytes sample_empty = (\<lambda>_. [])" "rt_reserved sample_empty = (\<lambda>_. [])"
    by (simp_all add: sample_empty_def rrob_start_def)
  then have "rrob_step sample_empty sample_reserved"
    using rrob_step.step_single [OF sample_single_request r] r sample_flit_length
    by (simp add: sample_reserved_def sample_empty_mgr single_contents_def) (simp add: new_AxiListManager_def)
  then show ?thesis using sample_empty_reach by (auto simp: rrob_reach_def)
qed

lemma sample_reserved_list:
  "list_of (rt_mgr sample_reserved) 3 = [(0, fresh_entry 3 16 16 False True 0 1 0)]"
  "tagToIterator (rt_mgr sample_reserved) 1 = Some (3, 0)"
  by (simp_all add: sample_reserved_def sample_empty_def rrob_start_def new_ReadReorderBuffer_def FLIT_SIZE_def
      reserve_def addEntry_def new_AxiListManager_def list_of_def new_RROBEntry_def fresh_entry_def size_t_of_int_def Let_def)

lemma sample_flit_pending: "flit_pending (rt_mgr sample_reserved) 1 0 0"
  by (simp add: flit_pending_def sample_reserved_list fresh_entry_def)

lemma sample_filled_reach: "rrob_reach 4 16 sample_filled"
proof -
  have "trace_inv sample_reserved" using reach_trace_inv(1) [OF sample_reserved_reach] by simp
  from reach_flit [OF this sample_flit_pending]
  obtain m' where m: "writeFlitEntry 1 (take 16 (drop (16 * 0) (rt_bytes sample_reserved 0))) (int 0) (rt_mgr sample_reserved) = Inr m'"
    by blast
  moreover have "rt_bytes sample_reserved 0 = sample_flit" by (simp add: sample_reserved_def)
  ultimately have "rrob_step sample_reserved sample_filled"
    using rrob_step.step_flit [OF sample_flit_pending m] sample_flit_length by (simp add: sample_filled_def)
  then show ?thesis using sample_reserved_reach by (auto simp: rrob_reach_def intro: rtranclp.rtrancl_into_rtrancl)
qed

lemma sample_filled_arrived: "all_arrived (rt_mgr sample_filled) 3" "list_of (rt_mgr sample_filled) 3 \<noteq> []"
proof -
  obtain e where e: "write_flit sample_flit 0 (fresh_entry 3 16 16 False True 0 1 0) = Inr e" "flit_written e = [True]"
    by (simp add: write_flit_def fresh_entry_def sample_flit_length markBeatsValid_def FLIT_SIZE_def)
  then have "list_of (rt_mgr sample_filled) 3 = [(0, e)]"
    by (simp add: sample_filled_def writeFlitEntry_def sample_reserved_list deref_def store_def set_node_def)
  then show "all_arrived (rt_mgr sample_filled) 3" "list_of (rt_mgr sample_filled) 3 \<noteq> []"
    using e(2) by (simp_all add: all_arrived_def)
qed

section \<open>Properties\<close>

text \<open>C6: Reads of one id are delivered in request order, once, and intact: in every execution of the
  reorder buffer, whatever the order in which the flits of all ids arrive, the beats handed to the
  endpoint for an id are a prefix of the beats reserved for it, with the tag, the beat index, the
  last flag and exactly the bytes that the network returned for that part of the read.\<close>

theorem rrob_reads_in_order:
  assumes "rrob_reach max_entries e_size s" and "max_entries < 65536" and "e_size < 65536"
  shows "prefix (rt_delivered s a) (rt_reserved s a)"
  using reach_trace_inv(1) [OF assms] by (simp add: trace_inv_def)

theorem rrob_reads_in_order_witness:
  "rt_reserved sample_filled 3 \<noteq> [] \<and> prefix (rt_delivered sample_filled 3) (rt_reserved sample_filled 3)"
  using rrob_reads_in_order [OF sample_filled_reach, of 3] by (simp add: sample_filled_def sample_reserved_def)

text \<open>C25: No operation of a reorder buffer in use fails: in every reachable state, a reservation
  with room and free tags, a pending flit, a generation for an id with entries, and the retirement of a
  sent beat all return normally (no panic, no dangling iterator, no access out of range).\<close>

theorem rrob_operations_succeed:
  assumes "rrob_reach max_entries e_size s" and "max_entries < 65536" and "e_size < 65536"
  shows "(single_request (rt_mgr s) bs li xs \<longrightarrow> (\<exists>t r'. reserve a bs hl li v False (rt_rrob s) = Inr (t, r'))) \<and>
    (pair_request (rt_mgr s) bs xs ys \<longrightarrow> (\<exists>t r1 t2 r2. reserve a bs hl1 0 v True (rt_rrob s) = Inr (t, r1) \<and>
       reserve a bs hl 0 v2 False r1 = Inr (t2, r2))) \<and>
    (flit_pending (rt_mgr s) t n f \<longrightarrow>
       (\<exists>m'. writeFlitEntry t (take 16 (drop (16 * f) (rt_bytes s n))) (int f) (rt_mgr s) = Inr m')) \<and>
    (list_of (rt_mgr s) a \<noteq> [] \<longrightarrow> (\<exists>ms r'. rrob_generate raw a (rt_rrob s) = Inr (ms, r'))) \<and>
    (read_pending (rt_mgr s) a tag idx \<longrightarrow> (\<exists>r'. markBeatRead a tag idx (rt_rrob s) = Inr r'))"
  using reach_trace_inv(1) [OF assms]
  by (intro conjI impI) (erule (1) reach_single reach_pair reach_flit reach_generate reach_retire)+

theorem rrob_operations_succeed_witness:
  "\<exists>m'. writeFlitEntry 1 (take 16 (drop (16 * 0) (rt_bytes sample_reserved 0))) (int 0) (rt_mgr sample_reserved) = Inr m'"
  using rrob_operations_succeed [OF sample_reserved_reach] sample_flit_pending by fastforce

text \<open>The occupancy is counted exactly and bounded: in every reachable state the entry counter
  is the number of entries in all lists and never exceeds the configured maximum, and the free
  count announced to the master unit is the difference.\<close>

lemma rrob_capacity:
  assumes "rrob_reach max_entries e_size s" and "max_entries < 65536" and "e_size < 65536"
  shows "numEntries (rt_mgr s) = int (total_entries (rt_mgr s)) \<and> total_entries (rt_mgr s) \<le> max_entries \<and>
    getNumRemainingEntries (rt_rrob s) = max_entries - total_entries (rt_mgr s)"
proof -
  have "rrob_inv (rt_bytes s) (rt_mgr s)" "m_max_entries (rt_mgr s) = max_entries"
    using reach_trace_inv [OF assms] by (simp_all add: trace_inv_def)
  then have n: "numEntries (rt_mgr s) = int (total_entries (rt_mgr s))" "total_entries (rt_mgr s) \<le> max_entries"
    by (auto simp: rrob_inv_def)
  then have "(int max_entries - numEntries (rt_mgr s)) mod 65536 = int (max_entries - total_entries (rt_mgr s))"
    using assms(2) by (simp add: of_nat_diff)
  then show ?thesis using n reach_trace_inv(3) [OF assms] by (simp add: getNumRemainingEntries_def)
qed

lemma arrived_all_valid:
  "list_ok es \<Longrightarrow> \<forall>e \<in> set es. \<forall>i < length (beat_statuses e). bs_valid (beat_statuses e ! i) \<Longrightarrow> all_valid (list_beats es)"
proof (induction es rule: list_ok.induct)
  case (2 e es)
  show ?case
  proof (cases "need_next_entry e")
    case False
    then show ?thesis using 2
      by (auto simp: all_valid_def entry_beats_def entry_beat_def single_ok_def simp del: upt_Suc)
  next
    case True
    then show ?thesis using 2 by (cases es) (auto simp: pair_beat_def pair_ok_def)
  qed
qed simp

lemma rrob_capacity_witness:
  "getNumRemainingEntries (rt_rrob sample_reserved) = 4 - total_entries (rt_mgr sample_reserved) \<and>
   total_entries (rt_mgr sample_reserved) \<le> 4"
  using rrob_capacity [OF sample_reserved_reach] by simp

text \<open>C23: Nothing is held back: in every reachable state in which all flits of the entries of an id
  have arrived, one generation delivers every beat that was reserved for the id.\<close>

theorem rrob_delivers_all:
  assumes "rrob_reach max_entries e_size s" and "max_entries < 65536" and "e_size < 65536"
    and "all_arrived (rt_mgr s) a" and "list_of (rt_mgr s) a \<noteq> []"
  shows "\<exists>ms r'. rrob_generate raw a (rt_rrob s) = Inr (ms, r') \<and>
    rt_delivered s a @ map msg_content ms = rt_reserved s a"
proof -
  have t: "trace_inv s" by (rule reach_trace_inv(1) [OF assms(1-3)])
  then have inv: "rrob_inv (rt_bytes s) (rt_mgr s)" by (simp add: trace_inv_def)
  have ok: "nodes_inv (rt_bytes s) (list_of (rt_mgr s) a)" using inv by (simp add: rrob_inv_def lists_inv_def)
  have "bs_valid (beat_statuses (snd x) ! i)"
    if x: "x \<in> set (list_of (rt_mgr s) a)" "i < length (beat_statuses (snd x))" for x i
  proof -
    have e: "entry_inv (rt_bytes s (fst x)) (snd x)" using ok x(1) by (simp add: nodes_inv_def)
    have "arrived (snd x) i"
      using assms(4) x(1) e unfolding all_arrived_def arrived_def entry_inv_def re_geom_def list_all_length by auto
    then show ?thesis using e x(2) by (simp add: entry_inv_def)
  qed
  then have "all_valid (list_beats (map snd (list_of (rt_mgr s) a)))"
    using ok by (intro arrived_all_valid) (auto simp: nodes_inv_def)
  then show ?thesis using gen_step [OF inv assms(5), of raw] t by (auto simp: rrob_generate_def trace_inv_def)
qed

theorem rrob_delivers_all_witness:
  "\<exists>ms r'. rrob_generate sample_packet_msg 3 (rt_rrob sample_filled) = Inr (ms, r') \<and>
    map msg_content ms = [(1, 0, sample_flit, True)]"
  using rrob_delivers_all [OF sample_filled_reach _ _ sample_filled_arrived, of sample_packet_msg]
  by (simp add: sample_filled_def sample_reserved_def sample_empty_def rrob_start_def)

fun write_flits :: "Tag \<Rightarrow> (byte list \<times> int) list \<Rightarrow> AxiListManager \<Rightarrow> AxiListManager result" where
  "write_flits tag [] m = Inr m"
| "write_flits tag (f # fs) m = rbind (writeFlitEntry tag (fst f) (snd f) m) (write_flits tag fs)"

lemma write_flits_other:
  "tagToIterator m tag = Some (a, k) \<Longrightarrow> (n, e) \<in> set (list_of m b) \<Longrightarrow> n \<noteq> k \<Longrightarrow>
   write_flits tag fs m = Inr m' \<Longrightarrow> (n, e) \<in> set (list_of m' b)"
proof (induction fs arbitrary: m)
  case (Cons f fs)
  then obtain m1 where m1: "writeFlitEntry tag (fst f) (snd f) m = Inr m1" "write_flits tag fs m1 = Inr m'"
    by (auto elim!: rbind_Inr_E)
  then have "tagToIterator m1 tag = Some (a, k)" "(n, e) \<in> set (list_of m1 b)"
    using Cons.prems by (force simp: writeFlitEntry_def store_def set_node_def list_of_def elim!: rbind_Inr_E
        split: option.splits if_splits)+
  then show ?case using Cons.IH m1(2) Cons.prems(3) by blast
qed simp

text \<open>C34: Tags are reused while they are live: the tag counter has eight bits and wraps, and a
  reservation does not look whether its tag still names an entry. When it does, the new entry gets
  the same tag, the map forgets the old entry, and no flit that arrives with the tag afterwards ever reaches
  the old entry: its read is never completed.\<close>

theorem rrob_tag_reuse:
  assumes "tagToIterator m (nextTag m) = Some (b, n)" and "(n, e) \<in> set (list_of m b)" and "n < next_node m"
    and "size_t_of_int (numEntries m) < m_max_entries m"
    and "addEntry a bs hl li v nn m = Inr (t, m')" and "write_flits t fs m' = Inr m''"
  shows "t = nextTag m \<and> tagToIterator m' t = Some (a, next_node m) \<and> (n, e) \<in> set (list_of m'' b)"
proof -
  have "t = nextTag m" "tagToIterator m' t = Some (a, next_node m)" "(n, e) \<in> set (list_of m' b)"
    using assms(2,4,5) by (auto simp: addEntry_def list_of_def Let_def elim!: rbind_Inr_E split: if_splits)
  then show ?thesis using write_flits_other [of m' t a "next_node m" n e b fs m''] assms(3,6) by simp
qed

definition sample_wrapped :: AxiListManager where
  "sample_wrapped = (rt_mgr sample_reserved)\<lparr> nextTag := 1 \<rparr>"

theorem rrob_tag_reuse_witness:
  "\<exists>m'. addEntry 5 16 True 0 0 False sample_wrapped = Inr (1, m') \<and> tagToIterator m' 1 = Some (5, 1) \<and>
     (0, fresh_entry 3 16 16 False True 0 1 0) \<in> set (list_of m' 3)"
proof -
  have w: "tagToIterator sample_wrapped (nextTag sample_wrapped) = Some (3, 0)"
    "(0, fresh_entry 3 16 16 False True 0 1 0) \<in> set (list_of sample_wrapped 3)"
    using sample_reserved_list by (simp_all add: sample_wrapped_def list_of_def)
  have m: "next_node sample_wrapped = 1" "numEntries sample_wrapped = 1" "m_max_entries sample_wrapped = 4"
    "nextTag sample_wrapped = 1" "m_entry_size sample_wrapped = 16"
    by (simp_all add: sample_wrapped_def sample_reserved_def sample_empty_def rrob_start_def new_ReadReorderBuffer_def
        FLIT_SIZE_def reserve_def addEntry_def new_AxiListManager_def new_RROBEntry_def size_t_of_int_def Let_def)
  obtain m' where m': "addEntry 5 16 True 0 0 False sample_wrapped = Inr (1, m')"
    using m by (simp add: addEntry_def new_RROBEntry_def size_t_of_int_def Let_def)
  show ?thesis using rrob_tag_reuse [OF w _ _ m', of "[]" m'] m m' by (simp add: size_t_of_int_def)
qed

end
