(* ===== verification/Binary_Heap.thy ===== *)
theory Binary_Heap
  imports Noc_Prelude "HOL-Library.Multiset"
begin

text \<open>
  The heap algorithms of the C++ standard library that the message buffers use
  (\<open>std::push_heap\<close> and \<open>std::pop_heap\<close> with \<open>std::greater\<close>, so that the least element is in front),
  as libstdc++ implements them: a hole moves through the array.

  Both keep the heap order and the multiset of elements. The contract of a priority queue is a
  locale; the buffers rely on it, and the array heap is its instance.
\<close>

section \<open>Algorithms\<close>

abbreviation parent :: "nat \<Rightarrow> nat" where
  "parent i \<equiv> (i - 1) div 2"

text \<open>\<open>__push_heap\<close>: the hole moves up while the parent is greater than the value.\<close>

function sift_up :: "('a \<Rightarrow> 'k::linorder) \<Rightarrow> nat \<Rightarrow> 'a \<Rightarrow> 'a list \<Rightarrow> 'a list" where
  "sift_up key hole v h =
     (if 0 < hole \<and> key v < key (h ! parent hole)
      then sift_up key (parent hole) v (h[hole := h ! parent hole])
      else h[hole := v])"
  by pat_completeness auto
termination
  by (relation "measure (\<lambda>(_, hole, _, _). hole)") auto

declare sift_up.simps [simp del]

text \<open>\<open>__adjust_heap\<close>: the hole first moves down to a leaf along the smaller children.\<close>

function sift_down :: "('a \<Rightarrow> 'k::linorder) \<Rightarrow> nat \<Rightarrow> 'a list \<Rightarrow> nat \<times> 'a list" where
  "sift_down key hole h =
     (if hole < (length h - 1) div 2
      then let c = (if key (h ! (2 * hole + 1)) < key (h ! (2 * hole + 2)) then 2 * hole + 1 else 2 * hole + 2)
           in sift_down key c (h[hole := h ! c])
      else if length h mod 2 = 0 \<and> length h \<noteq> 0 \<and> hole = (length h - 2) div 2
      then (2 * hole + 1, h[hole := h ! (2 * hole + 1)])
      else (hole, h))"
  by pat_completeness auto
termination
  by (relation "measure (\<lambda>(_, hole, h). length h - hole)") (auto simp: Let_def)

declare sift_down.simps [simp del]

definition push_heap :: "('a \<Rightarrow> 'k::linorder) \<Rightarrow> 'a list \<Rightarrow> 'a list" where
  "push_heap key h = sift_up key (length h - 1) (List.last h) h"

text \<open>The least element ends up at the back.\<close>

definition pop_heap :: "('a \<Rightarrow> 'k::linorder) \<Rightarrow> 'a list \<Rightarrow> 'a list" where
  "pop_heap key h =
     (if 1 < length h
      then let (hole, h') = sift_down key 0 (butlast h) in sift_up key hole (List.last h) h' @ [hd h]
      else h)"

section \<open>Heap order\<close>

definition is_heap :: "('a \<Rightarrow> 'k::linorder) \<Rightarrow> 'a list \<Rightarrow> bool" where
  "is_heap key h \<longleftrightarrow> (\<forall>i. 0 < i \<and> i < length h \<longrightarrow> key (h ! parent i) \<le> key (h ! i))"

lemma is_heap_front: "is_heap key h \<Longrightarrow> i < length h \<Longrightarrow> key (h ! 0) \<le> key (h ! i)"
proof (induction i rule: less_induct)
  case (less i)
  show ?case
  proof (cases "i = 0")
    case False
    then have "key (h ! parent i) \<le> key (h ! i)" using less.prems by (simp add: is_heap_def)
    moreover have "key (h ! 0) \<le> key (h ! parent i)" using less False by simp
    ultimately show ?thesis by (rule order_trans [rotated])
  qed simp
qed

lemma hd_least: "is_heap key h \<Longrightarrow> x \<in> set h \<Longrightarrow> key (hd h) \<le> key x"
  by (metis empty_iff hd_conv_nth in_set_conv_nth is_heap_front list.set(1))

text \<open>The heap order everywhere but at the hole, whose parent is below the hole's children.\<close>

definition heap_but :: "('a \<Rightarrow> 'k::linorder) \<Rightarrow> nat \<Rightarrow> 'a list \<Rightarrow> bool" where
  "heap_but key hole h \<longleftrightarrow>
     (\<forall>i. 0 < i \<and> i < length h \<and> i \<noteq> hole \<and> parent i \<noteq> hole \<longrightarrow> key (h ! parent i) \<le> key (h ! i)) \<and>
     (\<forall>c. 0 < hole \<and> 0 < c \<and> c < length h \<and> parent c = hole \<longrightarrow> key (h ! parent hole) \<le> key (h ! c))"

definition below_children :: "('a \<Rightarrow> 'k::linorder) \<Rightarrow> nat \<Rightarrow> 'a \<Rightarrow> 'a list \<Rightarrow> bool" where
  "below_children key hole v h \<longleftrightarrow> (\<forall>c. 0 < c \<and> c < length h \<and> parent c = hole \<longrightarrow> key v \<le> key (h ! c))"

lemma heap_butD:
  assumes "heap_but key hole h" and "0 < i" and "i < length h"
  shows "i \<noteq> hole \<Longrightarrow> parent i \<noteq> hole \<Longrightarrow> key (h ! parent i) \<le> key (h ! i)"
    and "0 < hole \<Longrightarrow> parent i = hole \<Longrightarrow> key (h ! parent hole) \<le> key (h ! i)"
  using assms unfolding heap_but_def by blast+

lemma sift_up_move:
  "0 < hole \<Longrightarrow> key v < key (h ! parent hole) \<Longrightarrow>
    sift_up key hole v h = sift_up key (parent hole) v (h[hole := h ! parent hole])"
  by (subst sift_up.simps) simp

lemma sift_up_stop: "\<not> (0 < hole \<and> key v < key (h ! parent hole)) \<Longrightarrow> sift_up key hole v h = h[hole := v]"
  by (subst sift_up.simps) auto

lemma parent_less: "0 < i \<Longrightarrow> parent i < i"
  by simp

lemma sift_up_heap:
  "hole < length h \<Longrightarrow> heap_but key hole h \<Longrightarrow> below_children key hole v h \<Longrightarrow>
    is_heap key (sift_up key hole v h)"
proof (induction key hole v h rule: sift_up.induct)
  case (1 key hole v h)
  show ?case
  proof (cases "0 < hole \<and> key v < key (h ! parent hole)")
    case True
    let ?h = "h[hole := h ! parent hole]"
    have p: "parent hole < hole" "parent hole < length h" using True 1(2) by auto
    have hb: "heap_but key (parent hole) ?h"
      unfolding heap_but_def
    proof (intro conjI allI impI)
      fix i assume i: "0 < i \<and> i < length ?h \<and> i \<noteq> parent hole \<and> parent i \<noteq> parent hole"
      show "key (?h ! parent i) \<le> key (?h ! i)"
      proof (cases "parent i = hole")
        case True
        then show ?thesis using i 1(2) heap_butD(2) [OF 1(3), of i] parent_less [of i] p by (simp add: nth_list_update)
      next
        case False
        then show ?thesis using i heap_butD(1) [OF 1(3), of i] by (cases "i = hole") simp_all
      qed
    next
      fix c assume c: "0 < parent hole \<and> 0 < c \<and> c < length ?h \<and> parent c = parent hole"
      have pp: "key (h ! parent (parent hole)) \<le> key (h ! parent hole)"
        using c p parent_less [of "parent hole"] by (intro heap_butD(1) [OF 1(3)]) auto
      have "c \<noteq> hole \<Longrightarrow> key (h ! parent hole) \<le> key (h ! c)"
        using c p heap_butD(1) [OF 1(3), of c] by simp
      then show "key (?h ! parent (parent hole)) \<le> key (?h ! c)"
        using pp c p parent_less [of "parent hole"] 1(2) by (cases "c = hole") (auto simp: nth_list_update)
    qed
    have bc: "below_children key (parent hole) v ?h"
      unfolding below_children_def
    proof (intro allI impI)
      fix c assume c: "0 < c \<and> c < length ?h \<and> parent c = parent hole"
      have "c \<noteq> hole \<Longrightarrow> key (h ! parent hole) \<le> key (h ! c)"
        using c p heap_butD(1) [OF 1(3), of c] by simp
      moreover have "key v \<le> key (h ! parent hole)" using True less_imp_le by blast
      ultimately show "key v \<le> key (?h ! c)" using 1(2) by (cases "c = hole") (simp, metis nth_list_update_neq order_trans)
    qed
    have "is_heap key (sift_up key (parent hole) v ?h)" using 1(1) [OF True _ hb bc] p by (simp only: length_list_update)
    then show ?thesis using sift_up_move [of hole key v h] True by metis
  next
    case False
    have "is_heap key (h[hole := v])"
      unfolding is_heap_def
    proof (intro allI impI)
      fix i assume i: "0 < i \<and> i < length (h[hole := v])"
      show "key (h[hole := v] ! parent i) \<le> key (h[hole := v] ! i)"
      proof (cases "i = hole")
        case True
        then show ?thesis using i False parent_less [of i] by (simp add: not_less)
      next
        case i': False
        show ?thesis
        proof (cases "parent i = hole")
          case True
          then show ?thesis using 1(2,4) i i' unfolding below_children_def by simp
        next
          case False
          then show ?thesis using heap_butD(1) [OF 1(3), of i] i i' by simp
        qed
      qed
    qed
    then show ?thesis by (simp only: sift_up_stop [OF False])
  qed
qed

lemma sift_up_length [simp]: "length (sift_up key hole v h) = length h"
proof (induction key hole v h rule: sift_up.induct)
  case (1 key hole v h)
  show ?case
  proof (cases "0 < hole \<and> key v < key (h ! parent hole)")
    case True
    then show ?thesis using 1 [OF True] sift_up_move [of hole key v h] by (metis length_list_update)
  next
    case False
    show ?thesis by (simp only: sift_up_stop [OF False] length_list_update)
  qed
qed

lemma mset_hole:
  assumes "i < length h" and "j < length h" and "i \<noteq> j"
  shows "mset ((h[i := h ! j])[j := v]) = mset (h[i := v])"
proof -
  have "mset ((h[i := h ! j])[j := v]) = add_mset v (mset (h[i := h ! j]) - {#h ! j#})"
    using assms by (simp only: mset_update length_list_update nth_list_update) simp
  also have "mset (h[i := h ! j]) - {#h ! j#} = mset h - {#h ! i#}" using assms by (simp add: mset_update)
  finally show ?thesis using assms by (simp add: mset_update)
qed

lemma sift_up_mset: "hole < length h \<Longrightarrow> mset (sift_up key hole v h) = mset (h[hole := v])"
proof (induction key hole v h rule: sift_up.induct)
  case (1 key hole v h)
  show ?case
  proof (cases "0 < hole \<and> key v < key (h ! parent hole)")
    case True
    then have p: "parent hole < length h" "hole \<noteq> parent hole" using 1(2) by auto
    have "mset (sift_up key (parent hole) v (h[hole := h ! parent hole])) = mset ((h[hole := h ! parent hole])[parent hole := v])"
      using 1(1) [OF True] p by (simp only: length_list_update)
    then show ?thesis using mset_hole [OF 1(2) p] sift_up_move [of hole key v h] True by metis
  next
    case False
    show ?thesis by (simp only: sift_up_stop [OF False])
  qed
qed

lemma sift_down_step:
  "hole < (length h - 1) div 2 \<Longrightarrow>
   sift_down key hole h =
     (let c = (if key (h ! (2 * hole + 1)) < key (h ! (2 * hole + 2)) then 2 * hole + 1 else 2 * hole + 2)
      in sift_down key c (h[hole := h ! c]))"
  by (subst sift_down.simps) simp

lemma sift_down_end:
  "\<not> hole < (length h - 1) div 2 \<Longrightarrow>
   sift_down key hole h =
     (if length h mod 2 = 0 \<and> length h \<noteq> 0 \<and> hole = (length h - 2) div 2
      then (2 * hole + 1, h[hole := h ! (2 * hole + 1)]) else (hole, h))"
  by (subst sift_down.simps) simp

text \<open>Moving the smaller child \<open>c\<close> up leaves the hole at \<open>c\<close>.\<close>

lemma move_child:
  assumes h: "heap_but key hole h" and c: "0 < c" "c < length h" "parent c = hole"
    and least: "\<forall>d. 0 < d \<and> d < length h \<and> parent d = hole \<longrightarrow> key (h ! c) \<le> key (h ! d)"
  shows "heap_but key c (h[hole := h ! c])"
  unfolding heap_but_def
proof (intro conjI allI impI)
  have hc: "hole < c" "hole < length h" using c parent_less [of c] by auto
  fix i assume i: "0 < i \<and> i < length (h[hole := h ! c]) \<and> i \<noteq> c \<and> parent i \<noteq> c"
  show "key (h[hole := h ! c] ! parent i) \<le> key (h[hole := h ! c] ! i)"
  proof (cases "i = hole")
    case True
    then show ?thesis using heap_butD(2) [OF h c(1,2)] c(3) i hc parent_less [of i] by (simp add: nth_list_update)
  next
    case False
    then show ?thesis using i hc least heap_butD(1) [OF h, of i] by (cases "parent i = hole") (auto simp: nth_list_update)
  qed
next
  have hc: "hole < c" "hole < length h" using c parent_less [of c] by auto
  fix d assume d: "0 < c \<and> 0 < d \<and> d < length (h[hole := h ! c]) \<and> parent d = c"
  then have "d \<noteq> hole" using parent_less [of d] hc by auto
  then show "key (h[hole := h ! c] ! parent c) \<le> key (h[hole := h ! c] ! d)"
    using d hc c heap_butD(1) [OF h, of d] by (simp add: nth_list_update)
qed

definition sunk :: "('a \<Rightarrow> 'k::linorder) \<Rightarrow> nat \<Rightarrow> 'a list \<Rightarrow> nat \<Rightarrow> 'a list \<Rightarrow> bool" where
  "sunk key hole h hole' h' \<longleftrightarrow> length h' = length h \<and> hole' < length h \<and> heap_but key hole' h' \<and>
     (\<forall>c. 0 < c \<and> c < length h \<longrightarrow> parent c \<noteq> hole') \<and> (\<forall>v. mset (h'[hole' := v]) = mset (h[hole := v]))"

lemma sunk_move:
  assumes "sunk key c (h[hole := h ! c]) hole' h'" and "hole < length h" and "c < length h" and "hole \<noteq> c"
  shows "sunk key hole h hole' h'"
  using assms mset_hole [of hole h c] unfolding sunk_def by simp

lemma sift_down_sunk:
  "hole < length h \<Longrightarrow> heap_but key hole h \<Longrightarrow> sift_down key hole h = (hole', h') \<Longrightarrow> sunk key hole h hole' h'"
proof (induction key hole h rule: sift_down.induct)
  case (1 key hole h)
  show ?case
  proof (cases "hole < (length h - 1) div 2")
    case True
    define c where "c = (if key (h ! (2 * hole + 1)) < key (h ! (2 * hole + 2)) then 2 * hole + 1 else 2 * hole + 2)"
    have c: "0 < c" "c < length h" "parent c = hole" "hole \<noteq> c" using True by (auto simp: c_def)
    have "key (h ! c) \<le> key (h ! d)" if d: "0 < d" "parent d = hole" for d
    proof -
      have "d = 2 * hole + 1 \<or> d = 2 * hole + 2" using d by presburger
      then show ?thesis by (auto simp: c_def not_less less_imp_le)
    qed
    then have hb: "heap_but key c (h[hole := h ! c])" using move_child [OF 1(3) c(1-3)] by blast
    have "sift_down key c (h[hole := h ! c]) = (hole', h')"
      using 1(4) by (simp only: sift_down_step [OF True] Let_def c_def [symmetric])
    then have "sunk key c (h[hole := h ! c]) hole' h'"
      using 1(1) [OF True c_def _ hb] c(2) by (simp only: length_list_update)
    then show ?thesis using sunk_move 1(2) c(2,4) by blast
  next
    case False
    show ?thesis
    proof (cases "length h mod 2 = 0 \<and> length h \<noteq> 0 \<and> hole = (length h - 2) div 2")
      case True
      define c where "c = 2 * hole + 1"
      have r: "hole' = c" "h' = h[hole := h ! c]" using 1(4) sift_down_end [OF False, of key] True by (simp_all add: c_def)
      have "length h = 2 * hole + 2" using True by presburger
      then have c: "0 < c" "c < length h" "parent c = hole" "hole \<noteq> c" "length h = c + 1" by (auto simp: c_def)
      have "d = c" if "0 < d" "d < length h" "parent d = hole" for d using that c(5) by (simp add: c_def)
      then have "heap_but key c (h[hole := h ! c])" by (intro move_child [OF 1(3) c(1-3)]) auto
      moreover have "parent d \<noteq> c" if "0 < d" "d < length h" for d using that c(5) parent_less [of d] by linarith
      ultimately show ?thesis using c(2) mset_hole [OF 1(2) c(2,4)] unfolding sunk_def r by simp
    next
      case even: False
      have "parent c \<noteq> hole" if "0 < c" "c < length h" for c
      proof
        assume "parent c = hole"
        then have "2 * hole + 1 \<le> c" using that by linarith
        then have "length h = 2 * hole + 2" using that False by linarith
        then show False using even by simp
      qed
      then show ?thesis using 1(2-4) sift_down_end [OF False, of key] even unfolding sunk_def by (metis Pair_inject)
    qed
  qed
qed

section \<open>Contract\<close>

lemma is_heap_but: "is_heap key h \<Longrightarrow> heap_but key 0 h"
  unfolding is_heap_def heap_but_def by simp

lemma is_heap_butlast: "is_heap key h \<Longrightarrow> is_heap key (butlast h)"
  unfolding is_heap_def by (auto simp: nth_butlast)

lemma push_heap_correct:
  assumes "is_heap key h"
  shows "is_heap key (push_heap key (h @ [x]))" and "mset (push_heap key (h @ [x])) = add_mset x (mset h)"
proof -
  have n: "parent c \<noteq> length h" if "0 < c" "c < length h + 1" for c using that parent_less [of c] by linarith
  have "heap_but key (length h) (h @ [x])"
    unfolding heap_but_def using assms n by (auto simp: is_heap_def nth_append less_Suc_eq)
  moreover have "below_children key (length h) x (h @ [x])" unfolding below_children_def using n by auto
  ultimately show "is_heap key (push_heap key (h @ [x]))"
    using sift_up_heap [of "length h" "h @ [x]" key x] by (simp add: push_heap_def)
  show "mset (push_heap key (h @ [x])) = add_mset x (mset h)"
    by (simp add: push_heap_def sift_up_mset)
qed

lemma pop_heap_correct:
  assumes "is_heap key h" and "h \<noteq> []"
  shows "is_heap key (butlast (pop_heap key h))" and "List.last (pop_heap key h) = hd h"
    and "add_mset (hd h) (mset (butlast (pop_heap key h))) = mset h" and "length (pop_heap key h) = length h"
proof -
  show "List.last (pop_heap key h) = hd h"
    using assms(2) by (cases h) (auto simp: pop_heap_def split: prod.splits)
  have "is_heap key (butlast (pop_heap key h)) \<and> add_mset (hd h) (mset (butlast (pop_heap key h))) = mset h \<and>
    length (pop_heap key h) = length h"
  proof (cases "1 < length h")
    case True
    obtain hole h' where s: "sift_down key 0 (butlast h) = (hole, h')" by fastforce
    have ne: "butlast h \<noteq> []" using True by (cases h) auto
    then have "sunk key 0 (butlast h) hole h'"
      using sift_down_sunk [OF _ is_heap_but [OF is_heap_butlast [OF assms(1)]] s] True by simp
    then have k: "length h' = length (butlast h)" "hole < length h'" "heap_but key hole h'"
      "below_children key hole (List.last h) h'" "mset (h'[hole := List.last h]) = mset ((butlast h)[0 := List.last h])"
      unfolding sunk_def below_children_def by auto
    have "h = hd h # List.tl (butlast h) @ [List.last h]"
      using ne assms(2) by (metis append_Cons append_butlast_last_id hd_append2 list.collapse)
    moreover have "(butlast h)[0 := List.last h] = List.last h # List.tl (butlast h)" using ne by (cases "butlast h") auto
    ultimately have "add_mset (hd h) (mset ((butlast h)[0 := List.last h])) = mset h"
      by (metis (no_types, lifting) mset.simps(2) mset_append union_mset_add_mset_left union_commute mset.simps(1) add_mset_add_single)
    then have "add_mset (hd h) (mset (sift_up key hole (List.last h) h')) = mset h" using sift_up_mset [OF k(2), of key "List.last h"] k(5) by (simp only:)
    then show ?thesis using True s k(1) sift_up_heap [OF k(2-4)] by (simp add: pop_heap_def)
  next
    case False
    then show ?thesis using assms(2) by (cases h) (auto simp: pop_heap_def is_heap_def)
  qed
  then show "is_heap key (butlast (pop_heap key h))" "add_mset (hd h) (mset (butlast (pop_heap key h))) = mset h"
    "length (pop_heap key h) = length h" by simp_all
qed

text \<open>
  What a buffer relies on: insertion keeps the elements and the order, the front is least, and
  removing the front leaves the others. A buffer whose messages have increasing keys therefore
  returns them in that order.
\<close>

locale prio_queue =
  fixes key :: "'a \<Rightarrow> 'k::linorder" and ins :: "'a \<Rightarrow> 'a list \<Rightarrow> 'a list" and rest :: "'a list \<Rightarrow> 'a list"
    and ordered :: "'a list \<Rightarrow> bool"
  assumes ordered_Nil: "ordered []"
    and ordered_ins: "ordered h \<Longrightarrow> ordered (ins x h)"
    and mset_ins: "ordered h \<Longrightarrow> mset (ins x h) = add_mset x (mset h)"
    and ordered_rest: "ordered h \<Longrightarrow> h \<noteq> [] \<Longrightarrow> ordered (rest h)"
    and mset_rest: "ordered h \<Longrightarrow> h \<noteq> [] \<Longrightarrow> add_mset (hd h) (mset (rest h)) = mset h"
    and front_least: "ordered h \<Longrightarrow> x \<in> set h \<Longrightarrow> key (hd h) \<le> key x"
begin

lemma length_ins: "ordered h \<Longrightarrow> length (ins x h) = length h + 1"
  using arg_cong [OF mset_ins, of h size x] by simp

lemma length_rest: "ordered h \<Longrightarrow> h \<noteq> [] \<Longrightarrow> length (rest h) + 1 = length h"
  using arg_cong [OF mset_rest, of h size] by simp

lemma front_first:
  assumes "ordered h" and "mset h = mset (q # qs)" and "\<forall>x \<in> set qs. key q < key x"
  shows "hd h = q" and "mset (rest h) = mset qs"
proof -
  have s: "set h = set (q # qs)" "h \<noteq> []" using mset_eq_setD [OF assms(2)] by auto
  then have "hd h \<in> set (q # qs)" "key (hd h) \<le> key q"
    using front_least [OF assms(1), of q] hd_in_set by auto
  then show q: "hd h = q" using assms(3) leD by auto
  then show "mset (rest h) = mset qs" using mset_rest [OF assms(1) s(2)] assms(2) by simp
qed

end

interpretation heap: prio_queue key "\<lambda>x h. push_heap key (h @ [x])" "\<lambda>h. butlast (pop_heap key h)" "is_heap key"
  for key :: "'a \<Rightarrow> 'k::linorder"
  by unfold_locales (simp add: is_heap_def, simp_all add: push_heap_correct pop_heap_correct hd_least)

end
