(* ===== verification/Message_Buffer.thy ===== *)
theory Message_Buffer
  imports Binary_Heap
begin

text \<open>
  The message buffers between an endpoint interface and its network unit
  (\<open>MessageBuffer\<close> in \<open>src/noc/core/network/NocMessageBuffer.hh\<close> and \<open>NocMessageBuffer.cc\<close>, and the message
  base class of \<open>src/noc/lib/network/NocMessage.hh\<close>): a binary heap of messages ordered by arrival time and by
  the order of insertion, a map of stalled messages, a map of deferred ones, and the bookkeeping
  that hides the space freed in a cycle until the next one.

  The consumer's wakeups are recorded in the order in which they are requested. Assertions of
  the source are error values.
\<close>

type_synonym Addr = nat

section \<open>Messages and their order\<close>

record 'b Message =
  m_time :: Tick
  m_LastEnqueueTime :: Tick
  m_DelayedTicks :: Tick
  msg_counter :: nat
  msg_body :: 'b

definition new_Message :: "Tick \<Rightarrow> 'b \<Rightarrow> 'b Message" where
  "new_Message now x = \<lparr> m_time = now, m_LastEnqueueTime = now, m_DelayedTicks = 0, msg_counter = 0, msg_body = x \<rparr>"

definition updateDelayedTicks :: "Tick \<Rightarrow> 'b Message \<Rightarrow> 'b Message result" where
  "updateDelayedTicks now m =
     (if now < m_LastEnqueueTime m then Inl (Panic ''assert m_LastEnqueueTime <= curTime'')
      else Inr (m\<lparr> m_DelayedTicks := m_DelayedTicks m + (now - m_LastEnqueueTime m) \<rparr>))"

text \<open>The comparison of the heap: \<open>l\<close> comes after \<open>r\<close>.\<close>

definition msg_after :: "'b Message \<Rightarrow> 'b Message \<Rightarrow> bool" where
  "msg_after l r \<longleftrightarrow>
     (if m_LastEnqueueTime l = m_LastEnqueueTime r then msg_counter l > msg_counter r
      else m_LastEnqueueTime l > m_LastEnqueueTime r)"

datatype due = Due (due_tick: Tick) (due_count: nat)

instantiation due :: linorder
begin

definition less_eq_due :: "due \<Rightarrow> due \<Rightarrow> bool" where
  "less_eq_due a b \<longleftrightarrow> due_tick a < due_tick b \<or> due_tick a = due_tick b \<and> due_count a \<le> due_count b"

definition less_due :: "due \<Rightarrow> due \<Rightarrow> bool" where
  "less_due a b \<longleftrightarrow> due_tick a < due_tick b \<or> due_tick a = due_tick b \<and> due_count a < due_count b"

instance
  by standard (auto simp: less_eq_due_def less_due_def due.expand)

end

definition due_of :: "'b Message \<Rightarrow> due" where
  "due_of m = Due (m_LastEnqueueTime m) (msg_counter m)"

lemma msg_after_iff: "msg_after l r \<longleftrightarrow> due_of r < due_of l"
  by (auto simp: msg_after_def due_of_def less_due_def)

section \<open>State\<close>

datatype MessageRandomization = rand_disabled | rand_enabled | rand_ruby_system

datatype wakeup = At Tick | In_cycles nat

record 'b MessageBuffer =
  m_prio_heap :: "'b Message list"
  m_num_msgs :: nat
  m_stall_msg_map :: "(Addr \<times> 'b Message list) list"
  m_deferred_msg_map :: "Addr \<rightharpoonup> 'b Message list"
  m_stall_map_size :: int
  m_max_size :: nat
  m_max_dequeue_rate :: nat
  m_dequeues_this_cy :: nat
  m_time_last_time_size_checked :: Tick
  m_size_last_time_size_checked :: nat
  m_time_last_time_enqueue :: Tick
  m_time_last_time_pop :: Tick
  m_last_arrival_time :: Tick
  m_size_at_cycle_start :: nat
  m_stalled_at_cycle_start :: nat
  m_msgs_this_cycle :: nat
  m_msg_counter :: nat
  m_last_message_strict_fifo_bypassed :: bool
  m_strict_fifo :: bool
  m_randomization :: MessageRandomization
  m_allow_zero_latency :: bool
  m_consumer :: bool
  m_wakeups :: "wakeup list"
  m_dequeue_callback :: bool
  m_callbacks :: nat

definition new_MessageBuffer ::
  "nat \<Rightarrow> nat \<Rightarrow> bool \<Rightarrow> MessageRandomization \<Rightarrow> bool \<Rightarrow> 'b MessageBuffer" where
  "new_MessageBuffer buffer_size max_dequeue_rate fifo randomization allow_zero_latency =
     \<lparr> m_prio_heap = [], m_num_msgs = 0, m_stall_msg_map = [], m_deferred_msg_map = Map.empty,
       m_stall_map_size = 0, m_max_size = buffer_size, m_max_dequeue_rate = max_dequeue_rate,
       m_dequeues_this_cy = 0, m_time_last_time_size_checked = 0, m_size_last_time_size_checked = 0,
       m_time_last_time_enqueue = 0, m_time_last_time_pop = 0, m_last_arrival_time = 0,
       m_size_at_cycle_start = 0, m_stalled_at_cycle_start = 0, m_msgs_this_cycle = 0,
       m_msg_counter = 0, m_last_message_strict_fifo_bypassed = False, m_strict_fifo = fifo,
       m_randomization = randomization, m_allow_zero_latency = allow_zero_latency, m_consumer = False,
       m_wakeups = [], m_dequeue_callback = False, m_callbacks = 0 \<rparr>"

definition setConsumer :: "'b MessageBuffer \<Rightarrow> 'b MessageBuffer result" where
  "setConsumer b =
     (if m_consumer b then Inl (Fatal ''Trying to connect: already connected'')
      else Inr (b\<lparr> m_consumer := True \<rparr>))"

definition schedule_consumer :: "wakeup \<Rightarrow> 'b MessageBuffer \<Rightarrow> 'b MessageBuffer result" where
  "schedule_consumer w b =
     (if m_consumer b then Inr (b\<lparr> m_wakeups := m_wakeups b @ [w] \<rparr>)
      else Inl (Undefined ''null consumer''))"

section \<open>Queries\<close>

definition mb_getSize :: "Tick \<Rightarrow> 'b MessageBuffer \<Rightarrow> nat \<times> 'b MessageBuffer" where
  "mb_getSize now b =
     (let b' = (if m_time_last_time_size_checked b \<noteq> now
                then b\<lparr> m_time_last_time_size_checked := now,
                        m_size_last_time_size_checked := trunc32 (length (m_prio_heap b)) \<rparr>
                else b)
      in (m_size_last_time_size_checked b', b'))"

text \<open>The size that producers see: pops of the current cycle do not count.\<close>

definition areNSlotsAvailable :: "nat \<Rightarrow> Tick \<Rightarrow> 'b MessageBuffer \<Rightarrow> bool" where
  "areNSlotsAvailable n now b \<longleftrightarrow>
     (if m_max_size b = 0 then True
      else
        let (current_size, current_stall_size) =
          (if m_time_last_time_pop b < now
           then (trunc32 (length (m_prio_heap b)), nat (m_stall_map_size b mod 2 ^ 32))
           else (if m_time_last_time_enqueue b < now then m_size_at_cycle_start b
                 else trunc32 (m_size_at_cycle_start b + m_msgs_this_cycle b),
                 m_stalled_at_cycle_start b))
        in trunc32 (current_size + current_stall_size + n) \<le> m_max_size b)"

definition mb_front :: "'b MessageBuffer \<Rightarrow> 'b Message result" where
  "mb_front b =
     (case m_prio_heap b of [] \<Rightarrow> Inl (Undefined ''front of an empty container'') | m # _ \<Rightarrow> Inr m)"

definition mb_isReady :: "Tick \<Rightarrow> 'b MessageBuffer \<Rightarrow> (bool \<times> 'b MessageBuffer) result" where
  "mb_isReady now b =
     (if now < m_time_last_time_pop b then Inl (Panic ''assert m_time_last_time_pop <= current_time'')
      else
        let can_dequeue = (m_max_dequeue_rate b = 0 \<or> m_time_last_time_pop b < now \<or>
                           m_dequeues_this_cy b < m_max_dequeue_rate b);
            is_ready = (case m_prio_heap b of [] \<Rightarrow> False | m # _ \<Rightarrow> m_LastEnqueueTime m \<le> now)
        in if \<not> can_dequeue \<and> is_ready
           then rbind (schedule_consumer (In_cycles 1) b) (\<lambda>b'. Inr (False, b'))
           else Inr (can_dequeue \<and> is_ready, b))"

definition readyTime :: "'b MessageBuffer \<Rightarrow> Tick" where
  "readyTime b = (case m_prio_heap b of [] \<Rightarrow> 2 ^ 64 - 1 | m # _ \<Rightarrow> m_LastEnqueueTime m)"

definition hasStalledMsg :: "Addr \<Rightarrow> 'b MessageBuffer \<Rightarrow> bool" where
  "hasStalledMsg a b \<longleftrightarrow> map_of (m_stall_msg_map b) a \<noteq> None"

definition isDeferredMsgMapEmpty :: "Addr \<Rightarrow> 'b MessageBuffer \<Rightarrow> bool" where
  "isDeferredMsgMapEmpty a b \<longleftrightarrow> m_deferred_msg_map b a = None"

section \<open>Insertion\<close>

text \<open>The three numbers that \<open>random_time\<close> draws, in \<open>[0..3]\<close>, \<open>[0..7]\<close> and \<open>[1..15]\<close>, are arguments.\<close>

type_synonym draws = "nat \<times> nat \<times> nat"

definition random_time :: "draws \<Rightarrow> Tick" where
  "random_time rng = (case rng of (r1, r2, r3) \<Rightarrow> 1 + r1 + (if r2 = 0 then 100 + r3 else 0))"

definition push_msg :: "'b Message \<Rightarrow> 'b MessageBuffer \<Rightarrow> 'b MessageBuffer" where
  "push_msg m b = b\<lparr> m_prio_heap := push_heap due_of (m_prio_heap b @ [m]) \<rparr>"

definition arrival_of :: "draws \<Rightarrow> Tick \<Rightarrow> Tick \<Rightarrow> bool \<Rightarrow> 'b MessageBuffer \<Rightarrow> Tick \<times> 'b MessageBuffer" where
  "arrival_of rng now delta is_random b =
     (if m_randomization b = rand_disabled \<or> m_randomization b = rand_ruby_system \<and> \<not> is_random
      then (now + delta, b)
      else if m_strict_fifo b
      then let b' = (if m_last_arrival_time b < now then b\<lparr> m_last_arrival_time := now \<rparr> else b)
           in (m_last_arrival_time b' + random_time rng, b')
      else (now + random_time rng, b))"

text \<open>The bookkeeping before the message is put into the heap.\<close>

definition count_enqueue :: "Tick \<Rightarrow> 'b MessageBuffer \<Rightarrow> 'b MessageBuffer" where
  "count_enqueue now b =
     (let b1 = (if m_time_last_time_enqueue b < now
                then b\<lparr> m_msgs_this_cycle := 0, m_time_last_time_enqueue := now \<rparr> else b)
      in b1\<lparr> m_msg_counter := (m_msg_counter b1 + 1) mod 2 ^ 64, m_msgs_this_cycle := trunc32 (m_msgs_this_cycle b1 + 1) \<rparr>)"

definition mb_enqueue ::
  "draws \<Rightarrow> 'b Message \<Rightarrow> Tick \<Rightarrow> Tick \<Rightarrow> bool \<Rightarrow> bool \<Rightarrow> bool \<Rightarrow> 'b MessageBuffer \<Rightarrow> 'b MessageBuffer result" where
  "mb_enqueue rng message now delta is_random warmup bypassStrictFIFO b =
     (let (arrival_time, b1) = arrival_of rng now delta is_random (count_enqueue now b)
      in if delta = 0 \<and> \<not> m_allow_zero_latency b1
         then Inl (Panic ''Delta equals zero and allow_zero_latency is false during enqueue'')
         else if arrival_time < now then Inl (Panic ''assert arrival_time >= current_time'')
         else if m_strict_fifo b1 \<and> \<not> (bypassStrictFIFO \<or> m_last_message_strict_fifo_bypassed b1) \<and>
                 arrival_time < m_last_arrival_time b1
         then Inl (Panic ''FIFO ordering violated'')
         else if now < m_LastEnqueueTime message then Inl (Panic ''assert current_time >= getLastEnqueueTime'')
         else rbind (updateDelayedTicks now message) (\<lambda>m.
           let m' = m\<lparr> m_LastEnqueueTime := arrival_time, msg_counter := m_msg_counter b1 \<rparr>;
               b2 = push_msg m' (b1\<lparr> m_last_arrival_time := (if warmup then m_last_arrival_time b1 else arrival_time),
                      m_last_message_strict_fifo_bypassed := bypassStrictFIFO,
                      m_num_msgs := trunc16 (m_num_msgs b1 + 1) \<rparr>)
           in if m_max_size b2 \<noteq> 0 \<and> int (m_max_size b2) < int (length (m_prio_heap b2)) + m_stall_map_size b2
              then Inl (Panic ''assert m_prio_heap.size() + m_stall_map_size <= m_max_size'')
              else if \<not> m_consumer b2 then Inl (Panic ''assert m_consumer != NULL'')
              else schedule_consumer (At arrival_time) b2))"

section \<open>Removal\<close>

definition pop_msg :: "'b MessageBuffer \<Rightarrow> 'b MessageBuffer" where
  "pop_msg b = b\<lparr> m_prio_heap := butlast (pop_heap due_of (m_prio_heap b)) \<rparr>"

definition count_dequeue :: "Tick \<Rightarrow> 'b MessageBuffer \<Rightarrow> 'b MessageBuffer" where
  "count_dequeue now b =
     (let b1 = (if m_time_last_time_pop b < now
                then b\<lparr> m_size_at_cycle_start := trunc32 (length (m_prio_heap b)),
                        m_stalled_at_cycle_start := nat (m_stall_map_size b mod 2 ^ 32),
                        m_time_last_time_pop := now, m_dequeues_this_cy := 0 \<rparr>
                else b)
      in b1\<lparr> m_dequeues_this_cy := trunc32 (m_dequeues_this_cy b1 + 1) \<rparr>)"

text \<open>The result has the delay, the message itself and the buffer.\<close>

definition mb_dequeue ::
  "Tick \<Rightarrow> bool \<Rightarrow> 'b MessageBuffer \<Rightarrow> (Tick \<times> 'b Message \<times> 'b MessageBuffer) result" where
  "mb_dequeue now decrement_messages b =
     rbind (mb_isReady now b) (\<lambda>(ready, b0).
       if \<not> ready then Inl (Panic ''assert isReady'')
       else rbind (mb_front b0) (\<lambda>m0. rbind (updateDelayedTicks now m0) (\<lambda>m.
         let b1 = pop_msg (count_dequeue now b0);
             b2 = (if decrement_messages then b1\<lparr> m_num_msgs := sub16 (m_num_msgs b1) 1 \<rparr> else b1);
             b3 = (if m_dequeue_callback b2 then b2\<lparr> m_callbacks := m_callbacks b2 + 1 \<rparr> else b2)
         in Inr (m_DelayedTicks m, m, b3))))"

definition delayHead :: "draws \<Rightarrow> Tick \<Rightarrow> Tick \<Rightarrow> bool \<Rightarrow> bool \<Rightarrow> 'b MessageBuffer \<Rightarrow> 'b MessageBuffer result" where
  "delayHead rng now delta is_random warmup b =
     rbind (mb_front b) (\<lambda>m. mb_enqueue rng m now delta is_random warmup False (pop_msg b))"

definition mb_clear :: "'b MessageBuffer \<Rightarrow> 'b MessageBuffer" where
  "mb_clear b = b\<lparr> m_prio_heap := [], m_msg_counter := 0, m_time_last_time_enqueue := 0,
     m_time_last_time_pop := 0, m_size_at_cycle_start := 0, m_stalled_at_cycle_start := 0, m_msgs_this_cycle := 0 \<rparr>"

text \<open>The head goes to the back of the array, gets its new time and is sifted up again.\<close>

definition recycle :: "Tick \<Rightarrow> Tick \<Rightarrow> 'b MessageBuffer \<Rightarrow> 'b MessageBuffer result" where
  "recycle now recycle_latency b =
     rbind (mb_isReady now b) (\<lambda>(ready, b0).
       if \<not> ready then Inl (Panic ''assert isReady'')
       else rbind (mb_front b0) (\<lambda>node.
         schedule_consumer (At (now + recycle_latency))
           (push_msg (node\<lparr> m_LastEnqueueTime := now + recycle_latency \<rparr>) (pop_msg b0))))"

section \<open>Stalled and deferred messages\<close>

text \<open>The stall map is kept in the order of its keys.\<close>

fun stall_put :: "Addr \<Rightarrow> 'm \<Rightarrow> (Addr \<times> 'm list) list \<Rightarrow> (Addr \<times> 'm list) list" where
  "stall_put a m [] = [(a, [m])]"
| "stall_put a m ((k, ms) # al) =
     (if a < k then (a, [m]) # (k, ms) # al
      else if a = k then (k, ms @ [m]) # al
      else (k, ms) # stall_put a m al)"

definition stallMessage :: "Addr \<Rightarrow> Tick \<Rightarrow> 'b MessageBuffer \<Rightarrow> 'b MessageBuffer result" where
  "stallMessage a now b =
     rbind (mb_isReady now b) (\<lambda>(ready, b0).
       if \<not> ready then Inl (Panic ''assert isReady'')
       else rbind (mb_dequeue now False b0) (\<lambda>(_, m, b1).
         Inr (b1\<lparr> m_stall_msg_map := stall_put a m (m_stall_msg_map b1), m_stall_map_size := m_stall_map_size b1 + 1 \<rparr>)))"

fun reanalyzeList :: "Tick \<Rightarrow> 'b Message list \<Rightarrow> 'b MessageBuffer \<Rightarrow> 'b MessageBuffer result" where
  "reanalyzeList schdTick [] b = Inr b"
| "reanalyzeList schdTick (m # ms) b =
     (if schdTick < m_LastEnqueueTime m then Inl (Panic ''assert getLastEnqueueTime <= schdTick'')
      else rbind (schedule_consumer (At schdTick) (push_msg m b)) (reanalyzeList schdTick ms))"

definition reanalyze_key :: "Tick \<Rightarrow> 'b Message list \<Rightarrow> 'b MessageBuffer \<Rightarrow> 'b MessageBuffer result" where
  "reanalyze_key now ms b =
     (let size' = m_stall_map_size b - int (length ms) in
      if size' < 0 then Inl (Panic ''assert m_stall_map_size >= 0'')
      else reanalyzeList now ms (b\<lparr> m_stall_map_size := size' \<rparr>))"

definition reanalyzeMessages :: "Addr \<Rightarrow> Tick \<Rightarrow> 'b MessageBuffer \<Rightarrow> 'b MessageBuffer result" where
  "reanalyzeMessages a now b =
     (case map_of (m_stall_msg_map b) a of
        None \<Rightarrow> Inl (Panic ''assert m_stall_msg_map.count(addr) > 0'')
      | Some ms \<Rightarrow> rbind (reanalyze_key now ms b) (\<lambda>b'.
          Inr (b'\<lparr> m_stall_msg_map := filter (\<lambda>(k, _). k \<noteq> a) (m_stall_msg_map b') \<rparr>)))"

fun reanalyze_all :: "Tick \<Rightarrow> (Addr \<times> 'b Message list) list \<Rightarrow> 'b MessageBuffer \<Rightarrow> 'b MessageBuffer result" where
  "reanalyze_all now [] b = Inr b"
| "reanalyze_all now ((a, ms) # al) b = rbind (reanalyze_key now ms b) (reanalyze_all now al)"

definition reanalyzeAllMessages :: "Tick \<Rightarrow> 'b MessageBuffer \<Rightarrow> 'b MessageBuffer result" where
  "reanalyzeAllMessages now b =
     rbind (reanalyze_all now (m_stall_msg_map b) b) (\<lambda>b'. Inr (b'\<lparr> m_stall_msg_map := [] \<rparr>))"

definition deferEnqueueingMessage :: "Addr \<Rightarrow> 'b Message \<Rightarrow> 'b MessageBuffer \<Rightarrow> 'b MessageBuffer" where
  "deferEnqueueingMessage a m b =
     b\<lparr> m_deferred_msg_map := (m_deferred_msg_map b)
          (a \<mapsto> (case m_deferred_msg_map b a of None \<Rightarrow> [] | Some ms \<Rightarrow> ms) @ [m]) \<rparr>"

text \<open>Each message draws its own random numbers.\<close>

fun enqueue_all ::
  "draws list \<Rightarrow> 'b Message list \<Rightarrow> Tick \<Rightarrow> Tick \<Rightarrow> bool \<Rightarrow> bool \<Rightarrow> 'b MessageBuffer \<Rightarrow> 'b MessageBuffer result" where
  "enqueue_all rngs [] now delay is_random warmup b = Inr b"
| "enqueue_all rngs (m # ms) now delay is_random warmup b =
     rbind (mb_enqueue (case rngs of [] \<Rightarrow> (0, 1, 1) | r # _ \<Rightarrow> r) m now delay is_random warmup False b)
       (enqueue_all (drop 1 rngs) ms now delay is_random warmup)"

definition enqueueDeferredMessages ::
  "draws list \<Rightarrow> Addr \<Rightarrow> Tick \<Rightarrow> Tick \<Rightarrow> bool \<Rightarrow> bool \<Rightarrow> 'b MessageBuffer \<Rightarrow> 'b MessageBuffer result" where
  "enqueueDeferredMessages rngs a now delay is_random warmup b =
     (case m_deferred_msg_map b a of
        None \<Rightarrow> Inl (Panic ''assert !isDeferredMsgMapEmpty(addr)'')
      | Some ms \<Rightarrow>
          if ms = [] then Inl (Panic ''assert msg_vec.size() > 0'')
          else rbind (enqueue_all rngs ms now delay is_random warmup b) (\<lambda>b'.
            Inr (b'\<lparr> m_deferred_msg_map := (m_deferred_msg_map b')(a := None) \<rparr>)))"

section \<open>The clock of a component\<close>

text \<open>The current tick, the next clock edge at or after it, and the period.\<close>

record clock =
  curTick :: Tick
  clockEdge :: Tick
  clockPeriod :: Tick

end
