(* ===== verification/Message_Buffer_Props.thy ===== *)
theory Message_Buffer_Props
  imports Message_Buffer
begin

text \<open>
  Properties of the message buffers: the slot check of producers is enough although it ignores the
  pops of the current cycle, and exact when there are none, the message counter is exact, and an ordered buffer refines a FIFO
  queue whatever its random delays.
\<close>

section \<open>What an operation changes\<close>

text \<open>Each operation as one update of the buffer.\<close>

lemma count_enqueue_eq:
  "count_enqueue now b = b\<lparr> m_time_last_time_enqueue := max (m_time_last_time_enqueue b) now,
     m_msgs_this_cycle := trunc32 ((if m_time_last_time_enqueue b < now then 0 else m_msgs_this_cycle b) + 1),
     m_msg_counter := (m_msg_counter b + 1) mod 2 ^ 64 \<rparr>"
  by (cases b) (simp add: count_enqueue_def max_def)

lemma count_dequeue_eq:
  "m_time_last_time_pop b \<le> now \<Longrightarrow> count_dequeue now b = b\<lparr> m_time_last_time_pop := now,
     m_size_at_cycle_start := (if m_time_last_time_pop b < now then trunc32 (length (m_prio_heap b)) else m_size_at_cycle_start b),
     m_stalled_at_cycle_start := (if m_time_last_time_pop b < now then nat (m_stall_map_size b mod 2 ^ 32) else m_stalled_at_cycle_start b),
     m_dequeues_this_cy := trunc32 ((if m_time_last_time_pop b < now then 0 else m_dequeues_this_cy b) + 1) \<rparr>"
  by (cases b) (simp add: count_dequeue_def)

lemma arrival_of_eq:
  assumes "arrival_of rng now delta rnd b = (arr, b1)"
  shows "\<exists>L. m_last_arrival_time b \<le> L \<and> b1 = b\<lparr> m_last_arrival_time := L \<rparr>"
proof -
  have "b1 = b \<or> m_last_arrival_time b < now \<and> b1 = b\<lparr> m_last_arrival_time := now \<rparr>"
    using assms by (auto simp: arrival_of_def Let_def split: if_splits)
  then show ?thesis
  proof
    assume "b1 = b"
    then show ?thesis by (intro exI [of _ "m_last_arrival_time b"]) (cases b, simp)
  qed (auto intro!: exI [of _ now])
qed

definition stamped :: "'b Message \<Rightarrow> Tick \<Rightarrow> nat \<Rightarrow> Tick \<Rightarrow> 'b Message" where
  "stamped m d n arr = m\<lparr> m_DelayedTicks := d, m_LastEnqueueTime := arr, msg_counter := n \<rparr>"

lemma stamped_sel [simp]:
  "due_of (stamped m d n arr) = Due arr n" "msg_body (stamped m d n arr) = msg_body m"
  "m_LastEnqueueTime (stamped m d n arr) = arr" "msg_counter (stamped m d n arr) = n"
  by (simp_all add: stamped_def due_of_def)

text \<open>A successful insertion puts the message with its arrival time and number into the heap.\<close>

lemma mb_enqueue_E:
  assumes "mb_enqueue rng m now delta rnd warm byp b = Inr b'"
  obtains arr d L w where
    "now \<le> arr" "m_last_arrival_time b \<le> L"
    "m_strict_fifo b \<Longrightarrow> \<not> byp \<Longrightarrow> \<not> m_last_message_strict_fifo_bypassed b \<Longrightarrow> L \<le> arr"
    "b' = b\<lparr> m_time_last_time_enqueue := max (m_time_last_time_enqueue b) now,
       m_msgs_this_cycle := trunc32 ((if m_time_last_time_enqueue b < now then 0 else m_msgs_this_cycle b) + 1),
       m_msg_counter := (m_msg_counter b + 1) mod 2 ^ 64,
       m_prio_heap := push_heap due_of (m_prio_heap b @ [stamped m d ((m_msg_counter b + 1) mod 2 ^ 64) arr]),
       m_last_arrival_time := (if warm then L else arr), m_last_message_strict_fifo_bypassed := byp,
       m_num_msgs := trunc16 (m_num_msgs b + 1), m_wakeups := w \<rparr>"
proof -
  obtain arr b1 where a: "arrival_of rng now delta rnd (count_enqueue now b) = (arr, b1)" by fastforce
  obtain L where L: "m_last_arrival_time b \<le> L" "b1 = (count_enqueue now b)\<lparr> m_last_arrival_time := L \<rparr>"
    using arrival_of_eq [OF a] by (auto simp: count_enqueue_eq)
  define d where "d = m_DelayedTicks m + (now - m_LastEnqueueTime m)"
  define w where "w = m_wakeups b @ [At arr]"
  have g: "now \<le> arr" "m_strict_fifo b1 \<longrightarrow> \<not> byp \<longrightarrow> \<not> m_last_message_strict_fifo_bypassed b1 \<longrightarrow> L \<le> arr"
    "m_LastEnqueueTime m \<le> now"
    using assms L(2) unfolding mb_enqueue_def a by (auto split: if_splits)
  have "b' = push_msg (stamped m d (m_msg_counter b1) arr) (b1\<lparr> m_last_arrival_time := (if warm then m_last_arrival_time b1 else arr),
          m_last_message_strict_fifo_bypassed := byp, m_num_msgs := trunc16 (m_num_msgs b1 + 1) \<rparr>)
        \<lparr> m_wakeups := m_wakeups b1 @ [At arr] \<rparr>"
    using assms g(3) unfolding mb_enqueue_def a
    by (simp add: Let_def schedule_consumer_def updateDelayedTicks_def stamped_def d_def push_msg_def split: if_splits)
  then have "b' = b\<lparr> m_time_last_time_enqueue := max (m_time_last_time_enqueue b) now,
       m_msgs_this_cycle := trunc32 ((if m_time_last_time_enqueue b < now then 0 else m_msgs_this_cycle b) + 1),
       m_msg_counter := (m_msg_counter b + 1) mod 2 ^ 64,
       m_prio_heap := push_heap due_of (m_prio_heap b @ [stamped m d ((m_msg_counter b + 1) mod 2 ^ 64) arr]),
       m_last_arrival_time := (if warm then L else arr), m_last_message_strict_fifo_bypassed := byp,
       m_num_msgs := trunc16 (m_num_msgs b + 1), m_wakeups := w \<rparr>"
    unfolding L(2) by (simp add: count_enqueue_eq push_msg_def w_def)
  then show ?thesis using that [OF g(1) L(1)] g(2) unfolding L(2) by (simp add: count_enqueue_eq)
qed

lemma mb_dequeue_E:
  assumes "mb_dequeue now dec b = Inr (delay, m, b')"
  obtains m0 h d c where
    "m_prio_heap b = m0 # h" "m_LastEnqueueTime m0 \<le> now" "m = m0\<lparr> m_DelayedTicks := d \<rparr>"
    "m_time_last_time_pop b \<le> now"
    "b' = (count_dequeue now b)\<lparr> m_prio_heap := butlast (pop_heap due_of (m_prio_heap b)),
       m_num_msgs := (if dec then sub16 (m_num_msgs b) 1 else m_num_msgs b), m_callbacks := c \<rparr>"
proof -
  obtain m0 h where h: "m_prio_heap b = m0 # h" "m_LastEnqueueTime m0 \<le> now" "m_time_last_time_pop b \<le> now"
    "mb_isReady now b = Inr (True, b)"
    using assms by (auto simp: mb_dequeue_def mb_isReady_def schedule_consumer_def Let_def
        split: if_splits list.splits elim!: rbind_Inr_E)
  define b1 where "b1 = pop_msg (count_dequeue now b)"
  define b2 where "b2 = (if dec then b1\<lparr> m_num_msgs := sub16 (m_num_msgs b1) 1 \<rparr> else b1)"
  define d where "d = m_DelayedTicks m0 + (now - m_LastEnqueueTime m0)"
  have r: "m = m0\<lparr> m_DelayedTicks := d \<rparr>" "b' = (if m_dequeue_callback b2 then b2\<lparr> m_callbacks := m_callbacks b2 + 1 \<rparr> else b2)"
    using assms h unfolding b2_def b1_def
    by (auto simp: mb_dequeue_def mb_front_def updateDelayedTicks_def Let_def d_def)
  have b1: "b1 = (count_dequeue now b)\<lparr> m_prio_heap := butlast (pop_heap due_of (m_prio_heap b)), m_num_msgs := m_num_msgs b \<rparr>"
    by (simp add: b1_def pop_msg_def count_dequeue_eq [OF h(3)])
  then have b2: "b2 = (count_dequeue now b)\<lparr> m_prio_heap := butlast (pop_heap due_of (m_prio_heap b)),
      m_num_msgs := (if dec then sub16 (m_num_msgs b) 1 else m_num_msgs b) \<rparr>" by (simp add: b2_def)
  define c where "c = (if m_dequeue_callback b2 then m_callbacks b2 + 1 else m_callbacks b2)"
  have "b' = b2\<lparr> m_callbacks := c \<rparr>" using r(2) by (simp add: c_def)
  then show ?thesis using that [OF h(1,2) r(1) h(3)] b2 by simp
qed

section \<open>Occupancy\<close>

definition stalled_count :: "'b MessageBuffer \<Rightarrow> nat" where
  "stalled_count b = sum_list (map (\<lambda>x. length (snd x)) (m_stall_msg_map b))"

definition mb_total :: "'b MessageBuffer \<Rightarrow> nat" where
  "mb_total b = length (m_prio_heap b) + stalled_count b"

text \<open>
  The bookkeeping of a bounded buffer: after a pop in the current cycle the size at the start of the
  cycle, with the insertions of the cycle, bounds the real occupancy.
\<close>

definition room_inv :: "'b MessageBuffer \<Rightarrow> bool" where
  "room_inv b \<longleftrightarrow> mb_total b \<le> m_max_size b \<and> m_size_at_cycle_start b \<le> m_max_size b \<and>
     m_stalled_at_cycle_start b \<le> m_max_size b \<and> m_msgs_this_cycle b \<le> m_max_size b \<and>
     (m_time_last_time_pop b < m_time_last_time_enqueue b \<longrightarrow> m_msgs_this_cycle b \<le> mb_total b) \<and>
     (m_time_last_time_enqueue b < m_time_last_time_pop b \<longrightarrow>
        mb_total b \<le> m_size_at_cycle_start b + m_stalled_at_cycle_start b) \<and>
     (m_time_last_time_enqueue b = m_time_last_time_pop b \<longrightarrow>
        mb_total b \<le> m_size_at_cycle_start b + m_stalled_at_cycle_start b + m_msgs_this_cycle b)"

definition mb_inv :: "Tick \<Rightarrow> 'b MessageBuffer \<Rightarrow> bool" where
  "mb_inv now b \<longleftrightarrow> is_heap due_of (m_prio_heap b) \<and> sorted_wrt (<) (map fst (m_stall_msg_map b)) \<and>
     m_stall_map_size b = int (stalled_count b) \<and> m_num_msgs b = trunc16 (mb_total b) \<and>
     m_time_last_time_enqueue b \<le> now \<and> m_time_last_time_pop b \<le> now \<and>
     (m_max_size b \<noteq> 0 \<longrightarrow> m_max_size b < 2 ^ 30 \<longrightarrow> room_inv b)"

lemma mb_invD:
  assumes "mb_inv now b"
  shows "is_heap due_of (m_prio_heap b)" "m_stall_map_size b = int (stalled_count b)"
    "m_num_msgs b = trunc16 (mb_total b)" "m_time_last_time_enqueue b \<le> now" "m_time_last_time_pop b \<le> now"
    "m_max_size b \<noteq> 0 \<Longrightarrow> m_max_size b < 2 ^ 30 \<Longrightarrow> room_inv b" "sorted_wrt (<) (map fst (m_stall_msg_map b))"
  using assms by (simp_all add: mb_inv_def)

lemma mb_inv_later: "mb_inv now b \<Longrightarrow> now \<le> now' \<Longrightarrow> mb_inv now' b"
  by (auto simp: mb_inv_def)

text \<open>The parameters of a buffer, which no operation changes.\<close>

definition mb_conf :: "'b MessageBuffer \<Rightarrow> nat \<times> bool \<times> MessageRandomization \<times> bool \<times> bool \<times> nat" where
  "mb_conf b = (m_max_size b, m_strict_fifo b, m_randomization b, m_allow_zero_latency b, m_consumer b, m_max_dequeue_rate b)"

text \<open>The check of the producers is safe.\<close>

lemma slots_room:
  assumes "mb_inv now b" and "areNSlotsAvailable n now b" and "m_max_size b \<noteq> 0" and "m_max_size b < 2 ^ 30" and "n < 2 ^ 30"
  shows "mb_total b + n \<le> m_max_size b"
    and "m_time_last_time_pop b = now \<Longrightarrow>
      m_size_at_cycle_start b + m_stalled_at_cycle_start b + n +
        (if m_time_last_time_enqueue b < now then 0 else m_msgs_this_cycle b) \<le> m_max_size b"
proof -
  note inv = mb_invD [OF assms(1)]
  note r = inv(6) [OF assms(3,4), unfolded room_inv_def]
  have "mb_total b + n \<le> m_max_size b \<and> (m_time_last_time_pop b = now \<longrightarrow>
      m_size_at_cycle_start b + m_stalled_at_cycle_start b + n +
        (if m_time_last_time_enqueue b < now then 0 else m_msgs_this_cycle b) \<le> m_max_size b)"
  proof (cases "m_time_last_time_pop b < now")
    case True
    have "length (m_prio_heap b) < 2 ^ 30" "stalled_count b < 2 ^ 30" using r assms(4) by (simp_all add: mb_total_def)
    then show ?thesis using True assms(2-5) by (simp add: areNSlotsAvailable_def inv(2) mb_total_def nat_mod_as_int)
  next
    case False
    then have now: "m_time_last_time_pop b = now" using inv(5) by simp
    show ?thesis
    proof (cases "m_time_last_time_enqueue b < now")
      case True
      then show ?thesis using now r assms(2-5) by (simp add: areNSlotsAvailable_def)
    next
      case False
      then have "m_time_last_time_enqueue b = now" using inv(4) by simp
      then show ?thesis using now r assms(2-5) by (simp add: areNSlotsAvailable_def)
    qed
  qed
  then show "mb_total b + n \<le> m_max_size b" and "m_time_last_time_pop b = now \<Longrightarrow>
      m_size_at_cycle_start b + m_stalled_at_cycle_start b + n +
        (if m_time_last_time_enqueue b < now then 0 else m_msgs_this_cycle b) \<le> m_max_size b" by simp_all
qed

lemma trunc16_Suc: "trunc16 (trunc16 n + 1) = trunc16 (n + 1)"
  by (simp add: trunc16_def mod_Suc_eq)

lemma enqueue_inv:
  assumes inv: "mb_inv now b" and avail: "areNSlotsAvailable 1 now b"
    and e: "mb_enqueue rng m now delta rnd warm byp b = Inr b'"
  shows "mb_inv now b'" and "mb_total b' = mb_total b + 1" and "mb_conf b' = mb_conf b"
proof -
  obtain arr d L w where b': "b' = b\<lparr> m_time_last_time_enqueue := max (m_time_last_time_enqueue b) now,
       m_msgs_this_cycle := trunc32 ((if m_time_last_time_enqueue b < now then 0 else m_msgs_this_cycle b) + 1),
       m_msg_counter := (m_msg_counter b + 1) mod 2 ^ 64,
       m_prio_heap := push_heap due_of (m_prio_heap b @ [stamped m d ((m_msg_counter b + 1) mod 2 ^ 64) arr]),
       m_last_arrival_time := (if warm then L else arr), m_last_message_strict_fifo_bypassed := byp,
       m_num_msgs := trunc16 (m_num_msgs b + 1), m_wakeups := w \<rparr>"
    using mb_enqueue_E [OF e] by metis
  note i = mb_invD [OF inv]
  show "mb_conf b' = mb_conf b" by (simp add: b' mb_conf_def)
  show t: "mb_total b' = mb_total b + 1"
    using heap.length_ins [OF i(1)] by (simp add: mb_total_def stalled_count_def b')
  have s: "stalled_count b' = stalled_count b" by (simp add: stalled_count_def b')
  have "room_inv b'" if max: "m_max_size b \<noteq> 0" "m_max_size b < 2 ^ 30"
  proof -
    note r = i(6) [OF max, unfolded room_inv_def]
    note room = slots_room [OF inv avail max]
    have n: "m_msgs_this_cycle b' = (if m_time_last_time_enqueue b < now then 0 else m_msgs_this_cycle b) + 1"
      using r max(2) by (simp add: b')
    show ?thesis
    proof (cases "m_time_last_time_pop b = now")
      case True
      then show ?thesis using r room(1) room(2) i(4,5) t unfolding room_inv_def n by (auto simp: b' max_def)
    next
      case False
      then have "m_time_last_time_pop b < now" using i(5) by simp
      then show ?thesis using r room(1) i(4,5) t unfolding room_inv_def n by (auto simp: b' max_def)
    qed
  qed
  then show "mb_inv now b'"
    using i heap.ordered_ins [OF i(1)] t trunc16_Suc [of "mb_total b"] unfolding mb_inv_def s
    by (simp add: b')
qed

lemma slots_after_enqueue:
  assumes "mb_inv now b" and "areNSlotsAvailable (Suc n) now b" and "Suc n < 2 ^ 30" and "m_max_size b < 2 ^ 30"
    and "mb_enqueue rng m now delta rnd warm byp b = Inr b'"
  shows "areNSlotsAvailable n now b'"
proof (cases "m_max_size b = 0")
  case True
  then show ?thesis by (auto simp: areNSlotsAvailable_def intro: mb_enqueue_E [OF assms(5)])
next
  case False
  note i = mb_invD [OF assms(1)]
  note r = slots_room [OF assms(1,2) False assms(4,3)]
  obtain arr d L w where b': "b' = b\<lparr> m_time_last_time_enqueue := max (m_time_last_time_enqueue b) now,
       m_msgs_this_cycle := trunc32 ((if m_time_last_time_enqueue b < now then 0 else m_msgs_this_cycle b) + 1),
       m_msg_counter := (m_msg_counter b + 1) mod 2 ^ 64,
       m_prio_heap := push_heap due_of (m_prio_heap b @ [stamped m d ((m_msg_counter b + 1) mod 2 ^ 64) arr]),
       m_last_arrival_time := (if warm then L else arr), m_last_message_strict_fifo_bypassed := byp,
       m_num_msgs := trunc16 (m_num_msgs b + 1), m_wakeups := w \<rparr>"
    using mb_enqueue_E [OF assms(5)] by metis
  have len: "length (m_prio_heap b') = length (m_prio_heap b) + 1" using heap.length_ins [OF i(1)] by (simp add: b')
  show ?thesis
  proof (cases "m_time_last_time_pop b < now")
    case True
    then show ?thesis using r(1) assms(4) len i(2) by (simp add: areNSlotsAvailable_def b' mb_total_def nat_mod_as_int)
  next
    case False
    then have "m_time_last_time_pop b = now" using i(5) by simp
    then show ?thesis using r(2) assms(4) i(4) by (simp add: areNSlotsAvailable_def b' max_def split: if_splits)
  qed
qed

lemma slots_fewer:
  assumes "mb_inv now b" and "areNSlotsAvailable n now b" and "n < 2 ^ 30" and "m_max_size b < 2 ^ 30" and "k \<le> n"
  shows "areNSlotsAvailable k now b"
proof (cases "m_max_size b = 0")
  case False
  note i = mb_invD [OF assms(1)] and r = slots_room [OF assms(1,2) False assms(4,3)]
  show ?thesis
  proof (cases "m_time_last_time_pop b < now")
    case True
    then show ?thesis using r(1) assms(4,5) i(2) by (simp add: areNSlotsAvailable_def mb_total_def nat_mod_as_int)
  next
    case f: False
    then have "m_time_last_time_pop b = now" using i(5) by simp
    then show ?thesis using r(2) assms(4,5) i(4) by (simp add: areNSlotsAvailable_def split: if_splits)
  qed
qed (simp add: areNSlotsAvailable_def)

text \<open>As long as nothing was popped in the current cycle the check is exact.\<close>

lemma slots_exact:
  assumes "mb_inv now b" and "m_time_last_time_pop b < now" and "m_max_size b \<noteq> 0" and "m_max_size b < 2 ^ 30" and "n < 2 ^ 30"
  shows "areNSlotsAvailable n now b \<longleftrightarrow> mb_total b + n \<le> m_max_size b"
proof
  assume "mb_total b + n \<le> m_max_size b"
  then show "areNSlotsAvailable n now b"
    using assms(2-5) mb_invD(2) [OF assms(1)] by (simp add: areNSlotsAvailable_def mb_total_def nat_mod_as_int)
qed (rule slots_room(1) [OF assms(1) _ assms(3-5)])

lemma trunc16_pred: "0 < n \<Longrightarrow> sub16 (trunc16 n) 1 = trunc16 (n - 1)"
  by (cases n) (auto simp: sub16_def trunc16_def mod_Suc)

text \<open>
  A pop that counts the message out, and a pop that moves it to the stall map: the latter leaves the
  occupancy as it was.
\<close>

lemma pop_room:
  assumes inv: "mb_inv now b" and h: "m_prio_heap b \<noteq> []" and max: "m_max_size b \<noteq> 0" "m_max_size b < 2 ^ 30"
    and b': "m_time_last_time_enqueue b' = m_time_last_time_enqueue b" "m_msgs_this_cycle b' = m_msgs_this_cycle b"
      "m_max_size b' = m_max_size b" "m_time_last_time_pop b' = now"
      "m_size_at_cycle_start b' = m_size_at_cycle_start (count_dequeue now b)"
      "m_stalled_at_cycle_start b' = m_stalled_at_cycle_start (count_dequeue now b)"
      "mb_total b' \<le> mb_total b"
  shows "room_inv b'"
proof -
  note i = mb_invD [OF inv]
  note r = i(6) [OF max, unfolded room_inv_def]
  have l: "length (m_prio_heap b) < 2 ^ 30" "stalled_count b < 2 ^ 30" using r max(2) by (simp_all add: mb_total_def)
  have start: "m_size_at_cycle_start b' = (if m_time_last_time_pop b < now then length (m_prio_heap b) else m_size_at_cycle_start b)"
    "m_stalled_at_cycle_start b' = (if m_time_last_time_pop b < now then stalled_count b else m_stalled_at_cycle_start b)"
    using l unfolding b' count_dequeue_eq [OF i(5)] by (simp_all add: i(2) nat_mod_as_int)
  show ?thesis
  proof (cases "m_time_last_time_pop b < now")
    case True
    then show ?thesis using r i(4) b'(7) unfolding room_inv_def start b'(1-4) by (auto simp: mb_total_def)
  next
    case False
    then have "m_time_last_time_pop b = now" using i(5) by simp
    then show ?thesis using r i(4) b'(7) unfolding room_inv_def start b'(1-4) by auto
  qed
qed

lemma dequeue_inv:
  assumes inv: "mb_inv now b" and d: "mb_dequeue now True b = Inr (delay, m, b')"
  shows "mb_inv now b'" and "mb_total b' + 1 = mb_total b" and "mb_conf b' = mb_conf b"
proof -
  note i = mb_invD [OF inv]
  obtain m0 h c where h: "m_prio_heap b = m0 # h"
    and b': "b' = (count_dequeue now b)\<lparr> m_prio_heap := butlast (pop_heap due_of (m_prio_heap b)),
       m_num_msgs := sub16 (m_num_msgs b) 1, m_callbacks := c \<rparr>"
    by (rule mb_dequeue_E [OF d]) simp
  have ne: "m_prio_heap b \<noteq> []" using h by simp
  have sel: "m_prio_heap b' = butlast (pop_heap due_of (m_prio_heap b))" "m_num_msgs b' = sub16 (m_num_msgs b) 1"
    "m_stall_msg_map b' = m_stall_msg_map b" "m_stall_map_size b' = m_stall_map_size b" "m_max_size b' = m_max_size b"
    "m_time_last_time_enqueue b' = m_time_last_time_enqueue b" "m_msgs_this_cycle b' = m_msgs_this_cycle b"
    "m_time_last_time_pop b' = now" "m_size_at_cycle_start b' = m_size_at_cycle_start (count_dequeue now b)"
    "m_stalled_at_cycle_start b' = m_stalled_at_cycle_start (count_dequeue now b)"
    by (simp_all add: b' count_dequeue_eq [OF i(5)])
  show "mb_conf b' = mb_conf b" by (simp add: b' count_dequeue_eq [OF i(5)] mb_conf_def)
  show t: "mb_total b' + 1 = mb_total b"
    using heap.length_rest [OF i(1) ne] by (simp add: mb_total_def stalled_count_def sel)
  have "room_inv b'" if "m_max_size b \<noteq> 0" "m_max_size b < 2 ^ 30"
    by (rule pop_room [OF inv ne that]) (use t in \<open>simp_all add: sel\<close>)
  moreover have "sub16 (m_num_msgs b) 1 = trunc16 (mb_total b')"
    using trunc16_pred [of "mb_total b"] t i(3) by (metis add_diff_cancel_right' less_add_one not_gr_zero add_is_0 zero_neq_one)
  ultimately show "mb_inv now b'"
    using i heap.ordered_rest [OF i(1) ne] by (simp add: mb_inv_def sel stalled_count_def)
qed

lemma stall_put_count:
  "sum_list (map (\<lambda>x. length (snd x)) (stall_put a m al)) = sum_list (map (\<lambda>x. length (snd x)) al) + 1"
  by (induction a m al rule: stall_put.induct) auto

lemma stall_put_keys: "set (map fst (stall_put a m al)) = insert a (set (map fst al))"
  by (induction a m al rule: stall_put.induct) auto

lemma stall_put_sorted: "sorted_wrt (<) (map fst al) \<Longrightarrow> sorted_wrt (<) (map fst (stall_put a m al))"
proof (induction a m al rule: stall_put.induct)
  case (2 a m k ms al)
  then show ?case using stall_put_keys [of a m al] by auto
qed simp

lemma stall_inv:
  assumes inv: "mb_inv now b" and s: "stallMessage a now b = Inr b'"
  shows "mb_inv now b'" and "mb_total b' = mb_total b" and "mb_conf b' = mb_conf b"
proof -
  note i = mb_invD [OF inv]
  obtain delay m b1 where d: "mb_dequeue now False b = Inr (delay, m, b1)"
    and b1: "b' = b1\<lparr> m_stall_msg_map := stall_put a m (m_stall_msg_map b1), m_stall_map_size := m_stall_map_size b1 + 1 \<rparr>"
    using s by (auto simp: stallMessage_def mb_isReady_def schedule_consumer_def Let_def
        split: if_splits list.splits elim!: rbind_Inr_E)
  obtain m0 h c where h: "m_prio_heap b = m0 # h"
    and b1': "b1 = (count_dequeue now b)\<lparr> m_prio_heap := butlast (pop_heap due_of (m_prio_heap b)),
       m_num_msgs := m_num_msgs b, m_callbacks := c \<rparr>"
    by (rule mb_dequeue_E [OF d]) simp
  have ne: "m_prio_heap b \<noteq> []" using h by simp
  have sel: "m_prio_heap b' = butlast (pop_heap due_of (m_prio_heap b))" "m_num_msgs b' = m_num_msgs b"
    "m_stall_msg_map b' = stall_put a m (m_stall_msg_map b)" "m_stall_map_size b' = m_stall_map_size b + 1" "m_max_size b' = m_max_size b"
    "m_time_last_time_enqueue b' = m_time_last_time_enqueue b" "m_msgs_this_cycle b' = m_msgs_this_cycle b"
    "m_time_last_time_pop b' = now" "m_size_at_cycle_start b' = m_size_at_cycle_start (count_dequeue now b)"
    "m_stalled_at_cycle_start b' = m_stalled_at_cycle_start (count_dequeue now b)"
    by (simp_all add: b1 b1' count_dequeue_eq [OF i(5)])
  have sc: "stalled_count b' = stalled_count b + 1" by (simp add: stalled_count_def sel stall_put_count)
  show "mb_conf b' = mb_conf b" by (simp add: b1 b1' count_dequeue_eq [OF i(5)] mb_conf_def)
  show t: "mb_total b' = mb_total b"
    using heap.length_rest [OF i(1) ne] by (simp add: mb_total_def sc sel)
  have "room_inv b'" if "m_max_size b \<noteq> 0" "m_max_size b < 2 ^ 30"
    by (rule pop_room [OF inv ne that]) (use t in \<open>simp_all add: sel\<close>)
  then show "mb_inv now b'"
    using i heap.ordered_rest [OF i(1) ne] stall_put_sorted [OF i(7), of a m] t by (simp add: mb_inv_def sel sc)
qed

text \<open>Moving messages back to the heap, and delaying the head, keep the bookkeeping.\<close>

lemma room_inv_cong:
  "mb_total b' = mb_total b \<Longrightarrow> m_max_size b' = m_max_size b \<Longrightarrow> m_size_at_cycle_start b' = m_size_at_cycle_start b \<Longrightarrow>
   m_stalled_at_cycle_start b' = m_stalled_at_cycle_start b \<Longrightarrow> m_msgs_this_cycle b' = m_msgs_this_cycle b \<Longrightarrow>
   m_time_last_time_pop b' = m_time_last_time_pop b \<Longrightarrow> m_time_last_time_enqueue b' = m_time_last_time_enqueue b \<Longrightarrow>
   room_inv b' = room_inv b"
  by (simp add: room_inv_def)

lemma reanalyzeList_E:
  assumes "reanalyzeList now ms b = Inr b'" and "is_heap due_of (m_prio_heap b)"
  shows "\<exists>h w. b' = b\<lparr> m_prio_heap := h, m_wakeups := w \<rparr> \<and> is_heap due_of h \<and> mset h = mset (m_prio_heap b) + mset ms"
  using assms
proof (induction ms arbitrary: b)
  case Nil
  then show ?case by (intro exI [of _ "m_prio_heap b"] exI [of _ "m_wakeups b"]) simp
next
  case (Cons m ms)
  obtain b1 where b1: "schedule_consumer (At now) (push_msg m b) = Inr b1" "reanalyzeList now ms b1 = Inr b'"
    using Cons.prems(1) by (auto split: if_splits elim!: rbind_Inr_E)
  then have b1': "b1 = b\<lparr> m_prio_heap := push_heap due_of (m_prio_heap b @ [m]), m_wakeups := m_wakeups b @ [At now] \<rparr>"
    by (auto simp: schedule_consumer_def push_msg_def split: if_splits)
  have "is_heap due_of (m_prio_heap b1)" using heap.ordered_ins [OF Cons.prems(2)] by (simp add: b1')
  from Cons.IH [OF b1(2) this] show ?case using heap.mset_ins [OF Cons.prems(2), of m] by (auto simp: b1')
qed

lemma stalled_erase:
  fixes al :: "(Addr \<times> 'm list) list"
  shows "sorted_wrt (<) (map fst al) \<Longrightarrow> map_of al a = Some ms \<Longrightarrow>
   sum_list (map (\<lambda>x. length (snd x)) (filter (\<lambda>(k, _). k \<noteq> a) al)) + length ms = sum_list (map (\<lambda>x. length (snd x)) al)"
proof (induction al)
  case (Cons x al)
  have "filter (\<lambda>(k, _). k \<noteq> a) al = al" if "fst x = a"
  proof (rule filter_True)
    have "\<forall>y \<in> set al. a < fst y" using Cons.prems(1) that by simp
    then show "\<forall>y \<in> set al. case y of (k, _) \<Rightarrow> k \<noteq> a" by fastforce
  qed
  then show ?case using Cons by (cases x) (auto split: if_splits)
qed simp

lemma sorted_erase: "sorted_wrt (<) (map fst al) \<Longrightarrow> sorted_wrt (<) (map fst (filter P al))"
  by (induction al) auto

lemma reanalyze_key_E:
  assumes "reanalyze_key now ms b = Inr b'" and "is_heap due_of (m_prio_heap b)"
  shows "\<exists>h w. b' = b\<lparr> m_stall_map_size := m_stall_map_size b - int (length ms), m_prio_heap := h, m_wakeups := w \<rparr> \<and>
    is_heap due_of h \<and> mset h = mset (m_prio_heap b) + mset ms"
  using assms reanalyzeList_E [of now ms "b\<lparr> m_stall_map_size := m_stall_map_size b - int (length ms) \<rparr>" b']
  by (auto simp: reanalyze_key_def Let_def split: if_splits)

definition same_books :: "'b MessageBuffer \<Rightarrow> 'b MessageBuffer \<Rightarrow> bool" where
  "same_books b b' \<longleftrightarrow> mb_total b' = mb_total b \<and> m_num_msgs b' = m_num_msgs b \<and> m_max_size b' = m_max_size b \<and>
     m_size_at_cycle_start b' = m_size_at_cycle_start b \<and> m_stalled_at_cycle_start b' = m_stalled_at_cycle_start b \<and>
     m_msgs_this_cycle b' = m_msgs_this_cycle b \<and> m_time_last_time_pop b' = m_time_last_time_pop b \<and>
     m_time_last_time_enqueue b' = m_time_last_time_enqueue b"

lemma mb_inv_moved:
  assumes "mb_inv now b" and "same_books b b'" and "is_heap due_of (m_prio_heap b')"
    and "sorted_wrt (<) (map fst (m_stall_msg_map b'))" and "m_stall_map_size b' = int (stalled_count b')"
  shows "mb_inv now b'"
  using assms room_inv_cong [of b' b] unfolding mb_inv_def same_books_def by simp

lemma reanalyze_inv:
  assumes inv: "mb_inv now b" and r: "reanalyzeMessages a now b = Inr b'"
  shows "mb_inv now b'" and "mb_total b' = mb_total b" and "mb_conf b' = mb_conf b"
proof -
  note i = mb_invD [OF inv]
  obtain ms b1 where ms: "map_of (m_stall_msg_map b) a = Some ms" "reanalyze_key now ms b = Inr b1"
    "b' = b1\<lparr> m_stall_msg_map := filter (\<lambda>(k, _). k \<noteq> a) (m_stall_msg_map b1) \<rparr>"
    using r by (auto simp: reanalyzeMessages_def split: option.splits elim!: rbind_Inr_E)
  obtain h w where h: "b1 = b\<lparr> m_stall_map_size := m_stall_map_size b - int (length ms), m_prio_heap := h, m_wakeups := w \<rparr>"
    "is_heap due_of h" "mset h = mset (m_prio_heap b) + mset ms"
    using reanalyze_key_E [OF ms(2) i(1)] by blast
  have len: "length h = length (m_prio_heap b) + length ms" using arg_cong [OF h(3), of size] by simp
  have sc: "stalled_count b' + length ms = stalled_count b"
    using stalled_erase [OF i(7) ms(1)] by (simp add: stalled_count_def ms(3) h(1))
  then have "same_books b b'" using len by (simp add: same_books_def ms(3) h(1) mb_total_def)
  moreover have "m_stall_map_size b' = int (stalled_count b')" using sc i(2) by (simp add: ms(3) h(1))
  ultimately show "mb_inv now b'" and "mb_total b' = mb_total b" and "mb_conf b' = mb_conf b"
    using mb_inv_moved [OF inv, of b'] h(2) sorted_erase [OF i(7)] by (simp_all add: ms(3) h(1) same_books_def mb_conf_def)
qed

lemma reanalyze_all_E:
  assumes "reanalyze_all now al b = Inr b'" and "is_heap due_of (m_prio_heap b)"
  shows "\<exists>h w. b' = b\<lparr> m_stall_map_size := m_stall_map_size b - int (sum_list (map (\<lambda>x. length (snd x)) al)),
      m_prio_heap := h, m_wakeups := w \<rparr> \<and>
    is_heap due_of h \<and> length h = length (m_prio_heap b) + sum_list (map (\<lambda>x. length (snd x)) al)"
  using assms
proof (induction al arbitrary: b)
  case Nil
  then show ?case by (intro exI [of _ "m_prio_heap b"] exI [of _ "m_wakeups b"]) simp
next
  case (Cons x al)
  obtain a ms b1 where x: "x = (a, ms)" "reanalyze_key now ms b = Inr b1" "reanalyze_all now al b1 = Inr b'"
    using Cons.prems(1) by (cases x) (auto elim!: rbind_Inr_E)
  obtain h w where h: "b1 = b\<lparr> m_stall_map_size := m_stall_map_size b - int (length ms), m_prio_heap := h, m_wakeups := w \<rparr>"
    "is_heap due_of h" "mset h = mset (m_prio_heap b) + mset ms"
    using reanalyze_key_E [OF x(2) Cons.prems(2)] by blast
  have "length h = length (m_prio_heap b) + length ms" using arg_cong [OF h(3), of size] by simp
  then show ?case using Cons.IH [OF x(3)] h(1,2) by (auto simp: x(1) diff_diff_eq add.assoc)
qed

lemma reanalyzeAll_inv:
  assumes inv: "mb_inv now b" and r: "reanalyzeAllMessages now b = Inr b'"
  shows "mb_inv now b'" and "mb_total b' = mb_total b" and "mb_conf b' = mb_conf b"
proof -
  note i = mb_invD [OF inv]
  obtain b1 where b1: "reanalyze_all now (m_stall_msg_map b) b = Inr b1" "b' = b1\<lparr> m_stall_msg_map := [] \<rparr>"
    using r by (auto simp: reanalyzeAllMessages_def elim!: rbind_Inr_E)
  obtain h w where h: "b1 = b\<lparr> m_stall_map_size := m_stall_map_size b - int (stalled_count b), m_prio_heap := h, m_wakeups := w \<rparr>"
    "is_heap due_of h" "length h = length (m_prio_heap b) + stalled_count b"
    using reanalyze_all_E [OF b1(1) i(1)] unfolding stalled_count_def by blast
  have "same_books b b'" using h(3) by (simp add: same_books_def b1(2) h(1) mb_total_def stalled_count_def)
  then show "mb_inv now b'" and "mb_total b' = mb_total b" and "mb_conf b' = mb_conf b"
    using mb_inv_moved [OF inv, of b'] h(2) i(2) by (simp_all add: b1(2) h(1) same_books_def stalled_count_def mb_conf_def)
qed

lemma recycle_inv:
  assumes inv: "mb_inv now b" and r: "recycle now l b = Inr b'"
  shows "mb_inv now b'" and "mb_total b' = mb_total b" and "mb_conf b' = mb_conf b"
proof -
  note i = mb_invD [OF inv]
  obtain m h where h: "m_prio_heap b = m # h" "mb_isReady now b = Inr (True, b)"
    using r by (auto simp: recycle_def mb_isReady_def schedule_consumer_def Let_def
        split: if_splits list.splits elim!: rbind_Inr_E)
  define h' where "h' = push_heap due_of (butlast (pop_heap due_of (m_prio_heap b)) @ [m\<lparr> m_LastEnqueueTime := now + l \<rparr>])"
  have b': "b' = b\<lparr> m_prio_heap := h', m_wakeups := m_wakeups b @ [At (now + l)] \<rparr>"
    using r h by (auto simp: recycle_def mb_front_def schedule_consumer_def push_msg_def pop_msg_def h'_def split: if_splits)
  have ne: "m_prio_heap b \<noteq> []" using h(1) by simp
  note o = heap.ordered_rest [OF i(1) ne]
  have h': "is_heap due_of h'" "length h' = length (m_prio_heap b)"
    using heap.ordered_ins [OF o] heap.length_ins [OF o] heap.length_rest [OF i(1) ne] by (simp_all add: h'_def)
  then have "same_books b b'" by (simp add: same_books_def b' mb_total_def stalled_count_def)
  then show "mb_inv now b'" and "mb_total b' = mb_total b" and "mb_conf b' = mb_conf b"
    using mb_inv_moved [OF inv, of b'] h'(1) i(2,7) by (simp_all add: b' same_books_def stalled_count_def mb_conf_def)
qed

section \<open>Executions\<close>

text \<open>Time only grows; producers insert only after the capacity check.\<close>

inductive mb_step :: "Tick \<times> 'b MessageBuffer \<Rightarrow> Tick \<times> 'b MessageBuffer \<Rightarrow> bool" where
  mb_time: "now \<le> now' \<Longrightarrow> mb_step (now, b) (now', b)"
| mb_enq: "areNSlotsAvailable 1 now b \<Longrightarrow> mb_enqueue rng m now delta rnd warm byp b = Inr b' \<Longrightarrow> mb_step (now, b) (now, b')"
| mb_deq: "mb_dequeue now True b = Inr (delay, m, b') \<Longrightarrow> mb_step (now, b) (now, b')"
| mb_stall: "stallMessage a now b = Inr b' \<Longrightarrow> mb_step (now, b) (now, b')"
| mb_reanalyze: "reanalyzeMessages a now b = Inr b' \<Longrightarrow> mb_step (now, b) (now, b')"
| mb_reanalyze_all: "reanalyzeAllMessages now b = Inr b' \<Longrightarrow> mb_step (now, b) (now, b')"
| mb_recycle: "recycle now l b = Inr b' \<Longrightarrow> mb_step (now, b) (now, b')"

inductive_cases mb_stepE: "mb_step s s'"

definition mb_reach :: "'b MessageBuffer \<Rightarrow> Tick \<Rightarrow> 'b MessageBuffer \<Rightarrow> bool" where
  "mb_reach b0 now b \<longleftrightarrow> mb_step\<^sup>*\<^sup>* (0, b0) (now, b)"

lemma new_mb_inv: "mb_inv 0 (new_MessageBuffer n rate fifo rand zero)"
  by (simp add: mb_inv_def new_MessageBuffer_def is_heap_def stalled_count_def mb_total_def room_inv_def trunc16_def)

lemma mb_inv_consumer: "mb_inv now (b\<lparr> m_consumer := c \<rparr>) = mb_inv now b"
  by (simp add: mb_inv_def room_inv_def mb_total_def stalled_count_def)

lemma setConsumer_inv: "setConsumer b = Inr b' \<Longrightarrow> mb_inv now b \<Longrightarrow> mb_inv now b'"
  by (auto simp: setConsumer_def mb_inv_consumer split: if_splits)

lemma step_mb_inv:
  "mb_step s s' \<Longrightarrow> mb_inv (fst s) (snd s) \<Longrightarrow> mb_inv (fst s') (snd s') \<and> mb_conf (snd s') = mb_conf (snd s)"
proof (induction rule: mb_step.induct)
  case (mb_time now now' b)
  then show ?case by (auto intro: mb_inv_later)
next
  case (mb_enq now b rng m delta rnd warm byp b')
  then show ?case using enqueue_inv [OF _ mb_enq(1,2)] by simp
next
  case (mb_deq now b delay m b')
  then show ?case using dequeue_inv [OF _ mb_deq(1)] by simp
next
  case (mb_stall a now b b')
  then show ?case using stall_inv [OF _ mb_stall(1)] by simp
next
  case (mb_reanalyze a now b b')
  then show ?case using reanalyze_inv [OF _ mb_reanalyze(1)] by simp
next
  case (mb_reanalyze_all now b b')
  then show ?case using reanalyzeAll_inv [OF _ mb_reanalyze_all(1)] by simp
next
  case (mb_recycle now l b b')
  then show ?case using recycle_inv [OF _ mb_recycle(1)] by simp
qed

lemma reach_mb_inv:
  assumes "mb_reach b0 now b" and "mb_inv 0 b0"
  shows "mb_inv now b" and "mb_conf b = mb_conf b0"
proof -
  have "mb_inv (fst s') (snd s') \<and> mb_conf (snd s') = mb_conf (snd s)"
    if "mb_step\<^sup>*\<^sup>* s s'" "mb_inv (fst s) (snd s)" for s s' :: "Tick \<times> 'b MessageBuffer"
    using that by (induction rule: rtranclp_induct) (auto dest: step_mb_inv)
  from this [of "(0, b0)" "(now, b)"] assms show "mb_inv now b" and "mb_conf b = mb_conf b0"
    by (simp_all add: mb_reach_def)
qed

text \<open>The buffer as the setup leaves it: empty, with its consumer connected.\<close>

definition connected :: "nat \<Rightarrow> nat \<Rightarrow> bool \<Rightarrow> MessageRandomization \<Rightarrow> 'b MessageBuffer" where
  "connected buffer_size rate fifo rand = (new_MessageBuffer buffer_size rate fifo rand True)\<lparr> m_consumer := True \<rparr>"

lemma connected_inv: "mb_inv 0 (connected n rate fifo rand)" "mb_conf (connected n rate fifo rand) = (n, fifo, rand, True, True, rate)"
  by (simp_all add: connected_def mb_inv_consumer new_mb_inv) (simp add: new_MessageBuffer_def mb_conf_def)

definition sample_msg :: "nat Message" where
  "sample_msg = new_Message 0 7"

definition sample_filled_buffer :: "nat MessageBuffer" where
  "sample_filled_buffer = projr (mb_enqueue (0, 1, 1) sample_msg 0 5 False False False (connected 2 0 True rand_disabled))"

lemma sample_enqueue:
  "mb_enqueue (0, 1, 1) sample_msg 0 5 False False False (connected 2 0 True rand_disabled) = Inr sample_filled_buffer"
  "areNSlotsAvailable 1 0 (connected 2 0 True rand_disabled :: nat MessageBuffer)"
proof -
  have "push_heap due_of [x] = [x]" for x :: "nat Message" by (simp add: push_heap_def sift_up_stop)
  then show "mb_enqueue (0, 1, 1) sample_msg 0 5 False False False (connected 2 0 True rand_disabled) = Inr sample_filled_buffer"
    by (simp add: sample_filled_buffer_def mb_enqueue_def connected_def new_MessageBuffer_def arrival_of_def
        count_enqueue_def push_msg_def schedule_consumer_def updateDelayedTicks_def sample_msg_def new_Message_def)
  show "areNSlotsAvailable 1 0 (connected 2 0 True rand_disabled :: nat MessageBuffer)"
    by (simp add: areNSlotsAvailable_def connected_def new_MessageBuffer_def)
qed

lemma sample_buffer_reach: "mb_reach (connected 2 0 True rand_disabled) 0 sample_filled_buffer"
  unfolding mb_reach_def using mb_enq [OF sample_enqueue(2,1)] by blast

section \<open>Insertion without random delays\<close>

abbreviation no_random :: "bool \<Rightarrow> 'b MessageBuffer \<Rightarrow> bool" where
  "no_random rnd b \<equiv> m_randomization b = rand_disabled \<or> m_randomization b = rand_ruby_system \<and> \<not> rnd"

lemma plain_arrival:
  "no_random rnd b \<Longrightarrow> arrival_of rng now delta rnd (count_enqueue now b) = (now + delta, count_enqueue now b)"
  by (auto simp: arrival_of_def count_enqueue_eq)

text \<open>Insertion without random delays and without going back in time: it fails only for a full buffer.\<close>

lemma enqueue_on_time:
  assumes "mb_inv now b" and "no_random rnd b" and "m_allow_zero_latency b" and "m_consumer b"
    and "m_last_arrival_time b \<le> now + delta" and "m_LastEnqueueTime m \<le> now"
  shows "(\<exists>b'. mb_enqueue rng m now delta rnd warm False b = Inr b') \<longleftrightarrow> m_max_size b = 0 \<or> mb_total b + 1 \<le> m_max_size b"
    and "m_max_size b \<noteq> 0 \<Longrightarrow> m_max_size b \<le> mb_total b \<Longrightarrow>
      mb_enqueue rng m now delta rnd warm False b = Inl (Panic ''assert m_prio_heap.size() + m_stall_map_size <= m_max_size'')"
proof -
  note i = mb_invD [OF assms(1)]
  have len: "length (push_heap due_of (m_prio_heap b @ [x])) = length (m_prio_heap b) + 1" for x by (rule heap.length_ins [OF i(1)])
  note facts = assms(3-6) i(2) len
  show "(\<exists>b'. mb_enqueue rng m now delta rnd warm False b = Inr b') \<longleftrightarrow> m_max_size b = 0 \<or> mb_total b + 1 \<le> m_max_size b"
    using facts unfolding mb_enqueue_def plain_arrival [OF assms(2)]
    by (auto simp: updateDelayedTicks_def push_msg_def schedule_consumer_def mb_total_def count_enqueue_eq Let_def)
  show "mb_enqueue rng m now delta rnd warm False b = Inl (Panic ''assert m_prio_heap.size() + m_stall_map_size <= m_max_size'')"
    if "m_max_size b \<noteq> 0" "m_max_size b \<le> mb_total b"
    using facts that unfolding mb_enqueue_def plain_arrival [OF assms(2)]
    by (auto simp: updateDelayedTicks_def push_msg_def schedule_consumer_def mb_total_def count_enqueue_eq Let_def)
qed

lemma enqueue_plain:
  assumes "mb_enqueue rng m now delta rnd warm False b = Inr b'" and "no_random rnd b"
  shows "m_last_arrival_time b' = (if warm then m_last_arrival_time b else now + delta)"
    and "\<not> m_last_message_strict_fifo_bypassed b'" and "mb_conf b' = mb_conf b"
    and "m_time_last_time_enqueue b' = max (m_time_last_time_enqueue b) now" and "m_time_last_time_pop b' = m_time_last_time_pop b"
proof -
  show "m_last_arrival_time b' = (if warm then m_last_arrival_time b else now + delta)"
    using assms(1) unfolding mb_enqueue_def plain_arrival [OF assms(2)]
    by (auto simp: Let_def push_msg_def schedule_consumer_def updateDelayedTicks_def count_enqueue_eq split: if_splits)
qed (rule mb_enqueue_E [OF assms(1)], simp add: mb_conf_def)+

lemma enqueue_early:
  assumes "m_strict_fifo b" and "\<not> m_last_message_strict_fifo_bypassed b" and "m_allow_zero_latency b" and "no_random rnd b"
    and "now + delta < m_last_arrival_time b"
  shows "mb_enqueue rng m now delta rnd warm False b = Inl (Panic ''FIFO ordering violated'')"
  using assms by (auto simp: mb_enqueue_def arrival_of_def count_enqueue_eq)

text \<open>Several insertions at one time: the slot check is enough for all of them, and without a pop in this
  cycle it is also needed.\<close>

definition takes_messages :: "bool \<Rightarrow> Tick \<Rightarrow> Tick \<Rightarrow> 'b MessageBuffer \<Rightarrow> bool" where
  "takes_messages rnd now delta b \<longleftrightarrow> mb_inv now b \<and> no_random rnd b \<and> m_allow_zero_latency b \<and> m_consumer b \<and>
     m_last_arrival_time b \<le> now + delta \<and> m_max_size b \<noteq> 0 \<and> m_max_size b < 2 ^ 30"

lemma enqueue_next:
  assumes "takes_messages rnd now delta b" and "areNSlotsAvailable 1 now b" and "m_LastEnqueueTime m \<le> now"
  obtains b' where "mb_enqueue rng m now delta rnd warm False b = Inr b'" and "takes_messages rnd now delta b'"
    and "mb_total b' = mb_total b + 1" and "m_max_size b' = m_max_size b" and "m_time_last_time_pop b' = m_time_last_time_pop b"
proof -
  have b: "mb_inv now b" "no_random rnd b" "m_allow_zero_latency b" "m_consumer b" "m_last_arrival_time b \<le> now + delta"
    "m_max_size b \<noteq> 0" "m_max_size b < 2 ^ 30"
    using assms(1) by (simp_all add: takes_messages_def)
  have "mb_total b + 1 \<le> m_max_size b" using slots_room(1) [OF b(1) assms(2) b(6,7)] by simp
  then obtain b' where b': "mb_enqueue rng m now delta rnd warm False b = Inr b'"
    using enqueue_on_time(1) [OF b(1-5) assms(3)] by blast
  note e = enqueue_inv [OF b(1) assms(2) b'] and p = enqueue_plain [OF b' b(2)]
  have "takes_messages rnd now delta b'" using e p b by (auto simp: takes_messages_def mb_conf_def)
  then show thesis using that [OF b'] e(2,3) p(5) by (simp add: mb_conf_def)
qed

lemma enqueue_all_room:
  "takes_messages rnd now delta b \<Longrightarrow> areNSlotsAvailable (length ms) now b \<Longrightarrow> length ms < 2 ^ 30 \<Longrightarrow>
    \<forall>m \<in> set ms. m_LastEnqueueTime m \<le> now \<Longrightarrow>
    \<exists>b'. enqueue_all rngs ms now delta rnd warm b = Inr b' \<and> takes_messages rnd now delta b' \<and>
      mb_total b' = mb_total b + length ms \<and> m_max_size b' = m_max_size b"
proof (induction ms arbitrary: b rngs)
  case (Cons m ms)
  have b: "mb_inv now b" "m_max_size b < 2 ^ 30" using Cons.prems(1) by (simp_all add: takes_messages_def)
  have n: "areNSlotsAvailable (Suc (length ms)) now b" "Suc (length ms) < 2 ^ 30" using Cons.prems(2,3) by simp_all
  have "areNSlotsAvailable 1 now b" by (rule slots_fewer [OF b(1) n(1,2) b(2)]) simp
  then obtain b1 where b1: "mb_enqueue (case rngs of [] \<Rightarrow> (0, 1, 1) | r # _ \<Rightarrow> r) m now delta rnd warm False b = Inr b1"
    "takes_messages rnd now delta b1" "mb_total b1 = mb_total b + 1" "m_max_size b1 = m_max_size b"
    using enqueue_next [OF Cons.prems(1)] Cons.prems(4) by (metis list.set_intros(1))
  show ?case using Cons.IH [OF b1(2) slots_after_enqueue [OF b(1) n(1,2) b(2) b1(1)]] Cons.prems(3,4) b1 by simp
qed simp

lemma enqueue_all_full:
  "takes_messages rnd now delta b \<Longrightarrow> m_time_last_time_pop b < now \<Longrightarrow> mb_total b \<le> m_max_size b \<Longrightarrow>
    m_max_size b < mb_total b + length ms \<Longrightarrow> \<forall>m \<in> set ms. m_LastEnqueueTime m \<le> now \<Longrightarrow>
    enqueue_all rngs ms now delta rnd warm b = Inl (Panic ''assert m_prio_heap.size() + m_stall_map_size <= m_max_size'')"
proof (induction ms arbitrary: b rngs)
  case (Cons m ms)
  have b: "mb_inv now b" "no_random rnd b" "m_allow_zero_latency b" "m_consumer b" "m_last_arrival_time b \<le> now + delta"
    "m_max_size b \<noteq> 0" "m_max_size b < 2 ^ 30"
    using Cons.prems(1) by (simp_all add: takes_messages_def)
  have m: "m_LastEnqueueTime m \<le> now" using Cons.prems(5) by simp
  show ?case
  proof (cases "mb_total b + 1 \<le> m_max_size b")
    case True
    then have "areNSlotsAvailable 1 now b" using slots_exact [OF b(1) Cons.prems(2) b(6,7)] by simp
    then obtain b1 where b1: "mb_enqueue (case rngs of [] \<Rightarrow> (0, 1, 1) | r # _ \<Rightarrow> r) m now delta rnd warm False b = Inr b1"
      "takes_messages rnd now delta b1" "mb_total b1 = mb_total b + 1" "m_max_size b1 = m_max_size b"
      "m_time_last_time_pop b1 = m_time_last_time_pop b"
      using enqueue_next [OF Cons.prems(1) _ m] by metis
    show ?thesis using Cons.IH [OF b1(2)] Cons.prems(2,4,5) True b1 by simp
  next
    case False
    then show ?thesis using enqueue_on_time(2) [OF b(1-5) m b(6)] by simp
  qed
qed simp


lemma sample_filled_facts:
  "m_last_arrival_time sample_filled_buffer = 5" "m_time_last_time_pop sample_filled_buffer = 0"
  "length (m_prio_heap sample_filled_buffer) = 1" "m_stall_map_size sample_filled_buffer = 0" "m_max_size sample_filled_buffer = 2"
  by (simp_all add: sample_filled_buffer_def mb_enqueue_def connected_def new_MessageBuffer_def arrival_of_def
      count_enqueue_def push_msg_def schedule_consumer_def updateDelayedTicks_def sample_msg_def new_Message_def push_heap_def sift_up_stop)

lemma sample_slots: "areNSlotsAvailable 1 1 sample_filled_buffer" "\<not> areNSlotsAvailable 2 1 sample_filled_buffer"
  by (simp_all add: areNSlotsAvailable_def sample_filled_facts)


section \<open>First in, first out\<close>

text \<open>An ordered buffer with the messages handed in and the messages taken out.\<close>

record 'b fifo_trace =
  ft_now :: Tick
  ft_buf :: "'b MessageBuffer"
  ft_sent :: "'b list"
  ft_got :: "'b list"

inductive fifo_step :: "'b fifo_trace \<Rightarrow> 'b fifo_trace \<Rightarrow> bool" where
  fifo_time: "ft_now s \<le> now' \<Longrightarrow> fifo_step s (s\<lparr> ft_now := now' \<rparr>)"
| fifo_enq: "mb_enqueue rng m (ft_now s) delta rnd False False (ft_buf s) = Inr b' \<Longrightarrow>
    fifo_step s (s\<lparr> ft_buf := b', ft_sent := ft_sent s @ [msg_body m] \<rparr>)"
| fifo_deq: "mb_dequeue (ft_now s) True (ft_buf s) = Inr (delay, m, b') \<Longrightarrow>
    fifo_step s (s\<lparr> ft_buf := b', ft_got := ft_got s @ [msg_body m] \<rparr>)"

definition fifo_start :: "nat \<Rightarrow> nat \<Rightarrow> MessageRandomization \<Rightarrow> 'b fifo_trace" where
  "fifo_start n rate rand = \<lparr> ft_now = 0, ft_buf = connected n rate True rand, ft_sent = [], ft_got = [] \<rparr>"

definition fifo_reach :: "nat \<Rightarrow> nat \<Rightarrow> MessageRandomization \<Rightarrow> 'b fifo_trace \<Rightarrow> bool" where
  "fifo_reach n rate rand s \<longleftrightarrow> fifo_step\<^sup>*\<^sup>* (fifo_start n rate rand) s"

text \<open>The heap holds the messages of an abstract queue whose due times increase.\<close>

definition fifo_queue :: "'b MessageBuffer \<Rightarrow> 'b Message list \<Rightarrow> bool" where
  "fifo_queue b q \<longleftrightarrow> is_heap due_of (m_prio_heap b) \<and> mset (m_prio_heap b) = mset q \<and>
     sorted_wrt (\<lambda>x y. due_of x < due_of y) q \<and>
     (\<forall>x \<in> set q. m_LastEnqueueTime x \<le> m_last_arrival_time b \<and> msg_counter x \<le> m_msg_counter b)"

definition fifo_inv :: "nat \<Rightarrow> 'b fifo_trace \<Rightarrow> bool" where
  "fifo_inv rate s \<longleftrightarrow> m_strict_fifo (ft_buf s) \<and> \<not> m_last_message_strict_fifo_bypassed (ft_buf s) \<and>
     m_max_dequeue_rate (ft_buf s) = rate \<and> m_time_last_time_pop (ft_buf s) \<le> ft_now s \<and>
     (length (ft_sent s) < 2 ^ 64 \<longrightarrow> m_msg_counter (ft_buf s) = length (ft_sent s) \<and>
       (\<exists>q. fifo_queue (ft_buf s) q \<and> ft_sent s = ft_got s @ map msg_body q))"

lemma fifo_enqueue:
  assumes e: "mb_enqueue rng m now delta rnd False False b = Inr b'" and q: "fifo_queue b q"
    and b: "m_strict_fifo b" "\<not> m_last_message_strict_fifo_bypassed b" "m_msg_counter b + 1 < 2 ^ 64"
  shows "\<exists>x. fifo_queue b' (q @ [x]) \<and> msg_body x = msg_body m \<and> m_msg_counter b' = m_msg_counter b + 1"
proof -
  obtain arr d L w where r: "m_last_arrival_time b \<le> L" "L \<le> arr"
    and b': "b' = b\<lparr> m_time_last_time_enqueue := max (m_time_last_time_enqueue b) now,
       m_msgs_this_cycle := trunc32 ((if m_time_last_time_enqueue b < now then 0 else m_msgs_this_cycle b) + 1),
       m_msg_counter := (m_msg_counter b + 1) mod 2 ^ 64,
       m_prio_heap := push_heap due_of (m_prio_heap b @ [stamped m d ((m_msg_counter b + 1) mod 2 ^ 64) arr]),
       m_last_arrival_time := (if False then L else arr), m_last_message_strict_fifo_bypassed := False,
       m_num_msgs := trunc16 (m_num_msgs b + 1), m_wakeups := w \<rparr>"
    using mb_enqueue_E [OF e] b(1,2) by metis
  define x where "x = stamped m d (m_msg_counter b + 1) arr"
  have n: "(m_msg_counter b + 1) mod 2 ^ 64 = m_msg_counter b + 1" using b(3) by simp
  have h: "is_heap due_of (m_prio_heap b)" "mset (m_prio_heap b) = mset q"
    and bound: "\<forall>y \<in> set q. m_LastEnqueueTime y \<le> m_last_arrival_time b \<and> msg_counter y \<le> m_msg_counter b"
    using q by (simp_all add: fifo_queue_def)
  have lt: "due_of y < due_of x" if "y \<in> set q" for y
    using bound that r by (auto simp: x_def less_due_def due_of_def [of y])
  have "fifo_queue b' (q @ [x])"
    using q lt r bound heap.ordered_ins [OF h(1), of x] heap.mset_ins [OF h(1), of x] h(2)
    unfolding fifo_queue_def b' n x_def [symmetric] by (auto simp: sorted_wrt_append x_def)
  then show ?thesis using n by (auto simp: x_def b' intro!: exI [of _ x])
qed

lemma fifo_dequeue:
  assumes d: "mb_dequeue now True b = Inr (delay, m, b')" and q: "fifo_queue b q"
  shows "\<exists>x q'. q = x # q' \<and> msg_body m = msg_body x \<and> fifo_queue b' q'"
proof -
  obtain m0 h d' c where m: "m_prio_heap b = m0 # h" "m = m0\<lparr> m_DelayedTicks := d' \<rparr>" "m_time_last_time_pop b \<le> now"
    and b': "b' = (count_dequeue now b)\<lparr> m_prio_heap := butlast (pop_heap due_of (m_prio_heap b)),
       m_num_msgs := (if True then sub16 (m_num_msgs b) 1 else m_num_msgs b), m_callbacks := c \<rparr>"
    by (rule mb_dequeue_E [OF d])
  have h: "is_heap due_of (m_prio_heap b)" "mset (m_prio_heap b) = mset q" "sorted_wrt (\<lambda>x y. due_of x < due_of y) q"
    using q by (simp_all add: fifo_queue_def)
  obtain x q' where x: "q = x # q'" using h(2) m(1) by (cases q) auto
  note f = heap.front_first [OF h(1), of x q']
  have "m0 = x" "mset (butlast (pop_heap due_of (m_prio_heap b))) = mset q'" using f h(2,3) m(1) by (simp_all add: x)
  moreover have "is_heap due_of (butlast (pop_heap due_of (m_prio_heap b)))"
    using heap.ordered_rest [OF h(1)] m(1) by simp
  ultimately have "fifo_queue b' q'" using q x by (simp add: fifo_queue_def b' count_dequeue_eq [OF m(3)])
  then show ?thesis using x m(2) \<open>m0 = x\<close> by simp
qed

lemma fifo_step_inv: "fifo_step s s' \<Longrightarrow> fifo_inv rate s \<Longrightarrow> fifo_inv rate s'"
proof (induction rule: fifo_step.induct)
  case (fifo_time s now')
  then show ?case by (simp add: fifo_inv_def)
next
  case (fifo_enq rng m s delta rnd b')
  obtain arr d L w where b': "b' = (ft_buf s)\<lparr> m_time_last_time_enqueue := max (m_time_last_time_enqueue (ft_buf s)) (ft_now s),
       m_msgs_this_cycle := trunc32 ((if m_time_last_time_enqueue (ft_buf s) < ft_now s then 0 else m_msgs_this_cycle (ft_buf s)) + 1),
       m_msg_counter := (m_msg_counter (ft_buf s) + 1) mod 2 ^ 64,
       m_prio_heap := push_heap due_of (m_prio_heap (ft_buf s) @ [stamped m d ((m_msg_counter (ft_buf s) + 1) mod 2 ^ 64) arr]),
       m_last_arrival_time := (if False then L else arr), m_last_message_strict_fifo_bypassed := False,
       m_num_msgs := trunc16 (m_num_msgs (ft_buf s) + 1), m_wakeups := w \<rparr>"
    using mb_enqueue_E [OF fifo_enq(1)] by metis
  have "m_strict_fifo b'" "\<not> m_last_message_strict_fifo_bypassed b'" "m_max_dequeue_rate b' = rate"
    "m_time_last_time_pop b' \<le> ft_now s"
    using fifo_enq(2) by (simp_all add: fifo_inv_def b')
  moreover have "m_msg_counter b' = length (ft_sent s) + 1 \<and> (\<exists>q. fifo_queue b' q \<and> ft_sent s @ [msg_body m] = ft_got s @ map msg_body q)"
    if len: "length (ft_sent s) + 1 < 2 ^ 64"
  proof -
    obtain q where q: "m_msg_counter (ft_buf s) = length (ft_sent s)" "fifo_queue (ft_buf s) q" "ft_sent s = ft_got s @ map msg_body q"
      using fifo_enq(2) len by (auto simp: fifo_inv_def)
    obtain x where "fifo_queue b' (q @ [x])" "msg_body x = msg_body m" "m_msg_counter b' = m_msg_counter (ft_buf s) + 1"
      using fifo_enqueue [OF fifo_enq(1) q(2)] fifo_enq(2) len q(1) by (auto simp: fifo_inv_def)
    then show ?thesis using q(1,3) by (auto intro!: exI [of _ "q @ [x]"])
  qed
  ultimately show ?case by (simp add: fifo_inv_def)
next
  case (fifo_deq s delay m b')
  obtain c where b': "b' = (count_dequeue (ft_now s) (ft_buf s))\<lparr> m_prio_heap := butlast (pop_heap due_of (m_prio_heap (ft_buf s))),
       m_num_msgs := (if True then sub16 (m_num_msgs (ft_buf s)) 1 else m_num_msgs (ft_buf s)), m_callbacks := c \<rparr>"
    by (rule mb_dequeue_E [OF fifo_deq(1)])
  have "m_strict_fifo b'" "\<not> m_last_message_strict_fifo_bypassed b'" "m_max_dequeue_rate b' = rate" "m_time_last_time_pop b' \<le> ft_now s"
    "m_msg_counter b' = m_msg_counter (ft_buf s)"
    using fifo_deq(2) by (simp_all add: fifo_inv_def b' count_dequeue_eq)
  moreover have "\<exists>q. fifo_queue b' q \<and> ft_sent s = (ft_got s @ [msg_body m]) @ map msg_body q" if len: "length (ft_sent s) < 2 ^ 64"
  proof -
    obtain q where q: "fifo_queue (ft_buf s) q" "ft_sent s = ft_got s @ map msg_body q"
      using fifo_deq(2) len unfolding fifo_inv_def by blast
    from fifo_dequeue [OF fifo_deq(1) q(1)] show ?thesis using q(2) by auto
  qed
  ultimately show ?case using fifo_deq(2) by (simp add: fifo_inv_def)
qed

lemma fifo_reach_inv:
  assumes "fifo_reach n rate rand s"
  shows "fifo_inv rate s"
proof -
  have start: "fifo_inv rate (fifo_start n rate rand)"
    by (simp add: fifo_inv_def fifo_start_def connected_def new_MessageBuffer_def fifo_queue_def is_heap_def)
  from assms [unfolded fifo_reach_def] show ?thesis
    by (induction rule: rtranclp_induct) (auto intro: start fifo_step_inv)
qed

text \<open>C7: An ordered message buffer refines a FIFO queue: for every interleaving of insertions and removals
  with any delays and any random delays, the messages taken out are the first of the messages handed
  in, in order, and the heap holds exactly the others.\<close>

theorem mb_fifo_order:
  assumes "fifo_reach n rate rand s" and "length (ft_sent s) < 2 ^ 64"
  shows "\<exists>q. ft_sent s = ft_got s @ q \<and> mset (map msg_body (m_prio_heap (ft_buf s))) = mset q"
  using fifo_reach_inv [OF assms(1)] assms(2) unfolding fifo_inv_def fifo_queue_def by (metis mset_map)

definition sample_sent :: "nat fifo_trace" where
  "sample_sent = (fifo_start 2 0 rand_disabled)\<lparr> ft_buf := sample_filled_buffer, ft_sent := [7] \<rparr>"

lemma sample_sent_reach: "fifo_reach 2 0 rand_disabled (sample_sent\<lparr> ft_now := 9 \<rparr>)"
proof -
  have b: "msg_body sample_msg = 7" by (simp add: sample_msg_def new_Message_def)
  have "fifo_step (fifo_start 2 0 rand_disabled) sample_sent"
    using fifo_enq [of "(0, 1, 1)" sample_msg "fifo_start 2 0 rand_disabled" 5 False sample_filled_buffer] sample_enqueue(1) b
    by (simp add: sample_sent_def fifo_start_def)
  moreover have "fifo_step sample_sent (sample_sent\<lparr> ft_now := 9 \<rparr>)"
    by (rule fifo_time) (simp add: sample_sent_def fifo_start_def)
  ultimately show ?thesis unfolding fifo_reach_def by (meson converse_rtranclp_into_rtranclp r_into_rtranclp)
qed

theorem mb_fifo_order_witness:
  "\<exists>q. [7] = ft_got sample_sent @ q \<and> mset (map msg_body (m_prio_heap sample_filled_buffer)) = mset q"
  using mb_fifo_order [OF sample_sent_reach] by (simp add: sample_sent_def)

text \<open>C24: No message is held back: once the last arrival time is reached, a removal from an ordered buffer
  without a dequeue limit returns the oldest message that was not taken out yet.\<close>

theorem mb_fifo_delivers:
  assumes "fifo_reach n 0 rand s" and "length (ft_sent s) < 2 ^ 64" and "length (ft_got s) < length (ft_sent s)"
    and "m_last_arrival_time (ft_buf s) \<le> ft_now s"
  shows "\<exists>delay m b'. mb_dequeue (ft_now s) True (ft_buf s) = Inr (delay, m, b') \<and> msg_body m = ft_sent s ! length (ft_got s)"
proof -
  have inv: "fifo_inv 0 s" by (rule fifo_reach_inv [OF assms(1)])
  then obtain q where q: "fifo_queue (ft_buf s) q" "ft_sent s = ft_got s @ map msg_body q"
    using assms(2) by (auto simp: fifo_inv_def)
  obtain x q' where x: "q = x # q'" using q(2) assms(3) by (cases q) auto
  have "hd (m_prio_heap (ft_buf s)) = x"
    using q(1) unfolding fifo_queue_def x by (intro heap.front_first(1)) auto
  moreover have "m_prio_heap (ft_buf s) \<noteq> []" using q(1) by (auto simp: fifo_queue_def x)
  ultimately obtain h where h: "m_prio_heap (ft_buf s) = x # h" by (cases "m_prio_heap (ft_buf s)") auto
  have "m_LastEnqueueTime x \<le> ft_now s" using q(1) assms(4) by (auto simp: fifo_queue_def x)
  then show ?thesis using h inv q(2)
    by (simp add: mb_dequeue_def mb_isReady_def mb_front_def updateDelayedTicks_def fifo_inv_def Let_def x)
qed

theorem mb_fifo_delivers_witness:
  "\<exists>delay m b'. mb_dequeue 9 True sample_filled_buffer = Inr (delay, m, b') \<and> msg_body m = 7"
proof -
  have "m_last_arrival_time sample_filled_buffer \<le> 9"
    by (simp add: sample_filled_facts)
  then show ?thesis using mb_fifo_delivers [OF sample_sent_reach] by (simp add: sample_sent_def fifo_start_def)
qed

end
