(* ===== verification/MM_NMU.thy ===== *)
theory MM_NMU
  imports Request_Chop Rrob_Reach Message_Buffer_Props Stream_NMU
begin

text \<open>
  The memory-mapped master unit \<open>mmNocMasterUnit\<close>
  (\<open>src/noc/core/network/nmu_types/mmNocMasterUnit.hh\<close>, \<open>mmNocMasterUnit.cc\<close>): read and write requests are
  cut into packets, write data is collected in the write buffer and drained flit by flit, responses go
  through the reorder buffer or the write tracker to the buffers of the endpoint, and addresses
  without a destination are answered with an error.

  The write buffer is kept beside the unit, as its callback changes both. The tables of the network and
  the clock are arguments. \<open>nmu_injected\<close> are the flits handed to the virtual channels and \<open>nmu_answered\<close> the
  messages handed to the buffers of the endpoint, in order.
\<close>

section \<open>State\<close>

type_synonym mm_msg = "NocMemoryMsg Message"

record mm_flit =
  mf_packet_id :: int
  mf_id :: int
  mf_vc :: int
  mf_vnet :: int
  mf_route :: NocRouteInfo
  mf_num_flits :: int
  mf_msg :: mm_msg

record DrainEntry =
  de_valid :: bool
  de_entry :: aximmWriteBufferEntry
  de_readyTick :: Tick
  flit_id_to_send :: int
  de_packet_id :: int
  de_route :: NocRouteInfo
  total_flits :: int
  headMsg :: mm_msg
  bodyMsg :: mm_msg

record mmNMU =
  nmu_id :: int
  nmu_rrob :: ReadReorderBuffer
  internal_ar_ready :: bool
  internal_aw_ready :: bool
  writeTracker :: WriteTracker
  writeRequestSSIDDelayed :: bool
  numWriteBufferEntriesCurrRequest :: nat
  lastNppReadyTick :: Tick
  m_read_flits_processed :: nat
  m_last_read_beat_tick :: Tick
  m_read_response_delay_cycles :: int
  m_packetize_read_req_chunks :: bool
  currDrainEntry :: DrainEntry
  dequeueScheduled :: bool
  inNode :: "int \<Rightarrow> NocMemoryMsg MessageBuffer option"
  outNode :: "int \<Rightarrow> NocMemoryMsg MessageBuffer option"
  niOutVcs :: "int \<Rightarrow> mm_flit list"
  nmu_injected :: "mm_flit list"
  nmu_answered :: "(int \<times> NocMemoryMsg) list"
  nmu_next_packet_id :: int
  out_vcs_enqueue_time :: "int \<Rightarrow> Tick"
  outVcActive :: "int \<Rightarrow> bool"

text \<open>What the network tells the unit.\<close>

record mm_network =
  getDestFromAddress :: "int \<Rightarrow> u64 \<Rightarrow> int"
  net_getPathVC :: "int \<Rightarrow> int \<Rightarrow> int \<Rightarrow> int"
  net_get_router_id :: "int \<Rightarrow> int \<Rightarrow> int"
  net_routerID :: "port \<Rightarrow> int"
  getRandomization :: bool
  getWarmupEnabled :: bool

text \<open>
  The constructor. Members it leaves unset keep the values of \<open>raw\<close>; \<open>env\<close> is the environment variable
  that turns the packets of several read requests off.
\<close>

definition new_mmNMU :: "mmNMU \<Rightarrow> ReadReorderBuffer option \<Rightarrow> int \<Rightarrow> string option \<Rightarrow> mmNMU result" where
  "new_mmNMU raw rrob delay_cycles env =
     (case rrob of
        None \<Rightarrow> Inl (Panic ''mmNocMasterUnit: required parameter rrob is null'')
      | Some r \<Rightarrow>
          Inr (raw\<lparr> nmu_rrob := r, internal_ar_ready := True, internal_aw_ready := True, writeTracker := new_WriteTracker,
                    writeRequestSSIDDelayed := False, lastNppReadyTick := 0, m_read_flits_processed := 0, m_last_read_beat_tick := 0,
                    m_read_response_delay_cycles := delay_cycles,
                    m_packetize_read_req_chunks := (case env of None \<Rightarrow> True | Some v \<Rightarrow> v = ''0'' \<or> v = ''false''),
                    currDrainEntry := (currDrainEntry raw)\<lparr> de_valid := False, flit_id_to_send := 0 \<rparr>, dequeueScheduled := False \<rparr>))"

definition set_debug :: "int \<Rightarrow> mm_msg \<Rightarrow> mm_msg" where
  "set_debug dbg m = m\<lparr> msg_body := (msg_body m)\<lparr> mm_debugId := dbg, mm_net_probe_dbg_ids := [dbg] \<rparr> \<rparr>"

section \<open>Injection\<close>

definition vc_full :: "int \<Rightarrow> mmNMU \<Rightarrow> bool" where
  "vc_full vc s \<longleftrightarrow> kNiOutVcMaxFlits \<le> length (niOutVcs s vc)"

text \<open>\<open>None\<close> when the virtual channel is full; otherwise the message gets its source.\<close>

definition injectFlit :: "mm_flit \<Rightarrow> int \<Rightarrow> mmNMU \<Rightarrow> (mm_flit \<times> mmNMU) option" where
  "injectFlit fl vc s =
     (if vc_full vc s then None
      else
        let fl' = fl\<lparr> mf_msg := (mf_msg fl)\<lparr> msg_body := (msg_body (mf_msg fl))\<lparr> mm_src_ni_id := src_ni (mf_route fl) \<rparr> \<rparr> \<rparr>
        in Some (fl', s\<lparr> niOutVcs := (niOutVcs s)(vc := niOutVcs s vc @ [fl']), nmu_injected := nmu_injected s @ [fl'] \<rparr>))"

section \<open>Write requests\<close>

definition schedule_dequeue :: "mmNMU \<Rightarrow> mmNMU result" where
  "schedule_dequeue s =
     (if dequeueScheduled s then Inl (Panic ''event already scheduled'')
      else Inr (s\<lparr> dequeueScheduled := True \<rparr>))"

text \<open>The time at which the first flit of a packet may leave.\<close>

definition npp_ready_tick :: "clock \<Rightarrow> int \<Rightarrow> aximmWriteBufferEntry \<Rightarrow> mmNMU \<Rightarrow> Tick" where
  "npp_ready_tick c num_data_flits e s =
     (let period = clockPeriod c;
          hotReady = lastNppReadyTick s + nat num_data_flits * period + (if num_data_flits < 16 then period else 0);
          coldReady = pipelineEndTick e + 8 * period + (if lastNppReadyTick s > curTick c then period else 0)
                        - (if num_data_flits \<ge> 16 then period else 0)
      in max hotReady coldReady)"

definition mm_bufferHeadReadyHandler ::
  "NocMemoryMsg \<Rightarrow> mm_network \<Rightarrow> clock \<Rightarrow> mmNMU aximm_handler" where
  "mm_bufferHeadReadyHandler raw net c request sb =
     (let (s, b) = sb in
      if de_valid (currDrainEntry s) then Inr sb
      else rbind (front (mb_writeBuffer b)) (\<lambda>e. rbind (removeHead b) (\<lambda>b'.
        if isDecErr e then Inr (s, b')
        else
          let num_data_flits = int ((getTotalByteSize (nppRequest e) + 15) div 16);
              readyTick = npp_ready_tick c num_data_flits e s
          in case wbe_oPort e of
               None \<Rightarrow> Inl (Undefined ''null output port'')
             | Some op \<Rightarrow> rbind (getDestID (ucast (a_id request)) (writeTracker s)) (\<lambda>dest.
                 let dni = uint dest;
                     rt = default_NocRouteInfo\<lparr> src_ni := nmu_id s, src_router := net_routerID net op, dest_ni := dni,
                            dest_router := net_get_router_id net dni AW_VNET, hops_traversed := - 1 \<rparr>;
                     head0 = new_Message (clockEdge c) ((new_NocMemoryMsg raw MsgAW (MpRWAddr (nppRequest e)) default_pload)
                               \<lparr> mm_vnet := AW_VNET \<rparr>);
                     body0 = new_Message (clockEdge c) ((new_NocMemoryMsg raw MsgW (MpRWData default_aximmRWData) (PlAximm (nppData e)))
                               \<lparr> mm_vnet := W_VNET, mm_beat_size := 6, mm_burst_len := 4, mm_num_flits := trunc8 (nat num_data_flits) \<rparr>);
                     dbg = probeDebugId e;
                     drain = \<lparr> de_valid = True, de_entry = e, de_readyTick = readyTick, flit_id_to_send = 0,
                               de_packet_id = nmu_next_packet_id s, de_route = rt, total_flits = 1 + num_data_flits,
                               headMsg = (if dbg \<ge> 0 then set_debug dbg head0 else head0),
                               bodyMsg = (if dbg \<ge> 0 then set_debug dbg body0 else body0) \<rparr>
                 in rbind (schedule_dequeue (s\<lparr> lastNppReadyTick := readyTick, nmu_next_packet_id := nmu_next_packet_id s + 1,
                                               currDrainEntry := drain \<rparr>)) (\<lambda>s'. Inr (s', b'))))))"

definition notifyTransmitComplete ::
  "'s aximm_handler option \<Rightarrow> 's \<times> aximmWriteBuffer \<Rightarrow> ('s \<times> aximmWriteBuffer) result" where
  "notifyTransmitComplete h sb = checkHeadReady h sb"

definition mm_dequeueIntermediate ::
  "NocMemoryMsg \<Rightarrow> mm_network \<Rightarrow> clock \<Rightarrow> mmNMU \<times> aximmWriteBuffer \<Rightarrow> (mmNMU \<times> aximmWriteBuffer) result" where
  "mm_dequeueIntermediate raw net c sb =
     (let (s0, b) = sb; s = s0\<lparr> dequeueScheduled := False \<rparr>; d = currDrainEntry s;
          flit_ready_tick = int (de_readyTick d) + flit_id_to_send d * int (clockPeriod c)
      in if \<not> de_valid d then Inr (s, b)
         else if flit_id_to_send d \<ge> total_flits d then Inr (s, b)
         else if int (curTick c) < flit_ready_tick then rbind (schedule_dequeue s) (\<lambda>s'. Inr (s', b))
         else if vc_full (wbe_vc (de_entry d)) s then rbind (schedule_dequeue s) (\<lambda>s'. Inr (s', b))
         else
           let flit_vnet = (if flit_id_to_send d = 0 then AW_VNET else W_VNET);
               rt = (de_route d)\<lparr> rt_vnet := flit_vnet, dest_router := net_get_router_id net (dest_ni (de_route d)) flit_vnet \<rparr>;
               d1 = d\<lparr> de_route := rt \<rparr>;
               fl = \<lparr> mf_packet_id = de_packet_id d, mf_id = flit_id_to_send d, mf_vc = wbe_vc (de_entry d), mf_vnet = flit_vnet,
                      mf_route = rt, mf_num_flits = total_flits d,
                      mf_msg = (if flit_id_to_send d = 0 then headMsg d else bodyMsg d) \<rparr>
           in case injectFlit fl (wbe_vc (de_entry d)) (s\<lparr> currDrainEntry := d1 \<rparr>) of
                None \<Rightarrow> rbind (schedule_dequeue (s\<lparr> currDrainEntry := d1 \<rparr>)) (\<lambda>s'. Inr (s', b))
              | Some (fl', s1) \<Rightarrow>
                  let d2 = (if flit_id_to_send d = 0 then d1\<lparr> headMsg := mf_msg fl' \<rparr> else d1\<lparr> bodyMsg := mf_msg fl' \<rparr>)
                  in if flit_id_to_send d = total_flits d - 1
                     then notifyTransmitComplete (Some (mm_bufferHeadReadyHandler raw net c))
                            (s1\<lparr> currDrainEntry := d2\<lparr> de_valid := False \<rparr> \<rparr>, b)
                     else rbind (schedule_dequeue (s1\<lparr> currDrainEntry := d2\<lparr> flit_id_to_send := flit_id_to_send d + 1 \<rparr> \<rparr>))
                            (\<lambda>s'. Inr (s', b)))"

definition flitisizeWriteRequest ::
  "NocMemoryMsg \<Rightarrow> mm_network \<Rightarrow> clock \<Rightarrow> aximmRWAddr \<Rightarrow> port option \<Rightarrow> int \<Rightarrow> int \<Rightarrow> mmNMU \<times> aximmWriteBuffer \<Rightarrow>
    (bool \<times> mmNMU \<times> aximmWriteBuffer) result" where
  "flitisizeWriteRequest raw net c a oPort dest vc sb =
     (let (s, b) = sb; i = ucast (a_id a) in
      rbind (checkSSID i (of_int dest) (writeTracker s)) (\<lambda>met.
      rbind (if writeRequestSSIDDelayed s then Inr (s, b)
             else rbind (chopInto256BRequests a) (\<lambda>rs.
               Inr (s\<lparr> numWriteBufferEntriesCurrRequest := trunc8 (length rs) \<rparr>, add_requests rs vc oPort met (curTick c) b)))
        (\<lambda>(s1, b1).
          if \<not> met then Inr (False, s1\<lparr> writeRequestSSIDDelayed := True \<rparr>, b1)
          else
            let n = numWriteBufferEntriesCurrRequest s1;
                s2 = s1\<lparr> writeTracker := addAxiWriteRequest i (of_int dest) (of_nat n) vc (writeTracker s1) \<rparr>
            in if writeRequestSSIDDelayed s2
               then rbind (setSSIDMet (Some (mm_bufferHeadReadyHandler raw net c)) n (s2, b1)) (\<lambda>(s3, b3).
                      Inr (True, s3\<lparr> writeRequestSSIDDelayed := False \<rparr>, b3))
               else Inr (True, s2, b1))))"

definition flitisizeWriteData ::
  "NocMemoryMsg \<Rightarrow> mm_network \<Rightarrow> clock \<Rightarrow> aximmRWData \<Rightarrow> int \<Rightarrow> mmNMU \<times> aximmWriteBuffer \<Rightarrow>
    (mmNMU \<times> aximmWriteBuffer) result" where
  "flitisizeWriteData raw net c d dbg sb =
     aximm_write (Some (mm_bufferHeadReadyHandler raw net c)) (d_data d) (wstrb d) (curTick c) (clockPeriod c) dbg sb"

section \<open>Read requests\<close>

text \<open>The last beat index of row \<open>r\<close> of a request of \<open>npp_bytes\<close> bytes.\<close>

definition row_last_beat :: "nat \<Rightarrow> nat \<Rightarrow> nat \<Rightarrow> nat result" where
  "row_last_beat beat_size npp_bytes r =
     (let bytes_in_row = min 32 (npp_bytes - r * 32) in
      if beat_size = 0 then Inl (Undefined ''division by zero'')
      else if beat_size \<le> 32 then
        if bytes_in_row mod beat_size \<noteq> 0 then Inl (Panic ''RROB row bytes not divisible by beat size'')
        else if bytes_in_row div beat_size = 0 then Inl (Panic ''RROB row has zero beats'')
        else Inr (trunc8 (bytes_in_row div beat_size - 1))
      else Inr 0)"

text \<open>
  What a row is reserved with: whether it needs the next entry, whether it holds the last beat of the
  burst, and its last beat index.
\<close>

definition row_plan :: "nat \<Rightarrow> nat \<Rightarrow> nat \<Rightarrow> nat \<Rightarrow> nat \<Rightarrow> (bool \<times> bool \<times> nat) result" where
  "row_plan beat_size npp_bytes row_base num_entries r =
     rbind (row_last_beat beat_size npp_bytes r) (\<lambda>last_idx.
       Inr (32 < beat_size \<and> r mod 2 = 0, int (trunc16 (row_base + r)) = int num_entries - 1, last_idx))"

text \<open>One entry of the reorder buffer for every 32 bytes of a request.\<close>

fun reserve_rows ::
  "nat \<Rightarrow> nat \<Rightarrow> nat \<Rightarrow> nat \<Rightarrow> axi_id \<Rightarrow> int \<Rightarrow> nat list \<Rightarrow> NocMemoryMsg \<times> ReadReorderBuffer \<Rightarrow>
    (NocMemoryMsg \<times> ReadReorderBuffer) result" where
  "reserve_rows beat_size npp_bytes row_base num_entries i vnet [] mr = Inr mr"
| "reserve_rows beat_size npp_bytes row_base num_entries i vnet (r # rs) mr =
     rbind (row_plan beat_size npp_bytes row_base num_entries r) (\<lambda>(need_next, has_last, last_idx).
     rbind (reserve i (trunc8 beat_size) has_last last_idx vnet need_next (snd mr)) (\<lambda>(tag, rrob).
     rbind (mm_setRROBTag r (nat (tag mod 256)) (fst mr)) (\<lambda>m.
       reserve_rows beat_size npp_bytes row_base num_entries i vnet rs (m, rrob))))"

definition entries_for :: "nat \<Rightarrow> nat" where
  "entries_for bytes = (bytes + 31) div 32"

text \<open>The requests of one burst, each in one flit.\<close>

fun send_read_requests ::
  "NocMemoryMsg \<Rightarrow> mm_network \<Rightarrow> clock \<Rightarrow> NocMemoryMsg \<Rightarrow> int \<Rightarrow> port \<Rightarrow> int \<Rightarrow> int \<Rightarrow> nat \<Rightarrow> nat \<Rightarrow> nat \<Rightarrow>
    int option \<Rightarrow> nat \<Rightarrow> nat \<Rightarrow> aximmRWAddr list \<Rightarrow> mmNMU \<Rightarrow> mmNMU result" where
  "send_read_requests raw net c msg vnet op dest vc beat_size total_size num shared i row_base [] s = Inr s"
| "send_read_requests raw net c msg vnet op dest vc beat_size total_size num shared i row_base (a # rest) s =
     (let (packet, s1) = (case shared of Some p \<Rightarrow> (p, s)
            | None \<Rightarrow> (nmu_next_packet_id s, s\<lparr> nmu_next_packet_id := nmu_next_packet_id s + 1 \<rparr>));
          rows = entries_for (getTotalByteSize a);
          m0 = (new_NocMemoryMsg raw MsgAR (MpRWAddr a) default_pload)
                 \<lparr> mm_vnet := vnet, mm_original_read_bytes := total_size, mm_final_read_chunk := (i = num - 1) \<rparr>;
          m1 = (if mm_debugId msg \<ge> 0 then m0\<lparr> mm_debugId := mm_debugId msg, mm_net_probe_dbg_ids := [mm_debugId msg] \<rparr> else m0)
      in rbind (reserve_rows beat_size (getTotalByteSize a) row_base (entries_for total_size) (ucast (a_id a)) vnet [0..<rows]
                  (m1, nmu_rrob s1)) (\<lambda>(m, rrob).
           let rt = default_NocRouteInfo\<lparr> rt_vnet := vnet, src_ni := nmu_id s, src_router := net_routerID net op,
                      dest_ni := dest, dest_router := net_get_router_id net dest vnet, hops_traversed := - 1 \<rparr>;
               fl = \<lparr> mf_packet_id = packet, mf_id = (if shared = None then 0 else int i), mf_vc = vc, mf_vnet = vnet,
                      mf_route = rt, mf_num_flits = (if shared = None then 1 else int num), mf_msg = new_Message (clockEdge c) m \<rparr>
           in case injectFlit fl vc (s1\<lparr> nmu_rrob := rrob \<rparr>) of
                None \<Rightarrow> Inl (Panic ''mmNocMasterUnit::flitisizeReadRequest: niOutVc full'')
              | Some (_, s2) \<Rightarrow>
                  send_read_requests raw net c msg vnet op dest vc beat_size total_size num shared (i + 1)
                    (trunc16 (row_base + rows)) rest s2))"

definition flitisizeReadRequest ::
  "NocMemoryMsg \<Rightarrow> mm_network \<Rightarrow> clock \<Rightarrow> NocMemoryMsg \<Rightarrow> int \<Rightarrow> aximmRWAddr \<Rightarrow> port \<Rightarrow> int \<Rightarrow> int \<Rightarrow> mmNMU \<Rightarrow>
    (bool \<times> mmNMU) result" where
  "flitisizeReadRequest raw net c msg vnet a op dest vc s =
     rbind (chopInto256BRequests a) (\<lambda>rs.
       let total_size = getTotalByteSize a in
       if trunc16 (rr_max_entries (nmu_rrob s) * 32) < total_size
       then Inl (Panic ''mmNocMasterUnit::flitisizeReadRequest: Read request size exceeds maximum RROB capacity'')
       else if getNumRemainingEntries (nmu_rrob s) < entries_for total_size then Inr (False, s)
       else
         let packetize = (m_packetize_read_req_chunks s \<and> 1 < length rs \<and> length rs \<le> kNppAssemblerMaxFlits);
             (shared, s1) = (if packetize then (Some (nmu_next_packet_id s), s\<lparr> nmu_next_packet_id := nmu_next_packet_id s + 1 \<rparr>)
                             else (None, s))
         in rbind (send_read_requests raw net c msg vnet op dest vc (getBeatByteSize a) total_size (length rs) shared 0 0 rs s1)
              (\<lambda>s2. Inr (True, s2\<lparr> nmu_rrob := incrementNumAxiReads (nmu_rrob s2) \<rparr>)))"

section \<open>Responses\<close>

definition put_out ::
  "draws \<Rightarrow> mm_network \<Rightarrow> clock \<Rightarrow> int \<Rightarrow> NocMemoryMsg MessageBuffer \<Rightarrow> NocMemoryMsg \<Rightarrow> nat \<Rightarrow> mmNMU \<Rightarrow> mmNMU result" where
  "put_out rng net c vnet b m cycles s =
     rbind (mb_enqueue rng (new_Message (clockEdge c) m) (clockEdge c) (cycles * clockPeriod c) (getRandomization net)
              (getWarmupEnabled net) False b)
       (\<lambda>b'. Inr (s\<lparr> outNode := (outNode s)(vnet \<mapsto> b'), nmu_answered := nmu_answered s @ [(vnet, m)] \<rparr>))"

definition writeRespReadyHandler :: "NocMemoryMsg \<Rightarrow> mm_network \<Rightarrow> draws \<times> clock \<Rightarrow> mmNMU wt_handler" where
  "writeRespReadyHandler raw net rc i sw =
     (let (s, w) = sw; (rng, c) = rc in
      rbind (readAndRemoveEntry i w) (\<lambda>(e, w').
        let payload = default_aximmWResp\<lparr> b_id := ucast i, b_resp := (if receivedSLVERR e then SLVERR else OKAY) \<rparr>;
            msg = new_NocMemoryMsg raw MsgB (MpWResp payload) default_pload
        in case outNode s B_VNET of
             None \<Rightarrow> Inl (Panic ''mmNocMasterUnit::writeRespReadyHandler: outNode B null'')
           | Some bbuf \<Rightarrow>
               if areNSlotsAvailable 1 (clockEdge c) bbuf
               then rbind (put_out rng net c B_VNET bbuf msg 3 s) (\<lambda>s'. Inr (s', w'))
               else Inl (Panic ''mmNocMasterUnit::writeRespReadyHandler: No space available in output buffer'')))"

definition processWriteResponseFlit ::
  "NocMemoryMsg \<Rightarrow> mm_network \<Rightarrow> draws \<times> clock \<Rightarrow> aximmWResp \<Rightarrow> mmNMU \<Rightarrow> mmNMU result" where
  "processWriteResponseFlit raw net rc payload s =
     rbind (markRespReceived (Some (writeRespReadyHandler raw net rc)) (ucast (b_id payload)) (b_resp payload = SLVERR)
              (s, writeTracker s))
       (\<lambda>(s', w'). Inr (s'\<lparr> writeTracker := w' \<rparr>))"

text \<open>The delay of a read beat behind the reorder buffer, in cycles.\<close>

definition read_beat_delay :: "int \<Rightarrow> nat \<Rightarrow> nat \<Rightarrow> nat" where
  "read_beat_delay configured processed beat_size =
     (if configured \<ge> 0 then nat configured
      else if beat_size < 16 then 6
      else if beat_size = 64 then 9
      else if beat_size = 32 then (if processed div 2 mod 2 = 0 then 7 else 6)
      else 6 - processed div 4 mod 3)"

definition send_read_beat ::
  "draws \<Rightarrow> mm_network \<Rightarrow> clock \<Rightarrow> axi_id \<Rightarrow> NocMemoryMsg \<Rightarrow> mmNMU \<times> ReadReorderBuffer \<Rightarrow> mmNMU result" where
  "send_read_beat rng net c a m sr =
     (let (s, r) = sr in
      rbind (getVnet a (of_nat (mm_axi_rrob_tag m)) (axiListManager r)) (\<lambda>vnet.
        case outNode s vnet of
          None \<Rightarrow> Inl (Panic ''mmNocMasterUnit::rrobWriteCallback: outNode vnet null'')
        | Some obuf \<Rightarrow>
            if areNSlotsAvailable 1 (clockEdge c) obuf then
              let processed = (if clockEdge c > m_last_read_beat_tick s + 4 * clockPeriod c then 0 else m_read_flits_processed s);
                  beat_size = mm_beat_size m
              in put_out rng net c vnet obuf m (read_beat_delay (m_read_response_delay_cycles s) processed beat_size)
                   (s\<lparr> m_read_flits_processed := (processed + max 1 (beat_size div 16)) mod 2 ^ 64, m_last_read_beat_tick := clockEdge c \<rparr>)
            else Inl (Panic ''mmNocMasterUnit::rrobWriteCallback: No space available in output buffer'')))"

fun send_read_beats ::
  "draws list \<Rightarrow> mm_network \<Rightarrow> clock \<Rightarrow> axi_id \<Rightarrow> NocMemoryMsg list \<Rightarrow> mmNMU \<times> ReadReorderBuffer \<Rightarrow> mmNMU result" where
  "send_read_beats rngs net c a [] sr = Inr (fst sr)"
| "send_read_beats rngs net c a (m # ms) sr =
     rbind (send_read_beat (case rngs of [] \<Rightarrow> (0, 1, 1) | x # _ \<Rightarrow> x) net c a m sr) (\<lambda>s.
       send_read_beats (drop 1 rngs) net c a ms (s, snd sr))"

definition rrobWriteCallback ::
  "NocMemoryMsg \<Rightarrow> draws list \<Rightarrow> mm_network \<Rightarrow> clock \<Rightarrow> mmNMU wakeup_handler" where
  "rrobWriteCallback raw rngs net c a sr =
     rbind (rrob_generate raw a (snd sr)) (\<lambda>(ms, r).
       rbind (send_read_beats rngs net c a ms (fst sr, r)) (\<lambda>s. Inr (s, r)))"

definition msgReadCallback :: "NocMemoryMsg \<Rightarrow> mmNMU \<Rightarrow> mmNMU result" where
  "msgReadCallback m s =
     (case mm_payload m of
        MpRWData d \<Rightarrow> rbind (markBeatRead (ucast (d_id d)) (int (mm_axi_rrob_tag m)) (mm_axi_beat_id m) (nmu_rrob s))
                       (\<lambda>r. Inr (s\<lparr> nmu_rrob := r \<rparr>))
      | _ \<Rightarrow> Inl (Panic ''mmNocMasterUnit::msgReadCallback: Unsupported payload type''))"

text \<open>A flit that arrives from the network, with the place of its data in the reorder buffer.\<close>

record resp_flit =
  rf_msg :: NocMemoryMsg
  rf_id :: nat
  rf_rrob_tag :: int
  rf_rrob_flit_idx :: int

definition processReadResponseFlit ::
  "NocMemoryMsg \<Rightarrow> draws list \<Rightarrow> mm_network \<Rightarrow> clock \<Rightarrow> resp_flit \<Rightarrow> mmNMU \<Rightarrow> mmNMU result" where
  "processReadResponseFlit raw rngs net c fl s =
     rbind (mm_getFlitData (rf_msg fl) (rf_id fl)) (\<lambda>data.
       rbind (writeFlit (Some (rrobWriteCallback raw rngs net c)) (rf_rrob_tag fl) data (rf_rrob_flit_idx fl) (s, nmu_rrob s))
         (\<lambda>(s', r'). Inr (s'\<lparr> nmu_rrob := r' \<rparr>)))"

definition mm_depacketizeFlit ::
  "NocMemoryMsg \<Rightarrow> draws list \<Rightarrow> mm_network \<Rightarrow> clock \<Rightarrow> resp_flit \<Rightarrow> mmNMU \<Rightarrow> mmNMU result" where
  "mm_depacketizeFlit raw rngs net c fl s =
     (case mm_payload (rf_msg fl) of
        MpRWData _ \<Rightarrow> processReadResponseFlit raw rngs net c fl s
      | MpWResp p \<Rightarrow> processWriteResponseFlit raw net (case rngs of [] \<Rightarrow> (0, 1, 1) | x # _ \<Rightarrow> x, c) p s
      | _ \<Rightarrow> Inl (Panic ''mmNocMasterUnit::depacketizeFlit: Unsupported payload type''))"

section \<open>Addresses without a destination\<close>

definition handleWriteDecErr ::
  "NocMemoryMsg \<Rightarrow> draws \<Rightarrow> mm_network \<Rightarrow> clock \<Rightarrow> aximmRWAddr \<Rightarrow> mmNMU \<times> aximmWriteBuffer \<Rightarrow>
    (bool \<times> mmNMU \<times> aximmWriteBuffer) result" where
  "handleWriteDecErr raw rng net c a sb =
     (let (s, b) = sb in
      case outNode s B_VNET of
        None \<Rightarrow> Inl (Panic ''mmNocMasterUnit::handleWriteDecErr: outNode B null'')
      | Some bbuf \<Rightarrow>
          if \<not> areNSlotsAvailable 1 (clockEdge c) bbuf then Inr (False, s, b)
          else
            let err_resp = default_aximmWResp\<lparr> b_id := a_id a, b_resp := DECERR, b_valid := True \<rparr>
            in rbind (put_out rng net c B_VNET bbuf (new_NocMemoryMsg raw MsgB (MpWResp err_resp) default_pload) 1 s)
                 (\<lambda>s'. Inr (True, s', aximm_add a 0 None True 0 True b)))"

fun put_err_beats ::
  "NocMemoryMsg \<Rightarrow> draws list \<Rightarrow> mm_network \<Rightarrow> clock \<Rightarrow> aximmRWData \<Rightarrow> nat \<Rightarrow> nat list \<Rightarrow> mmNMU \<Rightarrow> mmNMU result" where
  "put_err_beats raw rngs net c d n [] s = Inr s"
| "put_err_beats raw rngs net c d n (i # is) s =
     (case outNode s R_VNET of
        None \<Rightarrow> Inl (Undefined ''null buffer'')
      | Some rbuf \<Rightarrow>
          rbind (put_out (case rngs of [] \<Rightarrow> (0, 1, 1) | x # _ \<Rightarrow> x) net c R_VNET rbuf
                   (new_NocMemoryMsg raw MsgR (MpRWData (d\<lparr> d_last := (i + 1 = n) \<rparr>)) default_pload) 1 s)
            (put_err_beats raw (drop 1 rngs) net c d n is))"

definition handleReadDecErr ::
  "NocMemoryMsg \<Rightarrow> draws list \<Rightarrow> mm_network \<Rightarrow> clock \<Rightarrow> aximmRWAddr \<Rightarrow> mmNMU \<Rightarrow> (bool \<times> mmNMU) result" where
  "handleReadDecErr raw rngs net c a s =
     (let total_beats = unat (len a) + 1 in
      case outNode s R_VNET of
        None \<Rightarrow> Inl (Panic ''mmNocMasterUnit::handleReadDecErr: outNode R null'')
      | Some rbuf \<Rightarrow>
          if \<not> areNSlotsAvailable 1 (clockEdge c) rbuf then Inr (False, s)
          else
            let err_data = default_aximmRWData\<lparr> d_id := a_id a, d_resp := DECERR, d_valid := True \<rparr>
            in rbind (put_err_beats raw rngs net c err_data total_beats [0..<total_beats] s) (\<lambda>s'. Inr (True, s')))"

section \<open>Accepting a message\<close>

definition mm_flitisizeMessage ::
  "NocMemoryMsg \<Rightarrow> draws list \<Rightarrow> mm_network \<Rightarrow> clock \<Rightarrow> port option \<Rightarrow> NocMemoryMsg \<Rightarrow> int \<Rightarrow> mmNMU \<times> aximmWriteBuffer \<Rightarrow>
    (bool \<times> mmNMU \<times> aximmWriteBuffer) result" where
  "mm_flitisizeMessage raw rngs net c outport msg0 vnet sb =
     (let (s, b) = sb; msg = msg0\<lparr> mm_vnet := vnet \<rparr>;
          active = (\<lambda>vc (s, b). Inr (True, s\<lparr> out_vcs_enqueue_time := (out_vcs_enqueue_time s)(vc := curTick c),
                                            outVcActive := (outVcActive s)(vc := True) \<rparr>, b))
      in case mm_payload msg of
           MpRWData d \<Rightarrow>
             (case outport of
                None \<Rightarrow> Inl (Panic ''assert(oPort)'')
              | Some _ \<Rightarrow> rbind (flitisizeWriteData raw net c d (if mm_debugId msg \<ge> 0 then mm_debugId msg else - 1) (s, b)) (active 0))
         | MpRWAddr a \<Rightarrow>
             (case outport of
                None \<Rightarrow> Inl (Panic ''assert(oPort)'')
              | Some op \<Rightarrow>
                  (let dest = getDestFromAddress net (nmu_id s) (addr a);
                       vc = net_getPathVC net (nmu_id s) dest (cmd_int (a_cmd a))
                   in case a_cmd a of
                        CmdREAD \<Rightarrow>
                          if dest = - 1 then rbind (handleReadDecErr raw rngs net c a s) (\<lambda>(ok, s'). Inr (ok, s', b))
                          else rbind (flitisizeReadRequest raw net c msg vnet a op dest vc s) (\<lambda>(ok, s').
                                 if ok then active vc (s', b) else Inr (False, s', b))
                      | CmdWRITE \<Rightarrow>
                          if dest = - 1
                          then handleWriteDecErr raw (case rngs of [] \<Rightarrow> (0, 1, 1) | x # _ \<Rightarrow> x) net c a (s, b)
                          else rbind (flitisizeWriteRequest raw net c a (Some op) dest vc (s, b)) (\<lambda>(ok, s', b').
                                 if ok then active vc (s', b') else Inr (False, s', b'))
                      | CmdNONE \<Rightarrow> Inl (Panic ''mmNocMasterUnit::flitisizeMessage: Unsupported AXI command'')))
         | _ \<Rightarrow> Inl (Panic ''mmNocMasterUnit::flitisizeMessage: Unsupported payload type''))"

section \<open>Ready signals\<close>

definition msg_count :: "NocMemoryMsg MessageBuffer option \<Rightarrow> nat" where
  "msg_count b = (case b of None \<Rightarrow> 0 | Some mb \<Rightarrow> m_num_msgs mb)"

definition getAxiRAddrReady :: "bool \<Rightarrow> mmNMU \<Rightarrow> bool \<times> mmNMU" where
  "getAxiRAddrReady upstreamValid s =
     (let accepting = (if upstreamValid \<and> internal_ar_ready s then 1 else 0);
          new_ready = (accepting + msg_count (inNode s AR_VNET) + numAxiReads (nmu_rrob s) < 64)
      in (new_ready, s\<lparr> internal_ar_ready := new_ready \<rparr>))"

definition getAxiWAddrReady :: "bool \<Rightarrow> mmNMU \<Rightarrow> bool \<times> mmNMU" where
  "getAxiWAddrReady upstreamValid s =
     (let accepting = (if upstreamValid \<and> internal_aw_ready s then 1 else 0);
          new_ready = (accepting + msg_count (inNode s AW_VNET) + unat (numAxiWrites (writeTracker s)) < 64)
      in (new_ready, s\<lparr> internal_aw_ready := new_ready \<rparr>))"

definition mm_getAxiWReady :: "aximmWriteBuffer \<Rightarrow> bool" where
  "mm_getAxiWReady b \<longleftrightarrow> mb_bufferSize b < 512"

end
