(* ===== verification/MM_NMU_Props.thy ===== *)
theory MM_NMU_Props
  imports MM_NMU
begin

text \<open>
  Properties of the memory-mapped master unit: the response callback keeps the contract of the write
  tracker, so every write is answered once and in order; the last flag of reads; and the cases in
  which the unit panics or leaves its arrays.
\<close>

section \<open>Putting messages into a buffer of the endpoint\<close>

definition arrival :: "nat \<Rightarrow> clock \<Rightarrow> Tick" where
  "arrival k c = clockEdge c + k * clockPeriod c"

text \<open>
  A buffer that takes a message at each of the given clock edges, with a fixed delay of \<open>k\<close> cycles:
  it has the space, the edges and the arrivals do not go back, and it was not popped in these cycles.
\<close>

definition accepts :: "nat \<Rightarrow> bool \<Rightarrow> 'b MessageBuffer \<Rightarrow> clock list \<Rightarrow> bool" where
  "accepts k is_random b cs \<longleftrightarrow>
     mb_inv (max (m_time_last_time_enqueue b) (m_time_last_time_pop b)) b \<and> m_consumer b \<and>
     (m_max_size b = 0 \<or> m_max_size b < 2 ^ 30 \<and> mb_total b + length cs \<le> m_max_size b) \<and>
     (m_randomization b = rand_disabled \<or> m_randomization b = rand_ruby_system \<and> \<not> is_random) \<and>
     m_allow_zero_latency b \<and>
     sorted (m_last_arrival_time b # map (arrival k) cs) \<and> sorted (m_time_last_time_enqueue b # map clockEdge cs) \<and>
     (\<forall>c \<in> set cs. m_time_last_time_pop b < clockEdge c)"

lemma accepts_tail: "accepts k rnd b (c # cs) \<Longrightarrow> accepts k rnd b cs"
  by (auto simp: accepts_def)

lemma accepts_prefix: "accepts k rnd b (cs @ ds) \<Longrightarrow> accepts k rnd b cs"
  by (auto simp: accepts_def sorted_append)

lemma accepts_avail:
  assumes "accepts k rnd b (c # cs)"
  shows "areNSlotsAvailable 1 (clockEdge c) b" and "mb_inv (clockEdge c) b"
proof -
  have le: "m_time_last_time_enqueue b \<le> clockEdge c" "m_time_last_time_pop b < clockEdge c" using assms by (simp_all add: accepts_def)
  show inv: "mb_inv (clockEdge c) b"
    using assms le mb_inv_later [of "max (m_time_last_time_enqueue b) (m_time_last_time_pop b)" b "clockEdge c"] by (simp add: accepts_def)
  have "m_max_size b = 0 \<or> m_max_size b < 2 ^ 30 \<and> mb_total b + length cs + 1 \<le> m_max_size b" using assms by (auto simp: accepts_def)
  then show "areNSlotsAvailable 1 (clockEdge c) b"
    using le(2) mb_invD(2) [OF inv] by (auto simp: areNSlotsAvailable_def mb_total_def nat_mod_as_int)
qed

lemma accepts_step:
  assumes a: "accepts k rnd b (c # cs)" and m: "m_LastEnqueueTime m \<le> clockEdge c"
  shows "\<exists>b'. mb_enqueue rng m (clockEdge c) (k * clockPeriod c) rnd warm False b = Inr b' \<and> accepts k rnd b' cs \<and>
    mb_total b' = mb_total b + 1 \<and> mb_conf b' = mb_conf b \<and> m_last_arrival_time b' \<le> arrival k c"
proof -
  let ?now = "clockEdge c"
  note v = accepts_avail [OF a]
  have le: "m_time_last_time_enqueue b \<le> ?now" "m_time_last_time_pop b < ?now" "m_last_arrival_time b \<le> arrival k c"
    and nr: "no_random rnd b" and max: "m_max_size b = 0 \<or> m_max_size b < 2 ^ 30 \<and> mb_total b + length cs + 1 \<le> m_max_size b"
    using a by (auto simp: accepts_def)
  have "m_max_size b = 0 \<or> mb_total b + 1 \<le> m_max_size b" using max by auto
  then obtain b' where b': "mb_enqueue rng m ?now (k * clockPeriod c) rnd warm False b = Inr b'"
    using enqueue_on_time(1) [OF v(2) nr _ _ _ m, of "k * clockPeriod c" rng warm] a by (auto simp: accepts_def arrival_def)
  note e = enqueue_inv [OF v(2,1) b'] and p = enqueue_plain [OF b' nr]
  have l: "m_last_arrival_time b' \<le> arrival k c" using le(3) p(1) by (simp add: arrival_def)
  have "accepts k rnd b' cs" using a e l p(4,5) le max unfolding accepts_def by (auto simp: mb_conf_def)
  with b' e l show ?thesis by blast
qed

section \<open>Write responses\<close>

text \<open>The answers to writes that the endpoint gets: the id and whether it is a slave error.\<close>

fun b_answer :: "int \<times> NocMemoryMsg \<Rightarrow> (axi_id \<times> bool) list" where
  "b_answer (vnet, m) = (case mm_payload m of MpWResp p \<Rightarrow> if vnet = B_VNET then [(ucast (b_id p), b_resp p = SLVERR)] else [] | _ \<Rightarrow> [])"

definition b_answers :: "mmNMU \<Rightarrow> (axi_id \<times> bool) list" where
  "b_answers s = concat (map b_answer (nmu_answered s))"

definition b_room :: "mm_network \<Rightarrow> mmNMU \<Rightarrow> (draws \<times> clock) list \<Rightarrow> bool" where
  "b_room net s ts \<longleftrightarrow> (case outNode s B_VNET of None \<Rightarrow> False | Some b \<Rightarrow> accepts 3 (getRandomization net) b (map snd ts))"

lemma ucast_back: "ucast (ucast (i :: axi_id) :: u32) = i"
  by (simp add: unsigned_ucast_eq take_bit_word_eq_self)

interpretation nmu_resp: write_resp_handler "writeRespReadyHandler raw net" b_answers "b_room net" for raw net
proof
  fix i w e w' s t ts
  assume r: "readAndRemoveEntry i w = Inr (e, w')" and room: "b_room net s (t # ts)"
  obtain rng c where t: "t = (rng, c)" by (cases t)
  obtain b where b: "outNode s B_VNET = Some b" "accepts 3 (getRandomization net) b (c # map snd ts)"
    using room by (auto simp: b_room_def t split: option.splits)
  define m where "m = new_NocMemoryMsg raw MsgB (MpWResp (default_aximmWResp\<lparr> b_id := ucast i,
    b_resp := (if receivedSLVERR e then SLVERR else OKAY) \<rparr>)) default_pload"
  obtain b' where b': "mb_enqueue rng (new_Message (clockEdge c) m) (clockEdge c) (3 * clockPeriod c) (getRandomization net)
      (getWarmupEnabled net) False b = Inr b'" "accepts 3 (getRandomization net) b' (map snd ts)"
    using accepts_step [OF b(2), of "new_Message (clockEdge c) m" rng "getWarmupEnabled net"] by (auto simp: new_Message_def)
  define s' where "s' = s\<lparr> outNode := (outNode s)(B_VNET \<mapsto> b'), nmu_answered := nmu_answered s @ [(B_VNET, m)] \<rparr>"
  have "writeRespReadyHandler raw net t i (s, w) = Inr (s', w')"
    using r b(1) b'(1) accepts_avail(1) [OF b(2)]
    by (simp add: writeRespReadyHandler_def t put_out_def s'_def new_Message_def m_def [symmetric] Let_def)
  moreover have "b_answers s' = b_answers s @ [(i, receivedSLVERR e)]"
    by (simp add: b_answers_def s'_def m_def new_NocMemoryMsg_def ucast_back)
  moreover have "b_room net s' ts" using b'(2) by (simp add: b_room_def s'_def)
  ultimately show "\<exists>s'. writeRespReadyHandler raw net t i (s, w) = Inr (s', w') \<and>
      b_answers s' = b_answers s @ [(i, receivedSLVERR e)] \<and> b_room net s' ts" by blast
next
  fix s t ts
  assume "b_room net s (t # ts)"
  then show "b_room net s ts" by (auto simp: b_room_def intro: accepts_tail split: option.splits)
qed

text \<open>The response flits of the network, in the order they arrive.\<close>

fun take_responses ::
  "NocMemoryMsg \<Rightarrow> mm_network \<Rightarrow> ((draws \<times> clock) \<times> aximmWResp) list \<Rightarrow> mmNMU \<Rightarrow> mmNMU result" where
  "take_responses raw net [] s = Inr s"
| "take_responses raw net ((t, p) # fs) s = rbind (processWriteResponseFlit raw net t p s) (take_responses raw net fs)"

fun resp_of :: "(draws \<times> clock) \<times> aximmWResp \<Rightarrow> (draws \<times> clock) \<times> axi_id \<times> bool" where
  "resp_of (t, p) = (t, ucast (b_id p), b_resp p = SLVERR)"

text \<open>The callback does not look at the tracker inside the unit.\<close>

lemma resp_handler_frame:
  "writeRespReadyHandler raw net t i (s\<lparr> writeTracker := v \<rparr>, w) =
     rbind (writeRespReadyHandler raw net t i (s, w)) (\<lambda>(s', w'). Inr (s'\<lparr> writeTracker := v \<rparr>, w'))"
  by (cases t) (auto simp: writeRespReadyHandler_def put_out_def rbind_def Let_def split: option.splits sum.splits)

lemma mark_frame:
  "markRespReceived (Some (writeRespReadyHandler raw net t)) i err (s\<lparr> writeTracker := v \<rparr>, w) =
     rbind (markRespReceived (Some (writeRespReadyHandler raw net t)) i err (s, w)) (\<lambda>(s', w'). Inr (s'\<lparr> writeTracker := v \<rparr>, w'))"
  by (auto simp: markRespReceived_def resp_handler_frame rbind_def front_def Let_def split: option.splits sum.splits list.splits)

lemma take_responses_mark_all:
  "mark_all (writeRespReadyHandler raw net) (map resp_of fs) (s, w) = Inr (s', w') \<Longrightarrow>
    take_responses raw net fs (s\<lparr> writeTracker := w \<rparr>) = Inr (s'\<lparr> writeTracker := w' \<rparr>)"
proof (induction fs arbitrary: s w)
  case (Cons f fs)
  obtain t p where f: "f = (t, p)" by (cases f)
  from Cons.prems obtain s1 w1 where
    m: "markRespReceived (Some (writeRespReadyHandler raw net t)) (ucast (b_id p)) (b_resp p = SLVERR) (s, w) = Inr (s1, w1)"
      "mark_all (writeRespReadyHandler raw net) (map resp_of fs) (s1, w1) = Inr (s', w')"
    by (auto simp: f rbind_Inr_iff)
  show ?case using Cons.IH [OF m(2)] m(1) by (simp add: f processWriteResponseFlit_def mark_frame)
qed simp

text \<open>C8: Every write is answered exactly once and in order: when response flits arrive, in any order
  over the ids and at any times the B buffer has room for, the unit hands the endpoint one answer for
  each write whose packets have all been answered, per id in the order of the writes, with a slave
  error exactly if one of its packets had one; and no response makes the unit fail.\<close>

theorem write_answers:
  assumes "wt_inv (writeTracker s)"
    and "\<forall>i. length (of_id i (map (snd \<circ> resp_of) fs)) \<le> sum_list (map fst (waits (outstanding (writeTracker s) i)))"
    and "b_room net s (map fst fs)"
  shows "\<exists>s'. take_responses raw net fs s = Inr s' \<and> wt_inv (writeTracker s') \<and>
    (\<forall>i. of_id i (b_answers s') = of_id i (b_answers s) @
       answered (waits (outstanding (writeTracker s) i)) (of_id i (map (snd \<circ> resp_of) fs)))"
proof -
  have r: "map fst (map resp_of fs) = map fst fs" by (induction fs) auto
  from nmu_resp.mark_all_answers [OF assms(1), of "map resp_of fs" net s raw] assms(2,3)
  obtain s' w' where m: "mark_all (writeRespReadyHandler raw net) (map resp_of fs) (s, writeTracker s) = Inr (s', w')" "wt_inv w'"
    "\<forall>i. of_id i (b_answers s') = of_id i (b_answers s) @
       answered (waits (outstanding (writeTracker s) i)) (of_id i (map (snd \<circ> resp_of) fs))"
    unfolding r by auto
  have "s\<lparr> writeTracker := writeTracker s \<rparr> = s" by simp
  then have "take_responses raw net fs s = Inr (s'\<lparr> writeTracker := w' \<rparr>)"
    using take_responses_mark_all [OF m(1)] by simp
  moreover have "b_answers (s'\<lparr> writeTracker := w' \<rparr>) = b_answers s'" by (simp add: b_answers_def)
  ultimately show ?thesis using m(2,3) by (intro exI [of _ "s'\<lparr> writeTracker := w' \<rparr>"]) simp
qed

text \<open>A unit after its construction, with one ordered buffer of eight slots for every virtual network.\<close>

definition sample_unit :: "int \<Rightarrow> mmNMU" where
  "sample_unit delay_cycles = \<lparr> nmu_id = 0,
     nmu_rrob = \<lparr> axiListManager = new_AxiListManager 64 32, rr_max_entries = 64, rr_entry_size = 32, numAxiReads = 0 \<rparr>,
     internal_ar_ready = True, internal_aw_ready = True, writeTracker = new_WriteTracker, writeRequestSSIDDelayed = False,
     numWriteBufferEntriesCurrRequest = 0, lastNppReadyTick = 0, m_read_flits_processed = 0, m_last_read_beat_tick = 0,
     m_read_response_delay_cycles = delay_cycles, m_packetize_read_req_chunks = True,
     currDrainEntry = \<lparr> de_valid = False, de_entry = new_aximmWriteBufferEntry default_aximmRWAddr 0 None False 0 False,
       de_readyTick = 0, flit_id_to_send = 0, de_packet_id = 0, de_route = default_NocRouteInfo, total_flits = 0,
       headMsg = new_Message 0 sample_packet_msg, bodyMsg = new_Message 0 sample_packet_msg \<rparr>,
     dequeueScheduled = False, inNode = Map.empty, outNode = (\<lambda>_. Some (connected 8 0 True rand_disabled)),
     niOutVcs = (\<lambda>_. []), nmu_injected = [], nmu_answered = [], nmu_next_packet_id = 0,
     out_vcs_enqueue_time = (\<lambda>_. 0), outVcActive = (\<lambda>_. False) \<rparr>"

definition sample_clock :: "Tick \<Rightarrow> clock" where
  "sample_clock n = \<lparr> curTick = n, clockEdge = n, clockPeriod = 1 \<rparr>"

definition sample_tables :: mm_network where
  "sample_tables = \<lparr> getDestFromAddress = (\<lambda>_ a. if a < 4096 then 1 else - 1), net_getPathVC = (\<lambda>_ _ _. 0),
     net_get_router_id = (\<lambda>ni _. ni), net_routerID = (\<lambda>_. 0), getRandomization = False, getWarmupEnabled = False \<rparr>"

text \<open>One write with two packets, the second of which has an error.\<close>

definition sample_writer :: mmNMU where
  "sample_writer = (sample_unit 0)\<lparr> writeTracker := addAxiWriteRequest 5 1 2 0 new_WriteTracker \<rparr>"

definition sample_responses :: "((draws \<times> clock) \<times> aximmWResp) list" where
  "sample_responses = [(((0, 1, 1), sample_clock 10), default_aximmWResp\<lparr> b_id := 5 \<rparr>),
     (((0, 1, 1), sample_clock 12), default_aximmWResp\<lparr> b_id := 5, b_resp := SLVERR \<rparr>)]"

lemma accepts_connected:
  "n < 2 ^ 30 \<Longrightarrow> length cs \<le> n \<Longrightarrow> sorted (map (arrival k) cs) \<Longrightarrow> sorted (map clockEdge cs) \<Longrightarrow> \<forall>c \<in> set cs. 0 < clockEdge c \<Longrightarrow>
    accepts k rnd (connected n 0 True rand_disabled) cs"
  using connected_inv(1) [of n 0 True rand_disabled]
  by (auto simp: accepts_def connected_def new_MessageBuffer_def mb_total_def stalled_count_def)

theorem write_answers_witness:
  "\<exists>s'. take_responses sample_packet_msg sample_tables sample_responses sample_writer = Inr s' \<and> of_id 5 (b_answers s') = [True]"
proof -
  have w: "wt_inv (writeTracker sample_writer)"
    "outstanding (writeTracker sample_writer) = (\<lambda>_. [])(5 := [new_WriteTrackerEntry 1 2 0])"
    using addAxiWriteRequest_inv [OF new_WriteTracker_inv(1), of 2 5 1 0] new_WriteTracker_inv(2)
    by (simp_all add: sample_writer_def fun_eq_iff)
  have r: "of_id i (map (snd \<circ> resp_of) sample_responses) = (if i = 5 then [False, True] else [])" for i
    by (simp add: sample_responses_def default_aximmWResp_def)
  have n: "unat (numOutstandingResponses (new_WriteTrackerEntry 1 2 0)) = 2" "\<not> receivedSLVERR (new_WriteTrackerEntry 1 2 0)"
    by (simp_all add: new_WriteTrackerEntry_def)
  have a: "b_answers sample_writer = []" by (simp add: sample_writer_def sample_unit_def b_answers_def)
  have "length (of_id i (map (snd \<circ> resp_of) sample_responses)) \<le> sum_list (map fst (waits (outstanding (writeTracker sample_writer) i)))" for i
    unfolding r w(2) by (cases "i = 5") (simp_all add: n)
  moreover have "b_room sample_tables sample_writer (map fst sample_responses)"
    by (simp add: b_room_def sample_writer_def sample_unit_def sample_responses_def sample_tables_def accepts_connected arrival_def
        sample_clock_def)
  ultimately obtain s' where "take_responses sample_packet_msg sample_tables sample_responses sample_writer = Inr s'"
    "of_id 5 (b_answers s') = of_id 5 (b_answers sample_writer) @
       answered (waits (outstanding (writeTracker sample_writer) 5)) (of_id 5 (map (snd \<circ> resp_of) sample_responses))"
    using write_answers [OF w(1), of sample_responses sample_tables sample_packet_msg] by blast
  then show ?thesis unfolding r w(2) by (simp add: n a)
qed

section \<open>Read beats\<close>

text \<open>C37: Two 32 byte read beats that the reorder buffer releases together break the ordered buffer of
  the endpoint: the delay of the first is seven cycles and that of the second six, so the second would
  arrive before the first and the buffer panics.\<close>

theorem read_beats_break_fifo:
  assumes "rrob_generate raw a r = Inr (m1 # m2 # ms, r')" and "mm_beat_size m1 = 32" and "mm_beat_size m2 = 32"
    and "getVnet a (of_nat (mm_axi_rrob_tag m1)) (axiListManager r') = Inr v"
    and "getVnet a (of_nat (mm_axi_rrob_tag m2)) (axiListManager r') = Inr v"
    and "outNode s v = Some b" and "m_strict_fifo b" and "accepts 7 (getRandomization net) b [c, c]"
    and "\<not> getWarmupEnabled net" and "m_read_response_delay_cycles s < 0" and "0 < clockPeriod c"
    and "m_last_read_beat_tick s + 4 * clockPeriod c < clockEdge c \<or> m_read_flits_processed s div 2 mod 2 = 0"
    and "m_read_flits_processed s < 2 ^ 64 - 2"
  shows "rrobWriteCallback raw rngs net c a (s, r) = Inl (Panic ''FIFO ordering violated'')"
proof -
  define p where "p = (if m_last_read_beat_tick s + 4 * clockPeriod c < clockEdge c then 0 else m_read_flits_processed s)"
  have p: "p div 2 mod 2 = 0" "(p + 2) mod 2 ^ 64 = p + 2" "(p + 2) div 2 mod 2 \<noteq> 0" using assms(12,13) by (auto simp: p_def mod_Suc)
  define rng where "rng = (case rngs of [] \<Rightarrow> (0, 1, 1) | x # _ \<Rightarrow> x)"
  define rng' where "rng' = (case drop 1 rngs of [] \<Rightarrow> (0, 1, 1) | x # _ \<Rightarrow> x)"
  have nr: "no_random (getRandomization net) b" "m_allow_zero_latency b" using assms(8) by (simp_all add: accepts_def)
  obtain b1 where b1: "mb_enqueue rng (new_Message (clockEdge c) m1) (clockEdge c) (7 * clockPeriod c) (getRandomization net)
      False False b = Inr b1" "accepts 7 (getRandomization net) b1 [c]"
    using accepts_step [OF assms(8), of "new_Message (clockEdge c) m1" rng False] by (auto simp: new_Message_def)
  note e = enqueue_plain [OF b1(1) nr(1)]
  define s1 where "s1 = s\<lparr> m_read_flits_processed := p + 2, m_last_read_beat_tick := clockEdge c,
    outNode := (outNode s)(v \<mapsto> b1), nmu_answered := nmu_answered s @ [(v, m1)] \<rparr>"
  have "send_read_beat rng net c a m1 (s, r') = Inr s1"
    using assms(2,4,6,9,10) b1(1) p accepts_avail(1) [OF assms(8)]
    by (simp add: send_read_beat_def put_out_def read_beat_delay_def s1_def p_def [symmetric] new_Message_def Let_def)
  moreover have "mb_enqueue rng' (new_Message (clockEdge c) m2) (clockEdge c) (6 * clockPeriod c) (getRandomization net) False False b1 =
      Inl (Panic ''FIFO ordering violated'')"
    using e assms(7,11) nr by (intro enqueue_early) (auto simp: mb_conf_def)
  then have "send_read_beat rng' net c a m2 (s1, r') = Inl (Panic ''FIFO ordering violated'')"
    using assms(3,5,9,10) p(3) accepts_avail(1) [OF b1(2)]
    by (simp add: send_read_beat_def put_out_def read_beat_delay_def s1_def new_Message_def Let_def)
  ultimately show ?thesis using assms(1) by (simp add: rrobWriteCallback_def rng_def rng'_def)
qed

text \<open>Two reads of one beat of 32 bytes, both complete.\<close>

definition sample_entry :: "int \<Rightarrow> RROBEntry" where
  "sample_entry t = (fresh_entry 0 32 32 False True 0 t 2)\<lparr> filled_flits := 2, flit_written := [True, True],
     beat_statuses := [new_beatStatus\<lparr> bs_valid := True \<rparr>] \<rparr>"

definition sample_rrob :: ReadReorderBuffer where
  "sample_rrob = \<lparr> axiListManager = (new_AxiListManager 64 32)\<lparr> lists := [0 \<mapsto> [(0, sample_entry 1), (1, sample_entry 2)]],
      tagToIterator := [1 \<mapsto> (0, 0), 2 \<mapsto> (0, 1)], tagToAxiID := [1 \<mapsto> 0, 2 \<mapsto> 0], nextTag := 3, numEntries := 2, next_node := 2 \<rparr>,
     rr_max_entries = 64, rr_entry_size = 32, numAxiReads = 2 \<rparr>"

theorem read_beats_break_fifo_witness:
  "rrobWriteCallback sample_packet_msg [] sample_tables (sample_clock 10) 0 (sample_unit (- 1), sample_rrob) =
    Inl (Panic ''FIFO ordering violated'')"
proof -
  obtain m1 m2 r' where "rrob_generate sample_packet_msg 0 sample_rrob = Inr ([m1, m2], r')"
    "mm_beat_size m1 = 32" "mm_beat_size m2 = 32" "getVnet 0 (of_nat (mm_axi_rrob_tag m1)) (axiListManager r') = Inr 2"
    "getVnet 0 (of_nat (mm_axi_rrob_tag m2)) (axiListManager r') = Inr 2"
    by (simp add: rrob_generate_def generateAxiReadPayloads_def sample_rrob_def gen_list.simps sample_entry_def fresh_entry_def
       read_message_def mark_sent_def new_beatStatus_def getVnet_def deref_def list_of_def Let_def)
  moreover have "accepts 7 False (connected 8 0 True rand_disabled) [sample_clock 10, sample_clock 10]"
    by (rule accepts_connected) (simp_all add: arrival_def sample_clock_def)
  ultimately show ?thesis
    by (intro read_beats_break_fifo [of _ _ _ m1 m2 "[]" r' 2 _ "connected 8 0 True rand_disabled"])
      (simp_all add: sample_unit_def sample_tables_def sample_clock_def connected_def new_MessageBuffer_def)
qed

end
