(* ===== verification/MM_NMU_Reads.thy ===== *)
theory MM_NMU_Reads
  imports MM_NMU_Props
begin

text \<open>
  The rows that a read burst reserves in the reorder buffer (\<open>flitisizeReadRequest\<close> of the memory-mapped
  master unit). The flag for the last beat of the burst is set from the number of 32 byte rows of the
  whole burst, while rows are reserved per request of the cut: the flag is right when both agree, and
  otherwise the endpoint sees the end of the burst too early. Beats of 64 bytes take two rows each; the first of
  them waits for the second.
\<close>

section \<open>The sizes of the requests\<close>

text \<open>\<open>f\<close> bytes to the first block border, then blocks of 256 bytes.\<close>

function blocks :: "nat \<Rightarrow> nat \<Rightarrow> nat list" where
  "blocks f L = (if L \<le> f \<or> f = 0 then [L] else f # blocks 256 (L - f))"
  by pat_completeness auto
termination
  by (relation "measure snd") auto

declare blocks.simps [simp del]

lemma chop_loop_sizes:
  "unat (sz og) = k \<Longrightarrow> k \<le> 7 \<Longrightarrow> B = 2 ^ k \<Longrightarrow> 2 ^ k dvd unat a \<Longrightarrow> 2 ^ k dvd L \<Longrightarrow> 0 < L \<Longrightarrow> unat a + L \<le> 2 ^ 64 \<Longrightarrow>
   \<exists>rs. chop_loop og B a L = Inr rs \<and> map getTotalByteSize rs = blocks (256 - unat a mod 256) L \<and>
     (\<forall>r \<in> set rs. a_id r = a_id og)"
proof (induction og B a L rule: chop_loop.induct)
  case (1 og B a L)
  define n where "n = chunk_bytes B a L"
  have n: "n = min (256 - unat a mod 256) L" "2 ^ k dvd n" "0 < n"
    using chunk_bytes_aligned [OF 1(3,5,6,7)] 1(4) by (simp_all add: n_def)
  have f: "0 < 256 - unat a mod 256" "n \<le> 256 - unat a mod 256" "n \<le> L" using n(1) by simp_all
  define r where "r = og\<lparr> addr := a, len := of_nat (n div B - 1) \<rparr>"
  have "n div B * B = n" using n(2) 1(4) by simp
  moreover have "n div B \<le> 256" using f(2) div_le_dividend [of n B] by linarith
  moreover have "n div B \<noteq> 0" using n(3) \<open>n div B * B = n\<close> by (metis mult_0 not_less0)
  ultimately have "unat (of_nat (n div B - 1) :: byte) + 1 = n div B" by (simp only: unat_of_nat) simp
  moreover have "len r = of_nat (n div B - 1)" "sz r = sz og" by (simp_all add: r_def)
  ultimately have "(unat (len r) + 1) * 2 ^ unat (sz r) = n" using 1(2,4) \<open>n div B * B = n\<close> by (simp only:)
  then have size: "getTotalByteSize r = n" using f(2) by (simp add: getTotalByteSize_def)
  show ?case
  proof (cases "n = L")
    case True
    then have "chop_loop og B a L = Inr [r]"
      using 1(7) by (subst chop_loop.simps) (simp add: chop_loop.simps [of _ _ _ 0] n_def [symmetric] r_def Let_def)
    then show ?thesis using size True f by (simp add: blocks.simps r_def)
  next
    case False
    then have L: "n = 256 - unat a mod 256" "n < L" using n(1) by auto
    have a': "unat (a + of_nat n) = unat a + n"
      using L(2) 1(8) by (simp add: unat_word_ariths unat_of_nat)
    have "unat a + n = unat a div 256 * 256 + (unat a mod 256 + n)" by (metis add.assoc div_mult_mod_eq)
    moreover have "unat a mod 256 + n = 256" using L(1) mod_less_divisor [of 256 "unat a"] by simp
    ultimately have "unat a + n = (unat a div 256 + 1) * 256" by simp
    then have m: "(unat a + n) mod 256 = 0" by simp
    have "2 ^ k dvd unat (a + of_nat n)" "2 ^ k dvd L - n" using 1(5,6) n(2) by (simp_all add: a' dvd_diff_nat)
    then obtain rs where rs: "chop_loop og B (a + of_nat n) (L - n) = Inr rs" "map getTotalByteSize rs = blocks 256 (L - n)"
      "\<forall>r \<in> set rs. a_id r = a_id og"
      using 1(1) [OF _ n_def refl _ 1(2-4)] L(2) n(3) 1(7,8) m by (auto simp: a')
    have "chop_loop og B a L = Inr (r # rs)"
      using 1(7) n(3) rs(1) by (subst chop_loop.simps) (simp add: n_def [symmetric] r_def Let_def)
    then show ?thesis using rs(2,3) size L f(1) unfolding L(1) [symmetric]
      by (simp add: blocks.simps [of n] r_def)
  qed
qed

lemma chop_sizes:
  assumes "unat (sz a) \<le> 7" and "2 ^ unat (sz a) dvd unat (addr a)"
    and "unat (addr a) + (unat (len a) + 1) * 2 ^ unat (sz a) \<le> 2 ^ 64"
  shows "\<exists>rs. chopInto256BRequests a = Inr rs \<and>
    map getTotalByteSize rs = blocks (256 - unat (addr a) mod 256) ((unat (len a) + 1) * 2 ^ unat (sz a)) \<and>
    (\<forall>r \<in> set rs. a_id r = a_id a)"
proof -
  define B L where "B = (2 :: nat) ^ unat (sz a)" and "L = (unat (len a) + 1) * B"
  have "(2 :: nat) ^ unat (sz a) \<le> 2 ^ 7" using assms(1) by (intro power_increasing) simp_all
  moreover have "L \<le> 32768" using chop_aligned(2) [OF assms] by (simp add: L_def B_def)
  ultimately have "chopInto256BRequests a = chop_loop a B (addr a) L"
    using assms(1) unfolding chopInto256BRequests_def B_def [symmetric] Let_def by (simp add: L_def)
  moreover have "2 ^ unat (sz a) dvd L" "0 < L" by (simp_all add: L_def B_def)
  ultimately show ?thesis
    using chop_loop_sizes [OF refl assms(1) B_def assms(2), of L] assms(3) unfolding L_def B_def by metis
qed

lemma blocks_sum: "sum_list (blocks f L) = L"
  by (induction f L rule: blocks.induct) (subst blocks.simps, auto)

lemma blocks_range: "f \<le> 256 \<Longrightarrow> 0 < f \<Longrightarrow> 0 < L \<Longrightarrow> n \<in> set (blocks f L) \<Longrightarrow> 0 < n \<and> n \<le> 256"
  by (induction f L rule: blocks.induct) (subst (asm) (2) blocks.simps, auto split: if_splits)

lemma blocks_dvd: "d dvd f \<Longrightarrow> d dvd 256 \<Longrightarrow> d dvd L \<Longrightarrow> n \<in> set (blocks f L) \<Longrightarrow> d dvd n"
  by (induction f L rule: blocks.induct) (subst (asm) (2) blocks.simps, auto split: if_splits)

section \<open>The rows\<close>

definition row_idx :: "nat \<Rightarrow> nat \<Rightarrow> nat \<Rightarrow> nat" where
  "row_idx B n r = min 32 (n - r * 32) div B - 1"

text \<open>Whether a row waits for the next one, and its last beat index.\<close>

definition row_shape :: "nat \<Rightarrow> nat \<Rightarrow> nat \<Rightarrow> bool \<times> nat" where
  "row_shape B n r = (32 < B \<and> r mod 2 = 0, row_idx B n r)"

definition chunk_rows :: "nat \<Rightarrow> nat \<Rightarrow> (bool \<times> nat) list" where
  "chunk_rows B n = map (row_shape B n) [0..<entries_for n]"

definition beat_width :: "nat \<Rightarrow> bool" where
  "beat_width B \<longleftrightarrow> B dvd 32 \<or> B = 64"

text \<open>The rows with the flag of the row that is number \<open>N\<close> of the burst, counted from \<open>g\<close>.\<close>

fun marks :: "nat \<Rightarrow> nat \<Rightarrow> 'a list \<Rightarrow> (bool \<times> 'a) list" where
  "marks g N [] = []"
| "marks g N (x # xs) = (int g = int N - 1, x) # marks (g + 1) N xs"

lemma marks_append [simp]: "marks g N (xs @ ys) = marks g N xs @ marks (g + length xs) N ys"
  by (induction xs arbitrary: g) auto

lemma marks_upt: "map (\<lambda>r. (int (g + r) = int N - 1, f r)) [0..<k] = marks g N (map f [0..<k])"
  by (induction k) auto

lemma beat_of_row: "B dvd (32 :: nat) \<Longrightarrow> 0 < B \<and> B \<le> 32"
  by (auto intro: dvd_imp_le Nat.gr0I)

lemma beat_width_range: "beat_width B \<Longrightarrow> 0 < B \<and> B \<le> 64"
  using beat_of_row [of B] by (auto simp: beat_width_def)

lemma row_plan_aligned:
  assumes "beat_width B" and "B dvd n" and "r < entries_for n"
  shows "row_plan B n g N r = Inr (fst (row_shape B n r), int (trunc16 (g + r)) = int N - 1, snd (row_shape B n r))"
proof (cases "B = 64")
  case True
  then show ?thesis by (simp add: row_plan_def row_last_beat_def row_shape_def row_idx_def Let_def)
next
  case False
  then have d32: "B dvd 32" using assms(1) by (simp add: beat_width_def)
  have B: "0 < B" "B \<le> 32" using beat_of_row [OF d32] by simp_all
  have "r * 32 < n" using assms(3) by (simp add: entries_for_def)
  then have b: "0 < min 32 (n - r * 32)" by simp
  have d: "B dvd min 32 (n - r * 32)" using d32 assms(2) by (simp add: min_def dvd_diff_nat)
  have "min 32 (n - r * 32) div B \<noteq> 0" using b d by (metis dvd_div_eq_0_iff less_numeral_extra(3))
  moreover have "min 32 (n - r * 32) div B \<le> 32" using div_le_dividend [of "min 32 (n - r * 32)" B] by linarith
  ultimately show ?thesis using B d by (simp add: row_plan_def row_last_beat_def row_shape_def row_idx_def Let_def)
qed

definition mark_of :: "node \<Rightarrow> bool \<times> bool \<times> nat" where
  "mark_of x = (contains_last (snd x), need_next_entry (snd x), last_beat_idx (snd x))"

definition has_room :: "nat \<Rightarrow> ReadReorderBuffer \<Rightarrow> bool" where
  "has_room k r \<longleftrightarrow> (\<exists>c. numEntries (axiListManager r) = int c \<and> c + k \<le> m_max_entries (axiListManager r)) \<and>
     m_max_entries (axiListManager r) < 2 ^ 64"

lemma reserve_room:
  assumes "has_room (Suc k) r" and "0 < bs"
  shows "\<exists>t r' n e. reserve i bs hl li v nn r = Inr (t, r') \<and> has_room k r' \<and> mark_of (n, e) = (hl, nn, li) \<and>
    list_of (axiListManager r') i = list_of (axiListManager r) i @ [(n, e)]"
proof -
  let ?m = "axiListManager r"
  obtain c where c: "numEntries ?m = int c" "c + Suc k \<le> m_max_entries ?m" "m_max_entries ?m < 2 ^ 64"
    using assms(1) by (auto simp: has_room_def)
  define e where "e = fresh_entry i bs (m_entry_size ?m) nn hl li (uint (nextTag ?m)) v"
  have "addEntry i bs hl li v nn ?m = Inr (nextTag ?m, added i e ?m)"
    using addEntry_room [OF c(1) _ c(3) assms(2)] c(2) by (simp add: e_def)
  moreover have "has_room k (r\<lparr> axiListManager := added i e ?m \<rparr>)"
    using c unfolding has_room_def by (auto simp: added_def intro!: exI [of _ "Suc c"])
  moreover have "list_of (added i e ?m) i = list_of ?m i @ [(next_node ?m, e)]" by (simp add: added_def list_of_def)
  ultimately show ?thesis
    by (intro exI [of _ "uint (nextTag ?m)"] exI [of _ "r\<lparr> axiListManager := added i e ?m \<rparr>"] exI [of _ "next_node ?m"] exI [of _ e])
      (simp add: reserve_def mark_of_def e_def)
qed

lemma reserve_rows_aligned:
  assumes "beat_width B" and "B dvd n" and "n \<le> 256"
  shows "has_room (length rs + k) r \<Longrightarrow> length (mm_rrob_tags m) = 8 \<Longrightarrow> \<forall>x \<in> set rs. x < entries_for n \<Longrightarrow>
    \<exists>m' r' new. reserve_rows B n g N i v rs (m, r) = Inr (m', r') \<and> has_room k r' \<and>
      list_of (axiListManager r') i = list_of (axiListManager r) i @ new \<and>
      map mark_of new = map (\<lambda>x. (int (trunc16 (g + x)) = int N - 1, row_shape B n x)) rs"
proof (induction rs arbitrary: m r)
  case (Cons x rs)
  have B: "0 < B" "B \<le> 64" using beat_width_range [OF assms(1)] by simp_all
  let ?h = "int (trunc16 (g + x)) = int N - 1" and ?l = "snd (row_shape B n x)" and ?nn = "fst (row_shape B n x)"
  obtain t r1 nd e where r1: "reserve i B ?h ?l v ?nn r = Inr (t, r1)" "has_room (length rs + k) r1"
    "mark_of (nd, e) = (?h, ?nn, ?l)" "list_of (axiListManager r1) i = list_of (axiListManager r) i @ [(nd, e)]"
    using reserve_room [of "length rs + k" r B i ?h ?l v ?nn] Cons.prems(1) B(1) by auto
  have "entries_for n \<le> 8" using assms(3) by (simp add: entries_for_def)
  then have x: "x < 8" using Cons.prems(3) by auto
  define m1 where "m1 = m\<lparr> mm_rrob_tags := (mm_rrob_tags m)[x := trunc8 (nat (t mod 256))] \<rparr>"
  have m1: "mm_setRROBTag x (nat (t mod 256)) m = Inr m1" using x Cons.prems(2) by (simp add: mm_setRROBTag_def m1_def)
  obtain m' r' new where i: "reserve_rows B n g N i v rs (m1, r1) = Inr (m', r')" "has_room k r'"
    "list_of (axiListManager r') i = list_of (axiListManager r1) i @ new"
    "map mark_of new = map (\<lambda>x. (int (trunc16 (g + x)) = int N - 1, row_shape B n x)) rs"
    using Cons.IH [OF r1(2), of m1] Cons.prems(2,3) by (auto simp: m1_def)
  have "reserve_rows B n g N i v (x # rs) (m, r) = Inr (m', r')"
    using row_plan_aligned [OF assms(1,2)] Cons.prems(3) r1(1) m1 i(1) B(2) by simp
  then show ?case using i r1(3,4) by (intro exI [of _ m'] exI [of _ r'] exI [of _ "(nd, e) # new"]) simp
qed simp

definition rows_of :: "nat \<Rightarrow> nat list \<Rightarrow> (bool \<times> nat) list" where
  "rows_of B ns = concat (map (chunk_rows B) ns)"

definition fits_row :: "nat \<Rightarrow> axi_id \<Rightarrow> aximmRWAddr \<Rightarrow> bool" where
  "fits_row B i a \<longleftrightarrow> B dvd getTotalByteSize a \<and> 0 < getTotalByteSize a \<and> getTotalByteSize a \<le> 256 \<and> ucast (a_id a) = i"

lemma length_rows_of: "length (rows_of B ns) = sum_list (map entries_for ns)"
  by (induction ns) (auto simp: rows_of_def chunk_rows_def)

lemma send_read_requests_aligned:
  assumes B: "beat_width B" and raw: "length (mm_rrob_tags raw) = 8"
  shows "\<forall>a \<in> set rs. fits_row B i a \<Longrightarrow> has_room (length (rows_of B (map getTotalByteSize rs)) + k) (nmu_rrob s) \<Longrightarrow>
    g + length (rows_of B (map getTotalByteSize rs)) < 65536 \<Longrightarrow> length (niOutVcs s vc) + length rs \<le> 16 \<Longrightarrow>
    \<exists>s' new. send_read_requests raw net c msg v op dest vc B L num shared j g rs s = Inr s' \<and>
      list_of (axiListManager (nmu_rrob s')) i = list_of (axiListManager (nmu_rrob s)) i @ new \<and>
      map mark_of new = marks g (entries_for L) (rows_of B (map getTotalByteSize rs))"
proof (induction rs arbitrary: s g j)
  case Nil
  then show ?case by (simp add: rows_of_def)
next
  case (Cons a rs)
  define n where "n = getTotalByteSize a"
  have a: "B dvd n" "n \<le> 256" "ucast (a_id a) = i" using Cons.prems(1) by (simp_all add: fits_row_def n_def)
  define s1 where "s1 = (case shared of Some p \<Rightarrow> s | None \<Rightarrow> s\<lparr> nmu_next_packet_id := nmu_next_packet_id s + 1 \<rparr>)"
  define p where "p = (case shared of Some p \<Rightarrow> p | None \<Rightarrow> nmu_next_packet_id s)"
  have s1: "nmu_rrob s1 = nmu_rrob s" "niOutVcs s1 = niOutVcs s" by (simp_all add: s1_def split: option.splits)
  define m0 where "m0 = (new_NocMemoryMsg raw MsgAR (MpRWAddr a) default_pload)
    \<lparr> mm_vnet := v, mm_original_read_bytes := L, mm_final_read_chunk := (j = num - 1) \<rparr>"
  define m1 where "m1 = (if mm_debugId msg \<ge> 0 then m0\<lparr> mm_debugId := mm_debugId msg, mm_net_probe_dbg_ids := [mm_debugId msg] \<rparr> else m0)"
  have tags: "length (mm_rrob_tags m1) = 8" using raw by (simp add: m1_def m0_def new_NocMemoryMsg_def)
  have len: "length (rows_of B (map getTotalByteSize (a # rs))) = entries_for n + length (rows_of B (map getTotalByteSize rs))"
    by (simp add: length_rows_of n_def)
  obtain m' r' new1 where r: "reserve_rows B n g (entries_for L) i v [0..<entries_for n] (m1, nmu_rrob s) = Inr (m', r')"
    "has_room (length (rows_of B (map getTotalByteSize rs)) + k) r'"
    "list_of (axiListManager r') i = list_of (axiListManager (nmu_rrob s)) i @ new1"
    "map mark_of new1 = map (\<lambda>x. (int (trunc16 (g + x)) = int (entries_for L) - 1, row_shape B n x)) [0..<entries_for n]"
    using reserve_rows_aligned [OF B a(1,2), of "[0..<entries_for n]" "length (rows_of B (map getTotalByteSize rs)) + k" "nmu_rrob s" m1 g "entries_for L" i v]
      Cons.prems(2) tags unfolding len by (auto simp: add.assoc)
  have "map mark_of new1 = map (\<lambda>x. (int (g + x) = int (entries_for L) - 1, row_shape B n x)) [0..<entries_for n]"
    unfolding r(4) using Cons.prems(3) unfolding len by (intro map_cong) auto
  then have new1: "map mark_of new1 = marks g (entries_for L) (chunk_rows B n)"
    unfolding marks_upt chunk_rows_def .
  define fl where "fl = \<lparr> mf_packet_id = p, mf_id = (if shared = None then 0 else int j), mf_vc = vc, mf_vnet = v,
    mf_route = default_NocRouteInfo\<lparr> rt_vnet := v, src_ni := nmu_id s, src_router := net_routerID net op,
      dest_ni := dest, dest_router := net_get_router_id net dest v, hops_traversed := - 1 \<rparr>,
    mf_num_flits = (if shared = None then 1 else int num), mf_msg = new_Message (clockEdge c) m' \<rparr>"
  have free: "\<not> vc_full vc (s1\<lparr> nmu_rrob := r' \<rparr>)" using Cons.prems(4) by (simp add: vc_full_def kNiOutVcMaxFlits_def s1)
  then obtain fl' s2 where s2: "injectFlit fl vc (s1\<lparr> nmu_rrob := r' \<rparr>) = Some (fl', s2)" "nmu_rrob s2 = r'"
    "length (niOutVcs s2 vc) = length (niOutVcs s vc) + 1"
    by (simp add: injectFlit_def s1 Let_def)
  have g: "trunc16 (g + entries_for n) = g + entries_for n" using Cons.prems(3) unfolding len by simp
  obtain s' new where i: "send_read_requests raw net c msg v op dest vc B L num shared (j + 1) (g + entries_for n) rs s2 = Inr s'"
    "list_of (axiListManager (nmu_rrob s')) i = list_of (axiListManager r') i @ new"
    "map mark_of new = marks (g + entries_for n) (entries_for L) (rows_of B (map getTotalByteSize rs))"
    using Cons.IH [of s2 "g + entries_for n" "j + 1"] Cons.prems r(2) s2(2,3) unfolding len by auto
  have "send_read_requests raw net c msg v op dest vc B L num shared j g (a # rs) s = Inr s'"
    using r(1) s2(1) i(1) a(3) s1 g
    by (auto simp: m1_def m0_def n_def fl_def p_def s1_def Let_def split: option.splits if_splits)
  then show ?case using i(2,3) r(3) new1
    by (intro exI [of _ s'] exI [of _ "new1 @ new"]) (simp add: rows_of_def chunk_rows_def n_def)
qed

section \<open>The flags of the beats\<close>

text \<open>The last signals of the beats that reserved rows stand for, with two rows for a beat of 64 bytes.\<close>

fun beat_flags :: "(bool \<times> bool \<times> nat) list \<Rightarrow> bool list" where
  "beat_flags [] = []"
| "beat_flags ((h, nn, x) # ms) =
     (if nn then (case ms of [] \<Rightarrow> [] | m # ms' \<Rightarrow> fst m # beat_flags ms') else replicate x False @ h # beat_flags ms)"

lemma beats_of_rows: "map rb_last (list_beats (map snd l)) = beat_flags (map mark_of l)"
proof (induction "map snd l" arbitrary: l rule: list_beats.induct)
  case (2 e es)
  then obtain n k where l: "l = (n, e) # k" "es = map snd k" by (cases l) auto
  have "map (\<lambda>i. h \<and> x = i) [0..<x + 1] = replicate x False @ [h]" for h x by (rule nth_equalityI) (auto simp: nth_append)
  then have e: "map rb_last (entry_beats e) = replicate (last_beat_idx e) False @ [contains_last e]"
    by (simp add: entry_beats_def entry_beat_def o_def del: upt_Suc)
  show ?case
  proof (cases "need_next_entry e")
    case False
    then show ?thesis using 2(2) [OF False l(2)] e l by (simp add: mark_of_def)
  next
    case True
    then show ?thesis using 2(1) [OF True] l by (cases k) (auto simp: mark_of_def pair_beat_def)
  qed
qed simp

text \<open>Rows whose data is complete, none of it handed out; and what their generation hands out.\<close>

definition rows_filled :: "node list \<Rightarrow> bool" where
  "rows_filled l \<longleftrightarrow> list_ok (map snd l) \<and> (\<forall>b \<in> set (list_beats (map snd l)). rb_valid b \<and> \<not> rb_sent b)"

definition beat_last :: "NocMemoryMsg \<Rightarrow> bool" where
  "beat_last m = (case mm_pload m of PlAximm (d # _) \<Rightarrow> d_last d | _ \<Rightarrow> False)"

definition hands_out :: "axi_id \<Rightarrow> node list \<Rightarrow> bool list \<Rightarrow> bool" where
  "hands_out i rows fs \<longleftrightarrow> map rb_last (list_beats (map snd rows)) = fs \<and>
     (\<forall>raw l. nodes_rel same_shape rows l \<and> rows_filled l \<longrightarrow> (\<exists>l' ms. gen_list raw i l = Inr (l', ms) \<and> map beat_last ms = fs))"

lemma same_shape_marks: "nodes_rel same_shape l l' \<Longrightarrow> map mark_of l' = map mark_of l"
  unfolding nodes_rel_def by (induction rule: list_all2_induct) (auto simp: mark_of_def same_shape_def)

lemma run_fresh: "\<forall>b \<in> set bs. rb_valid b \<and> \<not> rb_sent b \<Longrightarrow> snd (run bs) = bs"
  by (induction bs) auto

lemma hands_outI: "hands_out i rows (beat_flags (map mark_of rows))"
  unfolding hands_out_def
proof (intro conjI allI impI; (elim conjE)?)
  show "map rb_last (list_beats (map snd rows)) = beat_flags (map mark_of rows)" by (rule beats_of_rows)
next
  fix raw l
  assume l: "nodes_rel same_shape rows l" "rows_filled l"
  then obtain l' where g: "gen_list raw i l = Inr (l', map (Rrob_Order.beat_message raw i) (list_beats (map snd l)))"
    using gen_list_run [of l raw i] run_fresh by (auto simp: rows_filled_def)
  have "beat_last (Rrob_Order.beat_message raw i b) = rb_last b" for b
    by (simp add: beat_last_def Rrob_Order.beat_message_def new_NocMemoryMsg_def)
  then show "\<exists>l' ms. gen_list raw i l = Inr (l', ms) \<and> map beat_last ms = beat_flags (map mark_of rows)"
    using g beats_of_rows [of l] same_shape_marks [OF l(1)] by (simp add: o_def)
qed

text \<open>Rows of beats of up to 32 bytes.\<close>

abbreviation plain :: "nat list \<Rightarrow> (bool \<times> nat) list" where
  "plain xs \<equiv> map (Pair False) xs"

lemma flags_append: "beat_flags (marks g N (plain xs) @ ms) = beat_flags (marks g N (plain xs)) @ beat_flags ms"
  by (induction xs arbitrary: g) auto

lemma flags_before: "g + length xs < N \<Longrightarrow> beat_flags (marks g N (plain xs)) = replicate (sum_list (map Suc xs)) False"
  by (induction xs arbitrary: g) (auto simp: replicate_add replicate_app_Cons_same)

lemma flags_exact:
  assumes "xs \<noteq> []" and "N = g + length xs"
  shows "beat_flags (marks g N (plain xs)) = replicate (sum_list (map Suc xs) - 1) False @ [True]"
proof -
  obtain ys y where xs: "xs = ys @ [y]" using assms(1) by (metis rev_exhaust)
  have "beat_flags (marks g N (plain ys)) = replicate (sum_list (map Suc ys)) False" using assms(2) by (intro flags_before) (simp add: xs)
  then show ?thesis using assms(2) by (simp add: xs flags_append replicate_add)
qed

lemma flags_early:
  assumes "xs \<noteq> []" and "N < g + length xs"
  shows "\<not> last (beat_flags (marks g N (plain xs)))"
proof -
  obtain ys y where xs: "xs = ys @ [y]" using assms(1) by (metis rev_exhaust)
  show ?thesis using assms(2) by (simp add: xs flags_append)
qed

lemma length_flags: "length (beat_flags (marks g N (plain xs))) = sum_list (map Suc xs)"
  by (induction xs arbitrary: g) auto

lemma flags_some: "g < N \<Longrightarrow> N \<le> g + length xs \<Longrightarrow> True \<in> set (beat_flags (marks g N (plain xs)))"
proof (induction xs arbitrary: g)
  case (Cons x xs)
  then show ?case by (cases "N = g + 1") auto
qed simp

lemma chunk_rows_plain: "B \<le> 32 \<Longrightarrow> chunk_rows B n = plain (map (row_idx B n) [0..<entries_for n])"
  by (simp add: chunk_rows_def row_shape_def)

lemma chunk_beats:
  assumes "B dvd 32" and "B dvd n" and "0 < n"
  shows "sum_list (map Suc (map (row_idx B n) [0..<entries_for n])) = n div B"
proof -
  define R where "R = entries_for n - 1"
  have R: "entries_for n = Suc R" "R * 32 < n" "n \<le> R * 32 + 32" using assms(3) by (auto simp: R_def entries_for_def)
  have B: "0 < B" using beat_of_row [OF assms(1)] by simp
  have full: "Suc (row_idx B n r) = 32 div B" if "r < R" for r
  proof -
    have "r * 32 + 32 \<le> R * 32" using that by simp
    then have "min 32 (n - r * 32) = 32" using R(2) by simp
    moreover have "32 div B \<noteq> 0" using assms(1) B by (simp add: dvd_div_eq_0_iff)
    ultimately show ?thesis by (simp add: row_idx_def)
  qed
  have d: "B dvd n - R * 32" using assms(1,2) by (simp add: dvd_diff_nat)
  have "(n - R * 32) div B \<noteq> 0" using d R(2) by (metis dvd_div_eq_0_iff less_numeral_extra(3) zero_less_diff)
  moreover have "min 32 (n - R * 32) = n - R * 32" using R(3) by simp
  ultimately have last: "Suc (row_idx B n R) = (n - R * 32) div B" by (simp only: row_idx_def)
  have "sum_list (map Suc (map (row_idx B n) [0..<R])) = R * (32 div B)"
    using full by (induction R) (auto simp: algebra_simps)
  then have "sum_list (map Suc (map (row_idx B n) [0..<entries_for n])) = R * (32 div B) + (n - R * 32) div B"
    using last by (simp add: R(1))
  also have "R * (32 div B) = (R * 32) div B" using assms(1) by (simp add: div_mult_swap)
  also have "(R * 32) div B + (n - R * 32) div B = n div B"
    using assms(1) R(2) by (simp add: div_plus_div_distrib_dvd_left [symmetric])
  finally show ?thesis .
qed

lemma rows_plain:
  assumes "B dvd 32" and "\<forall>n \<in> set ns. B dvd n \<and> 0 < n"
  shows "\<exists>xs. rows_of B ns = plain xs \<and> sum_list (map Suc xs) = sum_list ns div B"
  using assms(2)
proof (induction ns)
  case (Cons n ns)
  then obtain xs where xs: "rows_of B ns = plain xs" "sum_list (map Suc xs) = sum_list ns div B" by auto
  have "B \<le> 32" using beat_of_row [OF assms(1)] by simp
  then have "rows_of B (n # ns) = plain (map (row_idx B n) [0..<entries_for n] @ xs)"
    using xs(1) by (simp add: rows_of_def chunk_rows_plain)
  moreover have "sum_list (map Suc (map (row_idx B n) [0..<entries_for n] @ xs)) = sum_list (n # ns) div B"
    using chunk_beats [OF assms(1), of n] Cons.prems xs(2) by (simp add: div_plus_div_distrib_dvd_left)
  ultimately show ?case by blast
qed (simp add: rows_of_def)

text \<open>Rows of beats of 64 bytes come in pairs.\<close>

definition pairs :: "nat \<Rightarrow> (bool \<times> nat) list" where
  "pairs k = concat (replicate k [(True, 0), (False, 0)])"

lemma pairs_add: "pairs (k + m) = pairs k @ pairs m"
  by (simp add: pairs_def replicate_add)

lemma length_pairs: "length (pairs k) = 2 * k"
  by (induction k) (simp_all add: pairs_def)

lemma pair_flags: "beat_flags (marks g N (pairs k)) = map (\<lambda>i. int (g + 2 * i + 1) = int N - 1) [0..<k]"
proof (induction k arbitrary: g)
  case (Suc k)
  have "map (\<lambda>i. int (g + 2 * i + 1) = int N - 1) [0..<Suc k] =
      (int (g + 1) = int N - 1) # map (\<lambda>i. int (g + 2 + 2 * i + 1) = int N - 1) [0..<k]"
    by (simp add: upt_conv_Cons map_Suc_upt [symmetric] o_def del: upt_Suc)
  then show ?case using Suc [of "g + 2"] by (simp add: pairs_def)
qed (simp add: pairs_def)

lemma pair_flags_exact: "0 < k \<Longrightarrow> beat_flags (marks 0 (2 * k) (pairs k)) = replicate (k - 1) False @ [True]"
  by (rule nth_equalityI) (auto simp: pair_flags nth_append)

lemma rows_pairs:
  assumes "\<forall>n \<in> set ns. 64 dvd n"
  shows "rows_of 64 ns = pairs (sum_list ns div 64)"
  using assms
proof (induction ns)
  case (Cons n ns)
  then obtain q where q: "n = 64 * q" by auto
  have "map (row_shape 64 n) [0..<2 * k] = pairs k" for k
    by (induction k) (simp_all add: pairs_def row_shape_def row_idx_def replicate_append_same [symmetric])
  moreover have "(31 + 2 * q * 32) div 32 = 2 * q + 31 div 32" by (rule div_mult_self1) simp
  then have "entries_for n = 2 * q" by (simp add: entries_for_def q)
  ultimately have "chunk_rows 64 n = pairs q" by (simp add: chunk_rows_def)
  then show ?case using Cons by (simp add: rows_of_def q pairs_add)
qed (simp add: rows_of_def pairs_def)

lemma entries_split: "32 dvd f \<Longrightarrow> f \<le> L \<Longrightarrow> entries_for f + entries_for (L - f) = entries_for L"
proof -
  assume "32 dvd f" "f \<le> L"
  then obtain q where f: "f = 32 * q" by blast
  have "L + 31 = (L - 32 * q + 31) + q * 32" using \<open>f \<le> L\<close> f by simp
  then show ?thesis by (simp add: entries_for_def f)
qed

lemma blocks_entries: "32 dvd f \<or> L \<le> f \<Longrightarrow> sum_list (map entries_for (blocks f L)) = entries_for L"
proof (induction f L rule: blocks.induct)
  case (1 f L)
  then show ?case using entries_split [of f L] by (subst blocks.simps) auto
qed

lemma blocks_entries_cross:
  "0 < f \<Longrightarrow> f < L \<Longrightarrow> sum_list (map entries_for (blocks f L)) = entries_for f + entries_for (L - f)"
  using blocks_entries [of 256 "L - f"] by (subst blocks.simps) auto

lemma entries_sum: "entries_for (sum_list ns) \<le> sum_list (map entries_for ns)"
proof (induction ns)
  case (Cons n ns)
  have "entries_for (n + m) \<le> entries_for n + entries_for m" for m by (simp add: entries_for_def)
  from this [of "sum_list ns"] show ?case using Cons by simp
qed (simp add: entries_for_def)

section \<open>Read bursts\<close>

text \<open>The bytes of a burst and the bytes to the first block border.\<close>

definition burst_bytes :: "aximmRWAddr \<Rightarrow> nat" where
  "burst_bytes a = (unat (len a) + 1) * 2 ^ unat (sz a)"

definition border_bytes :: "aximmRWAddr \<Rightarrow> nat" where
  "border_bytes a = 256 - unat (addr a) mod 256"

text \<open>A burst of beats of up to 64 bytes, on a beat address, and a unit with the space for it.\<close>

definition read_fits :: "NocMemoryMsg \<Rightarrow> int \<Rightarrow> aximmRWAddr \<Rightarrow> mmNMU \<Rightarrow> bool" where
  "read_fits raw vc a s \<longleftrightarrow> unat (sz a) \<le> 6 \<and> 2 ^ unat (sz a) dvd unat (addr a) \<and> unat (addr a) + burst_bytes a \<le> 2 ^ 64 \<and>
     length (mm_rrob_tags raw) = 8 \<and>
     rr_max_entries (nmu_rrob s) = m_max_entries (axiListManager (nmu_rrob s)) \<and> rr_max_entries (nmu_rrob s) < 2048 \<and>
     has_room (sum_list (map entries_for (blocks (border_bytes a) (burst_bytes a)))) (nmu_rrob s) \<and>
     length (niOutVcs s vc) + (unat (addr a) mod 256 + burst_bytes a + 255) div 256 \<le> 16"

lemma read_cut:
  assumes fits: "read_fits raw vc a s"
  shows "\<exists>rs. chopInto256BRequests a = Inr rs \<and> map getTotalByteSize rs = blocks (border_bytes a) (burst_bytes a) \<and>
      (\<forall>r \<in> set rs. fits_row (2 ^ unat (sz a)) (ucast (a_id a)) r) \<and> length (niOutVcs s vc) + length rs \<le> 16"
    and "beat_width (2 ^ unat (sz a))" and "burst_bytes a \<le> 32768" and "0 < burst_bytes a"
    and "\<forall>n \<in> set (blocks (border_bytes a) (burst_bytes a)). 2 ^ unat (sz a) dvd n \<and> 0 < n"
proof -
  define B L f where "B = (2 :: nat) ^ unat (sz a)" and "L = burst_bytes a" and "f = border_bytes a"
  have al: "unat (sz a) \<le> 7" "B dvd unat (addr a)" "unat (addr a) + (unat (len a) + 1) * 2 ^ unat (sz a) \<le> 2 ^ 64"
    using fits by (auto simp: read_fits_def burst_bytes_def B_def)
  have B: "beat_width B"
  proof (cases "unat (sz a) = 6")
    case False
    then have "B dvd 2 ^ 5" unfolding B_def using fits by (intro le_imp_power_dvd) (simp add: read_fits_def)
    then show ?thesis by (simp add: beat_width_def)
  qed (simp add: beat_width_def B_def)
  have "B dvd 2 ^ 8" unfolding B_def using al(1) by (intro le_imp_power_dvd) simp
  then have B': "B dvd 256" by simp
  obtain rs where rs: "chopInto256BRequests a = Inr rs" "map getTotalByteSize rs = blocks f L" "\<forall>r \<in> set rs. a_id r = a_id a"
    using chop_sizes [OF al(1) al(2) [unfolded B_def] al(3)] by (auto simp: f_def L_def border_bytes_def burst_bytes_def)
  have len: "length (niOutVcs s vc) + length rs \<le> 16"
    using chop_aligned(1) [OF al(1) al(2) [unfolded B_def] al(3)] rs(1) fits chop_result_length by (fastforce simp: read_fits_def burst_bytes_def)
  have L: "L \<le> 32768" "0 < L" "B dvd L"
    using chop_aligned(2) [OF al(1) al(2) [unfolded B_def] al(3)] by (simp_all add: L_def burst_bytes_def B_def)
  have f: "f \<le> 256" "0 < f" "B dvd f" using al(2) B' by (simp_all add: f_def border_bytes_def dvd_diff_nat dvd_mod)
  have ns: "\<forall>n \<in> set (blocks f L). B dvd n \<and> 0 < n \<and> n \<le> 256"
    using blocks_range [OF f(1,2) L(2)] blocks_dvd [OF f(3) B' L(3)] by auto
  then have "\<forall>r \<in> set rs. fits_row B (ucast (a_id a)) r" unfolding rs(2) [symmetric] using rs(3) by (simp add: fits_row_def)
  with rs len B L ns show "\<exists>rs. chopInto256BRequests a = Inr rs \<and> map getTotalByteSize rs = blocks (border_bytes a) (burst_bytes a) \<and>
      (\<forall>r \<in> set rs. fits_row (2 ^ unat (sz a)) (ucast (a_id a)) r) \<and> length (niOutVcs s vc) + length rs \<le> 16"
    "beat_width (2 ^ unat (sz a))" "burst_bytes a \<le> 32768" "0 < burst_bytes a"
    "\<forall>n \<in> set (blocks (border_bytes a) (burst_bytes a)). 2 ^ unat (sz a) dvd n \<and> 0 < n"
    by (auto simp: B_def L_def f_def)
qed

lemma read_reserves:
  assumes fits: "read_fits raw vc a s"
  shows "\<exists>s' new. flitisizeReadRequest raw net c msg v a op dest vc s = Inr (True, s') \<and>
    list_of (axiListManager (nmu_rrob s')) (ucast (a_id a)) = list_of (axiListManager (nmu_rrob s)) (ucast (a_id a)) @ new \<and>
    map mark_of new = marks 0 (entries_for (burst_bytes a)) (rows_of (2 ^ unat (sz a)) (blocks (border_bytes a) (burst_bytes a)))"
proof -
  define B L ns where "B = (2 :: nat) ^ unat (sz a)" and "L = burst_bytes a" and "ns = blocks (border_bytes a) L"
  have B: "beat_width B" "B \<le> 64" using read_cut(2) [OF fits] beat_width_range [of B] by (simp_all add: B_def)
  obtain rs where rs: "chopInto256BRequests a = Inr rs" "map getTotalByteSize rs = ns"
    "\<forall>r \<in> set rs. fits_row B (ucast (a_id a)) r" "length (niOutVcs s vc) + length rs \<le> 16"
    using read_cut(1) [OF fits] by (auto simp: B_def ns_def L_def)
  have size: "getTotalByteSize a = L" "getBeatByteSize a = B"
    using read_cut(3) [OF fits] B(2) by (simp_all add: getTotalByteSize_def getBeatByteSize_def L_def burst_bytes_def B_def)
  have tags: "length (mm_rrob_tags raw) = 8" using fits by (simp add: read_fits_def)
  have room: "has_room (length (rows_of B ns) + 0) (nmu_rrob s)" "entries_for L \<le> length (rows_of B ns)"
    using fits entries_sum [of ns] by (simp_all add: read_fits_def length_rows_of ns_def L_def blocks_sum)
  then obtain k where k: "numEntries (axiListManager (nmu_rrob s)) = int k"
    "k + length (rows_of B ns) \<le> rr_max_entries (nmu_rrob s)" "rr_max_entries (nmu_rrob s) < 2048"
    using fits by (auto simp: has_room_def read_fits_def)
  have cap: "L \<le> trunc16 (rr_max_entries (nmu_rrob s) * 32)" "entries_for L \<le> getNumRemainingEntries (nmu_rrob s)"
    using k room(2) by (auto simp: entries_for_def getNumRemainingEntries_def)
  define packet where "packet \<longleftrightarrow> m_packetize_read_req_chunks s \<and> 1 < length rs \<and> length rs \<le> kNppAssemblerMaxFlits"
  define shared where "shared = (if packet then Some (nmu_next_packet_id s) else None)"
  define s1 where "s1 = (if packet then s\<lparr> nmu_next_packet_id := nmu_next_packet_id s + 1 \<rparr> else s)"
  have s1: "nmu_rrob s1 = nmu_rrob s" "niOutVcs s1 = niOutVcs s" by (simp_all add: s1_def)
  have run: "flitisizeReadRequest raw net c msg v a op dest vc s =
      rbind (send_read_requests raw net c msg v op dest vc B L (length rs) shared 0 0 rs s1)
        (\<lambda>s2. Inr (True, s2\<lparr> nmu_rrob := incrementNumAxiReads (nmu_rrob s2) \<rparr>))"
    using rs(1) cap size by (simp add: flitisizeReadRequest_def packet_def shared_def s1_def Let_def)
  have "0 + length (rows_of B ns) < 65536" using k(2,3) by simp
  from send_read_requests_aligned [OF B(1) tags rs(3), of 0 s1 0] this room(1) rs(4)
  obtain s2 new where "send_read_requests raw net c msg v op dest vc B L (length rs) shared 0 0 rs s1 = Inr s2"
    "list_of (axiListManager (nmu_rrob s2)) (ucast (a_id a)) = list_of (axiListManager (nmu_rrob s)) (ucast (a_id a)) @ new"
    "map mark_of new = marks 0 (entries_for L) (rows_of B ns)"
    unfolding s1 rs(2) by metis
  then show ?thesis unfolding run
    by (intro exI [of _ "s2\<lparr> nmu_rrob := incrementNumAxiReads (nmu_rrob s2) \<rparr>"] exI [of _ new])
      (simp add: incrementNumAxiReads_def ns_def L_def B_def)
qed

text \<open>A burst as rows of up to 32 bytes or as pairs of rows.\<close>

lemma read_rows_cases [consumes 1, case_names plain pairs]:
  assumes "read_fits raw vc a s"
  obtains (plain) xs where "rows_of (2 ^ unat (sz a)) (blocks (border_bytes a) (burst_bytes a)) = plain xs" "sum_list (map Suc xs) = unat (len a) + 1"
  | (pairs) "rows_of (2 ^ unat (sz a)) (blocks (border_bytes a) (burst_bytes a)) = pairs (unat (len a) + 1)"
      "32 dvd border_bytes a" "entries_for (burst_bytes a) = 2 * (unat (len a) + 1)"
proof (cases "(2 :: nat) ^ unat (sz a) dvd 32")
  case True
  then show ?thesis using rows_plain [OF True read_cut(5) [OF assms]] plain by (auto simp: blocks_sum burst_bytes_def)
next
  case False
  then have B: "(2 :: nat) ^ unat (sz a) = 64" using read_cut(2) [OF assms] by (simp add: beat_width_def)
  have "64 dvd unat (addr a)" using assms B by (simp add: read_fits_def)
  then have "32 dvd unat (addr a)" by (rule dvd_trans [rotated]) simp
  then have d: "32 dvd border_bytes a" by (simp add: border_bytes_def dvd_diff_nat dvd_mod)
  have L: "burst_bytes a = (unat (len a) + 1) * 64" unfolding burst_bytes_def B ..
  have "(31 + 2 * (unat (len a) + 1) * 32) div 32 = 2 * (unat (len a) + 1) + 31 div 32" by (rule div_mult_self1) simp
  then have "entries_for (burst_bytes a) = 2 * (unat (len a) + 1)" by (simp add: entries_for_def L)
  then show ?thesis using rows_pairs [of "blocks (border_bytes a) (burst_bytes a)"] read_cut(5) [OF assms] d pairs unfolding B
    by (simp add: blocks_sum L)
qed

text \<open>C13: The last signal of reads. Take a read burst on an address that is a multiple of the beat size, with beats of up to 64 bytes, where
  the address is also a multiple of 32 bytes or the burst stays within one 256 byte block, and a unit with space for it
  in the reorder buffer and in the virtual channel. The request is accepted and reserves rows for exactly its beats, and once
  the data of these rows is complete, generation hands out one message per beat, of which the last one and no
  other carries the last signal.\<close>

theorem read_last_flag:
  assumes "read_fits raw vc a s" and "32 dvd unat (addr a) \<or> burst_bytes a \<le> border_bytes a"
  shows "\<exists>s' new. flitisizeReadRequest raw net c msg v a op dest vc s = Inr (True, s') \<and>
    list_of (axiListManager (nmu_rrob s')) (ucast (a_id a)) = list_of (axiListManager (nmu_rrob s)) (ucast (a_id a)) @ new \<and>
    hands_out (ucast (a_id a)) new (replicate (unat (len a)) False @ [True])"
proof -
  let ?N = "entries_for (burst_bytes a)" and ?rows = "rows_of (2 ^ unat (sz a)) (blocks (border_bytes a) (burst_bytes a))"
  have "32 dvd border_bytes a \<or> burst_bytes a \<le> border_bytes a"
    using assms(2) by (auto simp: border_bytes_def dvd_diff_nat dvd_mod)
  then have n: "length ?rows = ?N" by (simp add: length_rows_of blocks_entries)
  have "beat_flags (marks 0 ?N ?rows) = replicate (unat (len a)) False @ [True]"
    using assms(1)
  proof (cases rule: read_rows_cases)
    case (plain xs)
    have "xs \<noteq> []" using plain(2) by auto
    then show ?thesis using flags_exact [of xs ?N 0] n plain by simp
  next
    case pairs
    then show ?thesis using pair_flags_exact [of "unat (len a) + 1"] by simp
  qed
  then show ?thesis using read_reserves [OF assms(1), of net c msg v op dest] hands_outI by metis
qed

definition sample_read :: aximmRWAddr where
  "sample_read = default_aximmRWAddr\<lparr> addr := 0xE0, len := 3, sz := 4, a_cmd := CmdREAD \<rparr>"

lemma sample_has_room: "k \<le> 64 \<Longrightarrow> has_room k (nmu_rrob (sample_unit d))"
  by (simp add: has_room_def sample_unit_def new_AxiListManager_def)

definition sample_wide_read :: aximmRWAddr where
  "sample_wide_read = default_aximmRWAddr\<lparr> addr := 0xC0, len := 3, sz := 6, a_cmd := CmdREAD \<rparr>"

lemma sample_reads_fit: "read_fits sample_packet_msg 0 sample_read (sample_unit 0)" "read_fits sample_packet_msg 0 sample_wide_read (sample_unit 0)"
  by (simp_all add: read_fits_def sample_has_room sample_read_def sample_wide_read_def burst_bytes_def border_bytes_def blocks.simps entries_for_def)
    (simp_all add: sample_unit_def sample_packet_msg_def new_AxiListManager_def)

theorem read_last_flag_witness:
  "(\<exists>s'. flitisizeReadRequest sample_packet_msg sample_tables (sample_clock 10) sample_packet_msg 2 sample_read 0 1 0 (sample_unit 0) = Inr (True, s') \<and>
      hands_out 0 (list_of (axiListManager (nmu_rrob s')) 0) [False, False, False, True]) \<and>
   (\<exists>s'. flitisizeReadRequest sample_packet_msg sample_tables (sample_clock 10) sample_packet_msg 2 sample_wide_read 0 1 0 (sample_unit 0) = Inr (True, s') \<and>
      hands_out 0 (list_of (axiListManager (nmu_rrob s')) 0) [False, False, False, True])"
proof -
  have "\<exists>s'. flitisizeReadRequest sample_packet_msg sample_tables (sample_clock 10) sample_packet_msg 2 a 0 1 0 (sample_unit 0) = Inr (True, s') \<and>
      hands_out 0 (list_of (axiListManager (nmu_rrob s')) 0) [False, False, False, True]"
    if a: "a \<in> {sample_read, sample_wide_read}" for a
  proof -
    have "read_fits sample_packet_msg 0 a (sample_unit 0)" using a sample_reads_fit by auto
    moreover have "32 dvd unat (addr a)" "unat (len a) = 3" "a_id a = 0"
      using a by (auto simp: sample_read_def sample_wide_read_def default_aximmRWAddr_def)
    moreover have "list_of (axiListManager (nmu_rrob (sample_unit 0))) 0 = []"
      by (simp add: sample_unit_def new_AxiListManager_def list_of_def)
    moreover have "replicate 3 False @ [True] = [False, False, False, True]" by (simp add: numeral_3_eq_3)
    ultimately show ?thesis
      using read_last_flag [of sample_packet_msg 0 a "sample_unit 0" sample_tables "sample_clock 10" sample_packet_msg 2 0 1] by auto
  qed
  then show ?thesis by simp
qed

text \<open>C36: When a burst crosses a 256 byte border and its two parts need more rows than the burst as a
  whole, which happens for addresses that are not a multiple of 32, the flag goes to an earlier row:
  generation hands out one message per beat, but an earlier one carries the last signal and the last one does not.\<close>

theorem read_last_flag_early:
  assumes "read_fits raw vc a s" and "border_bytes a < burst_bytes a"
    and "entries_for (burst_bytes a) < entries_for (border_bytes a) + entries_for (burst_bytes a - border_bytes a)"
  shows "\<exists>s' new fs. flitisizeReadRequest raw net c msg v a op dest vc s = Inr (True, s') \<and>
    list_of (axiListManager (nmu_rrob s')) (ucast (a_id a)) = list_of (axiListManager (nmu_rrob s)) (ucast (a_id a)) @ new \<and>
    hands_out (ucast (a_id a)) new fs \<and> length fs = unat (len a) + 1 \<and> \<not> last fs \<and> True \<in> set fs"
proof -
  let ?N = "entries_for (burst_bytes a)" and ?rows = "rows_of (2 ^ unat (sz a)) (blocks (border_bytes a) (burst_bytes a))"
  have "0 < border_bytes a" by (simp add: border_bytes_def)
  then have n: "?N < length ?rows" using assms(2,3) by (simp add: length_rows_of blocks_entries_cross)
  have N: "0 < ?N" using assms(2) by (simp add: entries_for_def)
  have "length (beat_flags (marks 0 ?N ?rows)) = unat (len a) + 1 \<and> \<not> last (beat_flags (marks 0 ?N ?rows)) \<and>
      True \<in> set (beat_flags (marks 0 ?N ?rows))"
    using assms(1)
  proof (cases rule: read_rows_cases)
    case (plain xs)
    have "xs \<noteq> []" "?N < length xs" using n plain(1) by auto
    then show ?thesis using flags_early [of xs ?N 0] flags_some [of 0 ?N xs] length_flags [of 0 ?N xs] N plain by simp
  next
    case pairs
    then show ?thesis using n by (simp add: length_pairs)
  qed
  then show ?thesis using read_reserves [OF assms(1), of net c msg v op dest] hands_outI by metis
qed

definition sample_short_read :: aximmRWAddr where
  "sample_short_read = default_aximmRWAddr\<lparr> addr := 0xF0, len := 1, sz := 4, a_cmd := CmdREAD \<rparr>"

theorem read_last_flag_early_witness:
  "\<exists>s' new fs. flitisizeReadRequest sample_packet_msg sample_tables (sample_clock 10) sample_packet_msg 2 sample_short_read 0 1 0 (sample_unit 0) =
      Inr (True, s') \<and> list_of (axiListManager (nmu_rrob s')) 0 = new \<and> hands_out 0 new fs \<and> length fs = 2 \<and> \<not> last fs"
proof -
  have f: "read_fits sample_packet_msg 0 sample_short_read (sample_unit 0)"
    by (simp add: read_fits_def sample_has_room sample_short_read_def burst_bytes_def border_bytes_def blocks.simps entries_for_def)
      (simp add: sample_unit_def sample_packet_msg_def new_AxiListManager_def)
  have "border_bytes sample_short_read = 16" "burst_bytes sample_short_read = 32" "unat (len sample_short_read) = 1" "a_id sample_short_read = 0"
    by (simp_all add: sample_short_read_def burst_bytes_def border_bytes_def default_aximmRWAddr_def)
  moreover have "list_of (axiListManager (nmu_rrob (sample_unit 0))) 0 = []"
    by (simp add: sample_unit_def new_AxiListManager_def list_of_def)
  ultimately show ?thesis using read_last_flag_early [OF f, of sample_tables "sample_clock 10" sample_packet_msg 2 0 1]
    by (auto simp: entries_for_def numeral_2_eq_2)
qed

end
