(* ===== verification/MM_NMU_Errors.thy ===== *)
theory MM_NMU_Errors
  imports MM_NMU_Reads
begin

text \<open>
  Requests to addresses without a destination (\<open>handleReadDecErr\<close> and \<open>handleWriteDecErr\<close> of the
  memory-mapped master unit): what the endpoint receives, and the cases in which the answer overruns
  the buffer of the endpoint or the write buffer.
\<close>

section \<open>Reads\<close>

definition err_beat :: "NocMemoryMsg \<Rightarrow> aximmRWAddr \<Rightarrow> bool \<Rightarrow> NocMemoryMsg" where
  "err_beat raw a is_last = new_NocMemoryMsg raw MsgR
     (MpRWData (default_aximmRWData\<lparr> d_id := a_id a, d_resp := DECERR, d_valid := True, d_last := is_last \<rparr>)) default_pload"

abbreviation err_data :: "aximmRWAddr \<Rightarrow> aximmRWData" where
  "err_data a \<equiv> default_aximmRWData\<lparr> d_id := a_id a, d_resp := DECERR, d_valid := True \<rparr>"

abbreviation capacity_panic :: noc_error where
  "capacity_panic \<equiv> Panic ''assert m_prio_heap.size() + m_stall_map_size <= m_max_size''"

lemma put_err_beats_room:
  "outNode s R_VNET = Some b \<Longrightarrow> accepts 1 (getRandomization net) b (map (\<lambda>_. c) is) \<Longrightarrow>
    \<exists>s'. put_err_beats raw rngs net c (err_data a) n is s = Inr s' \<and>
      nmu_answered s' = nmu_answered s @ map (\<lambda>i. (R_VNET, err_beat raw a (i + 1 = n))) is"
proof (induction "is" arbitrary: s b rngs)
  case (Cons i "is")
  define m where "m = err_beat raw a (i + 1 = n)"
  define rng where "rng = (case rngs of [] \<Rightarrow> (0, 1, 1) | x # _ \<Rightarrow> x)"
  obtain b' where b': "mb_enqueue rng (new_Message (clockEdge c) m) (clockEdge c) (clockPeriod c) (getRandomization net)
      (getWarmupEnabled net) False b = Inr b'" "accepts 1 (getRandomization net) b' (map (\<lambda>_. c) is)"
    using accepts_step [of 1 "getRandomization net" b c "map (\<lambda>_. c) is" "new_Message (clockEdge c) m" rng "getWarmupEnabled net"]
      Cons.prems(2) by (auto simp: new_Message_def)
  define s1 where "s1 = s\<lparr> outNode := (outNode s)(R_VNET \<mapsto> b'), nmu_answered := nmu_answered s @ [(R_VNET, m)] \<rparr>"
  have "put_out rng net c R_VNET b m 1 s = Inr s1" using b'(1) by (simp add: put_out_def s1_def)
  moreover have "outNode s1 R_VNET = Some b'" by (simp add: s1_def)
  from Cons.IH [OF this b'(2), of "drop 1 rngs"]
  obtain s' where "put_err_beats raw (drop 1 rngs) net c (err_data a) n is s1 = Inr s'"
    "nmu_answered s' = nmu_answered s1 @ map (\<lambda>i. (R_VNET, err_beat raw a (i + 1 = n))) is" by blast
  ultimately show ?case using Cons.prems(1) by (auto simp: rng_def m_def err_beat_def s1_def)
qed simp

lemma put_err_beats_full:
  "outNode s R_VNET = Some b \<Longrightarrow> accepts 1 (getRandomization net) b (replicate k c) \<Longrightarrow> m_max_size b = mb_total b + k \<Longrightarrow>
    0 < m_max_size b \<Longrightarrow> m_last_arrival_time b \<le> arrival 1 c \<Longrightarrow> m_time_last_time_pop b < clockEdge c \<Longrightarrow>
    m_time_last_time_enqueue b \<le> clockEdge c \<Longrightarrow> k < length is \<Longrightarrow>
    put_err_beats raw rngs net c (err_data a) n is s = Inl capacity_panic"
proof (induction k arbitrary: s b rngs "is")
  case 0
  then obtain i js where i: "is = i # js" by (cases "is") auto
  have "mb_inv (clockEdge c) b"
    using "0.prems"(2,6,7) mb_inv_later [of "max (m_time_last_time_enqueue b) (m_time_last_time_pop b)" b "clockEdge c"] by (simp add: accepts_def)
  then have "put_out rng net c R_VNET b m 1 s = Inl capacity_panic" for rng m
    using "0.prems"(2-5) enqueue_on_time(2) [of "clockEdge c" b "getRandomization net" "clockPeriod c" "new_Message (clockEdge c) m"]
    by (simp add: put_out_def accepts_def new_Message_def arrival_def)
  then show ?case using "0.prems"(1) by (simp add: i)
next
  case (Suc k)
  then obtain i js where i: "is = i # js" by (cases "is") auto
  define m where "m = err_beat raw a (i + 1 = n)"
  define rng where "rng = (case rngs of [] \<Rightarrow> (0, 1, 1) | x # _ \<Rightarrow> x)"
  have acc: "accepts 1 (getRandomization net) b (c # replicate k c)" using Suc.prems(2) by simp
  obtain b' where b': "mb_enqueue rng (new_Message (clockEdge c) m) (clockEdge c) (1 * clockPeriod c) (getRandomization net)
      (getWarmupEnabled net) False b = Inr b'" "accepts 1 (getRandomization net) b' (replicate k c)"
      "mb_total b' = mb_total b + 1" "mb_conf b' = mb_conf b" "m_last_arrival_time b' \<le> arrival 1 c"
    using accepts_step [OF acc, of "new_Message (clockEdge c) m" rng "getWarmupEnabled net"] by (auto simp: new_Message_def)
  have nr: "no_random (getRandomization net) b" using acc by (simp add: accepts_def)
  have t: "m_time_last_time_pop b' < clockEdge c" "m_time_last_time_enqueue b' \<le> clockEdge c"
    using enqueue_plain(4,5) [OF b'(1) nr] Suc.prems(6,7) by simp_all
  define s1 where "s1 = s\<lparr> outNode := (outNode s)(R_VNET \<mapsto> b'), nmu_answered := nmu_answered s @ [(R_VNET, m)] \<rparr>"
  have "put_out rng net c R_VNET b m 1 s = Inr s1" using b'(1) by (simp add: put_out_def s1_def)
  moreover have "outNode s1 R_VNET = Some b'" "m_max_size b' = mb_total b' + k" "0 < m_max_size b'" "k < length js"
    using b'(3,4) Suc.prems(3,4,8) by (simp_all add: s1_def mb_conf_def i)
  from Suc.IH [OF this(1) b'(2) this(2,3) b'(5) t this(4), of "drop 1 rngs"]
  have "put_err_beats raw (drop 1 rngs) net c (err_data a) n js s1 = Inl capacity_panic" .
  ultimately show ?case using Suc.prems(1) by (simp add: i rng_def m_def err_beat_def)
qed


definition sample_unmapped :: aximmRWAddr where
  "sample_unmapped = default_aximmRWAddr\<lparr> addr := 0x2000, len := 9, sz := 4, a_cmd := CmdREAD \<rparr>"


section \<open>Writes\<close>

text \<open>An entry that has taken \<open>p\<close> bytes of its burst of \<open>T\<close> bytes, \<open>B\<close> of them per beat.\<close>

definition filled_to :: "nat \<Rightarrow> nat \<Rightarrow> nat \<Rightarrow> aximmWriteBufferEntry \<Rightarrow> bool" where
  "filled_to B T p e \<longleftrightarrow> axiBeatSize e = B \<and> numEmptyBytes e = T - p \<and> beatIdx e = p div 64 \<and> beatOffset e = p mod 64"

lemma write_one_beat:
  assumes e: "filled_to B T p e" and B: "B dvd 64" "B dvd p" and p: "p + B \<le> 256" and T: "256 < T" "T < 65536"
  shows "\<exists>e'. writeSingleEntry data 0 e ws now period dbg = Inr (B, e') \<and> filled_to B T (p + B) e'"
proof -
  have b: "0 < B" "B \<le> 64" using B(1) by (auto intro: dvd_imp_le Nat.gr0I)
  have m: "p mod 64 + B \<le> 64"
  proof -
    obtain q where q: "64 = B * q" using B(1) by blast
    have "B dvd p mod 64" using B by (simp add: dvd_mod)
    then obtain x where x: "p mod 64 = B * x" by blast
    have "B * x < B * q" using x q mod_less_divisor [of 64 p] by simp
    then have "B * (x + 1) \<le> B * q" by (intro mult_le_mono) auto
    then show ?thesis using x q by simp
  qed
  have i: "p div 64 < 4" using p b by simp
  define e1 where "e1 = put_slice data ws 0 0 B e"
  have f: "axiBeatSize e = B" "numEmptyBytes e = T - p" "beatIdx e = p div 64" "beatOffset e = p mod 64"
    using e by (simp_all add: filled_to_def)
  have "filled_to B T (p + B) e1"
  proof (cases "p mod 64 + B = 64")
    case True
    have "p + B = p div 64 * 64 + (p mod 64 + B)" by (metis add.assoc div_mult_mod_eq)
    then have "p + B = (p div 64 + 1) * 64" unfolding True by (simp only: distrib_right mult_1)
    then have "(p + B) div 64 = p div 64 + 1" "(p + B) mod 64 = 0" by simp_all
    then show ?thesis using f T p i True b by (simp add: e1_def put_slice_def filled_to_def Let_def)
  next
    case False
    then have "p mod 64 + B < 64" using m by simp
    have "p + B = (p mod 64 + B) + p div 64 * 64" using div_mult_mod_eq [of p 64] by linarith
    then have "(p + B) div 64 = p div 64" "(p + B) mod 64 = p mod 64 + B"
      using \<open>p mod 64 + B < 64\<close> by (simp_all only: div_mult_self1 mod_mult_self1) simp_all
    then show ?thesis using f T p \<open>p mod 64 + B < 64\<close> by (simp add: e1_def put_slice_def filled_to_def Let_def)
  qed
  moreover have "write_bytes data ws 0 0 0 B e = Inr (B, e1)"
  proof -
    have n: "min (NPP_BEAT_SIZE - beatOffset e) B = B" using m f(4) by (simp add: NPP_BEAT_SIZE_def)
    have here: "\<not> (4 \<le> beatIdx e \<or> NPP_BEAT_SIZE \<le> beatOffset e)" using i f(3,4) by (simp add: NPP_BEAT_SIZE_def not_le)
    have "0 < B" "B \<le> 64" "trunc8 B = B" using b by simp_all
    then show ?thesis by (subst write_bytes.simps) (simp add: here n write_bytes.simps [of _ _ _ _ _ 0] e1_def Let_def)
  qed
  moreover have "sub8 B 0 = B" "B \<le> numEmptyBytes e" using b f p T by simp_all
  ultimately show ?thesis using f by (simp add: writeSingleEntry_def filled_to_def Let_def)
qed

lemma write_beyond:
  assumes "filled_to B T 256 e" and "0 < B" and "B \<le> 64" and "256 < T"
  shows "writeSingleEntry data 0 e ws now period dbg = Inl (Undefined ''write outside nppData'')"
proof -
  have "(if sub8 B 0 \<le> numEmptyBytes e then sub8 B 0 else trunc8 (numEmptyBytes e)) = min B (T - 256)"
    using assms by (simp add: filled_to_def)
  then show ?thesis using assms by (simp add: writeSingleEntry_def filled_to_def write_bytes.simps Let_def)
qed

text \<open>The write beats of the endpoint, each with the clock at its arrival.\<close>

fun send_write_data ::
  "NocMemoryMsg \<Rightarrow> mm_network \<Rightarrow> (clock \<times> aximmRWData \<times> int) list \<Rightarrow> mmNMU \<times> aximmWriteBuffer \<Rightarrow> (mmNMU \<times> aximmWriteBuffer) result" where
  "send_write_data raw net [] sb = Inr sb"
| "send_write_data raw net ((c, d, dbg) # ds) sb = rbind (flitisizeWriteData raw net c d dbg sb) (send_write_data raw net ds)"

lemma overrun:
  assumes B: "B dvd 64" and T: "256 < T" "T < 65536"
  shows "mb_writeBuffer b = [e] \<Longrightarrow> filled_to B T p e \<Longrightarrow> B dvd p \<Longrightarrow> p \<le> 256 \<Longrightarrow> p + length ds * B = 256 + B \<Longrightarrow>
    send_write_data raw net ds (s, b) = Inl (Undefined ''write outside nppData'')"
proof (induction ds arbitrary: b e p)
  case Nil
  have "0 < B" using B by (auto intro: Nat.gr0I)
  then show ?case using Nil by simp
next
  case (Cons x ds)
  have b: "0 < B" "B \<le> 64" using B by (auto intro: dvd_imp_le Nat.gr0I)
  obtain c d dbg where x: "x = (c, d, dbg)" by (cases x)
  show ?case
  proof (cases ds)
    case Nil
    then have "p = 256" using Cons.prems(5) by simp
    then show ?thesis using write_beyond [OF _ b T(1)] Cons.prems(1,2)
      by (simp add: x flitisizeWriteData_def aximm_write_def fill_buffer_def)
  next
    case (Cons y ys)
    then have p: "p + B \<le> 256" using Cons.prems(5) by simp
    obtain e' where e': "writeSingleEntry (d_data d) 0 e (wstrb d) (curTick c) (clockPeriod c) dbg = Inr (B, e')" "filled_to B T (p + B) e'"
      using write_one_beat [OF Cons.prems(2) B Cons.prems(3) p T] by blast
    define b' where "b' = b\<lparr> mb_writeBuffer := [e'], mb_bufferSize := trunc16 (mb_bufferSize b + B) \<rparr>"
    have "numEmptyBytes e' \<noteq> 0" using e'(2) p T(1) by (simp add: filled_to_def)
    then have "flitisizeWriteData raw net c d dbg (s, b) = Inr (s, b')"
      using e' Cons.prems(1) b
      by (simp add: flitisizeWriteData_def aximm_write_def fill_buffer_def checkHeadReady_def b'_def filled_to_def)
    moreover have "send_write_data raw net ds (s, b') = Inl (Undefined ''write outside nppData'')"
      using e'(2) p Cons.prems(3,5) by (intro Cons.IH) (auto simp: b'_def)
    ultimately show ?thesis by (simp add: x)
  qed
qed

text \<open>C39: A write without a destination is entered into the write buffer as one entry for the whole burst,
  although an entry holds 256 bytes: for a burst of more than 256 bytes the unit accepts the request and
  answers it, and the first beat past the 256 bytes is written outside the array of the entry.\<close>

theorem write_decerr_overrun:
  assumes "outNode s B_VNET = Some bbuf" and "accepts 1 (getRandomization net) bbuf [c]"
    and "unat (sz a) \<le> 6" and "256 < burst_bytes a" and "length ds = 256 div 2 ^ unat (sz a) + 1"
  shows "\<exists>s' b'. handleWriteDecErr raw rng net c a (s, new_aximmWriteBuffer) = Inr (True, s', b') \<and>
    send_write_data raw net ds (s', b') = Inl (Undefined ''write outside nppData'')"
proof -
  define B where "B = (2 :: nat) ^ unat (sz a)"
  have "B dvd 2 ^ 6" unfolding B_def using assms(3) by (intro le_imp_power_dvd)
  then have B: "B dvd 64" "B \<le> 64" by (auto intro: dvd_imp_le)
  have "unat (len a) + 1 \<le> 256" using unsigned_less [where ?w = "len a" and ?'a = nat] by simp
  then have "burst_bytes a \<le> 256 * 64" unfolding burst_bytes_def using B(2) by (intro mult_le_mono) (simp_all add: B_def)
  then have T: "getTotalByteSize a = burst_bytes a" "burst_bytes a < 65536" by (simp_all add: getTotalByteSize_def burst_bytes_def)
  define m where "m = new_NocMemoryMsg raw MsgB (MpWResp (default_aximmWResp\<lparr> b_id := a_id a, b_resp := DECERR, b_valid := True \<rparr>)) default_pload"
  obtain b1 where "mb_enqueue rng (new_Message (clockEdge c) m) (clockEdge c) (1 * clockPeriod c) (getRandomization net)
      (getWarmupEnabled net) False bbuf = Inr b1"
    using accepts_step [OF assms(2), of "new_Message (clockEdge c) m" rng "getWarmupEnabled net"] by (auto simp: new_Message_def)
  then obtain s' where "put_out rng net c B_VNET bbuf m 1 s = Inr s'" by (simp add: put_out_def)
  then have run: "handleWriteDecErr raw rng net c a (s, new_aximmWriteBuffer) = Inr (True, s', aximm_add a 0 None True 0 True new_aximmWriteBuffer)"
    using assms(1) accepts_avail(1) [OF assms(2)] by (simp add: handleWriteDecErr_def m_def Let_def)
  have "filled_to B (burst_bytes a) 0 (new_aximmWriteBufferEntry a 0 None True 0 True)"
    using B(2) T(1) by (simp add: filled_to_def new_aximmWriteBufferEntry_def getBeatByteSize_def B_def)
  moreover have "B dvd 256" using B(1) by (rule dvd_trans) simp
  then have "0 + length ds * B = 256 + B" using assms(5) by (simp add: B_def [symmetric])
  ultimately have "send_write_data raw net ds (s', aximm_add a 0 None True 0 True new_aximmWriteBuffer) =
      Inl (Undefined ''write outside nppData'')"
    by (intro overrun [OF B(1) assms(4) T(2)]) (auto simp: aximm_add_def new_aximmWriteBuffer_def)
  with run show ?thesis by blast
qed

definition sample_unmapped_write :: aximmRWAddr where
  "sample_unmapped_write = default_aximmRWAddr\<lparr> addr := 0x2000, len := 4, sz := 6, a_cmd := CmdWRITE \<rparr>"

theorem write_decerr_overrun_witness:
  "\<exists>s' b'. handleWriteDecErr sample_packet_msg (0, 1, 1) sample_tables (sample_clock 10) sample_unmapped_write
      (sample_unit 0, new_aximmWriteBuffer) = Inr (True, s', b') \<and>
    send_write_data sample_packet_msg sample_tables (replicate 5 (sample_clock 11, default_aximmRWData, - 1)) (s', b') =
      Inl (Undefined ''write outside nppData'')"
proof -
  have "accepts 1 (getRandomization sample_tables) (connected 8 0 True rand_disabled) [sample_clock 10]"
    by (rule accepts_connected) (auto simp: arrival_def sample_clock_def)
  then show ?thesis
    by (intro write_decerr_overrun [of _ "connected 8 0 True rand_disabled"])
      (simp_all add: sample_unit_def sample_unmapped_write_def burst_bytes_def)
qed

end
