(* ===== verification/Axis_Packet.thy ===== *)
theory Axis_Packet
  imports Axis_Depacketizer
begin

text \<open>
  The test packets of the stream endpoints (\<open>src/noc/lib/AxisPacketUtils.hh\<close>, \<open>AxisPacketUtils.cc\<close>): IPv4 packets
  with a UDP or TCP header and correct checksums, their cut into stream beats, and the validation of
  a received packet. The random payload sizes of the first stream builder are an argument.
\<close>

section \<open>Fields\<close>

type_synonym u16 = "16 word"

datatype Profile = Ipv4Udp | Ipv4Tcp | MixedTcpUdp

definition upper :: "string \<Rightarrow> string" where
  "upper s = map (\<lambda>c. let n = of_char c :: nat in if 97 \<le> n \<and> n \<le> 122 then char_of (n - 32) else c) s"

definition parseProfile :: "string \<Rightarrow> Profile" where
  "parseProfile profile =
     (let p = upper profile in
      if p = ''IPV4_TCP'' then Ipv4Tcp else if p = ''MIXED_TCP_UDP'' then MixedTcpUdp else Ipv4Udp)"

text \<open>Accesses with \<open>at\<close> throw outside the vector; accesses with brackets are undefined there.\<close>

definition set_at :: "byte list \<Rightarrow> nat \<Rightarrow> byte \<Rightarrow> byte list result" where
  "set_at bs i v = (if i < length bs then Inr (bs[i := v]) else Inl (Throw ''vector::at''))"

definition get_at :: "byte list \<Rightarrow> nat \<Rightarrow> byte result" where
  "get_at bs i = (if i < length bs then Inr (bs ! i) else Inl (Throw ''vector::at''))"

definition writeBe16 :: "byte list \<Rightarrow> nat \<Rightarrow> u16 \<Rightarrow> byte list result" where
  "writeBe16 bytes off v =
     rbind (set_at bytes off (ucast (drop_bit 8 v))) (\<lambda>b. set_at b (off + 1) (ucast v))"

definition writeBe32 :: "byte list \<Rightarrow> nat \<Rightarrow> u32 \<Rightarrow> byte list result" where
  "writeBe32 bytes off v =
     rbind (set_at bytes off (ucast (drop_bit 24 v))) (\<lambda>b1.
     rbind (set_at b1 (off + 1) (ucast (drop_bit 16 v))) (\<lambda>b2.
     rbind (set_at b2 (off + 2) (ucast (drop_bit 8 v))) (\<lambda>b3.
     set_at b3 (off + 3) (ucast v))))"

definition readBe16 :: "byte list \<Rightarrow> nat \<Rightarrow> u16 result" where
  "readBe16 bytes off =
     rbind (get_at bytes off) (\<lambda>hi. rbind (get_at bytes (off + 1)) (\<lambda>lo.
     Inr (push_bit 8 (ucast hi) OR ucast lo)))"

section \<open>Checksums\<close>

text \<open>The sum of the big-endian 16-bit words in 32-bit arithmetic; an odd last byte is a high byte.\<close>

fun onesAddBytes :: "u32 \<Rightarrow> byte list \<Rightarrow> u32" where
  "onesAddBytes s [] = s"
| "onesAddBytes s [a] = s + push_bit 8 (ucast a)"
| "onesAddBytes s (a # b # bs) = onesAddBytes (s + (push_bit 8 (ucast a) OR ucast b)) bs"

lemma unat_high_half: "unat (drop_bit 16 (s :: u32)) = unat s div 65536"
  by (simp add: drop_bit_eq_div unat_div_distrib)

lemma unat_fold_step: "unat ((s AND 0xFFFF) + drop_bit 16 (s :: u32)) = unat s mod 65536 + unat s div 65536"
proof -
  have a: "unat (s AND 0xFFFF) = unat s mod 65536"
  proof -
    have "(0xFFFF :: u32) = mask 16" by (simp add: mask_eq_exp_minus_1)
    then have "s AND 0xFFFF = take_bit 16 s" by (simp add: take_bit_eq_mask)
    then show ?thesis by (simp add: take_bit_eq_mod unat_mod_distrib)
  qed
  have "unat s < 4294967296" using unsigned_less [of s] by simp
  then have "unat s mod 65536 + unat s div 65536 < 2 ^ 32" by simp
  then show ?thesis by (simp only: unat_word_ariths a unat_high_half) simp
qed

function onesFold :: "u32 \<Rightarrow> u32" where
  "onesFold s = (if drop_bit 16 s \<noteq> 0 then onesFold ((s AND 0xFFFF) + drop_bit 16 s) else s)"
  by pat_completeness auto
termination
proof (relation "measure unat")
  fix s :: u32
  assume "drop_bit 16 s \<noteq> 0"
  then have "unat (drop_bit 16 s) \<noteq> 0" by (simp only: unat_eq_0 not_False_eq_True)
  then have "0 < unat s div 65536" by (simp only: unat_high_half)
  then have "unat s mod 65536 + unat s div 65536 < unat s"
    using div_mult_mod_eq [of "unat s" 65536] by linarith
  then show "((s AND 0xFFFF) + drop_bit 16 s, s) \<in> measure unat" by (simp add: unat_fold_step)
qed simp

declare onesFold.simps [simp del]

definition onesFinalize :: "u32 \<Rightarrow> u16" where
  "onesFinalize s = ucast (NOT (onesFold s) AND 0xFFFF)"

definition internetChecksum :: "byte list \<Rightarrow> u16" where
  "internetChecksum bs = onesFinalize (onesAddBytes 0 bs)"

definition l4Checksum :: "byte list \<Rightarrow> nat \<Rightarrow> nat \<Rightarrow> byte \<Rightarrow> u16 result" where
  "l4Checksum packet l4Off l4Len protocol =
     rbind (readBe16 packet 12) (\<lambda>w1. rbind (readBe16 packet 14) (\<lambda>w2.
     rbind (readBe16 packet 16) (\<lambda>w3. rbind (readBe16 packet 18) (\<lambda>w4.
       if length packet < l4Off + l4Len then Inl (Undefined ''packet.data() + l4Off'')
       else
         let s = ucast w1 + ucast w2 + ucast w3 + ucast w4 + ucast protocol + ucast (of_nat l4Len :: u16);
             r = onesFinalize (onesAddBytes s (take l4Len (drop l4Off packet)))
         in Inr (if r = 0 then 0xFFFF else r)))))"

section \<open>Building a packet\<close>

text \<open>The assignments of the header fields, in the order of the source.\<close>

datatype field = Byte nat byte | Be16 nat u16 | Be32 nat u32

fun write_field :: "field \<Rightarrow> byte list \<Rightarrow> byte list result" where
  "write_field (Byte i v) bs = (if i < length bs then Inr (bs[i := v]) else Inl (Undefined ''vector index''))"
| "write_field (Be16 i v) bs = writeBe16 bs i v"
| "write_field (Be32 i v) bs = writeBe32 bs i v"

fun write_fields :: "field list \<Rightarrow> byte list \<Rightarrow> byte list result" where
  "write_fields [] bs = Inr bs"
| "write_fields (f # fs) bs = rbind (write_field f bs) (write_fields fs)"

definition ip_fields :: "nat \<Rightarrow> u32 \<Rightarrow> byte \<Rightarrow> u32 \<Rightarrow> u32 \<Rightarrow> field list" where
  "ip_fields totalLen packetIndex protocol flowSrcIp flowDstIp =
     [Byte 0 0x45, Byte 1 0, Be16 2 (of_nat totalLen), Be16 4 (ucast (0x1000 + packetIndex)), Be16 6 0x4000,
      Byte 8 64, Byte 9 protocol, Be16 10 0, Be32 12 flowSrcIp, Be32 16 flowDstIp]"

definition tcp_fields :: "nat \<Rightarrow> u32 \<Rightarrow> field list" where
  "tcp_fields l4 packetIndex =
     [Be32 (l4 + 4) (0x01000000 + packetIndex), Be32 (l4 + 8) (0x02000000 + packetIndex), Byte (l4 + 12) 0x50,
      Byte (l4 + 13) 0x18, Be16 (l4 + 14) 0x4000, Be16 (l4 + 16) 0, Be16 (l4 + 18) 0]"

definition udp_fields :: "nat \<Rightarrow> nat \<Rightarrow> field list" where
  "udp_fields l4 udpLen = [Be16 (l4 + 4) (of_nat udpLen), Be16 (l4 + 6) 0]"

definition payload_byte :: "u32 \<Rightarrow> nat \<Rightarrow> byte" where
  "payload_byte packetIndex i = of_nat (unat (0xa0 + packetIndex) + i)"

definition corrupt :: "bool \<Rightarrow> nat \<Rightarrow> byte list \<Rightarrow> byte list result" where
  "corrupt flag off bs = (if flag then rbind (readBe16 bs off) (\<lambda>v. writeBe16 bs off (v XOR 0xFFFF)) else Inr bs)"

definition is_tcp :: "Profile \<Rightarrow> u32 \<Rightarrow> bool" where
  "is_tcp profile packetIndex \<longleftrightarrow> profile = Ipv4Tcp \<or> (profile = MixedTcpUdp \<and> packetIndex AND 1 \<noteq> 0)"

definition buildIpv4Packet ::
  "Profile \<Rightarrow> u32 \<Rightarrow> u32 \<Rightarrow> u32 \<Rightarrow> u32 \<Rightarrow> u32 \<Rightarrow> u16 \<Rightarrow> u16 \<Rightarrow> bool \<Rightarrow> bool \<Rightarrow> byte list result" where
  "buildIpv4Packet profile packetIndex flowCount payloadBytes srcIp dstIp srcPort dstPort corruptIpv4 corruptL4 =
     (let tcp = is_tcp profile packetIndex; protocol = (if tcp then 6 else 17); l4 = 20;
          l4HdrLen = (if tcp then 20 else 8); n = unat payloadBytes; totalLen = 20 + l4HdrLen + n
      in if totalLen > 65535 then Inl (Fatal ''Axis packet total length exceeds IPv4 max'')
         else
           let flow = (if flowCount = 0 then 0 else packetIndex mod flowCount);
               flowSrcPort = ucast (ucast srcPort + flow); flowDstPort = ucast (ucast dstPort + flow);
               checksumOff = (if tcp then l4 + 16 else l4 + 6)
           in rbind (write_fields (ip_fields totalLen packetIndex protocol (srcIp + flow) (dstIp + flow) @
                  [Be16 l4 flowSrcPort, Be16 (l4 + 2) flowDstPort] @
                  (if tcp then tcp_fields l4 packetIndex else udp_fields l4 (l4HdrLen + n))) (replicate totalLen 0)) (\<lambda>b1.
              let b2 = copy_at b1 (20 + l4HdrLen) (map (payload_byte packetIndex) [0..<n]) in
              rbind (writeBe16 b2 10 (internetChecksum (take 20 b2))) (\<lambda>b3.
              rbind (l4Checksum b3 l4 (l4HdrLen + n) protocol) (\<lambda>c.
              rbind (writeBe16 b3 checksumOff c) (\<lambda>b4.
              rbind (corrupt corruptIpv4 10 b4) (corrupt corruptL4 checksumOff))))))"

section \<open>Beats\<close>

definition prefixKeep :: "nat \<Rightarrow> u64" where
  "prefixKeep validBytes =
     (if validBytes \<ge> 64 then 0xFFFFFFFFFFFFFFFF else if validBytes = 0 then 0 else push_bit validBytes 1 - 1)"

text \<open>One beat per round of the loop, for the bytes that are left.\<close>

definition packet_beat :: "nat \<Rightarrow> nat \<Rightarrow> nat \<Rightarrow> u32 \<Rightarrow> u32 \<Rightarrow> u32 \<Rightarrow> byte list \<Rightarrow> bool \<Rightarrow> axisData" where
  "packet_beat dataWidth idWidth destWidth i dst usr bs lst =
     (let beat = new_axisData dataWidth idWidth destWidth
      in beat\<lparr> tdata := copy_at (replicate (length (tdata beat)) 0) 0 bs, tkeep := prefixKeep (length bs),
           tid := i, tdest := dst, tuser := usr, tlast := lst, tvalid := True \<rparr>)"

function beats_loop :: "nat \<Rightarrow> (byte list \<Rightarrow> bool \<Rightarrow> axisData) \<Rightarrow> byte list \<Rightarrow> axisData list" where
  "beats_loop bytesPerBeat beat rest =
     (if rest = [] \<or> bytesPerBeat = 0 then []
      else beat (take bytesPerBeat rest) (length rest \<le> bytesPerBeat) # beats_loop bytesPerBeat beat (drop bytesPerBeat rest))"
  by pat_completeness auto
termination
  by (relation "measure (\<lambda>(_, _, rest). length rest)") auto

declare beats_loop.simps [simp del]

definition packetToAxisBeats ::
  "byte list \<Rightarrow> nat \<Rightarrow> nat \<Rightarrow> nat \<Rightarrow> u32 \<Rightarrow> u32 \<Rightarrow> u32 \<Rightarrow> axisData list result" where
  "packetToAxisBeats packet dataWidth idWidth destWidth i dst usr =
     (if dataWidth = 0 \<or> dataWidth mod 8 \<noteq> 0 then Inl (Fatal ''AXIS data width must be a non-zero byte multiple'')
      else if dataWidth > 512 then Inl (Fatal ''AXIS packet test nodes only support up to 512-bit data'')
      else Inr (beats_loop (dataWidth div 8) (packet_beat dataWidth idWidth destWidth i dst usr) packet))"

section \<open>Streams of packets\<close>

text \<open>
  The bytes put in front of a packet are those of a 32-bit value; a shift of it by 32 or more
  bits is undefined. Both stream builders share the loop; they differ in the payload sizes.
\<close>

definition add_prefix :: "u32 \<Rightarrow> u32 \<Rightarrow> byte list \<Rightarrow> byte list result" where
  "add_prefix prefixBytes prefixValue packet =
     (if prefixBytes = 0 then Inr packet
      else if unat prefixBytes > 4 then Inl (Undefined ''shift of a 32-bit value by 32 bits'')
      else Inr (map (\<lambda>b. ucast (drop_bit (8 * b) prefixValue)) [0..<unat prefixBytes] @ packet))"

definition buildAxisPackets ::
  "(nat \<Rightarrow> u32) \<Rightarrow> Profile \<Rightarrow> u32 \<Rightarrow> u32 \<Rightarrow> (byte list \<Rightarrow> axisData list result) \<Rightarrow> u32 \<Rightarrow> u32 \<Rightarrow> u16 \<Rightarrow> u16 \<Rightarrow>
    bool \<Rightarrow> bool \<Rightarrow> u32 \<Rightarrow> u32 \<Rightarrow> axisData list list result" where
  "buildAxisPackets payloadSize profile maxPackets flowCount toBeats srcIp dstIp srcPort dstPort corruptIpv4 corruptL4
      prefixBytes prefixValue =
     rmap (\<lambda>i. rbind (buildIpv4Packet profile (of_nat i) flowCount (payloadSize i) srcIp dstIp srcPort dstPort
                   corruptIpv4 corruptL4) (\<lambda>packet.
               rbind (add_prefix prefixBytes prefixValue packet) toBeats))
       [0..<unat maxPackets]"

definition buildAxisPacketStream ::
  "Profile \<Rightarrow> u32 \<Rightarrow> u32 \<Rightarrow> u32 list \<Rightarrow> nat \<Rightarrow> nat \<Rightarrow> nat \<Rightarrow> u32 \<Rightarrow> u32 \<Rightarrow> u32 \<Rightarrow> u32 \<Rightarrow> u32 \<Rightarrow> u16 \<Rightarrow> u16 \<Rightarrow>
    bool \<Rightarrow> bool \<Rightarrow> u32 \<Rightarrow> u32 \<Rightarrow> axisData list result" where
  "buildAxisPacketStream profile maxPackets flowCount payloadSizes dataWidth idWidth destWidth i dst usr srcIp dstIp
      srcPort dstPort corruptIpv4 corruptL4 prefixBytes prefixValue =
     (if payloadSizes = [] then Inl (Fatal ''Payload size list must contain at least one entry'')
      else rbind (buildAxisPackets (\<lambda>k. payloadSizes ! (k mod length payloadSizes)) profile maxPackets flowCount
             (\<lambda>packet. packetToAxisBeats packet dataWidth idWidth destWidth i dst usr) srcIp dstIp srcPort dstPort
             corruptIpv4 corruptL4 prefixBytes prefixValue) (\<lambda>bss. Inr (concat bss)))"

text \<open>\<open>draw\<close> are the results of the generator for the bounds it is given, the smaller one first.\<close>

definition buildRandomAxisPacketStream ::
  "(u32 \<Rightarrow> u32 \<Rightarrow> nat \<Rightarrow> u32) \<Rightarrow> Profile \<Rightarrow> u32 \<Rightarrow> u32 \<Rightarrow> u32 \<Rightarrow> u32 \<Rightarrow> nat \<Rightarrow> nat \<Rightarrow> nat \<Rightarrow> u32 \<Rightarrow> u32 \<Rightarrow> u32 \<Rightarrow>
    u32 \<Rightarrow> u32 \<Rightarrow> u16 \<Rightarrow> u16 \<Rightarrow> bool \<Rightarrow> bool \<Rightarrow> u32 \<Rightarrow> u32 \<Rightarrow> axisData list result" where
  "buildRandomAxisPacketStream draw profile maxPackets flowCount minPayloadBytes maxPayloadBytes dataWidth idWidth destWidth
      i dst usr srcIp dstIp srcPort dstPort corruptIpv4 corruptL4 prefixBytes prefixValue =
     (let (lo, hi) = (if maxPayloadBytes < minPayloadBytes then (maxPayloadBytes, minPayloadBytes)
                      else (minPayloadBytes, maxPayloadBytes))
      in rbind (buildAxisPackets (draw lo hi) profile maxPackets flowCount
             (\<lambda>packet. packetToAxisBeats packet dataWidth idWidth destWidth i dst usr) srcIp dstIp srcPort dstPort
             corruptIpv4 corruptL4 prefixBytes prefixValue) (\<lambda>bss. Inr (concat bss)))"

section \<open>Validation\<close>

text \<open>The result is the reason of the rejection, or none for a valid packet.\<close>

definition validate_udp :: "byte list \<Rightarrow> nat \<Rightarrow> nat \<Rightarrow> bool \<Rightarrow> string option result" where
  "validate_udp packet ipHdrLen l4Len validateL4 =
     (if l4Len < 8 then Inr (Some ''UDP packet shorter than UDP header'')
      else rbind (readBe16 packet (ipHdrLen + 4)) (\<lambda>udpLen.
        if unat udpLen \<noteq> l4Len then Inr (Some ''UDP length does not match IPv4 payload length'')
        else rbind (l4Checksum packet ipHdrLen l4Len 17) (\<lambda>udpChecksum.
          if validateL4
          then rbind (readBe16 packet (ipHdrLen + 6)) (\<lambda>sent.
                 if sent \<noteq> 0 \<and> udpChecksum \<noteq> 0 \<and> udpChecksum \<noteq> 0xFFFF then Inr (Some ''invalid UDP checksum'')
                 else Inr None)
          else Inr None)))"

definition validate_tcp :: "byte list \<Rightarrow> nat \<Rightarrow> nat \<Rightarrow> bool \<Rightarrow> string option result" where
  "validate_tcp packet ipHdrLen l4Len validateL4 =
     (if l4Len < 20 then Inr (Some ''TCP packet shorter than TCP header'')
      else let doff = unat (drop_bit 4 (packet ! (ipHdrLen + 12))) in
        if doff < 5 \<or> l4Len < doff * 4 then Inr (Some ''invalid TCP data offset'')
        else rbind (l4Checksum packet ipHdrLen l4Len 6) (\<lambda>tcpChecksum.
          if validateL4 \<and> tcpChecksum \<noteq> 0 \<and> tcpChecksum \<noteq> 0xFFFF then Inr (Some ''invalid TCP checksum'')
          else Inr None))"

definition validateIpv4Packet :: "byte list \<Rightarrow> bool \<Rightarrow> bool \<Rightarrow> string option result" where
  "validateIpv4Packet packet validateIpv4 validateL4 =
     (if length packet < 20 then Inr (Some ''packet shorter than IPv4 header'')
      else
        let version = drop_bit 4 (packet ! 0); ihl = unat (packet ! 0 AND 0x0F); ipHdrLen = ihl * 4
        in if version \<noteq> 4 \<or> ihl < 5 then Inr (Some ''invalid IPv4 version/IHL'')
           else if length packet < ipHdrLen then Inr (Some ''packet shorter than IPv4 IHL'')
           else rbind (readBe16 packet 2) (\<lambda>totalLen.
             if unat totalLen \<noteq> length packet then Inr (Some ''IPv4 total length does not match AXIS packet bytes'')
             else if validateIpv4 \<and> internetChecksum (take ipHdrLen packet) \<noteq> 0 then Inr (Some ''invalid IPv4 header checksum'')
             else
               let protocol = packet ! 9; l4Len = length packet - ipHdrLen
               in if protocol = 17 then validate_udp packet ipHdrLen l4Len validateL4
                  else if protocol = 6 then validate_tcp packet ipHdrLen l4Len validateL4
                  else Inr (Some ''unsupported IPv4 protocol'')))"

end
