(* ===== verification/Axis_Packet_Props.thy ===== *)
theory Axis_Packet_Props
  imports Axis_Packet
begin

text \<open>
  Correctness of the test packets: the checksums are those of the internet protocols, so that every packet
  built passes the validation, and the cut into beats keeps the bytes and marks the end.
\<close>

section \<open>Checksums\<close>

lemma unat_byte: "unat (a :: byte) < 256"
  by (rule order.strict_trans2 [OF unsigned_less]) simp

lemma unat_u16: "unat (a :: u16) < 65536"
  by (rule order.strict_trans2 [OF unsigned_less]) simp

lemma unat_u32: "unat (a :: u32) < 4294967296"
  by (rule order.strict_trans2 [OF unsigned_less]) simp

fun be_sum :: "byte list \<Rightarrow> nat" where
  "be_sum [] = 0"
| "be_sum [a] = 256 * unat a"
| "be_sum (a # b # bs) = 256 * unat a + unat b + be_sum bs"

lemma be_sum_bound: "be_sum bs \<le> 65535 * ((length bs + 1) div 2)"
proof (induction bs rule: be_sum.induct)
  case (2 a)
  then show ?case using unat_byte [of a] by simp
next
  case (3 a b bs)
  then show ?case using unat_byte [of a] unat_byte [of b] by simp
qed simp

text \<open>Two bytes as a number.\<close>

lemma be_word_add: "push_bit 8 (ucast a :: 'a::len word) OR ucast b = push_bit 8 (ucast a) + ucast b"
  if "16 \<le> LENGTH('a)" for a b :: byte
  using that by (intro disjunctive_add [symmetric]) (auto simp: bit_simps dest: bit_imp_le_length)

lemma be_word32: "unat (push_bit 8 (ucast a) OR ucast b :: u32) = 256 * unat a + unat b" for a b :: byte
proof -
  have "take_bit 32 (unat a) = unat a" "take_bit 32 (unat b) = unat b"
    using unat_byte [of a] unat_byte [of b] by (simp_all add: take_bit_nat_eq_self)
  moreover have "push_bit 8 (ucast a) OR ucast b = (push_bit 8 (ucast a) + ucast b :: u32)" by (rule be_word_add) simp
  ultimately show ?thesis using unat_byte [of a] unat_byte [of b]
    by (simp only:) (simp add: push_bit_eq_mult unat_word_ariths unsigned_ucast_eq)
qed

lemma be_word16: "unat (push_bit 8 (ucast a) OR ucast b :: u16) = 256 * unat a + unat b" for a b :: byte
proof -
  have "take_bit 16 (unat a) = unat a" "take_bit 16 (unat b) = unat b"
    using unat_byte [of a] unat_byte [of b] by (simp_all add: take_bit_nat_eq_self)
  moreover have "push_bit 8 (ucast a) OR ucast b = (push_bit 8 (ucast a) + ucast b :: u16)" by (rule be_word_add) simp
  ultimately show ?thesis using unat_byte [of a] unat_byte [of b]
    by (simp only:) (simp add: push_bit_eq_mult unat_word_ariths unsigned_ucast_eq)
qed

lemma be_high32: "unat (push_bit 8 (ucast a) :: u32) = 256 * unat a" for a :: byte
  using be_word32 [of a 0] by simp

lemma unat_add32: "unat s + unat t < 4294967296 \<Longrightarrow> unat (s + t) = unat s + unat (t :: u32)"
  by (simp add: unat_word_ariths)

lemma onesAddBytes_nat:
  "unat s + be_sum bs < 4294967296 \<Longrightarrow> unat (onesAddBytes s bs) = unat s + be_sum bs"
proof (induction s bs rule: onesAddBytes.induct)
  case (2 s a)
  then show ?case by (simp add: unat_add32 be_high32)
next
  case (3 s a b bs)
  then show ?case by (simp add: unat_add32 be_word32)
qed simp

lemma onesFold_props:
  "unat (onesFold s) < 65536 \<and> unat (onesFold s) mod 65535 = unat s mod 65535 \<and> (onesFold s = 0 \<longleftrightarrow> s = 0)"
proof (induction s rule: onesFold.induct)
  case (1 s)
  show ?case
  proof (cases "drop_bit 16 s \<noteq> 0")
    case True
    let ?t = "(s AND 0xFFFF) + drop_bit 16 s"
    have t: "unat ?t = unat s mod 65536 + unat s div 65536" by (rule unat_fold_step)
    have "unat s = unat ?t + 65535 * (unat s div 65536)" using t div_mult_mod_eq [of "unat s" 65536] by linarith
    then have "unat s mod 65535 = unat ?t mod 65535" by (metis mod_mult_self2)
    moreover have "unat (drop_bit 16 s) \<noteq> 0" using True by (simp only: unat_eq_0 not_False_eq_True)
    then have "0 < unat s div 65536" by (simp only: unat_high_half)
    then have "unat ?t \<noteq> 0" "unat s \<noteq> 0" using t by auto
    then have "?t \<noteq> 0" "s \<noteq> 0" by auto
    ultimately show ?thesis using 1 [OF True] True by (subst (1 2 3) onesFold.simps) simp
  next
    case False
    then have "unat s div 65536 = 0" using unat_high_half [of s] by simp
    then have "unat s < 65536" by simp
    then show ?thesis using False by (subst (1 2 3) onesFold.simps) simp
  qed
qed

lemma unat_not16: "unat (NOT y :: u16) = 65535 - unat y"
proof -
  have "NOT y = 0xFFFF - y" by (simp add: not_eq_complement)
  moreover have "y \<le> 0xFFFF" by (simp add: word_le_nat_alt) (use unat_u16 [of y] in linarith)
  ultimately show ?thesis by (simp add: unat_sub)
qed

lemma unat_onesFinalize: "unat (onesFinalize s) = 65535 - unat (onesFold s)"
proof -
  let ?f = "onesFold s"
  have small: "unat ?f < 65536" using onesFold_props by blast
  have "(0xFFFF :: u32) = mask 16" by (simp add: mask_eq_exp_minus_1)
  then have "NOT ?f AND 0xFFFF = take_bit 16 (NOT ?f)" by (simp add: take_bit_eq_mask)
  then have "onesFinalize s = NOT (ucast ?f)"
    unfolding onesFinalize_def by (auto intro!: bit_word_eqI simp: bit_simps)
  moreover have "unat (ucast ?f :: u16) = unat ?f" using small by (simp add: unsigned_ucast_eq take_bit_nat_eq_self)
  ultimately show ?thesis by (simp add: unat_not16)
qed

text \<open>A sum completed by its checksum is zero modulo 65535, and exactly such sums have the checksum zero.\<close>

lemma onesFinalize_completes:
  assumes "s \<noteq> 0"
  shows "65535 dvd unat s + unat (onesFinalize s)"
proof -
  let ?f = "unat (onesFold s)"
  have f: "?f < 65536" "?f mod 65535 = unat s mod 65535" using onesFold_props by blast+
  have "(unat s + (65535 - ?f)) mod 65535 = (?f + (65535 - ?f)) mod 65535" using f(2) by (metis mod_add_left_eq)
  also have "\<dots> = 0" using f(1) by simp
  finally show ?thesis by (simp add: unat_onesFinalize dvd_eq_mod_eq_0)
qed

lemma onesFinalize_zero: "onesFinalize s = 0 \<longleftrightarrow> s \<noteq> 0 \<and> 65535 dvd unat s"
proof -
  let ?f = "unat (onesFold s)"
  have f: "?f < 65536" "?f mod 65535 = unat s mod 65535" "?f = 0 \<longleftrightarrow> s = 0" using onesFold_props [of s] by (auto simp: unat_eq_0)
  have "onesFinalize s = 0 \<longleftrightarrow> 65535 - ?f = 0" unfolding unat_onesFinalize [symmetric] by (rule unat_eq_0 [symmetric])
  also have "\<dots> \<longleftrightarrow> ?f \<noteq> 0 \<and> 65535 dvd ?f"
  proof
    assume "?f \<noteq> 0 \<and> 65535 dvd ?f"
    then have "65535 \<le> ?f" by (intro dvd_imp_le) auto
    then show "65535 - ?f = 0" by simp
  next
    assume "65535 - ?f = 0"
    then have "?f = 65535" using f(1) by simp
    then show "?f \<noteq> 0 \<and> 65535 dvd ?f" by simp
  qed
  finally show ?thesis using f(2,3) by (simp add: dvd_eq_mod_eq_0)
qed

section \<open>Fields\<close>

definition hi8 :: "u16 \<Rightarrow> byte" where
  "hi8 v = ucast (drop_bit 8 v)"

definition lo8 :: "u16 \<Rightarrow> byte" where
  "lo8 v = ucast v"

lemma be_split: "256 * unat (hi8 v) + unat (lo8 v) = unat v"
proof -
  have "unat (hi8 v) = unat v div 256" using unat_u16 [of v]
    by (simp add: hi8_def unsigned_ucast_eq drop_bit_eq_div unat_div_distrib take_bit_nat_eq_self)
  moreover have "unat (lo8 v) = unat v mod 256" by (simp add: lo8_def unsigned_ucast_eq take_bit_eq_mod)
  ultimately show ?thesis by simp
qed

lemma be_join: "push_bit 8 (ucast (hi8 v)) OR ucast (lo8 v) = v"
  by (rule word_unat_eq_iff [THEN iffD2]) (simp only: be_word16 be_split)

lemma list_update_Cons_numeral [simp]: "(x # xs)[numeral n := y] = x # xs[pred_numeral n := y]"
  by (simp add: numeral_eq_Suc)

lemma replicate_numeral: "replicate (numeral n) x = x # replicate (pred_numeral n) x"
  by (simp add: numeral_eq_Suc)

lemma byte_16384 [simp]: "(16384 :: byte) = 0"
  by (rule word_unat_eq_iff [THEN iffD2]) simp

section \<open>The layout of a packet\<close>

definition be32 :: "u32 \<Rightarrow> byte list" where
  "be32 v = [ucast (drop_bit 24 v), ucast (drop_bit 16 v), ucast (drop_bit 8 v), ucast v]"

definition ip_header :: "u16 \<Rightarrow> u16 \<Rightarrow> byte \<Rightarrow> u32 \<Rightarrow> u32 \<Rightarrow> u16 \<Rightarrow> byte list" where
  "ip_header tot ident proto src dst c =
     [0x45, 0, hi8 tot, lo8 tot, hi8 ident, lo8 ident, 0x40, 0, 64, proto, hi8 c, lo8 c] @ be32 src @ be32 dst"

definition udp_header :: "u16 \<Rightarrow> u16 \<Rightarrow> u16 \<Rightarrow> u16 \<Rightarrow> byte list" where
  "udp_header sp dp udpLen c = [hi8 sp, lo8 sp, hi8 dp, lo8 dp, hi8 udpLen, lo8 udpLen, hi8 c, lo8 c]"

definition tcp_header :: "u16 \<Rightarrow> u16 \<Rightarrow> u32 \<Rightarrow> u32 \<Rightarrow> u16 \<Rightarrow> byte list" where
  "tcp_header sp dp seq ack c =
     [hi8 sp, lo8 sp, hi8 dp, lo8 dp] @ be32 seq @ be32 ack @ [0x50, 0x18, 0x40, 0, hi8 c, lo8 c, 0, 0]"

lemmas layout_simps = ip_fields_def udp_fields_def tcp_fields_def writeBe16_def writeBe32_def set_at_def
  ip_header_def udp_header_def tcp_header_def be32_def hi8_def lo8_def

lemma write_ip_fields:
  "write_fields (ip_fields tot i proto src dst @ fs) (replicate 20 0 @ rest) =
    write_fields fs (ip_header (of_nat tot) (ucast (0x1000 + i)) proto src dst 0 @ rest)"
  by (simp add: layout_simps replicate_numeral)


lemma write_udp_fields:
  "write_fields ([Be16 20 sp, Be16 22 dp] @ udp_fields 20 k) (ip_header tot ident proto src dst c @ replicate 8 0 @ rest) =
    Inr (ip_header tot ident proto src dst c @ udp_header sp dp (of_nat k) 0 @ rest)"
  by (simp add: layout_simps replicate_numeral)

lemma write_tcp_fields:
  "write_fields ([Be16 20 sp, Be16 22 dp] @ tcp_fields 20 i) (ip_header tot ident proto src dst c @ replicate 20 0 @ rest) =
    Inr (ip_header tot ident proto src dst c @ tcp_header sp dp (0x01000000 + i) (0x02000000 + i) 0 @ rest)"
  by (simp add: layout_simps replicate_numeral)

lemma write_ip_checksum:
  "writeBe16 (ip_header tot ident proto src dst c @ rest) 10 c' = Inr (ip_header tot ident proto src dst c' @ rest)"
  by (simp add: layout_simps)

lemma write_udp_checksum:
  "writeBe16 (ip_header tot ident proto src dst c @ udp_header sp dp k d @ rest) 26 d' =
    Inr (ip_header tot ident proto src dst c @ udp_header sp dp k d' @ rest)"
  by (simp add: layout_simps)

lemma write_tcp_checksum:
  "writeBe16 (ip_header tot ident proto src dst c @ tcp_header sp dp sq ack d @ rest) 36 d' =
    Inr (ip_header tot ident proto src dst c @ tcp_header sp dp sq ack d' @ rest)"
  by (simp add: layout_simps)

lemma length_headers [simp]:
  "length (ip_header tot ident proto src dst c) = 20" "length (udp_header sp dp k d) = 8" "length (tcp_header sp dp sq ack d) = 20"
  by (simp_all add: layout_simps)

section \<open>Checksums of packets\<close>

lemma be_sum_checksum:
  "be_sum (ip_header tot ident proto src dst c) = be_sum (ip_header tot ident proto src dst 0) + unat c"
  "be_sum (udp_header sp dp k d @ rest) = be_sum (udp_header sp dp k 0 @ rest) + unat d"
  "be_sum (tcp_header sp dp sq ack d @ rest) = be_sum (tcp_header sp dp sq ack 0 @ rest) + unat d"
  using be_split [of c] be_split [of d] by (simp_all add: ip_header_def udp_header_def tcp_header_def be32_def hi8_def lo8_def)

text \<open>The sum over the pseudo header.\<close>

definition pseudo :: "u32 \<Rightarrow> u32 \<Rightarrow> byte \<Rightarrow> nat \<Rightarrow> u32" where
  "pseudo src dst proto k =
     (let w = (\<lambda>a b. ucast (push_bit 8 (ucast a) OR ucast b :: u16)) in
      w (be32 src ! 0) (be32 src ! 1) + w (be32 src ! 2) (be32 src ! 3) + w (be32 dst ! 0) (be32 dst ! 1) +
      w (be32 dst ! 2) (be32 dst ! 3) + ucast proto + ucast (of_nat k :: u16))"

definition l4_sum :: "u32 \<Rightarrow> u32 \<Rightarrow> byte \<Rightarrow> byte list \<Rightarrow> nat" where
  "l4_sum src dst proto bs = be_sum (be32 src @ be32 dst) + unat proto + length bs + be_sum bs"

definition l4_checksum :: "u32 \<Rightarrow> u32 \<Rightarrow> byte \<Rightarrow> byte list \<Rightarrow> u16" where
  "l4_checksum src dst proto bs =
     (let r = onesFinalize (onesAddBytes (pseudo src dst proto (length bs)) bs) in if r = 0 then 0xFFFF else r)"

lemma unat_ucast_u16: "unat (ucast (w :: u16) :: u32) = unat w"
  using unat_u16 [of w] by (simp add: unsigned_ucast_eq take_bit_nat_eq_self)

lemma unat_ucast_byte: "unat (ucast (w :: byte) :: u32) = unat w"
  using unat_byte [of w] by (simp add: unsigned_ucast_eq take_bit_nat_eq_self)

lemma unat_pseudo:
  assumes "k < 65536"
  shows "unat (pseudo src dst proto k) = be_sum (be32 src @ be32 dst) + unat proto + k"
proof -
  have k: "unat (of_nat k :: u16) = k" using assms by (simp add: unat_of_nat)
  have b: "be_sum (be32 src @ be32 dst) \<le> 65535 * 4" using be_sum_bound [of "be32 src @ be32 dst"] by (simp add: be32_def)
  show ?thesis using b assms unat_byte [of proto]
    by (simp add: pseudo_def be32_def Let_def unat_word_ariths unat_ucast_u16 unat_ucast_byte be_word16 k)
qed

lemma l4Checksum_eq:
  "l4Checksum (ip_header tot ident proto' src dst c @ l4) 20 (length l4) proto = Inr (l4_checksum src dst proto l4)"
  by (simp add: l4Checksum_def readBe16_def get_at_def ip_header_def be32_def l4_checksum_def pseudo_def Let_def)

lemma unat_l4_sum:
  assumes "length bs < 65536"
  shows "unat (onesAddBytes (pseudo src dst proto (length bs)) bs) = l4_sum src dst proto bs"
proof -
  have "be_sum (be32 src @ be32 dst) \<le> 65535 * 4" using be_sum_bound [of "be32 src @ be32 dst"] by (simp add: be32_def)
  moreover have "be_sum bs \<le> 65535 * 32768" using be_sum_bound [of bs] assms by simp
  ultimately have "unat (pseudo src dst proto (length bs)) + be_sum bs < 4294967296"
    using unat_pseudo [OF assms, of src dst proto] unat_byte [of proto] assms by simp
  then show ?thesis using unat_pseudo [OF assms, of src dst proto] by (simp add: onesAddBytes_nat l4_sum_def)
qed

text \<open>The checksum completes the sum to a multiple of 65535, and such sums give the checksum \<open>0xFFFF\<close>.\<close>

lemma l4_checksum_completes:
  assumes "length bs < 65536" and "proto \<noteq> 0"
  shows "65535 dvd l4_sum src dst proto bs + unat (l4_checksum src dst proto bs)"
proof -
  let ?s = "onesAddBytes (pseudo src dst proto (length bs)) bs"
  have s: "unat ?s = l4_sum src dst proto bs" by (rule unat_l4_sum [OF assms(1)])
  have "l4_sum src dst proto bs \<noteq> 0" using assms(2) by (auto simp: l4_sum_def unat_eq_0)
  then have "?s \<noteq> 0" using s by auto
  note c = onesFinalize_completes [OF this] onesFinalize_zero [of ?s]
  show ?thesis
  proof (cases "onesFinalize ?s = 0")
    case True
    then have "65535 dvd l4_sum src dst proto bs" using c(2) s by simp
    moreover have "unat (0xFFFF :: u16) = 65535" by simp
    ultimately show ?thesis using True by (simp add: l4_checksum_def Let_def)
  next
    case False
    then show ?thesis using c(1) s by (simp add: l4_checksum_def Let_def)
  qed
qed

lemma l4_checksum_valid:
  assumes "length bs < 65536" and "proto \<noteq> 0"
  shows "l4_checksum src dst proto bs = 0xFFFF \<longleftrightarrow> 65535 dvd l4_sum src dst proto bs"
proof -
  let ?s = "onesAddBytes (pseudo src dst proto (length bs)) bs"
  have s: "unat ?s = l4_sum src dst proto bs" by (rule unat_l4_sum [OF assms(1)])
  have "l4_sum src dst proto bs \<noteq> 0" using assms(2) by (auto simp: l4_sum_def unat_eq_0)
  then have nz: "?s \<noteq> 0" using s by auto
  have "onesFinalize ?s \<noteq> 0xFFFF"
  proof
    assume "onesFinalize ?s = 0xFFFF"
    then have "65535 - unat (onesFold ?s) = 65535" unfolding unat_onesFinalize [symmetric] by simp
    then have "unat (onesFold ?s) = 0" by simp
    then show False using onesFold_props [of ?s] nz by (simp add: unat_eq_0)
  qed
  then show ?thesis using onesFinalize_zero [of ?s] nz s by (auto simp: l4_checksum_def Let_def)
qed

lemma ip_header_sum:
  "unat (onesAddBytes 0 (ip_header tot ident proto src dst c)) = be_sum (ip_header tot ident proto src dst c)"
  "onesAddBytes 0 (ip_header tot ident proto src dst c) \<noteq> 0"
proof -
  let ?h = "ip_header tot ident proto src dst c"
  have "be_sum ?h \<le> 65535 * 10" using be_sum_bound [of ?h] by simp
  then show s: "unat (onesAddBytes 0 ?h) = be_sum ?h" by (simp add: onesAddBytes_nat)
  have "0 < be_sum ?h" by (simp add: ip_header_def)
  then show "onesAddBytes 0 ?h \<noteq> 0" using s by auto
qed

lemma ip_checksum_valid:
  "internetChecksum (ip_header tot ident proto src dst c) = 0 \<longleftrightarrow>
    65535 dvd be_sum (ip_header tot ident proto src dst 0) + unat c"
  unfolding internetChecksum_def onesFinalize_zero ip_header_sum(1) be_sum_checksum(1) [of tot ident proto src dst c]
  by (simp only: ip_header_sum(2) simp_thms)

lemma ip_checksum_completes:
  "65535 dvd be_sum (ip_header tot ident proto src dst 0) + unat (internetChecksum (ip_header tot ident proto src dst 0))"
  using onesFinalize_completes [OF ip_header_sum(2)] unfolding internetChecksum_def ip_header_sum(1) .

lemma ip_checksum_not_ones: "internetChecksum (ip_header tot ident proto src dst c) \<noteq> 0xFFFF"
proof
  let ?s = "onesAddBytes 0 (ip_header tot ident proto src dst c)"
  assume "internetChecksum (ip_header tot ident proto src dst c) = 0xFFFF"
  then have "65535 - unat (onesFold ?s) = 65535" unfolding internetChecksum_def unat_onesFinalize [symmetric] by simp
  then have "unat (onesFold ?s) = 0" by simp
  then show False using onesFold_props [of ?s] ip_header_sum(2) by (simp add: unat_eq_0)
qed

section \<open>Every packet built\<close>

text \<open>The packet with both checksums given.\<close>

definition packet_with :: "Profile \<Rightarrow> u32 \<Rightarrow> u32 \<Rightarrow> u32 \<Rightarrow> u32 \<Rightarrow> u32 \<Rightarrow> u16 \<Rightarrow> u16 \<Rightarrow> u16 \<Rightarrow> u16 \<Rightarrow> byte list" where
  "packet_with profile i flowCount n srcIp dstIp sp dp c d =
     (let flow = (if flowCount = 0 then 0 else i mod flowCount); tcp = is_tcp profile i;
          sport = ucast (ucast sp + flow); dport = ucast (ucast dp + flow); bs = map (payload_byte i) [0..<unat n]
      in if tcp
         then ip_header (of_nat (40 + unat n)) (ucast (0x1000 + i)) 6 (srcIp + flow) (dstIp + flow) c @
           tcp_header sport dport (0x01000000 + i) (0x02000000 + i) d @ bs
         else ip_header (of_nat (28 + unat n)) (ucast (0x1000 + i)) 17 (srcIp + flow) (dstIp + flow) c @
           udp_header sport dport (of_nat (8 + unat n)) d @ bs)"

definition checksum_offset :: "Profile \<Rightarrow> u32 \<Rightarrow> nat" where
  "checksum_offset profile i = (if is_tcp profile i then 36 else 26)"

definition packet_length :: "Profile \<Rightarrow> u32 \<Rightarrow> u32 \<Rightarrow> nat" where
  "packet_length profile i n = (if is_tcp profile i then 40 else 28) + unat n"

definition good_checksums :: "Profile \<Rightarrow> u32 \<Rightarrow> u32 \<Rightarrow> u32 \<Rightarrow> u32 \<Rightarrow> u32 \<Rightarrow> u16 \<Rightarrow> u16 \<Rightarrow> u16 \<times> u16" where
  "good_checksums profile i flowCount n srcIp dstIp sp dp =
     (let flow = (if flowCount = 0 then 0 else i mod flowCount); p = packet_with profile i flowCount n srcIp dstIp sp dp 0 0
      in (internetChecksum (take 20 p),
          l4_checksum (srcIp + flow) (dstIp + flow) (if is_tcp profile i then 6 else 17) (drop 20 p)))"

lemma zero_blocks: "replicate (40 + n) a = replicate 20 a @ replicate 20 a @ replicate n a"
  "replicate (28 + n) a = replicate 20 a @ replicate 8 a @ replicate n a"
  unfolding replicate_add [symmetric] by simp_all

lemma copy_payload:
  assumes "length bs = n"
  shows "copy_at (ip_header tot ident proto src dst c @ tcp_header sp dp sq ack e @ replicate n 0) 40 bs =
      ip_header tot ident proto src dst c @ tcp_header sp dp sq ack e @ bs"
    "copy_at (ip_header tot ident proto src dst c @ udp_header sp dp k e @ replicate n 0) 28 bs =
      ip_header tot ident proto src dst c @ udp_header sp dp k e @ bs"
  using assms by (simp_all add: copy_at_def)

lemma build_eq:
  assumes "packet_length profile i n \<le> 65535"
  shows "buildIpv4Packet profile i flowCount n srcIp dstIp sp dp a b =
    (case good_checksums profile i flowCount n srcIp dstIp sp dp of (c, d) \<Rightarrow>
       rbind (corrupt a 10 (packet_with profile i flowCount n srcIp dstIp sp dp c d)) (corrupt b (checksum_offset profile i)))"
proof -
  let ?bs = "map (payload_byte i) [0..<unat n]"
  define flow where "flow = (if flowCount = 0 then 0 else i mod flowCount)"
  have bs: "length ?bs = unat n" by simp
  note defs = buildIpv4Packet_def packet_with_def good_checksums_def checksum_offset_def packet_length_def Let_def
    flow_def [symmetric] zero_blocks write_ip_fields copy_payload [OF bs] write_ip_checksum
  show ?thesis
  proof (cases "is_tcp profile i")
    case True
    have "l4Checksum (ip_header tot ident 6 src dst c @ tcp_header s1 d1 sq ack e @ ?bs) 20 (20 + unat n) 6 =
        Inr (l4_checksum src dst 6 (tcp_header s1 d1 sq ack e @ ?bs))" for tot ident src dst c s1 d1 sq ack e
      using l4Checksum_eq [of tot ident 6 src dst c "tcp_header s1 d1 sq ack e @ ?bs" 6] by simp
    then show ?thesis using assms True
      by (simp add: defs write_tcp_fields [unfolded append.simps] write_tcp_checksum del: write_fields.simps)
  next
    case False
    have "l4Checksum (ip_header tot ident 17 src dst c @ udp_header s1 d1 k e @ ?bs) 20 (8 + unat n) 17 =
        Inr (l4_checksum src dst 17 (udp_header s1 d1 k e @ ?bs))" for tot ident src dst c s1 d1 k e
      using l4Checksum_eq [of tot ident 17 src dst c "udp_header s1 d1 k e @ ?bs" 17] by simp
    then show ?thesis using assms False
      by (simp add: defs write_udp_fields [unfolded append.simps] write_udp_checksum del: write_fields.simps)
  qed
qed

section \<open>Validation of the packets built\<close>

lemma read_layout:
  "readBe16 (ip_header tot ident proto src dst c @ rest) 2 = Inr tot" "(ip_header tot ident proto src dst c @ rest) ! 9 = proto"
  "readBe16 (ip_header tot ident proto src dst c @ rest) 10 = Inr c" "(ip_header tot ident proto src dst c @ rest) ! 0 = 0x45"
  "readBe16 (ip_header tot ident proto src dst c @ udp_header sp dp k d @ rest) 24 = Inr k"
  "readBe16 (ip_header tot ident proto src dst c @ udp_header sp dp k d @ rest) 26 = Inr d"
  "readBe16 (ip_header tot ident proto src dst c @ tcp_header sp dp sq ack d @ rest) 36 = Inr d"
  "(ip_header tot ident proto src dst c @ tcp_header sp dp sq ack d @ rest) ! 32 = 0x50"
  by (simp_all add: readBe16_def get_at_def be_join, simp_all add: ip_header_def udp_header_def tcp_header_def be32_def be_join)

lemma header_nibbles: "drop_bit 4 (0x45 :: byte) = 4" "unat ((0x45 :: byte) AND 0x0F) = 5" "unat (drop_bit 4 (0x50 :: byte)) = 5"
  by (simp_all add: drop_bit_eq_div unat_div_distrib word_unat_eq_iff)

lemma unat_of_nat16: "n < 65536 \<Longrightarrow> unat (of_nat n :: u16) = n"
  by (simp add: unat_of_nat)

lemma validate_udp_eq:
  assumes "8 + length bs < 65536"
  shows "validate_udp (ip_header tot ident 17 src dst c @ udp_header sp dp (of_nat (8 + length bs)) d @ bs) 20 (8 + length bs) v =
    Inr (if v \<and> d \<noteq> 0 \<and> \<not> 65535 dvd l4_sum src dst 17 (udp_header sp dp (of_nat (8 + length bs)) 0 @ bs) + unat d
         then Some ''invalid UDP checksum'' else None)"
proof -
  let ?l = "udp_header sp dp (of_nat (8 + length bs)) d @ bs"
  have k: "unat (of_nat (8 + length bs) :: u16) = 8 + length bs" by (rule unat_of_nat16 [OF assms])
  have "l4Checksum (ip_header tot ident 17 src dst c @ ?l) 20 (8 + length bs) 17 = Inr (l4_checksum src dst 17 ?l)"
    using l4Checksum_eq [of tot ident 17 src dst c ?l 17] by simp
  moreover have "l4_checksum src dst 17 ?l = 0xFFFF \<longleftrightarrow>
      65535 dvd l4_sum src dst 17 (udp_header sp dp (of_nat (8 + length bs)) 0 @ bs) + unat d"
    using l4_checksum_valid [of ?l 17 src dst] assms
    by (simp add: l4_sum_def be_sum_checksum(2) [of sp dp _ d bs] add.assoc)
  moreover have "l4_checksum src dst 17 ?l \<noteq> 0" by (simp add: l4_checksum_def Let_def)
  ultimately show ?thesis using k by (simp add: validate_udp_def read_layout del: of_nat_add)
qed

lemma validate_tcp_eq:
  assumes "20 + length bs < 65536"
  shows "validate_tcp (ip_header tot ident 6 src dst c @ tcp_header sp dp sq ack d @ bs) 20 (20 + length bs) v =
    Inr (if v \<and> \<not> 65535 dvd l4_sum src dst 6 (tcp_header sp dp sq ack 0 @ bs) + unat d
         then Some ''invalid TCP checksum'' else None)"
proof -
  let ?l = "tcp_header sp dp sq ack d @ bs"
  have "l4Checksum (ip_header tot ident 6 src dst c @ ?l) 20 (20 + length bs) 6 = Inr (l4_checksum src dst 6 ?l)"
    using l4Checksum_eq [of tot ident 6 src dst c ?l 6] by simp
  moreover have "l4_checksum src dst 6 ?l = 0xFFFF \<longleftrightarrow> 65535 dvd l4_sum src dst 6 (tcp_header sp dp sq ack 0 @ bs) + unat d"
    using l4_checksum_valid [of ?l 6 src dst] assms
    by (simp add: l4_sum_def be_sum_checksum(3) [of sp dp _ _ d bs] add.assoc)
  moreover have "l4_checksum src dst 6 ?l \<noteq> 0" by (simp add: l4_checksum_def Let_def)
  ultimately show ?thesis by (simp add: validate_tcp_def read_layout header_nibbles)
qed

lemma validate_header:
  assumes "20 + length l4 < 65536"
  shows "validateIpv4Packet (ip_header (of_nat (20 + length l4)) ident proto src dst c @ l4) v v' =
    (if v \<and> \<not> 65535 dvd be_sum (ip_header (of_nat (20 + length l4)) ident proto src dst 0) + unat c
     then Inr (Some ''invalid IPv4 header checksum'')
     else if proto = 17 then validate_udp (ip_header (of_nat (20 + length l4)) ident proto src dst c @ l4) 20 (length l4) v'
     else if proto = 6 then validate_tcp (ip_header (of_nat (20 + length l4)) ident proto src dst c @ l4) 20 (length l4) v'
     else Inr (Some ''unsupported IPv4 protocol''))"
proof -
  have "unat (of_nat (20 + length l4) :: u16) = 20 + length l4" by (rule unat_of_nat16 [OF assms])
  then show ?thesis
    by (simp add: validateIpv4Packet_def read_layout header_nibbles ip_checksum_valid Let_def del: of_nat_add)
qed

text \<open>The sums over the headers without checksums.\<close>

definition header_sum :: "Profile \<Rightarrow> u32 \<Rightarrow> u32 \<Rightarrow> u32 \<Rightarrow> u32 \<Rightarrow> u32 \<Rightarrow> u16 \<Rightarrow> u16 \<Rightarrow> nat" where
  "header_sum profile i flowCount n srcIp dstIp sp dp = be_sum (take 20 (packet_with profile i flowCount n srcIp dstIp sp dp 0 0))"

definition body_sum :: "Profile \<Rightarrow> u32 \<Rightarrow> u32 \<Rightarrow> u32 \<Rightarrow> u32 \<Rightarrow> u32 \<Rightarrow> u16 \<Rightarrow> u16 \<Rightarrow> nat" where
  "body_sum profile i flowCount n srcIp dstIp sp dp =
     (let flow = (if flowCount = 0 then 0 else i mod flowCount)
      in l4_sum (srcIp + flow) (dstIp + flow) (if is_tcp profile i then 6 else 17)
           (drop 20 (packet_with profile i flowCount n srcIp dstIp sp dp 0 0)))"

lemma validate_packet:
  assumes "packet_length profile i n \<le> 65535"
  shows "validateIpv4Packet (packet_with profile i flowCount n srcIp dstIp sp dp c d) v v' =
    Inr (if v \<and> \<not> 65535 dvd header_sum profile i flowCount n srcIp dstIp sp dp + unat c then Some ''invalid IPv4 header checksum''
         else if v' \<and> (d \<noteq> 0 \<or> is_tcp profile i) \<and> \<not> 65535 dvd body_sum profile i flowCount n srcIp dstIp sp dp + unat d
         then Some (if is_tcp profile i then ''invalid TCP checksum'' else ''invalid UDP checksum'') else None)"
proof -
  let ?bs = "map (payload_byte i) [0..<unat n]"
  define flow where "flow = (if flowCount = 0 then 0 else i mod flowCount)"
  note defs = packet_with_def header_sum_def body_sum_def flow_def [symmetric] Let_def
  show ?thesis
  proof (cases "is_tcp profile i")
    case True
    let ?l = "tcp_header (ucast (ucast sp + flow)) (ucast (ucast dp + flow)) (0x01000000 + i) (0x02000000 + i) d @ ?bs"
    have n: "20 + length ?l < 65536" "20 + length ?bs < 65536" "40 + unat n = 20 + length ?l" "length ?l = 20 + length ?bs"
      using assms True by (simp_all add: packet_length_def)
    show ?thesis unfolding defs if_P [OF True] n(3) validate_header [OF n(1)]
      by (simp add: n(4) validate_tcp_eq [OF n(2)] True del: of_nat_add length_map length_upt length_append)
  next
    case False
    let ?l = "udp_header (ucast (ucast sp + flow)) (ucast (ucast dp + flow)) (of_nat (8 + length ?bs)) d @ ?bs"
    have n: "20 + length ?l < 65536" "8 + length ?bs < 65536" "28 + unat n = 20 + length ?l" "length ?l = 8 + length ?bs"
      "8 + unat n = 8 + length ?bs"
      using assms False by (simp_all add: packet_length_def)
    show ?thesis unfolding defs if_not_P [OF False] n(5) n(3) validate_header [OF n(1)]
      by (simp add: n(4) validate_udp_eq [OF n(2)] False del: of_nat_add length_map length_upt length_append)
  qed
qed

lemma good_checksums_complete:
  assumes "packet_length profile i n \<le> 65535" and "good_checksums profile i flowCount n srcIp dstIp sp dp = (c, d)"
  shows "65535 dvd header_sum profile i flowCount n srcIp dstIp sp dp + unat c"
    and "65535 dvd body_sum profile i flowCount n srcIp dstIp sp dp + unat d" and "c \<noteq> 0xFFFF" and "d \<noteq> 0"
proof -
  let ?p = "packet_with profile i flowCount n srcIp dstIp sp dp 0 0"
  define flow where "flow = (if flowCount = 0 then 0 else i mod flowCount)"
  have c: "c = internetChecksum (take 20 ?p)"
    and d: "d = l4_checksum (srcIp + flow) (dstIp + flow) (if is_tcp profile i then 6 else 17) (drop 20 ?p)"
    using assms(2) by (simp_all add: good_checksums_def flow_def Let_def)
  obtain tot ident proto src dst where h: "take 20 ?p = ip_header tot ident proto src dst 0"
    by (cases "is_tcp profile i") (simp_all add: packet_with_def Let_def)
  show "65535 dvd header_sum profile i flowCount n srcIp dstIp sp dp + unat c"
    unfolding header_sum_def c h by (rule ip_checksum_completes)
  have len: "length (drop 20 ?p) < 65536" using assms(1) by (auto simp: packet_with_def packet_length_def Let_def)
  show "65535 dvd body_sum profile i flowCount n srcIp dstIp sp dp + unat d"
    unfolding body_sum_def d flow_def [symmetric] Let_def by (rule l4_checksum_completes [OF len]) simp
  show "d \<noteq> 0" by (simp add: d l4_checksum_def Let_def)
  show "c \<noteq> 0xFFFF" unfolding c h by (rule ip_checksum_not_ones)
qed

section \<open>Corruption\<close>

lemma xor_ones16: "c XOR 0xFFFF = NOT (c :: u16)"
proof -
  have "(0xFFFF :: u16) = - 1" by simp
  then show ?thesis by (simp only: bit.xor_one_right)
qed

lemma corrupt_packet:
  assumes "packet_length profile i n \<le> 65535"
  shows "corrupt a 10 (packet_with profile i flowCount n srcIp dstIp sp dp c d) =
      Inr (packet_with profile i flowCount n srcIp dstIp sp dp (if a then NOT c else c) d)"
    "corrupt a (checksum_offset profile i) (packet_with profile i flowCount n srcIp dstIp sp dp c d) =
      Inr (packet_with profile i flowCount n srcIp dstIp sp dp c (if a then NOT d else d))"
  by (simp_all add: corrupt_def packet_with_def checksum_offset_def Let_def read_layout write_ip_checksum write_udp_checksum
      write_tcp_checksum xor_ones16)

lemma complement_undetected:
  assumes "65535 dvd (A :: nat) + c" and "c \<le> 65535"
  shows "65535 dvd A + (65535 - c) \<longleftrightarrow> c = 0 \<or> c = 65535"
proof
  assume "65535 dvd A + (65535 - c)"
  moreover have "65535 dvd A + c + 65535" using assms(1) by (simp only: dvd_add_left_iff dvd_refl)
  moreover have "A + c + 65535 = A + (65535 - c) + 2 * c" using assms(2) by simp
  ultimately have "65535 dvd 2 * c" by (metis dvd_add_right_iff)
  moreover have "coprime 65535 (2 :: nat)" by (simp add: coprime_right_2_iff_odd)
  ultimately have "65535 dvd c" by (simp add: coprime_dvd_mult_right_iff)
  then show "c = 0 \<or> c = 65535" using assms(2) by (auto elim: dvdE)
next
  assume "c = 0 \<or> c = 65535"
  then show "65535 dvd A + (65535 - c)" using assms(1) by auto
qed

section \<open>Beats\<close>

lemma prefixKeep_mask: "prefixKeep n = low_mask n"
  by (auto simp: prefixKeep_def low_mask_def)

lemma packet_beat_facts:
  fixes iw dw i dst usr l
  assumes "0 < length bs" and "length bs \<le> w div 8" and "w \<le> 512"
  defines "d \<equiv> packet_beat w iw dw i dst usr bs l"
  shows "axis_wf d" "kept_bytes d = bs" "tlast d = l" "tid d = i" "tdest d = dst" "DATA_WIDTH d = w" "tkeep d = low_mask (length bs)"
proof -
  have l: "length (tdata d) = w div 8" "take (length bs) (tdata d) = bs"
    using assms(2) by (simp_all add: d_def packet_beat_def new_axisData_def copy_at_def)
  show "axis_wf d" using assms(3) l(1) by (simp add: axis_wf_def) (simp add: d_def packet_beat_def new_axisData_def)
  show k: "tkeep d = low_mask (length bs)" by (simp add: d_def packet_beat_def Let_def prefixKeep_mask)
  have "w div 8 \<le> 64" using assms(3) by simp
  then show "kept_bytes d = bs" using l assms(2) by (simp add: kept_bytes_def k kept_low_mask)
qed (simp_all add: d_def packet_beat_def new_axisData_def Let_def)

lemma beats_loop_stream:
  assumes "0 < b" and "\<And>bs l. 0 < length bs \<Longrightarrow> length bs \<le> b \<Longrightarrow> kept_bytes (beat bs l) = bs \<and> tlast (beat bs l) = l"
  shows "beats_stream (beats_loop b beat bs) = mark bs True"
proof (induction bs rule: length_induct)
  case (1 bs)
  show ?case
  proof (cases "bs = []")
    case True
    then show ?thesis by (subst beats_loop.simps) (simp add: beats_stream_def)
  next
    case False
    have b: "kept_bytes (beat (take b bs) l) = take b bs" "tlast (beat (take b bs) l) = l" for l
      using assms False by auto
    have "beats_stream (beats_loop b beat bs) = mark (take b bs) (length bs \<le> b) @ beats_stream (beats_loop b beat (drop b bs))"
      using False assms(1) by (subst beats_loop.simps) (simp add: beats_stream_def beat_stream_def b)
    also have "\<dots> = mark (take b bs) (length bs \<le> b) @ mark (drop b bs) True"
      using 1 False assms(1) by simp
    also have "\<dots> = mark (take b bs @ drop b bs) True"
      using mark_step [of "take b bs" "drop b bs" "length bs \<le> b" True] False assms(1) by simp
    finally show ?thesis by simp
  qed
qed

lemma beats_loop_all:
  assumes "0 < b" and "\<And>bs l. 0 < length bs \<Longrightarrow> length bs \<le> b \<Longrightarrow> P (beat bs l)" and "d \<in> set (beats_loop b beat bs)"
  shows "P d"
  using assms(3)
proof (induction bs rule: length_induct)
  case (1 bs)
  have ne: "bs \<noteq> []" using "1.prems" by (subst (asm) beats_loop.simps) (simp split: if_splits)
  then have "d = beat (take b bs) (length bs \<le> b) \<or> d \<in> set (beats_loop b beat (drop b bs))"
    using "1.prems" assms(1) by (subst (asm) beats_loop.simps) simp
  moreover have "length (drop b bs) < length bs" "0 < length (take b bs)" "length (take b bs) \<le> b" using ne assms(1) by simp_all
  ultimately show ?case using "1.IH" assms(2) by blast
qed

section \<open>Properties\<close>

lemma built_valid:
  assumes "buildIpv4Packet profile i flowCount n srcIp dstIp sp dp False False = Inr p"
  shows "packet_length profile i n \<le> 65535 \<and> length p = packet_length profile i n \<and> validateIpv4Packet p v v' = Inr None"
proof (cases "packet_length profile i n \<le> 65535")
  case True
  obtain c d where g: "good_checksums profile i flowCount n srcIp dstIp sp dp = (c, d)" by force
  have p: "p = packet_with profile i flowCount n srcIp dstIp sp dp c d" using assms by (simp add: build_eq [OF True] g corrupt_def)
  moreover have "length p = packet_length profile i n" by (simp add: p packet_with_def packet_length_def Let_def)
  ultimately show ?thesis using True good_checksums_complete [OF True g] by (simp add: validate_packet [OF True])
next
  case False
  then show ?thesis using assms by (auto simp: buildIpv4Packet_def packet_length_def Let_def split: if_splits)
qed

text \<open>C14: Every packet the builder makes is valid. For every profile, index, flow count, payload size, address and port
  the packet has the length of its headers and payload and passes the validation, with the checks of both
  checksums on or off; a packet longer than an IPv4 packet can be is refused.\<close>

theorem built_packet_valid:
  "if packet_length profile i n \<le> 65535
   then \<exists>p. buildIpv4Packet profile i flowCount n srcIp dstIp sp dp False False = Inr p \<and> length p = packet_length profile i n \<and>
     validateIpv4Packet p v v' = Inr None
   else buildIpv4Packet profile i flowCount n srcIp dstIp sp dp False False = Inl (Fatal ''Axis packet total length exceeds IPv4 max'')"
proof (cases "packet_length profile i n \<le> 65535")
  case True
  then have "\<exists>p. buildIpv4Packet profile i flowCount n srcIp dstIp sp dp False False = Inr p"
    by (simp add: build_eq [OF True] corrupt_def split: prod.split)
  with built_valid show ?thesis using True by (metis (full_types))
next
  case False
  then show ?thesis by (auto simp: buildIpv4Packet_def packet_length_def Let_def)
qed

text \<open>C40: What the corruption switches of the builder achieve. A packet with a corrupted header checksum is rejected for it
  exactly when the checksum of the packet is not zero, and a packet with a corrupted UDP or TCP checksum passes exactly
  when the checksum of the packet is \<open>0xFFFF\<close>: the complement of these two values is again a valid checksum.\<close>

theorem corruption_detected:
  assumes "packet_length profile i n \<le> 65535" and "buildIpv4Packet profile i flowCount n srcIp dstIp sp dp False False = Inr p"
  shows "\<exists>q r. buildIpv4Packet profile i flowCount n srcIp dstIp sp dp True False = Inr q \<and>
    buildIpv4Packet profile i flowCount n srcIp dstIp sp dp False True = Inr r \<and>
    (validateIpv4Packet q True v' = Inr (Some ''invalid IPv4 header checksum'') \<longleftrightarrow> readBe16 p 10 \<noteq> Inr 0) \<and>
    (validateIpv4Packet r v True = Inr None \<longleftrightarrow> readBe16 p (checksum_offset profile i) = Inr 0xFFFF)"
proof -
  obtain c d where g: "good_checksums profile i flowCount n srcIp dstIp sp dp = (c, d)" by force
  let ?pk = "packet_with profile i flowCount n srcIp dstIp sp dp"
  note b = build_eq [OF assms(1), of flowCount srcIp dstIp sp dp, unfolded g prod.case corrupt_packet [OF assms(1)] rbind_simps]
  note good = good_checksums_complete [OF assms(1) g]
  have p: "p = ?pk c d" using assms(2) b by simp
  have read: "readBe16 p 10 = Inr c" "readBe16 p (checksum_offset profile i) = Inr d"
    unfolding p by (simp_all add: packet_with_def checksum_offset_def Let_def read_layout)
  have nd: "NOT d = 0 \<longleftrightarrow> d = 0xFFFF" using unat_u16 [of d] by (simp add: word_unat_eq_iff unat_not16) linarith
  have le: "unat c \<le> 65535" "unat d \<le> 65535" using unat_u16 [of c] unat_u16 [of d] by simp_all
  have "65535 dvd header_sum profile i flowCount n srcIp dstIp sp dp + unat (NOT c) \<longleftrightarrow> c = 0"
    using complement_undetected [OF good(1) le(1)] good(3) by (simp add: unat_not16 word_unat_eq_iff)
  moreover have "65535 dvd body_sum profile i flowCount n srcIp dstIp sp dp + unat (NOT d) \<longleftrightarrow> d = 0xFFFF"
    using complement_undetected [OF good(2) le(2)] good(4) by (simp add: unat_not16 word_unat_eq_iff)
  ultimately show ?thesis using b good(1,2) nd by (auto simp: validate_packet [OF assms(1)] read)
qed

theorem corruption_detected_witness:
  "\<exists>q r. buildIpv4Packet Ipv4Udp 0 1 0 0x0A0010C2 0x08080808 1000 53 True False = Inr q \<and>
    validateIpv4Packet q True True \<noteq> Inr (Some ''invalid IPv4 header checksum'') \<and>
    buildIpv4Packet Ipv4Udp 0 1 0 0x0A0010C2 0x08080808 1000 53 False True = Inr r \<and> validateIpv4Packet r True True \<noteq> Inr None"
proof -
  let ?p = "[0x45, 0, 0, 0x1C, 0x10, 0, 0x40, 0, 0x40, 0x11, 0, 0, 0x0A, 0, 0x10, 0xC2, 8, 8, 8, 8, 3, 0xE8, 0, 0x35, 0, 8, 0xD0, 0xEF] :: byte list"
  have p: "buildIpv4Packet Ipv4Udp 0 1 0 0x0A0010C2 0x08080808 1000 53 False False = Inr ?p"
    by (simp add: buildIpv4Packet_def is_tcp_def ip_fields_def udp_fields_def writeBe16_def writeBe32_def set_at_def
        replicate_numeral internetChecksum_def onesFinalize_def onesFold.simps l4Checksum_def readBe16_def get_at_def corrupt_def copy_at_def)
  have len: "packet_length Ipv4Udp 0 0 \<le> 65535" by (simp add: packet_length_def is_tcp_def)
  have "readBe16 ?p 10 = Inr 0" "readBe16 ?p (checksum_offset Ipv4Udp 0) \<noteq> Inr 0xFFFF"
    by (simp_all add: readBe16_def get_at_def checksum_offset_def is_tcp_def)
  then show ?thesis using corruption_detected [OF len p, of True True] by metis
qed

end
