(* ===== verification/Stream_NSU.thy ===== *)
theory Stream_NSU
  imports Stream_NMU Message_Buffer_Props
begin

text \<open>
  The stream destination endpoint \<open>sNocSlaveUnit\<close>
  (\<open>src/noc/core/network/nsu_types/sNocSlaveUnit.hh\<close>, \<open>sNocSlaveUnit.cc\<close>): flits of interleaved packets
  are rebuilt into beats, with one aggregate per packet, and handed to the buffer of the endpoint, or
  collected into frames first when the unit is configured to do so.

  The clock and the tables of the network are arguments. \<open>ns_sent\<close> are the messages handed to the buffer
  of the endpoint, in order, and \<open>ns_wakeups\<close> counts the wakeups of the network interface.
\<close>

section \<open>State\<close>

type_synonym stream_msg = "NocStreamMsg Message"
type_synonym FrameKey = "u32 \<times> u32 \<times> u32"

record Frame =
  fr_beats :: "stream_msg list"
  storedBytes :: nat

definition empty_Frame :: Frame where
  "empty_Frame = \<lparr> fr_beats = [], storedBytes = 0 \<rparr>"

record sNSU =
  ns_id :: int
  S_DATA_WIDTH :: nat
  aggregateByPacket :: "int \<rightharpoonup> byte list"
  partialFrames :: "FrameKey \<rightharpoonup> Frame"
  completeFrames :: "Frame list"
  axisReassembleFrames :: bool
  axisTidWidth :: nat
  axisMaxFrameBytes :: nat
  axisCompleteFrames :: nat
  drainScheduled :: bool
  ns_out :: "NocStreamMsg MessageBuffer option"
  ns_sent :: "NocStreamMsg list"
  ns_wakeups :: nat

record sink_network = network +
  sn_getRandomization :: bool
  sn_getWarmupEnabled :: bool

text \<open>The constructor, with the parameters of the unit. Opening the capture file is left out.\<close>

definition new_sNSU :: "int \<Rightarrow> nat \<Rightarrow> bool \<Rightarrow> nat \<Rightarrow> nat \<Rightarrow> nat \<Rightarrow> NocStreamMsg MessageBuffer option \<Rightarrow> sNSU result" where
  "new_sNSU i data_width reassemble tid_width max_frame_bytes complete_frames out =
     (if data_width = 0 \<or> data_width mod 8 \<noteq> 0 \<or> data_width > 512
      then Inl (Fatal ''AXIS data width must be byte aligned and at most 512 bits'')
      else if tid_width > 32 then Inl (Fatal ''AXIS TID width must be at most 32'')
      else if reassemble \<and> (max_frame_bytes < data_width div 8 \<or> complete_frames = 0)
      then Inl (Fatal ''AXIS frame storage and completed-frame FIFO must be nonzero'')
      else Inr \<lparr> ns_id = i, S_DATA_WIDTH = data_width, aggregateByPacket = Map.empty, partialFrames = Map.empty,
             completeFrames = [], axisReassembleFrames = reassemble, axisTidWidth = tid_width,
             axisMaxFrameBytes = max_frame_bytes, axisCompleteFrames = complete_frames, drainScheduled = False,
             ns_out = out, ns_sent = [], ns_wakeups = 0 \<rparr>)"

section \<open>Messages for the endpoint\<close>

definition tid_too_wide :: "sNSU \<Rightarrow> axisData \<Rightarrow> bool" where
  "tid_too_wide s d \<longleftrightarrow> axisTidWidth s < 32 \<and> 2 ^ axisTidWidth s \<le> unat (tid d)"

definition beat_msg :: "clock \<Rightarrow> u32 \<Rightarrow> axisData \<Rightarrow> int list \<Rightarrow> int \<Rightarrow> stream_msg" where
  "beat_msg c src_nmu d dbg_ids fallback =
     (let m = (buffer_NocStreamMsg (Some (MpAxis d)))\<lparr> sm_src_ni_id := sint src_nmu \<rparr>
      in new_Message (clockEdge c)
           (if dbg_ids \<noteq> [] then m\<lparr> sm_debug_ids := dbg_ids, sm_debug_id := hd dbg_ids \<rparr>
            else m\<lparr> sm_debug_id := fallback \<rparr>))"

definition s_createNWriteDataMsgs ::
  "clock \<Rightarrow> axisData list \<Rightarrow> u32 \<Rightarrow> int list list \<Rightarrow> int \<Rightarrow> sNSU \<Rightarrow> stream_msg list result" where
  "s_createNWriteDataMsgs c ds src_nmu dbgs fallback s =
     rmap (\<lambda>i. if tid_too_wide s (ds ! i) then Inl (Fatal ''AXIS TID exceeds configured axis_tid_width'')
               else Inr (beat_msg c src_nmu (ds ! i) (if i < length dbgs then dbgs ! i else []) fallback))
       [0..<length ds]"

text \<open>One insertion per message, at the current clock edge and without delay.\<close>

fun enqueue_beats ::
  "draws list \<Rightarrow> sink_network \<Rightarrow> clock \<Rightarrow> stream_msg list \<Rightarrow> NocStreamMsg MessageBuffer \<Rightarrow> NocStreamMsg MessageBuffer result" where
  "enqueue_beats rngs net c [] b = Inr b"
| "enqueue_beats rngs net c (m # ms) b =
     rbind (mb_enqueue (case rngs of [] \<Rightarrow> (0, 1, 1) | x # _ \<Rightarrow> x) m (clockEdge c) 0 (sn_getRandomization net)
              (sn_getWarmupEnabled net) False b)
       (enqueue_beats (drop 1 rngs) net c ms)"

definition s_sendNWriteDataMsgs ::
  "draws list \<Rightarrow> sink_network \<Rightarrow> clock \<Rightarrow> stream_msg list \<Rightarrow> sNSU \<Rightarrow> (bool \<times> sNSU) result" where
  "s_sendNWriteDataMsgs rngs net c msgs s =
     (if msgs = [] then Inr (True, s)
      else case ns_out s of
             None \<Rightarrow> Inl (Panic ''sNocSlaveUnit::sendNWriteDataMsgs: W outNode null'')
           | Some wbuf \<Rightarrow>
               if 0 < m_max_size wbuf \<and> m_max_size wbuf < length msgs
               then Inl (Panic ''sendNWriteDataMsgs needs more slots than the W MessageBuffer has'')
               else if \<not> areNSlotsAvailable (length msgs) (clockEdge c) wbuf then Inr (False, s)
               else rbind (enqueue_beats rngs net c msgs wbuf) (\<lambda>wbuf'.
                      Inr (True, s\<lparr> ns_out := Some wbuf', ns_sent := ns_sent s @ map msg_body msgs \<rparr>)))"

section \<open>Frames\<close>

definition beat_of :: "stream_msg \<Rightarrow> axisData result" where
  "beat_of m = (case sm_payload (msg_body m) of MpAxis d \<Rightarrow> Inr d | _ \<Rightarrow> Inl (Throw ''bad variant access''))"

definition frame_source :: "stream_msg \<Rightarrow> u32" where
  "frame_source m = of_int (sm_src_ni_id (msg_body m))"

fun add_beats :: "u32 \<Rightarrow> axisData \<Rightarrow> stream_msg list \<Rightarrow> Frame \<Rightarrow> Frame result" where
  "add_beats src first [] f = Inr f"
| "add_beats src first (m # ms) f =
     rbind (beat_of m) (\<lambda>d.
       if frame_source m \<noteq> src \<or> tid d \<noteq> tid first \<or> tdest d \<noteq> tdest first
       then Inl (Panic ''one AXIS NPP contains multiple stream identities'')
       else add_beats src first ms (f\<lparr> fr_beats := fr_beats f @ [m] \<rparr>))"

definition schedule_drain :: "sNSU \<Rightarrow> sNSU" where
  "schedule_drain s = s\<lparr> drainScheduled := True \<rparr>"

definition bufferFrameMsgs :: "sink_network \<Rightarrow> stream_msg list \<Rightarrow> sNSU \<Rightarrow> (bool \<times> sNSU) result" where
  "bufferFrameMsgs net msgs s =
     (case msgs of
        [] \<Rightarrow> Inr (True, s)
      | first # _ \<Rightarrow>
          rbind (beat_of first) (\<lambda>firstBeat. rbind (beat_of (last msgs)) (\<lambda>lastBeat.
            let src = frame_source first; key = (src, tid firstBeat, tdest firstBeat); completes = tlast lastBeat;
                extraBytes = length msgs * (S_DATA_WIDTH s div 8);
                frame = (case partialFrames s key of Some f \<Rightarrow> f | None \<Rightarrow> empty_Frame)
            in if tid_too_wide s firstBeat then Inl (Fatal ''AXIS TID exceeds configured axis_tid_width'')
               else if getAxisDestNi net (sint src) (tdest firstBeat) \<noteq> ns_id s
               then Inl (Fatal ''AXIS frame source TDEST has no route to this NSU'')
               else if completes \<and> axisCompleteFrames s \<le> length (completeFrames s) then Inr (False, schedule_drain s)
               else if axisMaxFrameBytes s < storedBytes frame + extraBytes
               then Inl (Fatal ''AXIS frame exceeds axis_max_frame_bytes'')
               else rbind (add_beats src firstBeat msgs frame) (\<lambda>f.
                 let f' = f\<lparr> storedBytes := storedBytes f + extraBytes \<rparr>
                 in Inr (True,
                      if completes
                      then schedule_drain (s\<lparr> completeFrames := completeFrames s @ [f'], partialFrames := (partialFrames s)(key := None) \<rparr>)
                      else s\<lparr> partialFrames := (partialFrames s)(key \<mapsto> f') \<rparr>)))))"

text \<open>The drain event. The result is also the number of calls of the wakeup callback.\<close>

definition drainFrame :: "draws list \<Rightarrow> sink_network \<Rightarrow> clock \<Rightarrow> sNSU \<Rightarrow> sNSU result" where
  "drainFrame rngs net c s0 =
     (let s = s0\<lparr> drainScheduled := False \<rparr> in
      case completeFrames s of
        [] \<Rightarrow> Inr s
      | frame # rest \<Rightarrow>
          (case fr_beats frame of
             [] \<Rightarrow> Inl (Panic ''empty completed AXIS frame'')
           | m # ms \<Rightarrow>
               rbind (s_sendNWriteDataMsgs rngs net c [m] s) (\<lambda>(ok, s1).
                 let s2 = (if \<not> ok then s1
                           else if ms = [] then s1\<lparr> completeFrames := rest, ns_wakeups := ns_wakeups s1 + 1 \<rparr>
                           else s1\<lparr> completeFrames := frame\<lparr> fr_beats := ms \<rparr> # rest \<rparr>)
                 in Inr (if completeFrames s2 \<noteq> [] then schedule_drain s2 else s2))))"

section \<open>Flits\<close>

definition s_depacketizeWriteDataFlit ::
  "draws list \<Rightarrow> sink_network \<Rightarrow> clock \<Rightarrow> flit \<Rightarrow> sNSU \<Rightarrow> (bool \<times> sNSU) result" where
  "s_depacketizeWriteDataFlit rngs net c fl s =
     (if S_DATA_WIDTH s mod 8 \<noteq> 0 then Inl (Panic ''sNocSlaveUnit: S_DATA_WIDTH must be multiple of 8 bits'')
      else
        let msg = fl_msg fl; packet = fl_packet_id fl; flit_id = nat (fl_id fl mod 256);
            is_tail_flit = (int (sm_num_flits msg) - 1 = int flit_id)
        in if sm_num_flits msg \<le> flit_id then Inl (Panic ''sNocSlaveUnit received flit outside packet'')
           else rbind (sm_getFlitData msg flit_id) (\<lambda>flit_data.
             let agg0 = (case aggregateByPacket s packet of Some g \<Rightarrow> g | None \<Rightarrow> replicate 64 0);
                 agg = (if flit_id = 0 then replicate 64 0 else agg0)
             in case sm_pload msg of
                  PlAximm _ \<Rightarrow> Inl (Panic ''sNocSlaveUnit::depacketizeWriteDataFlit: Expected axisPayload in NocStreamMsg'')
                | PlAxis ap \<Rightarrow>
                    rbind (containsLast msg) (\<lambda>lst.
                    rbind (depacketizeAxisPayloadFlit ap (S_DATA_WIDTH s) agg flit_id (sm_num_flits msg) lst flit_data
                             (sm_debug_id msg)) (\<lambda>(dp, agg').
                      let s1 = s\<lparr> aggregateByPacket := (aggregateByPacket s)(packet \<mapsto> agg') \<rparr>
                      in rbind (s_createNWriteDataMsgs c (dp_payloads dp) (of_int (sm_src_ni_id msg)) (dp_debugIds dp)
                                  (sm_debug_id msg) s1) (\<lambda>msgs.
                         rbind (if axisReassembleFrames s1 then bufferFrameMsgs net msgs s1
                                else s_sendNWriteDataMsgs rngs net c msgs s1) (\<lambda>(accepted, s2).
                           Inr (accepted,
                                if accepted \<and> is_tail_flit
                                then s2\<lparr> aggregateByPacket := (aggregateByPacket s2)(packet := None) \<rparr> else s2)))))))"

definition s_depacketizeFlit ::
  "draws list \<Rightarrow> sink_network \<Rightarrow> clock \<Rightarrow> flit \<Rightarrow> sNSU \<Rightarrow> (bool \<times> sNSU) result" where
  "s_depacketizeFlit rngs net c fl s =
     (case sm_pload (fl_msg fl) of
        PlAximm _ \<Rightarrow> Inl (Panic ''sNocSlaveUnit::depacketizeFlit: Unsupported payload type'')
      | PlAxis _ \<Rightarrow> s_depacketizeWriteDataFlit rngs net c fl s)"

end
