(* ===== verification/Stream_NSU_Props.thy ===== *)
theory Stream_NSU_Props
  imports Stream_NSU
begin

text \<open>
  Properties of the stream destination endpoint: packets of several sources whose flits interleave are
  rebuilt separately, with every flit retried until the endpoint has room for its beats.
\<close>

section \<open>Several insertions in one cycle\<close>

definition takes_beats :: "bool \<Rightarrow> Tick \<Rightarrow> 'b MessageBuffer \<Rightarrow> bool" where
  "takes_beats rnd now b \<longleftrightarrow> mb_inv now b \<and> no_random rnd b \<and> m_allow_zero_latency b \<and> m_consumer b \<and>
     m_last_arrival_time b \<le> now \<and> m_max_size b < 2 ^ 30"

lemma enqueue_beats_ok:
  "takes_beats (sn_getRandomization net) (clockEdge c) b \<Longrightarrow> areNSlotsAvailable (length ms) (clockEdge c) b \<Longrightarrow> length ms < 2 ^ 30 \<Longrightarrow>
    \<forall>m \<in> set ms. m_LastEnqueueTime m \<le> clockEdge c \<Longrightarrow>
    \<exists>b'. enqueue_beats rngs net c ms b = Inr b' \<and> takes_beats (sn_getRandomization net) (clockEdge c) b' \<and> m_max_size b' = m_max_size b"
proof (induction ms arbitrary: b rngs)
  case (Cons m ms)
  let ?now = "clockEdge c" and ?rng = "case rngs of [] \<Rightarrow> (0, 1, 1) | x # _ \<Rightarrow> x"
  have b: "mb_inv ?now b" "no_random (sn_getRandomization net) b" "m_allow_zero_latency b" "m_consumer b"
    "m_last_arrival_time b \<le> ?now + 0" "m_max_size b < 2 ^ 30"
    using Cons.prems(1) by (simp_all add: takes_beats_def)
  have n: "areNSlotsAvailable (Suc (length ms)) ?now b" "Suc (length ms) < 2 ^ 30" using Cons.prems(2,3) by simp_all
  have "m_max_size b \<noteq> 0 \<Longrightarrow> mb_total b + Suc (length ms) \<le> m_max_size b"
    using slots_room(1) [OF b(1) n(1) _ b(6) n(2)] .
  then have "m_max_size b = 0 \<or> mb_total b + 1 \<le> m_max_size b" by fastforce
  then obtain b1 where b1: "mb_enqueue ?rng m ?now 0 (sn_getRandomization net) (sn_getWarmupEnabled net) False b = Inr b1"
    using enqueue_on_time(1) [OF b(1-5)] Cons.prems(4) by fastforce
  have "areNSlotsAvailable 1 ?now b" by (rule slots_fewer [OF b(1) n(1,2) b(6)]) simp
  note e = enqueue_inv [OF b(1) this b1] and p = enqueue_plain [OF b1 b(2)]
  have "takes_beats (sn_getRandomization net) ?now b1" using e p b by (auto simp: takes_beats_def mb_conf_def)
  then show ?case using Cons.IH [OF _ slots_after_enqueue [OF b(1) n(1,2) b(6) b1]] Cons.prems(3,4) b1 e(3) by (simp add: mb_conf_def)
qed simp

section \<open>The beats of one flit\<close>

lemma source_beat_in: "source_beat_loop a b c ds = Some d \<Longrightarrow> d \<in> set ds"
  by (induction a b c ds rule: source_beat_loop.induct) (auto simp: Let_def split: if_splits)

definition tid_known :: "axisPayload \<Rightarrow> axisData \<Rightarrow> bool" where
  "tid_known p d \<longleftrightarrow> tid d \<in> insert 0 (tid ` set (beats p))"

lemma sideband_tid: "tid d = 0 \<Longrightarrow> tid_known p (applySidebandForByteRange p d a n)"
  by (auto simp: applySidebandForByteRange_def findSourceBeatForByteRange_def tid_known_def
      split: option.split if_splits dest: source_beat_in)

text \<open>A beat as the unit makes it: of the width of the endpoint, with a nonempty prefix of its bytes kept.\<close>

definition beat_shape :: "nat \<Rightarrow> axisData \<Rightarrow> bool" where
  "beat_shape w d \<longleftrightarrow> DATA_WIDTH d = w \<and> length (tdata d) = w div 8 \<and> (\<exists>n. 0 < n \<and> tkeep d = low_mask n)"

lemma emitted_beat:
  assumes "0 < n"
  shows "\<exists>d. dp_payloads (emit_beat p w fb bytes l a n res) = dp_payloads res @ [d] \<and> tid_known p d \<and> beat_shape w d"
proof -
  let ?d = "applySidebandForByteRange p ((axisData_of bytes w 6 4 0 0 l True)\<lparr> tkeep := tkeepForValidBytes n \<rparr>) a n"
  have "tid_known p ?d" by (rule sideband_tid) (simp add: axisData_of_def)
  moreover have "beat_shape w ?d" using assms
    by (auto simp: beat_shape_def axisData_of_def new_axisData_def resize_def tkeepForValidBytes_low_mask intro!: exI [of _ "nat n"])
  ultimately show ?thesis by (intro exI [of _ ?d]) (simp add: emit_beat_def Let_def)
qed

definition known_beats :: "axisPayload \<Rightarrow> nat \<Rightarrow> nat \<Rightarrow> AxisDepacketizedFlit \<Rightarrow> bool" where
  "known_beats p w k dp \<longleftrightarrow> (\<forall>d \<in> set (dp_payloads dp). tid_known p d \<and> beat_shape w d) \<and> length (dp_payloads dp) \<le> k"

lemma known_beats_emit: "0 < n \<Longrightarrow> known_beats p w k res \<Longrightarrow> known_beats p w (Suc k) (emit_beat p w fb bytes l a n res)"
  using emitted_beat [of n p w fb bytes l a res] by (auto simp: known_beats_def)

lemma known_beats_fold:
  "known_beats p w k (fst st) \<Longrightarrow> known_beats p w (k + length xs) (fst (fold (narrow_step p w fb W bB v tll lv fd) xs st))"
proof (induction xs arbitrary: st k)
  case (Cons x xs)
  have "known_beats p w (Suc k) (fst (narrow_step p w fb W bB v tll lv fd x st))"
    using Cons.prems known_beats_emit by (auto simp: narrow_step_def Let_def not_le) (auto simp: known_beats_def)
  then show ?case using Cons.IH [of "Suc k"] by simp
qed simp

lemma sink_valid_in_beat:
  assumes "16 * i < B" and "0 < W" and "0 < f" and "W = 16 * f"
  shows "0 < min (int W) (max 0 (min (int B) (int (i div f * W) + int W) - min (int B) (int (i div f * W))))"
proof -
  have "i div f * W \<le> 16 * i" using assms(4) by (simp add: algebra_simps)
  then have "i div f * W < B" using assms(1) by linarith
  then show ?thesis using assms(2) by (auto simp: min_def max_def simp flip: of_nat_mult)
qed

lemma depacketize_known:
  assumes run: "depacketizeAxisPayloadFlit p w agg i nf l fd fb = Inr (dp, agg')"
    and p: "payload_wf p" "i < flits_for (length (payload_bytes p))"
  shows "known_beats p w 16 dp"
proof -
  let ?r0 = "\<lparr> dp_payloads = [], dp_debugIds = [] \<rparr>" and ?W = "w div 8"
  have B: "totalBytes p = int (length (payload_bytes p))" "16 * i < length (payload_bytes p)"
    using p flits_for_bounds(1) by (simp_all add: payload_wf_def)
  have r0: "known_beats p w k ?r0" for k by (simp add: known_beats_def)
  have one: "known_beats p w 16 (emit_beat p w fb bytes l a n ?r0)" if "0 < n" for bytes l a n
    using known_beats_emit [OF that r0 [of 15]] by (simp add: numeral_eq_Suc)
  let ?fv = "min 16 (max 0 (totalBytes p - int i * 16))"
  have fv: "0 < ?fv" using B by simp
  show ?thesis
  proof (cases "?W < 16")
    case True
    let ?k = "16 div ?W"
    have "dp = fst (fold (narrow_step p w fb ?W (int i * 16) ?fv ((0 < nf \<and> int nf - 1 = int i) \<and> l)
        (last_valid_sub_beat ?fv ?W ?k) fd) [0..<?k] (?r0, agg))"
      using run True unfolding depacketizeAxisPayloadFlit_def Let_def by (metis (no_types, lifting) Inl_Inr_False fst_conv sum.inject(2))
    moreover have "known_beats p w 0 (fst (?r0, agg))" using r0 by simp
    ultimately have "known_beats p w (0 + length [0..<?k]) dp" by (simp only: known_beats_fold)
    moreover have "0 + length [0..<?k] \<le> 16" by simp
    ultimately show ?thesis unfolding known_beats_def by linarith
  next
    case wide: False
    let ?f = "?W div 16"
    let ?vb = "min (int ?W) (max 0 (min (totalBytes p) (int (i div ?f * ?W) + int ?W) - min (totalBytes p) (int (i div ?f * ?W))))"
    have vb: "0 < ?vb" if "?W mod 16 = 0"
      unfolding B(1) by (rule sink_valid_in_beat [OF B(2)]) (use that wide in auto)
    have "dp = ?r0 \<or> (\<exists>bytes l a. dp = emit_beat p w fb bytes l a ?fv ?r0) \<or>
        (?W mod 16 = 0 \<and> (\<exists>bytes l a. dp = emit_beat p w fb bytes l a ?vb ?r0))"
      using run wide unfolding depacketizeAxisPayloadFlit_def Let_def
      by (simp only: if_False split: if_split_asm, simp_all only: sum.inject prod.inject sum.distinct, (elim conjE, (metis)?)+)
    then show ?thesis by (elim disjE exE conjE) (simp_all only: r0 one [OF fv] one [OF vb])
  qed
qed

section \<open>The beats of a packet\<close>

text \<open>How many flits make up one beat of the endpoint.\<close>

definition flits_per_beat :: "nat \<Rightarrow> nat" where
  "flits_per_beat w = (if w div 8 \<le> 16 then 1 else w div 8 div 16)"

definition width_fits :: "nat \<Rightarrow> bool" where
  "width_fits w \<longleftrightarrow> width_ok w \<and> (w div 8 dvd 16 \<or> 16 dvd w div 8)"

text \<open>The stream delivered for the first \<open>k\<close> flits of a packet.\<close>

definition emitted :: "nat \<Rightarrow> axisPayload \<Rightarrow> bool \<Rightarrow> nat \<Rightarrow> (byte \<times> bool) list" where
  "emitted w p l k =
     (if flits_for (length (payload_bytes p)) \<le> k then mark (payload_bytes p) l
      else mark (take (16 * flits_per_beat w * (k div flits_per_beat w)) (payload_bytes p)) False)"

definition agg_ok :: "nat \<Rightarrow> axisPayload \<Rightarrow> nat \<Rightarrow> byte list \<Rightarrow> bool" where
  "agg_ok w p i agg \<longleftrightarrow> length agg = 64 \<and> (16 < w div 8 \<longrightarrow> aggregate_holds (flits_per_beat w) (payload_bytes p) i agg)"

lemma agg_ok_start: "agg_ok w p 0 (replicate 64 0)"
  by (simp add: agg_ok_def aggregate_holds_def)

lemma emitted_start: "emitted w p l 0 = []"
  using flits_for_pos [of "length (payload_bytes p)"] by (cases "payload_bytes p = []") (simp_all add: emitted_def mark_def)

lemma emitted_all: "emitted w p l (flits_for (length (payload_bytes p))) = mark (payload_bytes p) l"
  by (simp add: emitted_def)

lemma mark_take: "n < length bs \<Longrightarrow> prefix (mark (take n bs) False) (mark bs l)"
proof -
  assume "n < length bs"
  then have "mark bs l = mark (take n bs) False @ mark (drop n bs) l"
    using mark_append [of "drop n bs" "take n bs" l] by simp
  then show ?thesis by simp
qed

lemma emitted_prefix: "prefix (emitted w p l k) (mark (payload_bytes p) l)"
proof (cases "flits_for (length (payload_bytes p)) \<le> k")
  case False
  then have "16 * k < length (payload_bytes p)" using flits_for_bounds(1) by simp
  moreover have "flits_per_beat w * (k div flits_per_beat w) \<le> k" by simp
  then have "16 * flits_per_beat w * (k div flits_per_beat w) \<le> 16 * k" by (simp only: mult.assoc mult_le_mono2)
  ultimately have "16 * flits_per_beat w * (k div flits_per_beat w) < length (payload_bytes p)" by (rule le_less_trans [rotated])
  from mark_take [OF this] show ?thesis using False by (simp add: emitted_def)
qed (simp add: emitted_def)

lemma flit_step_narrow:
  assumes w: "width_ok w" "w div 8 dvd 16" and p: "payload_wf p" and i: "i < flits_for (length (payload_bytes p))"
    and agg: "agg_ok w p i agg"
  shows "\<exists>dp agg'. depacketizeAxisPayloadFlit p w agg i (flits_for (length (payload_bytes p))) l (axis_flit_data p i) fb = Inr (dp, agg') \<and>
    agg_ok w p i agg' \<and> agg_ok w p (Suc i) agg' \<and> emitted w p l (Suc i) = emitted w p l i @ beats_stream (dp_payloads dp)"
proof -
  let ?bs = "payload_bytes p" and ?nf = "flits_for (length (payload_bytes p))"
  have W: "w div 8 \<le> 16" "flits_per_beat w = 1" using w(2) by (auto simp: flits_per_beat_def dest: dvd_imp_le)
  obtain dp agg' where r: "depacketizeAxisPayloadFlit p w agg i ?nf l (axis_flit_data p i) fb = Inr (dp, agg')" "length agg' = 64"
    "beats_stream (dp_payloads dp) = mark (flit_slice ?bs i) (Suc i = ?nf \<and> l)"
    using depacketize_flit_narrow [OF w p i, of agg l fb] agg by (auto simp: agg_ok_def)
  have "emitted w p l (Suc i) = emitted w p l i @ mark (flit_slice ?bs i) (Suc i = ?nf \<and> l)"
  proof (cases "Suc i = ?nf")
    case True
    have len: "length ?bs \<le> 16 * Suc i" using flits_for_bounds(2) [OF i] True by simp
    then have "?bs = take (16 * i) ?bs @ flit_slice ?bs i" by (simp add: flit_slice_def)
    then show ?thesis using True W(2) mark_append [OF flit_facts(6) [OF p i], of "take (16 * i) ?bs" l]
      by (simp add: emitted_def)
  next
    case False
    then have "Suc i < ?nf" using i by simp
    moreover have "take (16 * Suc i) ?bs = take (16 * i) ?bs @ flit_slice ?bs i"
      using take_add [of "16 * i" 16 ?bs] by (simp add: flit_slice_def add.commute)
    ultimately show ?thesis using False W(2) i mark_append [OF flit_facts(6) [OF p i], of "take (16 * i) ?bs" False]
      by (simp add: emitted_def)
  qed
  then show ?thesis using r W(1) by (auto simp: agg_ok_def)
qed

lemma flit_step_wide:
  assumes w: "width_ok w" "w div 8 = 16 * f" "1 < f" and p: "payload_wf p" and i: "i < flits_for (length (payload_bytes p))"
    and agg: "agg_ok w p i agg"
  shows "\<exists>dp agg'. depacketizeAxisPayloadFlit p w agg i (flits_for (length (payload_bytes p))) l (axis_flit_data p i) fb = Inr (dp, agg') \<and>
    agg_ok w p i agg' \<and> (Suc i < flits_for (length (payload_bytes p)) \<longrightarrow> agg_ok w p (Suc i) agg') \<and>
    emitted w p l (Suc i) = emitted w p l i @ beats_stream (dp_payloads dp)"
proof -
  let ?bs = "payload_bytes p" and ?nf = "flits_for (length (payload_bytes p))"
  have f: "flits_per_beat w = f" "16 < w div 8" using w(2,3) by (auto simp: flits_per_beat_def)
  have a: "aggregate_holds f ?bs i agg" using agg f by (simp add: agg_ok_def)
  obtain dp agg' where r: "depacketizeAxisPayloadFlit p w agg i ?nf l (axis_flit_data p i) fb = Inr (dp, agg')"
    "Suc i < ?nf \<longrightarrow> aggregate_holds f ?bs (Suc i) agg'" "aggregate_holds f ?bs i agg'"
    "beats_stream (dp_payloads dp) = (if Suc i mod f = 0 \<or> Suc i = ?nf
       then mark (take (16 * f) (drop (16 * f * (i div f)) ?bs)) (Suc i = ?nf \<and> l) else [])"
    using depacketize_flit_wide [OF w p i a, of l fb] by blast
  let ?a = "take (16 * f * (i div f)) ?bs" and ?b = "take (16 * f) (drop (16 * f * (i div f)) ?bs)"
  have ne: "?b \<noteq> []"
  proof -
    have "f * (i div f) \<le> i" by simp
    then have "16 * f * (i div f) \<le> 16 * i" by (simp only: mult.assoc mult_le_mono2)
    then have "16 * f * (i div f) < length ?bs" using flits_for_bounds(1) [OF i] by linarith
    then show ?thesis using w(3) by simp
  qed
  have "emitted w p l (Suc i) = emitted w p l i @ beats_stream (dp_payloads dp)"
  proof (cases "Suc i = ?nf")
    case True
    have "i mod f < f" using w(3) by simp
    then have "Suc i \<le> f * (i div f) + f" using mult_div_mod_eq [of f i] by linarith
    then have "16 * Suc i \<le> 16 * (f * (i div f) + f)" by (rule mult_le_mono2)
    then have "length ?bs \<le> 16 * f * (i div f) + 16 * f"
      using flits_for_bounds(2) [OF i] True by (simp add: distrib_left mult.assoc)
    then have "?bs = ?a @ ?b" by simp
    then show ?thesis using True r(4) f(1) mark_append [OF ne, of ?a l] by (simp add: emitted_def)
  next
    case False
    then have lt: "Suc i < ?nf" using i by simp
    show ?thesis
    proof (cases "Suc i mod f = 0")
      case True
      then have d: "Suc i div f = Suc (i div f)" by (simp add: div_Suc)
      have "take (16 * f * (Suc i div f)) ?bs = ?a @ ?b"
        using take_add [of "16 * f * (i div f)" "16 * f" ?bs] unfolding d by (simp add: algebra_simps)
      then show ?thesis using True False r(4) f(1) lt i mark_append [OF ne, of ?a False] by (simp add: emitted_def)
    next
      case no: False
      then have "Suc i div f = i div f" by (simp add: div_Suc)
      then show ?thesis using no False r(4) f(1) lt i by (simp add: emitted_def)
    qed
  qed
  then show ?thesis using r f by (auto simp: agg_ok_def aggregate_holds_def)
qed

lemma payload_flit_step:
  assumes "width_fits w" and "payload_wf p" and "i < flits_for (length (payload_bytes p))" and "agg_ok w p i agg"
  shows "\<exists>dp agg'. depacketizeAxisPayloadFlit p w agg i (flits_for (length (payload_bytes p))) l (axis_flit_data p i) fb = Inr (dp, agg') \<and>
    known_beats p w 16 dp \<and> agg_ok w p i agg' \<and> (Suc i < flits_for (length (payload_bytes p)) \<longrightarrow> agg_ok w p (Suc i) agg') \<and>
    emitted w p l (Suc i) = emitted w p l i @ beats_stream (dp_payloads dp)"
proof -
  have w: "width_ok w" "w div 8 dvd 16 \<or> 16 dvd w div 8" using assms(1) by (auto simp: width_fits_def)
  show ?thesis
  proof (rule width_cases [OF w])
    assume "w div 8 dvd 16"
    from flit_step_narrow [OF w(1) this assms(2-4)] show ?thesis using depacketize_known [OF _ assms(2,3)] by blast
  next
    fix f assume "w div 8 = 16 * f" "1 < f"
    from flit_step_wide [OF w(1) this assms(2-4)] show ?thesis using depacketize_known [OF _ assms(2,3)] by blast
  qed
qed

section \<open>One flit at the unit\<close>

text \<open>A stream message as the source sends it.\<close>

definition packet_ok :: "sNSU \<Rightarrow> NocStreamMsg \<Rightarrow> axisPayload \<Rightarrow> bool" where
  "packet_ok s m p \<longleftrightarrow> sm_pload m = PlAxis p \<and> payload_wf p \<and> payload_bytes p \<noteq> [] \<and>
     sm_num_flits m = flits_for (length (payload_bytes p)) \<and> sm_num_flits m < 256 \<and>
     (\<forall>d. tid_known p d \<longrightarrow> \<not> tid_too_wide s d)"

definition hardware_sink :: "sink_network \<Rightarrow> nat \<Rightarrow> Tick \<Rightarrow> sNSU \<Rightarrow> bool" where
  "hardware_sink net n now s \<longleftrightarrow> width_fits (S_DATA_WIDTH s) \<and> \<not> axisReassembleFrames s \<and> (n = 0 \<or> 16 \<le> n) \<and>
     (\<exists>b. ns_out s = Some b \<and> takes_beats (sn_getRandomization net) now b \<and> m_max_size b = n)"

definition sent_beats :: "NocStreamMsg list \<Rightarrow> axisData list" where
  "sent_beats ms = concat (map (\<lambda>m. case sm_payload m of MpAxis d \<Rightarrow> [d] | _ \<Rightarrow> []) ms)"

lemma sent_beats_append [simp]: "sent_beats (xs @ ys) = sent_beats xs @ sent_beats ys"
  by (simp add: sent_beats_def)

lemma rmap_total: "\<forall>x \<in> set xs. f x = Inr (g x) \<Longrightarrow> rmap f xs = Inr (map g xs)"
  by (induction xs) auto

lemma create_msgs_ok:
  assumes "\<forall>d \<in> set ds. \<not> tid_too_wide s d"
  shows "\<exists>ms. s_createNWriteDataMsgs c ds src dbgs fb s = Inr ms \<and> length ms = length ds \<and>
    sent_beats (map msg_body ms) = ds \<and> (\<forall>m \<in> set ms. m_LastEnqueueTime m = clockEdge c)"
proof -
  let ?f = "\<lambda>i. beat_msg c src (ds ! i) (if i < length dbgs then dbgs ! i else []) fb"
  have "s_createNWriteDataMsgs c ds src dbgs fb s = Inr (map ?f [0..<length ds])"
    unfolding s_createNWriteDataMsgs_def using assms by (intro rmap_total) auto
  moreover have "sm_payload (msg_body (?f i)) = MpAxis (ds ! i)" for i
    by (simp add: beat_msg_def new_Message_def buffer_NocStreamMsg_def Let_def)
  then have "sent_beats (map msg_body (map ?f [0..<length ds])) = map (\<lambda>i. ds ! i) [0..<length ds]"
    by (simp add: sent_beats_def o_def concat_map_singleton)
  moreover have "\<forall>m \<in> set (map ?f [0..<length ds]). m_LastEnqueueTime m = clockEdge c"
    by (auto simp: beat_msg_def new_Message_def Let_def)
  ultimately show ?thesis by (auto simp: map_nth)
qed

lemma send_msgs_ok:
  assumes "hardware_sink net n (clockEdge c) s" and "length ms \<le> 16" and "\<forall>m \<in> set ms. m_LastEnqueueTime m = clockEdge c"
  shows "\<exists>ok s'. s_sendNWriteDataMsgs rngs net c ms s = Inr (ok, s') \<and> hardware_sink net n (clockEdge c) s' \<and>
    S_DATA_WIDTH s' = S_DATA_WIDTH s \<and> axisTidWidth s' = axisTidWidth s \<and> aggregateByPacket s' = aggregateByPacket s \<and>
    ns_sent s' = ns_sent s @ (if ok then map msg_body ms else []) \<and>
    (areNSlotsAvailable 16 (clockEdge c) (the (ns_out s)) \<longrightarrow> ok)"
proof (cases "ms = []")
  case True
  then show ?thesis using assms(1) by (intro exI [of _ True] exI [of _ s]) (simp add: s_sendNWriteDataMsgs_def)
next
  case ne: False
  let ?now = "clockEdge c"
  obtain b where b: "ns_out s = Some b" "takes_beats (sn_getRandomization net) ?now b" "m_max_size b = n" "n = 0 \<or> 16 \<le> n"
    using assms(1) by (auto simp: hardware_sink_def)
  have size: "\<not> (0 < m_max_size b \<and> m_max_size b < length ms)" using b(3,4) assms(2) by auto
  have fewer: "areNSlotsAvailable (length ms) ?now b" if "areNSlotsAvailable 16 ?now b"
    by (rule slots_fewer [OF _ that]) (use b(2) assms(2) in \<open>simp_all add: takes_beats_def\<close>)
  show ?thesis
  proof (cases "areNSlotsAvailable (length ms) ?now b")
    case True
    have "length ms < 2 ^ 30" using assms(2) by simp
    moreover have "\<forall>m \<in> set ms. m_LastEnqueueTime m \<le> ?now" using assms(3) by simp
    ultimately obtain b' where b': "enqueue_beats rngs net c ms b = Inr b'" "takes_beats (sn_getRandomization net) ?now b'"
      "m_max_size b' = m_max_size b"
      using enqueue_beats_ok [OF b(2) True] by blast
    then show ?thesis using ne b size True assms(1) by (auto simp: s_sendNWriteDataMsgs_def hardware_sink_def)
  next
    case False
    then show ?thesis using ne b size fewer assms(1) by (auto simp: s_sendNWriteDataMsgs_def)
  qed
qed

lemma sink_flit:
  assumes hw: "hardware_sink net n (clockEdge c) s" and m: "packet_ok s (fl_msg fl) p" and i: "fl_id fl = int i" "i < sm_num_flits (fl_msg fl)"
    and agg: "i = 0 \<or> (\<exists>g. aggregateByPacket s (fl_packet_id fl) = Some g \<and> agg_ok (S_DATA_WIDTH s) p i g)"
  defines "w \<equiv> S_DATA_WIDTH s" and "l \<equiv> pl_last p \<noteq> 0"
  shows "\<exists>ok s' agg' ds. s_depacketizeFlit rngs net c fl s = Inr (ok, s') \<and> hardware_sink net n (clockEdge c) s' \<and>
    S_DATA_WIDTH s' = w \<and> axisTidWidth s' = axisTidWidth s \<and>
    sent_beats (ns_sent s') = sent_beats (ns_sent s) @ (if ok then ds else []) \<and> emitted w p l (Suc i) = emitted w p l i @ beats_stream ds \<and>
    (\<forall>d \<in> set ds. beat_shape w d) \<and> aggregateByPacket s' = (aggregateByPacket s)(fl_packet_id fl := if ok \<and> Suc i = sm_num_flits (fl_msg fl) then None else Some agg') \<and>
    (if ok then Suc i < sm_num_flits (fl_msg fl) \<longrightarrow> agg_ok w p (Suc i) agg' else agg_ok w p i agg') \<and>
    (areNSlotsAvailable 16 (clockEdge c) (the (ns_out s)) \<longrightarrow> ok)"
proof -
  let ?m = "fl_msg fl" and ?k = "fl_packet_id fl"
  have mp: "sm_pload ?m = PlAxis p" "payload_wf p" "sm_num_flits ?m = flits_for (length (payload_bytes p))" "sm_num_flits ?m < 256"
    "\<forall>d. tid_known p d \<longrightarrow> \<not> tid_too_wide s d" using m by (simp_all add: packet_ok_def)
  have w: "width_fits w" "w mod 8 = 0" using hw by (auto simp: hardware_sink_def w_def width_fits_def width_ok_def)
  define g where "g = (if i = 0 then replicate 64 0 else case aggregateByPacket s ?k of Some g \<Rightarrow> g | None \<Rightarrow> replicate 64 0)"
  have "agg_ok w p i g" using agg agg_ok_start by (auto simp: g_def w_def)
  then obtain dp agg' where dp: "depacketizeAxisPayloadFlit p w g i (sm_num_flits ?m) l (axis_flit_data p i) (sm_debug_id ?m) = Inr (dp, agg')"
    "known_beats p w 16 dp" "agg_ok w p i agg'" "Suc i < sm_num_flits ?m \<longrightarrow> agg_ok w p (Suc i) agg'"
    "emitted w p l (Suc i) = emitted w p l i @ beats_stream (dp_payloads dp)"
    using payload_flit_step [OF w(1) mp(2), of i g l "sm_debug_id ?m"] i(2) mp(3) by auto
  define s1 where "s1 = s\<lparr> aggregateByPacket := (aggregateByPacket s)(?k \<mapsto> agg') \<rparr>"
  have s1: "hardware_sink net n (clockEdge c) s1" using hw by (simp add: s1_def hardware_sink_def)
  have "\<forall>d \<in> set (dp_payloads dp). \<not> tid_too_wide s1 d"
    using dp(2) mp(5) by (auto simp: known_beats_def s1_def tid_too_wide_def)
  from create_msgs_ok [OF this, of c "of_int (sm_src_ni_id ?m)" "dp_debugIds dp" "sm_debug_id ?m"]
  obtain ms where ms: "s_createNWriteDataMsgs c (dp_payloads dp) (of_int (sm_src_ni_id ?m)) (dp_debugIds dp) (sm_debug_id ?m) s1 = Inr ms"
    "length ms = length (dp_payloads dp)" "sent_beats (map msg_body ms) = dp_payloads dp" "\<forall>m \<in> set ms. m_LastEnqueueTime m = clockEdge c"
    by blast
  have "length ms \<le> 16" using ms(2) dp(2) by (simp add: known_beats_def)
  from send_msgs_ok [OF s1 this ms(4), of rngs] obtain ok s2 where
    s2: "s_sendNWriteDataMsgs rngs net c ms s1 = Inr (ok, s2)" "hardware_sink net n (clockEdge c) s2" "S_DATA_WIDTH s2 = w"
      "axisTidWidth s2 = axisTidWidth s" "aggregateByPacket s2 = aggregateByPacket s1"
      "ns_sent s2 = ns_sent s @ (if ok then map msg_body ms else [])" "areNSlotsAvailable 16 (clockEdge c) (the (ns_out s)) \<longrightarrow> ok"
    by (auto simp: s1_def w_def)
  define s' where "s' = (if ok \<and> Suc i = sm_num_flits ?m then s2\<lparr> aggregateByPacket := (aggregateByPacket s2)(?k := None) \<rparr> else s2)"
  have "s_depacketizeFlit rngs net c fl s = Inr (ok, s')"
  proof -
    have "nat (fl_id fl mod 256) = i" using i mp(4) by simp
    moreover have "\<not> axisReassembleFrames s" using hw by (simp add: hardware_sink_def)
    moreover have "(int (sm_num_flits ?m) - 1 = int i) = (Suc i = sm_num_flits ?m)" by linarith
    ultimately show ?thesis
      using mp(1) w(2) i(2) dp(1) ms(1) s2(1) unfolding g_def
      by (simp add: s_depacketizeFlit_def s_depacketizeWriteDataFlit_def sm_getFlitData_def containsLast_def s1_def s'_def w_def l_def Let_def)
  qed
  moreover have "hardware_sink net n (clockEdge c) s'" using s2(2) by (simp add: s'_def hardware_sink_def)
  moreover have "\<forall>d \<in> set (dp_payloads dp). beat_shape w d" using dp(2) by (simp add: known_beats_def)
  ultimately show ?thesis using s2 ms(3) dp(3-5)
    by (intro exI [of _ ok] exI [of _ s'] exI [of _ agg'] exI [of _ "dp_payloads dp"]) (auto simp: s'_def s1_def sent_beats_def)
qed

section \<open>Executions\<close>

text \<open>
  An execution of the unit: flits arrive in any interleaving of packets, each packet in order; a refused
  flit is offered again later; the endpoint takes messages out of the buffer at any time. \<open>pk\<close> gives the
  message of each packet id; an id whose message has no flits stands for no packet. The log has, for each accepted flit, its packet and the beats it gave.
\<close>

record sink_trace =
  st_nsu :: sNSU
  st_now :: Tick
  st_count :: "int \<Rightarrow> nat"
  st_log :: "(int \<times> axisData list) list"

definition next_in :: "(int \<Rightarrow> NocStreamMsg) \<Rightarrow> sink_trace \<Rightarrow> flit \<Rightarrow> bool" where
  "next_in pk t fl \<longleftrightarrow> fl_msg fl = pk (fl_packet_id fl) \<and> fl_id fl = int (st_count t (fl_packet_id fl)) \<and>
     st_count t (fl_packet_id fl) < sm_num_flits (pk (fl_packet_id fl))"

definition new_beats :: "sNSU \<Rightarrow> sNSU \<Rightarrow> axisData list" where
  "new_beats s s' = drop (length (sent_beats (ns_sent s))) (sent_beats (ns_sent s'))"

inductive sink_step :: "sink_network \<Rightarrow> (int \<Rightarrow> NocStreamMsg) \<Rightarrow> sink_trace \<Rightarrow> sink_trace \<Rightarrow> bool" for net pk where
  sink_accept: "next_in pk t fl \<Longrightarrow> st_now t \<le> clockEdge c \<Longrightarrow> s_depacketizeFlit rngs net c fl (st_nsu t) = Inr (True, s') \<Longrightarrow>
    sink_step net pk t (t\<lparr> st_nsu := s', st_now := clockEdge c,
      st_count := (st_count t)(fl_packet_id fl := Suc (st_count t (fl_packet_id fl))),
      st_log := st_log t @ [(fl_packet_id fl, new_beats (st_nsu t) s')] \<rparr>)"
| sink_refuse: "next_in pk t fl \<Longrightarrow> st_now t \<le> clockEdge c \<Longrightarrow> s_depacketizeFlit rngs net c fl (st_nsu t) = Inr (False, s') \<Longrightarrow>
    sink_step net pk t (t\<lparr> st_nsu := s', st_now := clockEdge c \<rparr>)"
| sink_take: "st_now t \<le> now \<Longrightarrow> ns_out (st_nsu t) = Some b \<Longrightarrow> mb_dequeue now True b = Inr (delay, m, b') \<Longrightarrow>
    sink_step net pk t (t\<lparr> st_nsu := (st_nsu t)\<lparr> ns_out := Some b' \<rparr>, st_now := now \<rparr>)"

definition sink_start :: "sNSU \<Rightarrow> sink_trace" where
  "sink_start s = \<lparr> st_nsu = s, st_now = 0, st_count = (\<lambda>_. 0), st_log = [] \<rparr>"

definition sink_reach :: "sink_network \<Rightarrow> (int \<Rightarrow> NocStreamMsg) \<Rightarrow> sNSU \<Rightarrow> sink_trace \<Rightarrow> bool" where
  "sink_reach net pk s t \<longleftrightarrow> (sink_step net pk)\<^sup>*\<^sup>* (sink_start s) t"

definition delivered :: "sink_trace \<Rightarrow> int \<Rightarrow> (byte \<times> bool) list" where
  "delivered t k = beats_stream (concat (map snd (filter (\<lambda>x. fst x = k) (st_log t))))"

lemma delivered_log:
  "delivered (t\<lparr> st_nsu := s, st_now := n, st_count := c, st_log := st_log t @ [(j, ds)] \<rparr>) k =
    delivered t k @ (if j = k then beats_stream ds else [])"
  by (simp add: delivered_def)

definition all_packets :: "(int \<Rightarrow> NocStreamMsg) \<Rightarrow> (int \<Rightarrow> axisPayload) \<Rightarrow> sNSU \<Rightarrow> bool" where
  "all_packets pk pp s \<longleftrightarrow> (\<forall>k. 0 < sm_num_flits (pk k) \<longrightarrow> packet_ok s (pk k) (pp k))"

definition sink_inv :: "sink_network \<Rightarrow> (int \<Rightarrow> NocStreamMsg) \<Rightarrow> (int \<Rightarrow> axisPayload) \<Rightarrow> nat \<Rightarrow> nat \<Rightarrow> sink_trace \<Rightarrow> bool" where
  "sink_inv net pk pp w n t \<longleftrightarrow> hardware_sink net n (st_now t) (st_nsu t) \<and> S_DATA_WIDTH (st_nsu t) = w \<and>
     all_packets pk pp (st_nsu t) \<and> concat (map snd (st_log t)) = sent_beats (ns_sent (st_nsu t)) \<and>
     (\<forall>d \<in> set (sent_beats (ns_sent (st_nsu t))). beat_shape w d) \<and>
     (\<forall>k. delivered t k = emitted w (pp k) (pl_last (pp k) \<noteq> 0) (st_count t k) \<and> st_count t k \<le> sm_num_flits (pk k) \<and>
       (0 < st_count t k \<longrightarrow> st_count t k < sm_num_flits (pk k) \<longrightarrow>
          (\<exists>g. aggregateByPacket (st_nsu t) k = Some g \<and> agg_ok w (pp k) (st_count t k) g)))"

lemma takes_beats_later: "takes_beats rnd now b \<Longrightarrow> now \<le> now' \<Longrightarrow> takes_beats rnd now' b"
  by (auto simp: takes_beats_def intro: mb_inv_later)

lemma hardware_sink_later: "hardware_sink net n now s \<Longrightarrow> now \<le> now' \<Longrightarrow> hardware_sink net n now' s"
  by (auto simp: hardware_sink_def intro: takes_beats_later)

lemma takes_beats_dequeue:
  assumes "takes_beats rnd now b" and "mb_dequeue now True b = Inr (delay, m, b')"
  shows "takes_beats rnd now b' \<and> m_max_size b' = m_max_size b"
proof -
  have inv: "mb_inv now b" using assms(1) by (simp add: takes_beats_def)
  have "m_last_arrival_time b' = m_last_arrival_time b"
    by (rule mb_dequeue_E [OF assms(2)]) (simp add: count_dequeue_def)
  then show ?thesis using dequeue_inv [OF inv assms(2)] assms(1) by (auto simp: takes_beats_def mb_conf_def)
qed

lemma all_packets_same: "axisTidWidth s' = axisTidWidth s \<Longrightarrow> all_packets pk pp s' = all_packets pk pp s"
  by (simp add: all_packets_def packet_ok_def tid_too_wide_def)

text \<open>The next flit of a packet, at a state of an execution.\<close>

lemma next_flit_result:
  assumes inv: "sink_inv net pk pp w n t" and nx: "next_in pk t fl" and now: "st_now t \<le> clockEdge c"
  obtains ok s' agg' ds where "s_depacketizeFlit rngs net c fl (st_nsu t) = Inr (ok, s')" "hardware_sink net n (clockEdge c) s'"
    "S_DATA_WIDTH s' = w" "all_packets pk pp s'" "sent_beats (ns_sent s') = sent_beats (ns_sent (st_nsu t)) @ (if ok then ds else [])"
    "emitted w (pp (fl_packet_id fl)) (pl_last (pp (fl_packet_id fl)) \<noteq> 0) (Suc (st_count t (fl_packet_id fl))) =
       emitted w (pp (fl_packet_id fl)) (pl_last (pp (fl_packet_id fl)) \<noteq> 0) (st_count t (fl_packet_id fl)) @ beats_stream ds"
    "\<forall>j. j \<noteq> fl_packet_id fl \<longrightarrow> aggregateByPacket s' j = aggregateByPacket (st_nsu t) j"
    "let n = st_count t (fl_packet_id fl) + (if ok then 1 else 0) in n < sm_num_flits (pk (fl_packet_id fl)) \<longrightarrow>
       aggregateByPacket s' (fl_packet_id fl) = Some agg' \<and> agg_ok w (pp (fl_packet_id fl)) n agg'"
    "areNSlotsAvailable 16 (clockEdge c) (the (ns_out (st_nsu t))) \<longrightarrow> ok" "\<forall>d \<in> set ds. beat_shape w d"
proof -
  let ?k = "fl_packet_id fl" and ?s = "st_nsu t"
  let ?i = "st_count t ?k"
  have hw: "hardware_sink net n (clockEdge c) ?s" using inv now by (auto simp: sink_inv_def intro: hardware_sink_later)
  have w: "S_DATA_WIDTH ?s = w" using inv by (simp add: sink_inv_def)
  have m: "packet_ok ?s (fl_msg fl) (pp ?k)" and i: "fl_id fl = int ?i" "?i < sm_num_flits (fl_msg fl)"
    using inv nx by (auto simp: sink_inv_def all_packets_def next_in_def)
  have agg: "?i = 0 \<or> (\<exists>g. aggregateByPacket ?s ?k = Some g \<and> agg_ok (S_DATA_WIDTH ?s) (pp ?k) ?i g)"
    using inv nx w by (auto simp: sink_inv_def next_in_def)
  have pk: "fl_msg fl = pk ?k" using nx by (simp add: next_in_def)
  from sink_flit [OF hw m i agg, of rngs, unfolded w pk] obtain ok s' agg' ds where
    r: "s_depacketizeFlit rngs net c fl ?s = Inr (ok, s')" "hardware_sink net n (clockEdge c) s'" "S_DATA_WIDTH s' = w"
      "axisTidWidth s' = axisTidWidth ?s" "sent_beats (ns_sent s') = sent_beats (ns_sent ?s) @ (if ok then ds else [])"
      "emitted w (pp ?k) (pl_last (pp ?k) \<noteq> 0) (Suc ?i) = emitted w (pp ?k) (pl_last (pp ?k) \<noteq> 0) ?i @ beats_stream ds"
      "aggregateByPacket s' = (aggregateByPacket ?s)(?k := if ok \<and> Suc ?i = sm_num_flits (pk ?k) then None else Some agg')"
      "if ok then Suc ?i < sm_num_flits (pk ?k) \<longrightarrow> agg_ok w (pp ?k) (Suc ?i) agg' else agg_ok w (pp ?k) ?i agg'"
      "areNSlotsAvailable 16 (clockEdge c) (the (ns_out ?s)) \<longrightarrow> ok" "\<forall>d \<in> set ds. beat_shape w d"
    by blast
  have "all_packets pk pp s'" using inv all_packets_same [OF r(4)] by (simp add: sink_inv_def)
  moreover have "\<forall>j. j \<noteq> ?k \<longrightarrow> aggregateByPacket s' j = aggregateByPacket ?s j" by (simp add: r(7))
  moreover have "let n = ?i + (if ok then 1 else 0) in n < sm_num_flits (pk ?k) \<longrightarrow>
      aggregateByPacket s' ?k = Some agg' \<and> agg_ok w (pp ?k) n agg'"
    using r(8) by (cases ok) (simp_all add: r(7))
  ultimately show thesis by (rule that [OF r(1-3) _ r(5,6) _ _ r(9,10)])
qed

lemma sink_step_inv: "sink_step net pk t t' \<Longrightarrow> sink_inv net pk pp w n t \<Longrightarrow> sink_inv net pk pp w n t'"
proof (induction rule: sink_step.induct)
  case (sink_accept t fl c rngs s')
  let ?k = "fl_packet_id fl" and ?i = "st_count t (fl_packet_id fl)"
  obtain ok s'' agg' ds where r: "s_depacketizeFlit rngs net c fl (st_nsu t) = Inr (ok, s'')" "hardware_sink net n (clockEdge c) s''"
    "S_DATA_WIDTH s'' = w" "all_packets pk pp s''" "sent_beats (ns_sent s'') = sent_beats (ns_sent (st_nsu t)) @ (if ok then ds else [])"
    "emitted w (pp ?k) (pl_last (pp ?k) \<noteq> 0) (Suc ?i) = emitted w (pp ?k) (pl_last (pp ?k) \<noteq> 0) ?i @ beats_stream ds"
    "\<forall>j. j \<noteq> ?k \<longrightarrow> aggregateByPacket s'' j = aggregateByPacket (st_nsu t) j"
    "let n = ?i + (if ok then 1 else 0) in n < sm_num_flits (pk ?k) \<longrightarrow> aggregateByPacket s'' ?k = Some agg' \<and> agg_ok w (pp ?k) n agg'"
    "\<forall>d \<in> set ds. beat_shape w d"
    by (rule next_flit_result [OF sink_accept.prems sink_accept.hyps(1,2), of rngs]) blast
  have [simp]: "ok" "s'' = s'" using r(1) sink_accept.hyps(3) by simp_all
  have "new_beats (st_nsu t) s' = ds" using r(5) by (simp add: new_beats_def)
  then show ?case using sink_accept.prems sink_accept.hyps(1) r(2-9)
    unfolding sink_inv_def by (auto simp: delivered_log next_in_def)
next
  case (sink_refuse t fl c rngs s')
  let ?k = "fl_packet_id fl" and ?i = "st_count t (fl_packet_id fl)"
  obtain ok s'' agg' ds where r: "s_depacketizeFlit rngs net c fl (st_nsu t) = Inr (ok, s'')" "hardware_sink net n (clockEdge c) s''"
    "S_DATA_WIDTH s'' = w" "all_packets pk pp s''" "sent_beats (ns_sent s'') = sent_beats (ns_sent (st_nsu t)) @ (if ok then ds else [])"
    "\<forall>j. j \<noteq> ?k \<longrightarrow> aggregateByPacket s'' j = aggregateByPacket (st_nsu t) j"
    "let n = ?i + (if ok then 1 else 0) in n < sm_num_flits (pk ?k) \<longrightarrow> aggregateByPacket s'' ?k = Some agg' \<and> agg_ok w (pp ?k) n agg'"
    by (rule next_flit_result [OF sink_refuse.prems sink_refuse.hyps(1,2), of rngs]) blast
  have [simp]: "\<not> ok" "s'' = s'" using r(1) sink_refuse.hyps(3) by simp_all
  have d: "delivered (t\<lparr> st_nsu := s', st_now := clockEdge c \<rparr>) k = delivered t k" for k by (simp add: delivered_def)
  have a: "\<exists>g. aggregateByPacket s' j = Some g \<and> agg_ok w (pp j) (st_count t j) g" if "0 < st_count t j" "st_count t j < sm_num_flits (pk j)" for j
    using that r(6,7) sink_refuse.prems by (cases "j = ?k") (auto simp: sink_inv_def)
  show ?case using sink_refuse.prems r(2-5) a unfolding sink_inv_def d by simp
next
  case (sink_take t now b delay m b')
  have "delivered (t\<lparr> st_nsu := s, st_now := now \<rparr>) k = delivered t k" for k s by (simp add: delivered_def)
  moreover have "hardware_sink net n now ((st_nsu t)\<lparr> ns_out := Some b' \<rparr>)"
  proof -
    have hw: "hardware_sink net n now (st_nsu t)" using sink_take.prems sink_take.hyps(1) by (auto simp: sink_inv_def intro: hardware_sink_later)
    then have "takes_beats (sn_getRandomization net) now b" using sink_take.hyps(2) by (simp add: hardware_sink_def)
    from takes_beats_dequeue [OF this sink_take.hyps(3)] hw sink_take.hyps(2) show ?thesis by (simp add: hardware_sink_def)
  qed
  moreover have "all_packets pk pp ((st_nsu t)\<lparr> ns_out := Some b' \<rparr>) = all_packets pk pp (st_nsu t)" by (rule all_packets_same) simp
  ultimately show ?case using sink_take.prems by (simp add: sink_inv_def)
qed

lemma takes_beats_connected: "n < 2 ^ 30 \<Longrightarrow> takes_beats rnd 0 (connected n 0 True rand_disabled)"
  by (simp add: takes_beats_def connected_inv(1)) (simp add: connected_def new_MessageBuffer_def)

lemma sink_start_inv:
  assumes "new_sNSU i w False tw mf cf (Some (connected n 0 True rand_disabled)) = Inr s" and "width_fits w"
    and "n = 0 \<or> 16 \<le> n" and "n < 2 ^ 30" and "all_packets pk pp s"
  shows "sink_inv net pk pp w n (sink_start s)"
proof -
  have s: "S_DATA_WIDTH s = w" "ns_out s = Some (connected n 0 True rand_disabled)" "ns_sent s = []" "\<not> axisReassembleFrames s"
    using assms(1) by (auto simp: new_sNSU_def split: if_splits)
  have "m_max_size (connected n 0 True rand_disabled :: NocStreamMsg MessageBuffer) = n"
    by (simp add: connected_def new_MessageBuffer_def)
  then have "hardware_sink net n 0 s" using assms(2,3) s takes_beats_connected [OF assms(4)] by (simp add: hardware_sink_def)
  then show ?thesis using assms(5) s
    by (simp add: sink_inv_def sink_start_def sent_beats_def delivered_def emitted_start beats_stream_def)
qed

lemma sink_reach_inv:
  assumes "sink_reach net pk s t" and "sink_inv net pk pp w n (sink_start s)"
  shows "sink_inv net pk pp w n t"
  using assms(1) unfolding sink_reach_def by (induction rule: rtranclp_induct) (use assms(2) sink_step_inv in blast)+

text \<open>The log has one entry per accepted flit.\<close>

lemma sink_reach_count:
  assumes "sink_reach net pk s t"
  shows "st_count t k = length (filter (\<lambda>x. fst x = k) (st_log t))"
  using assms unfolding sink_reach_def
  by (induction rule: rtranclp_induct) (auto simp: sink_start_def elim!: sink_step.cases)

section \<open>Progress\<close>

text \<open>With an unbounded buffer the next flit of a packet is accepted at once.\<close>

lemma sink_accepts:
  assumes inv: "sink_inv net pk pp w 0 t" and nx: "next_in pk t fl"
  obtains t' ds where "sink_step net pk t t'" "st_log t' = st_log t @ [(fl_packet_id fl, ds)]"
    "st_count t' = (st_count t)(fl_packet_id fl := Suc (st_count t (fl_packet_id fl)))"
proof -
  define c where "c = \<lparr> curTick = st_now t, clockEdge = st_now t, clockPeriod = 1 \<rparr>"
  have now: "st_now t \<le> clockEdge c" by (simp add: c_def)
  obtain b where "ns_out (st_nsu t) = Some b" "m_max_size b = 0" using inv by (auto simp: sink_inv_def hardware_sink_def)
  then have "areNSlotsAvailable 16 (clockEdge c) (the (ns_out (st_nsu t)))" by (simp add: areNSlotsAvailable_def)
  then obtain s' where "s_depacketizeFlit [] net c fl (st_nsu t) = Inr (True, s')"
    using next_flit_result [OF inv nx now, of "[]"] by (metis (full_types))
  from sink_step.sink_accept [OF nx now this] show thesis by (rule that) simp_all
qed

lemma sink_completes:
  assumes "sink_reach net pk s t" and "sink_inv net pk pp w 0 (sink_start s)"
  shows "\<exists>t'. sink_reach net pk s t' \<and> st_count t' k = sm_num_flits (pk k)"
  using assms(1)
proof (induction "sm_num_flits (pk k) - st_count t k" arbitrary: t)
  case 0
  then show ?case using sink_reach_inv [OF _ assms(2)] by (metis diff_is_0_eq le_antisym sink_inv_def)
next
  case (Suc d)
  note inv = sink_reach_inv [OF Suc.prems assms(2)]
  define fl where "fl = \<lparr> fl_packet_id = k, fl_id = int (st_count t k), fl_vc = 0, fl_vnet = W_VNET, fl_route = default_NocRouteInfo,
    fl_num_flits = int (sm_num_flits (pk k)), fl_msg = pk k \<rparr>"
  have "next_in pk t fl" using Suc.hyps(2) by (simp add: next_in_def fl_def)
  from sink_accepts [OF inv this] obtain t' where t': "sink_step net pk t t'" "st_count t' = (st_count t)(k := Suc (st_count t k))"
    by (auto simp: fl_def)
  have "sink_reach net pk s t'" using Suc.prems t'(1) by (auto simp: sink_reach_def)
  moreover have "d = sm_num_flits (pk k) - st_count t' k" using Suc.hyps(2) t'(2) by simp
  ultimately show ?case using Suc.hyps(1) by blast
qed

section \<open>Properties\<close>

text \<open>Two packets for the unit of the examples: one of forty bytes, one of twenty.\<close>

definition packet_of :: "axisPayload \<Rightarrow> NocStreamMsg" where
  "packet_of p = (network_NocStreamMsg (Some (PlAxis p)))\<lparr> sm_num_flits := flits_for (length (payload_bytes p)) \<rparr>"

definition sample_payloads :: "int \<Rightarrow> axisPayload" where
  "sample_payloads k = (if k = 7 then sample_payload\<lparr> pl_last := 1 \<rparr> else axisPayload_add empty_axisPayload (full_beat 20 False) 3)"

definition sample_sink_net :: sink_network where
  "sample_sink_net = \<lparr> getAxisDestNi = (\<lambda>_ _. 5), getPathVC = (\<lambda>_ _. 1), get_router_id = (\<lambda>_. 7), routerID = (\<lambda>_. 4),
     sn_getRandomization = False, sn_getWarmupEnabled = False \<rparr>"

definition sample_sink :: "nat \<Rightarrow> sNSU" where
  "sample_sink n = projr (new_sNSU 5 256 False 6 0 0 (Some (connected n 0 True rand_disabled)))"

lemma sample_sink_new: "new_sNSU 5 256 False 6 0 0 (Some (connected n 0 True rand_disabled)) = Inr (sample_sink n)"
  by (simp add: sample_sink_def new_sNSU_def)

text \<open>C10: The stream destination endpoint rebuilds every packet, whatever the interleaving of the packets, the
  refusals and the pace at which the endpoint takes the beats: at every moment the beats sent for a packet
  carry a prefix of its bytes, with its end of packet on the last byte only, and all of them once its last flit
  was accepted; and the buffer of the endpoint is given nothing else.\<close>

theorem sink_rebuilds_packets:
  assumes "new_sNSU i w False tw mf cf (Some (connected n 0 True rand_disabled)) = Inr s" and "width_fits w"
    and "n = 0 \<or> 16 \<le> n" and "n < 2 ^ 30" and "all_packets pk pp s" and "sink_reach net pk s t"
  shows "prefix (delivered t k) (mark (payload_bytes (pp k)) (pl_last (pp k) \<noteq> 0)) \<and>
    (0 < st_count t k \<longrightarrow> st_count t k = sm_num_flits (pk k) \<longrightarrow> delivered t k = mark (payload_bytes (pp k)) (pl_last (pp k) \<noteq> 0)) \<and>
    sent_beats (ns_sent (st_nsu t)) = concat (map snd (st_log t))"
proof -
  have inv: "sink_inv net pk pp w n t" by (rule sink_reach_inv [OF assms(6) sink_start_inv [OF assms(1-5)]])
  then have d: "delivered t k = emitted w (pp k) (pl_last (pp k) \<noteq> 0) (st_count t k)" by (simp add: sink_inv_def)
  have "delivered t k = mark (payload_bytes (pp k)) (pl_last (pp k) \<noteq> 0)" if "0 < st_count t k" "st_count t k = sm_num_flits (pk k)"
  proof -
    have "sm_num_flits (pk k) = flits_for (length (payload_bytes (pp k)))"
      using inv that by (auto simp: sink_inv_def all_packets_def packet_ok_def)
    then show ?thesis by (simp add: d that(2) emitted_all)
  qed
  then show ?thesis using inv emitted_prefix by (auto simp: d sink_inv_def)
qed

lemma sample_packets: "all_packets (\<lambda>k. packet_of (sample_payloads k)) sample_payloads (sample_sink n)"
proof -
  have "payload_wf (sample_payloads k)" "payload_bytes (sample_payloads k) \<noteq> []" "length (payload_bytes (sample_payloads k)) \<le> 40" for k
    using sample_payload_facts by (simp_all add: sample_payloads_def payload_wf_add payload_wf_def [of "sample_payload\<lparr> pl_last := 1 \<rparr>"]
        payload_bytes_def [of "sample_payload\<lparr> pl_last := 1 \<rparr>"] flip: payload_bytes_def) (simp_all add: payload_wf_def payload_bytes_def)
  moreover have "flits_for m < 256" if "m \<le> 40" for m using that by (auto simp: flits_for_def)
  moreover have "tid d \<in> {0, 3}" if "tid_known (sample_payloads k) d" for k d
    using that by (auto simp: tid_known_def sample_payloads_def sample_payload_def empty_axisPayload_def split: if_splits)
  then have "unat (tid d) < 64" if "tid_known (sample_payloads k) d" for k d using that by fastforce
  ultimately show ?thesis
    by (auto simp: all_packets_def packet_ok_def packet_of_def tid_too_wide_def network_NocStreamMsg_def sample_sink_def new_sNSU_def not_le)
qed

theorem sink_rebuilds_packets_witness:
  "\<exists>t. sink_reach sample_sink_net (\<lambda>k. packet_of (sample_payloads k)) (sample_sink 0) t \<and>
    delivered t 7 = mark (map of_nat [1..<21] @ map of_nat [1..<21]) True"
proof -
  let ?pk = "\<lambda>k. packet_of (sample_payloads k)"
  have w: "width_fits 256" by (simp add: width_fits_def width_ok_def)
  have start: "sink_reach sample_sink_net ?pk (sample_sink 0) (sink_start (sample_sink 0))" by (simp add: sink_reach_def)
  have "sink_inv sample_sink_net ?pk sample_payloads 256 0 (sink_start (sample_sink 0))"
    by (rule sink_start_inv [OF sample_sink_new w _ _ sample_packets]) simp_all
  from sink_completes [OF start this, of 7] obtain t where
    t: "sink_reach sample_sink_net ?pk (sample_sink 0) t" "st_count t 7 = sm_num_flits (packet_of (sample_payloads 7))" by blast
  have "0 < sm_num_flits (packet_of (sample_payloads 7))" "pl_last (sample_payloads 7) \<noteq> 0"
    "payload_bytes (sample_payloads 7) = map of_nat [1..<21] @ map of_nat [1..<21]"
    using sample_payload_facts by (simp_all add: packet_of_def sample_payloads_def flits_for_def payload_bytes_def)
  then show ?thesis using sink_rebuilds_packets [OF sample_sink_new w _ _ sample_packets t(1), of 7] t by auto
qed

text \<open>At every moment of such an execution the unit handles the next flit of any packet without failing;
  it accepts the flit whenever the buffer of the endpoint has room for sixteen beats, and a refused
  flit leaves the messages sent unchanged, so that it can be offered again.\<close>

lemma sink_never_fails:
  assumes "new_sNSU i w False tw mf cf (Some (connected n 0 True rand_disabled)) = Inr s" and "width_fits w"
    and "n = 0 \<or> 16 \<le> n" and "n < 2 ^ 30" and "all_packets pk pp s" and "sink_reach net pk s t"
    and "next_in pk t fl" and "st_now t \<le> clockEdge c"
  shows "\<exists>ok s'. s_depacketizeFlit rngs net c fl (st_nsu t) = Inr (ok, s') \<and>
    (areNSlotsAvailable 16 (clockEdge c) (the (ns_out (st_nsu t))) \<longrightarrow> ok) \<and>
    (\<not> ok \<longrightarrow> sent_beats (ns_sent s') = sent_beats (ns_sent (st_nsu t)))"
proof -
  have inv: "sink_inv net pk pp w n t" by (rule sink_reach_inv [OF assms(6) sink_start_inv [OF assms(1-5)]])
  obtain ok s' ds where "s_depacketizeFlit rngs net c fl (st_nsu t) = Inr (ok, s')"
    "sent_beats (ns_sent s') = sent_beats (ns_sent (st_nsu t)) @ (if ok then ds else [])"
    "areNSlotsAvailable 16 (clockEdge c) (the (ns_out (st_nsu t))) \<longrightarrow> ok"
    by (rule next_flit_result [OF inv assms(7,8), of rngs])
  then show ?thesis by (intro exI [of _ ok] exI [of _ s']) simp
qed

definition sample_flit :: flit where
  "sample_flit = \<lparr> fl_packet_id = 7, fl_id = 0, fl_vc = 1, fl_vnet = W_VNET, fl_route = default_NocRouteInfo, fl_num_flits = 3,
     fl_msg = packet_of (sample_payloads 7) \<rparr>"

lemma sink_never_fails_witness:
  "\<exists>s'. s_depacketizeFlit [] sample_sink_net \<lparr> curTick = 3, clockEdge = 4, clockPeriod = 1 \<rparr> sample_flit (sample_sink 16) = Inr (True, s')"
proof -
  let ?pk = "\<lambda>k. packet_of (sample_payloads k)" and ?t = "sink_start (sample_sink 16)"
  have w: "width_fits 256" by (simp add: width_fits_def width_ok_def)
  have r: "sink_reach sample_sink_net ?pk (sample_sink 16) ?t" by (simp add: sink_reach_def)
  have nx: "next_in ?pk ?t sample_flit"
    using sample_packets [of 0] by (auto simp: next_in_def sink_start_def sample_flit_def all_packets_def packet_of_def
        sample_payloads_def flits_for_def sample_payload_def payload_bytes_def)
  have slots: "areNSlotsAvailable 16 4 (the (ns_out (st_nsu ?t)))"
    by (simp add: sink_start_def sample_sink_def new_sNSU_def areNSlotsAvailable_def connected_def new_MessageBuffer_def)
  from sink_never_fails [OF sample_sink_new w _ _ sample_packets r nx, of "\<lparr> curTick = 3, clockEdge = 4, clockPeriod = 1 \<rparr>" "[]"] slots
  show ?thesis by (auto simp: sink_start_def)
qed

end
