(* ===== verification/Stream_System.thy ===== *)
theory Stream_System
  imports Stream_NSU_Props
begin

text \<open>
  The stream path from end to end: a reachable source endpoint (\<open>Stream_NMU\<close>) whose flits reach a
  destination endpoint (\<open>Stream_NSU\<close>) in the order they were injected, as on one virtual channel of one
  path. The flits of the source are whole packets, one after the other, with fresh identities; therefore
  what the destination hands out is a prefix of the beats handshaken at the source.
\<close>

section \<open>The packets of a source\<close>

definition packet_msg :: "NocStreamMsg \<Rightarrow> axisPayload \<Rightarrow> bool" where
  "packet_msg m p \<longleftrightarrow> sm_pload m = PlAxis p \<and> payload_wf p \<and> payload_bytes p \<noteq> [] \<and>
     length (payload_bytes p) \<le> NPP_MAX_SIZE \<and> sm_num_flits m = flits_for (length (payload_bytes p)) \<and> pl_last p \<in> {0, 1}"

type_synonym flit_key = "int \<times> int \<times> NocStreamMsg"

definition key_of :: "flit \<Rightarrow> flit_key" where
  "key_of f = (fl_packet_id f, fl_id f, fl_msg f)"

definition packet_keys :: "int \<times> NocStreamMsg \<Rightarrow> flit_key list" where
  "packet_keys x = map (\<lambda>j. (fst x, int j, snd x)) [0..<sm_num_flits (snd x)]"

definition packet_stream :: "NocStreamMsg \<Rightarrow> (byte \<times> bool) list" where
  "packet_stream m = (case sm_pload m of PlAxis p \<Rightarrow> mark (payload_bytes p) (pl_last p = 1) | PlAximm _ \<Rightarrow> [])"

text \<open>The message of the packet in progress as its flits carry it, and the flits it has left.\<close>

definition current_msg :: "sNMU \<Rightarrow> NocStreamMsg" where
  "current_msg s = (the (npp_message (currNPPInfo s)))\<lparr> sm_src_ni_id := src_ni (route (currNPPInfo s)) \<rparr>"

definition flits_left :: "sNMU \<Rightarrow> flit_key list" where
  "flits_left s = (let info = currNPPInfo s in
     if npp_valid info then map (\<lambda>j. (packet_id info, int j, current_msg s)) [nat (flit_num info)..<nat (num_flits info)] else [])"

definition source_packets :: "sNMU \<Rightarrow> (int \<times> NocStreamMsg) list \<Rightarrow> bool" where
  "source_packets s ps \<longleftrightarrow> distinct (map fst ps) \<and>
     (\<forall>x \<in> set ps. fst x < next_packet_id s \<and> (\<exists>p. packet_msg (snd x) p)) \<and>
     map key_of (injected s) @ flits_left s = concat (map packet_keys ps) \<and>
     sent s @ inflight s = concat (map (packet_stream \<circ> snd) ps)"

lemma pack_loop_last:
  "pack_loop target packed outp ret es bsize = (outp', ret', es', bsize') \<Longrightarrow> pl_last ret' = pl_last ret"
  by (induction target packed outp ret es bsize rule: pack_loop.induct)
    (auto simp: Let_def split: if_splits prod.splits)

lemma popNextPacket_last: "popNextPacket b = (p, outp, b') \<Longrightarrow> pl_last p \<in> {0, 1}"
  by (auto simp: popNextPacket_def Let_def empty_axisPayload_def dest!: pack_loop_last split: prod.splits if_splits)

text \<open>The callback of the buffer starts a packet with a fresh identity.\<close>

lemma handler_starts:
  assumes wf: "axis_buffer_wf b" "nextDequeuePos b \<noteq> - 1" and idle: "\<not> npp_valid (currNPPInfo s)"
    and run: "s_bufferHeadReadyHandler net (s, b) = Inr (s', b')"
  obtains m p where "packet_msg m p" "npp_message (currNPPInfo s') = Some m" "npp_valid (currNPPInfo s')"
    "flit_num (currNPPInfo s') = 0" "num_flits (currNPPInfo s') = int (sm_num_flits m)" "packet_id (currNPPInfo s') = next_packet_id s"
    "next_packet_id s' = next_packet_id s + 1" "injected s' = injected s"
proof -
  obtain p outp b1 where pop: "popNextPacket b = (p, outp, b1)" by (metis prod_cases3)
  note ps = popNextPacket_stream [OF wf pop]
  have len: "totalBytes p = int (length (payload_bytes p))" "beats p \<noteq> []"
    using ps by (auto simp: payload_wf_def payload_bytes_def)
  then obtain d ds where ds: "beats p = d # ds" by (cases "beats p") auto
  have fits: "flits_for (length (payload_bytes p)) < 256" using ps by (auto simp: flits_for_def NPP_MAX_SIZE_def)
  then have nf: "trunc8 (nat (int (flits_for (length (payload_bytes p))))) = flits_for (length (payload_bytes p))"
    by (simp add: trunc8_def)
  show thesis
    using run idle ps fits nf popNextPacket_last [OF pop]
    by (auto simp: s_bufferHeadReadyHandler_def pop ds len Let_def schedule_deq_def packet_msg_def
        network_NocStreamMsg_def NPP_MAX_SIZE_def simp flip: int_flits_for split: if_splits intro!: that)
qed

lemma packet_msg_src [simp]: "packet_msg (m\<lparr> sm_src_ni_id := x \<rparr>) p = packet_msg m p"
  by (simp add: packet_msg_def)

lemma source_packets_frame:
  "injected s' = injected s \<Longrightarrow> currNPPInfo s' = currNPPInfo s \<Longrightarrow> next_packet_id s' = next_packet_id s \<Longrightarrow>
    source_packets s' ps = source_packets s ps"
  by (simp add: source_packets_def sent_def inflight_def flits_left_def current_msg_def Let_def)

lemma packets_begin:
  assumes pk: "source_packets s ps" and wf: "axis_buffer_wf b" "nextDequeuePos b \<noteq> - 1"
    and run: "s_bufferHeadReadyHandler net (s, b) = Inr (s', b')"
  shows "\<exists>ps'. source_packets s' ps'"
proof (cases "npp_valid (currNPPInfo s)")
  case True
  then have "s' = s" using run by (simp add: s_bufferHeadReadyHandler_def)
  then show ?thesis using pk by blast
next
  case False
  from handler_starts [OF wf False run] obtain m p where
    m: "packet_msg m p" "npp_message (currNPPInfo s') = Some m" "npp_valid (currNPPInfo s')" "flit_num (currNPPInfo s') = 0"
      "num_flits (currNPPInfo s') = int (sm_num_flits m)" "packet_id (currNPPInfo s') = next_packet_id s"
      "next_packet_id s' = next_packet_id s + 1" "injected s' = injected s" by metis
  let ?x = "(next_packet_id s, current_msg s')"
  have idle: "flits_left s = []" "inflight s = []" using False by (simp_all add: flits_left_def inflight_def)
  have "flits_left s' = packet_keys ?x" using m by (simp add: flits_left_def packet_keys_def current_msg_def)
  moreover have "inflight s' = packet_stream (current_msg s')"
    using m by (simp add: inflight_def packet_stream_def current_msg_def packet_msg_def)
  moreover have "packet_msg (current_msg s') p" using m by (simp add: current_msg_def)
  moreover have "sent s' = sent s" by (simp add: sent_def m(8))
  ultimately have "source_packets s' (ps @ [?x])"
    using pk idle m(7,8) by (fastforce simp: source_packets_def)
  then show ?thesis ..
qed

lemma packets_check:
  assumes "source_packets s ps" and "axis_buffer_wf b"
    and "checkDequeueReady (Some (s_bufferHeadReadyHandler net)) (s, b) = Inr (r, s', b')"
  shows "\<exists>ps'. source_packets s' ps'"
  using assms packets_begin by (auto simp: checkDequeueReady_def rbind_Inr_iff split: if_splits)

lemma packets_fire:
  assumes pk: "source_packets s ps" and wf: "axis_buffer_wf b" and inv: "nmu_inv s" and ev: "deqScheduled s"
    and run: "dequeueIntermediate net full (s, b) = Inr (s', b')"
  shows "\<exists>ps'. source_packets s' ps'"
proof (cases full)
  case True
  then show ?thesis using run pk dequeue_full [OF inv ev] by auto
next
  case False
  let ?info = "currNPPInfo s"
  have valid: "npp_valid ?info" using inv ev by (simp add: nmu_inv_def Let_def)
  obtain m p n where b: "npp_message ?info = Some m" "sm_pload m = PlAxis p" "flit_num ?info = int n" "n < flits_for (length (payload_bytes p))"
    "num_flits ?info = int (flits_for (length (payload_bytes p)))"
    "inflight s = flit_stream (next_flit s m) @ mark (drop (16 * Suc n) (payload_bytes p)) (pl_last p = 1)"
    using nmu_busy [OF inv valid] by metis
  let ?N = "flits_for (length (payload_bytes p))"
  have left: "flits_left s = key_of (next_flit s m) # map (\<lambda>j. (packet_id ?info, int j, current_msg s)) [Suc n..<?N]"
    using valid b(1,3-5) by (simp add: flits_left_def key_of_def next_flit_def current_msg_def Let_def upt_rec [of n])
  let ?m = "m\<lparr> sm_src_ni_id := src_ni (route ?info) \<rparr>"
  show ?thesis
  proof (cases "Suc n = ?N")
    case True
    define s2 where "s2 = s\<lparr> deqScheduled := False, injected := injected s @ [next_flit s m],
      currNPPInfo := ?info\<lparr> npp_message := Some ?m, npp_valid := False, npp_oPort := None \<rparr> \<rparr>"
    have "mark (drop (16 * Suc n) (payload_bytes p)) (pl_last p = 1) = []"
      using flits_for_bounds(2) [OF b(4)] True by simp
    then have "source_packets s2 ps"
      using pk b(6) left True by (simp add: source_packets_def s2_def sent_def inflight_def flits_left_def)
    moreover obtain r where "checkDequeueReady (Some (s_bufferHeadReadyHandler net)) (s2, b) = Inr (r, s', b')"
      using run False b True by (auto simp: dequeueIntermediate_def Let_def s2_def next_flit_def rbind_Inr_iff)
    ultimately show ?thesis using packets_check wf by blast
  next
    case mid: False
    define s1 where "s1 = s\<lparr> injected := injected s @ [next_flit s m],
      currNPPInfo := ?info\<lparr> npp_message := Some ?m, flit_num := flit_num ?info + 1 \<rparr> \<rparr>"
    have "s' = s1" using run False b mid ev by (auto simp: dequeueIntermediate_def Let_def s1_def next_flit_def schedule_deq_def)
    moreover have "inflight s1 = mark (drop (16 * Suc n) (payload_bytes p)) (pl_last p = 1)"
      using b valid by (simp add: s1_def inflight_def nat_add_distrib)
    moreover have "flits_left s1 = map (\<lambda>j. (packet_id ?info, int j, current_msg s)) [Suc n..<?N]"
      using b valid by (simp add: s1_def flits_left_def current_msg_def nat_add_distrib)
    ultimately have "source_packets s' ps"
      using pk b(6) left by (simp add: source_packets_def s1_def sent_def)
    then show ?thesis ..
  qed
qed

text \<open>The arrival of a beat appends it to the buffer and runs the check of the buffer.\<close>

lemma arrive_parts:
  assumes reach: "source_reach net (s, b, up # q) ds"
    and run: "s_flitisizeMessage net (Some op) now (beat_message up) W_VNET (s, b) = Inr (s', b')"
  obtains b1 r s1 where "checkDequeueReady (Some (s_bufferHeadReadyHandler net)) (s, b1) = Inr (r, s1, b')" "axis_buffer_wf b1"
    "injected s' = injected s1" "currNPPInfo s' = currNPPInfo s1" "next_packet_id s' = next_packet_id s1"
proof -
  note inv = source_reach_inv3(1) [OF reach]
  obtain s1 b1 r where app: "axis_append (ms_data up) (Some op) 0 (sm_debug_id (beat_message up)) b = Inr b1"
    and chk: "checkDequeueReady (Some (s_bufferHeadReadyHandler net)) (s, b1) = Inr (r, s1, b')"
    and s': "injected s' = injected s1" "currNPPInfo s' = currNPPInfo s1" "next_packet_id s' = next_packet_id s1"
    using run by (auto simp: s_flitisizeMessage_def axis_add_def beat_message_def buffer_NocStreamMsg_def Let_def
        rbind_Inr_iff split: if_splits)
  have d: "axis_wf (ms_data up)" "kept_bytes (ms_data up) \<noteq> []" "axis_buffer_wf b" "length (stream b) + length (kept_bytes (ms_data up)) < 65536"
    using inv by (auto simp: source_inv_def beat_stream_def)
  have "axis_buffer_wf b1" using axis_append_stream [OF d(3,1,2,4) app] by simp
  then show thesis using that chk s' by blast
qed

lemma source_reach_packets: "source_reach net (s, b, q) ds \<Longrightarrow> \<exists>ps. source_packets s ps"
proof (induction "(s, b, q)" ds arbitrary: s b q rule: source_reach.induct)
  case (start i n)
  have "source_packets (new_sNMU i n) []"
    by (simp add: source_packets_def new_sNMU_def flits_left_def sent_def inflight_def default_NPPInfo_def)
  then show ?case ..
next
  case (handshake s b q ds up)
  then show ?case using source_packets_frame [of "enqueueBytes (int (axis_getTotalByteSize (ms_data up))) s" s]
    by (auto simp: enqueueBytes_def)
next
  case (arrive s b up q ds op now s' b')
  obtain s1 b1 r where chk: "checkDequeueReady (Some (s_bufferHeadReadyHandler net)) (s, b1) = Inr (r, s1, b')" and "axis_buffer_wf b1"
    and s': "injected s' = injected s1" "currNPPInfo s' = currNPPInfo s1" "next_packet_id s' = next_packet_id s1"
    using arrive_parts [OF arrive.hyps(1,3)] by blast
  then show ?case using arrive.hyps(2) packets_check [OF _ _ chk] source_packets_frame [OF s'] by blast
next
  case (fire s b q ds full s' b')
  have "axis_buffer_wf b" "nmu_inv s" using source_reach_inv3(1) [OF fire.hyps(1)] by (auto simp: source_inv_def)
  then show ?case using packets_fire [OF _ _ _ fire.hyps(3,4)] fire.hyps(2) by blast
qed

text \<open>The position of a flit within its packet, and the message it carries.\<close>

lemma packet_keys_filter: "filter (\<lambda>x. fst x = k) (packet_keys y) = (if fst y = k then packet_keys y else [])"
  by (auto simp: packet_keys_def filter_empty_conv)

lemma keys_position:
  assumes "distinct (map fst ps)" and "j < length (concat (map packet_keys ps))" and "concat (map packet_keys ps) ! j = (k, i, m)"
  shows "i = int (length (filter (\<lambda>x. fst x = k) (take j (concat (map packet_keys ps))))) \<and> (k, m) \<in> set ps \<and> i < int (sm_num_flits m)"
  using assms
proof (induction ps arbitrary: j)
  case (Cons x ps)
  let ?n = "sm_num_flits (snd x)" and ?K = "concat (map packet_keys ps)"
  have len: "length (packet_keys x) = ?n" by (simp add: packet_keys_def)
  show ?case
  proof (cases "j < ?n")
    case True
    then have "x = (k, m)" "i = int j" using Cons.prems(3) len by (auto simp: nth_append packet_keys_def)
    moreover have "filter (\<lambda>y. fst y = fst x) (take j (packet_keys x)) = take j (packet_keys x)"
      by (auto simp: packet_keys_def filter_id_conv dest: in_set_takeD)
    ultimately show ?thesis using True len by (simp add: packet_keys_def)
  next
    case False
    then have j: "j - ?n < length ?K" "?K ! (j - ?n) = (k, i, m)" using Cons.prems(2,3) len by (simp_all add: nth_append)
    from Cons.IH [OF _ this] Cons.prems(1)
    have ih: "i = int (length (filter (\<lambda>x. fst x = k) (take (j - ?n) ?K)))" "(k, m) \<in> set ps" "i < int (sm_num_flits m)" by auto
    have "k \<in> set (map fst ps)" using ih(2) by force
    then have "fst x \<noteq> k" using Cons.prems(1) by auto
    then show ?thesis using False len ih by (simp add: packet_keys_filter)
  qed
qed simp

section \<open>Delivery in order\<close>

text \<open>
  The messages of a sequence of flits, by packet. A sequence is delivered in order when the flits the
  destination accepts follow it.
\<close>

definition no_message :: NocStreamMsg where
  "no_message = network_NocStreamMsg None"

definition messages_of :: "flit list \<Rightarrow> int \<Rightarrow> NocStreamMsg" where
  "messages_of fs k = (case find (\<lambda>f. fl_packet_id f = k) fs of Some f \<Rightarrow> fl_msg f | None \<Rightarrow> no_message)"

definition in_order :: "sink_network \<Rightarrow> flit list \<Rightarrow> sNSU \<Rightarrow> sink_trace \<Rightarrow> bool" where
  "in_order net fs s t \<longleftrightarrow> sink_reach net (messages_of fs) s t \<and> prefix (map fst (st_log t)) (map fl_packet_id fs)"

definition received :: "sink_trace \<Rightarrow> (byte \<times> bool) list" where
  "received t = beats_stream (sent_beats (ns_sent (st_nsu t)))"

text \<open>When the packets come one after the other, what is delivered is the packets' contents one after the other.\<close>

definition got :: "(int \<times> 'a list) list \<Rightarrow> int \<Rightarrow> 'a list" where
  "got xs k = concat (map snd (filter (\<lambda>x. fst x = k) xs))"

definition runs :: "(int \<times> nat) list \<Rightarrow> int list" where
  "runs kns = concat (map (\<lambda>(k, n). replicate n k) kns)"

lemma got_all: "set (map fst xs) \<subseteq> {k} \<Longrightarrow> got xs k = concat (map snd xs)"
  unfolding got_def by (subst filter_True) auto

lemma got_none: "k \<notin> set (map fst xs) \<Longrightarrow> got xs k = []"
  unfolding got_def by (subst filter_False) force+

lemma got_append [simp]: "got (xs @ ys) k = got xs k @ got ys k"
  by (simp add: got_def)

lemma got_in_runs:
  assumes "distinct (map fst kns)" and "prefix (map fst xs) (runs kns)"
    and "\<forall>(k, n) \<in> set kns. prefix (got xs k) (D k) \<and> (length (filter (\<lambda>x. fst x = k) xs) = n \<longrightarrow> got xs k = D k)"
  shows "prefix (concat (map snd xs)) (concat (map (D \<circ> fst) kns)) \<and>
    (map fst xs = runs kns \<longrightarrow> concat (map snd xs) = concat (map (D \<circ> fst) kns))"
  using assms
proof (induction kns arbitrary: xs)
  case Nil
  then show ?case by (simp add: runs_def)
next
  case (Cons kn kns)
  obtain k n where kn: "kn = (k, n)" by force
  have runs: "runs (kn # kns) = replicate n k @ runs kns" by (simp add: runs_def kn)
  have here: "prefix (got xs k) (D k)" "length (filter (\<lambda>x. fst x = k) xs) = n \<Longrightarrow> got xs k = D k"
    using Cons.prems(3) by (auto simp: kn)
  consider (short) "prefix (map fst xs) (replicate n k)" "length xs < n"
    | (long) us where "map fst xs = replicate n k @ us" "prefix us (runs kns)"
  proof (cases "prefix (map fst xs) (replicate n k)")
    case True
    then obtain zs where zs: "replicate n k = map fst xs @ zs" by (auto simp: prefix_def)
    have "n = length xs + length zs" using arg_cong [OF zs, of length] by simp
    then show thesis using short [OF True] long [of "[]"] zs by (cases "zs = []") simp_all
  next
    case False
    then show thesis using Cons.prems(2) long by (auto simp: runs prefix_append)
  qed
  then show ?case
  proof cases
    case short
    then have "set (map fst xs) \<subseteq> {k}" using set_mono_prefix [OF short(1)] by auto
    then have "prefix (concat (map snd xs)) (D k)" using here(1) got_all by metis
    moreover have "map fst xs \<noteq> runs (kn # kns)" using short(2) runs by (metis add_leD1 length_append length_map length_replicate linorder_not_le order_refl)
    ultimately show ?thesis by (simp add: kn prefix_prefix)
  next
    case long
    obtain ys zs where xs: "xs = ys @ zs" "map fst ys = replicate n k" "map fst zs = us" using long(1) by (metis map_eq_append_conv)
    have k: "k \<notin> set (map fst kns)" "distinct (map fst kns)" using Cons.prems(1) by (simp_all add: kn)
    have "set us \<subseteq> set (map fst kns)" using set_mono_prefix [OF long(2)] by (force simp: runs_def)
    then have nz: "k \<notin> set (map fst zs)" using k(1) xs(3) by auto
    have ny: "set (map fst ys) \<subseteq> {k}" using xs(2) by (auto simp: set_replicate_conv_if)
    have "filter (\<lambda>x. fst x = k) ys = ys" using ny by (auto simp: filter_id_conv)
    moreover have "filter (\<lambda>x. fst x = k) zs = []" using nz by (force simp: filter_empty_conv)
    ultimately have "length (filter (\<lambda>x. fst x = k) xs) = n" using xs(1) arg_cong [OF xs(2), of length] by simp
    then have D: "concat (map snd ys) = D k" using here(2) xs(1) got_none [OF nz] got_all [OF ny] by simp
    have other: "filter (\<lambda>x. fst x = j) ys = []" "got ys j = []" if "j \<in> set (map fst kns)" for j
      using that k(1) ny by (force simp: filter_empty_conv, intro got_none) (use that k(1) ny in auto)
    have "\<forall>(j, n) \<in> set kns. prefix (got zs j) (D j) \<and> (length (filter (\<lambda>x. fst x = j) zs) = n \<longrightarrow> got zs j = D j)"
    proof (intro ballI, clarify)
      fix j n'
      assume j: "(j, n') \<in> set kns"
      then have "j \<in> set (map fst kns)" by force
      from other [OF this] have "got xs j = got zs j" "filter (\<lambda>x. fst x = j) xs = filter (\<lambda>x. fst x = j) zs" by (simp_all add: xs(1))
      moreover have "prefix (got xs j) (D j) \<and> (length (filter (\<lambda>x. fst x = j) xs) = n' \<longrightarrow> got xs j = D j)"
        using Cons.prems(3) j by auto
      ultimately show "prefix (got zs j) (D j) \<and> (length (filter (\<lambda>x. fst x = j) zs) = n' \<longrightarrow> got zs j = D j)" by simp
    qed
    from Cons.IH [OF k(2) long(2) [folded xs(3)] this] show ?thesis
      using D runs by (simp add: xs kn)
  qed
qed

lemma runs_packets: "map fst (concat (map packet_keys ps)) = runs (map (\<lambda>x. (fst x, sm_num_flits (snd x))) ps)"
  by (induction ps) (simp_all add: runs_def packet_keys_def map_replicate_const o_def)

lemma find_key:
  assumes "f \<in> set fs"
  obtains g where "find (\<lambda>f'. fl_packet_id f' = fl_packet_id f) fs = Some g" "g \<in> set fs" "fl_packet_id g = fl_packet_id f"
  using assms by (cases "find (\<lambda>f'. fl_packet_id f' = fl_packet_id f) fs") (auto simp: find_None_iff find_Some_iff in_set_conv_nth)

text \<open>What the flits of a source are to a destination.\<close>

lemma source_flits:
  assumes "source_packets s ps" and "f \<in> set (injected s)"
  shows "(fl_packet_id f, fl_msg f) \<in> set ps" and "messages_of (injected s) (fl_packet_id f) = fl_msg f"
proof -
  have "map key_of (injected s) @ flits_left s = concat (map packet_keys ps)" and d: "distinct (map fst ps)"
    using assms(1) by (simp_all add: source_packets_def)
  then have K: "set (map key_of (injected s)) \<subseteq> set (concat (map packet_keys ps))" by (metis Un_upper1 set_append)
  have in_ps: "(fl_packet_id g, fl_msg g) \<in> set ps" if "g \<in> set (injected s)" for g
  proof -
    have "key_of g \<in> set (concat (map packet_keys ps))" using K that by auto
    then show ?thesis by (auto simp: packet_keys_def key_of_def)
  qed
  show "(fl_packet_id f, fl_msg f) \<in> set ps" by (rule in_ps [OF assms(2)])
  obtain g where g: "find (\<lambda>f'. fl_packet_id f' = fl_packet_id f) (injected s) = Some g" "g \<in> set (injected s)" "fl_packet_id g = fl_packet_id f"
    by (rule find_key [OF assms(2)])
  then have "fl_msg g = fl_msg f" using in_ps [OF g(2)] in_ps [OF assms(2)] d by (auto simp: eq_key_imp_eq_value)
  then show "messages_of (injected s) (fl_packet_id f) = fl_msg f" using g(1) by (simp add: messages_of_def)
qed

text \<open>The destinations considered: full width of \<open>TID\<close>, no reassembly of frames.\<close>

definition sink_setup :: "nat \<Rightarrow> nat \<Rightarrow> sNSU \<Rightarrow> bool" where
  "sink_setup w n s \<longleftrightarrow> width_fits w \<and> (n = 0 \<or> 16 \<le> n) \<and> n < 2 ^ 30 \<and>
     (\<exists>i mf cf. new_sNSU i w False 32 mf cf (Some (connected n 0 True rand_disabled)) = Inr s)"

definition payload_of :: "NocStreamMsg \<Rightarrow> axisPayload" where
  "payload_of m = (case sm_pload m of PlAxis p \<Rightarrow> p | PlAximm _ \<Rightarrow> empty_axisPayload)"

lemma packet_msg_facts:
  assumes "packet_msg m p"
  shows "payload_of m = p" "packet_stream m = mark (payload_bytes p) (pl_last p \<noteq> 0)" "0 < sm_num_flits m"
    "axisTidWidth s0 = 32 \<Longrightarrow> packet_ok s0 m p"
  using assms flits_for_pos [of "length (payload_bytes p)"]
  by (auto simp: packet_msg_def payload_of_def packet_stream_def packet_ok_def tid_too_wide_def flits_for_def NPP_MAX_SIZE_def)

lemma no_message_flits: "sm_num_flits no_message = 0"
  by (simp add: no_message_def network_NocStreamMsg_def)

lemma source_all_packets:
  assumes "source_packets s ps" and "axisTidWidth s0 = 32"
  shows "all_packets (messages_of (injected s)) (\<lambda>k. payload_of (messages_of (injected s) k)) s0"
  unfolding all_packets_def
proof (intro allI impI)
  fix k
  assume pos: "0 < sm_num_flits (messages_of (injected s) k)"
  then obtain f where f: "f \<in> set (injected s)" "fl_packet_id f = k"
    by (cases "find (\<lambda>f. fl_packet_id f = k) (injected s)") (auto simp: messages_of_def no_message_flits find_Some_iff in_set_conv_nth)
  from source_flits [OF assms(1) f(1)] obtain p where "packet_msg (messages_of (injected s) k) p"
    using assms(1) f(2) by (auto simp: source_packets_def)
  from packet_msg_facts [OF this] assms(2) show "packet_ok s0 (messages_of (injected s) k) (payload_of (messages_of (injected s) k))" by simp
qed

lemma sink_setup_inv:
  assumes "sink_setup w n s0" and "source_packets s ps"
  shows "sink_inv net (messages_of (injected s)) (\<lambda>k. payload_of (messages_of (injected s) k)) w n (sink_start s0)"
proof -
  obtain i mf cf where new: "new_sNSU i w False 32 mf cf (Some (connected n 0 True rand_disabled)) = Inr s0"
    using assms(1) by (auto simp: sink_setup_def)
  then have "axisTidWidth s0 = 32" by (auto simp: new_sNSU_def split: if_splits)
  from sink_start_inv [OF new _ _ _ source_all_packets [OF assms(2) this]] assms(1) show ?thesis by (simp add: sink_setup_def)
qed

lemma delivered_packet:
  assumes inv: "sink_inv net (messages_of (injected s)) (\<lambda>k. payload_of (messages_of (injected s) k)) w n t"
    and pk: "source_packets s ps" and order: "in_order net (injected s) s0 t" and x: "(k, m) \<in> set ps"
  shows "prefix (delivered t k) (packet_stream m) \<and>
    (length (filter (\<lambda>x. fst x = k) (st_log t)) = sm_num_flits m \<longrightarrow> delivered t k = packet_stream m)"
proof -
  have reach: "sink_reach net (messages_of (injected s)) s0 t" and log: "set (map fst (st_log t)) \<subseteq> fl_packet_id ` set (injected s)"
    using order set_mono_prefix [of "map fst (st_log t)" "map fl_packet_id (injected s)"] by (simp_all add: in_order_def)
  note count = sink_reach_count [OF reach, of k]
  obtain p where p: "packet_msg m p" using pk x by (fastforce simp: source_packets_def)
  note m = packet_msg_facts [OF p]
  show ?thesis
  proof (cases "k \<in> fl_packet_id ` set (injected s)")
    case True
    then obtain f where f: "f \<in> set (injected s)" "fl_packet_id f = k" by auto
    have "fl_msg f = m" using source_flits(1) [OF pk f(1)] x f(2) pk by (auto simp: source_packets_def eq_key_imp_eq_value)
    then have "messages_of (injected s) k = m" using source_flits(2) [OF pk f(1)] f(2) by simp
    then have d: "delivered t k = emitted w p (pl_last p \<noteq> 0) (st_count t k)" using inv m(1) by (simp add: sink_inv_def)
    then show ?thesis using p m(2) emitted_prefix emitted_all by (auto simp: count packet_msg_def)
  next
    case False
    then have none: "filter (\<lambda>x. fst x = k) (st_log t) = []" using log by (force simp: filter_empty_conv)
    then show ?thesis using m(3) by (simp add: delivered_def beats_stream_def)
  qed
qed

lemma beats_stream_concat: "concat (map (\<lambda>x. beats_stream (snd x)) xs) = beats_stream (concat (map snd xs))"
  by (induction xs) (simp_all add: beats_stream_def)

lemma prefix_same_length: "prefix xs ys \<Longrightarrow> length xs = length ys \<Longrightarrow> xs = ys"
  by (auto simp: prefix_def)

text \<open>What the destination has handed out, packet by packet.\<close>

lemma received_packets:
  assumes dest: "sink_setup w n s0" and pk: "source_packets s ps" and order: "in_order net (injected s) s0 t"
  shows "prefix (received t) (sent s @ inflight s) \<and>
    (length (st_log t) = length (injected s) \<longrightarrow> flits_left s = [] \<longrightarrow> received t = sent s @ inflight s)"
proof -
  let ?fs = "injected s" and ?kns = "map (\<lambda>x. (fst x, sm_num_flits (snd x))) ps"
  let ?xs = "map (apsnd beats_stream) (st_log t)" and ?D = "\<lambda>k. packet_stream (the (map_of ps k))"
  have dist: "distinct (map fst ps)" and keys: "map key_of ?fs @ flits_left s = concat (map packet_keys ps)"
    and all: "sent s @ inflight s = concat (map (packet_stream \<circ> snd) ps)" using pk by (simp_all add: source_packets_def)
  have reach: "sink_reach net (messages_of ?fs) s0 t" and pre: "prefix (map fst (st_log t)) (map fl_packet_id ?fs)"
    using order by (simp_all add: in_order_def)
  note inv = sink_reach_inv [OF reach sink_setup_inv [OF dest pk]]
  have ids: "map fl_packet_id ?fs @ map fst (flits_left s) = runs ?kns"
    using arg_cong [OF keys, of "map fst"] by (simp add: runs_packets key_of_def o_def)
  have xs: "map fst ?xs = map fst (st_log t)" by simp
  have got: "got ?xs k = delivered t k" for k
    by (simp add: got_def delivered_def filter_map o_def beats_stream_concat)
  have rec: "concat (map snd ?xs) = received t"
    using inv by (simp add: received_def sink_inv_def o_def beats_stream_concat)
  have D: "?D (fst x) = packet_stream (snd x)" if "x \<in> set ps" for x
    using map_of_is_SomeI [OF dist, of "fst x" "snd x"] that by simp
  then have total: "concat (map (?D \<circ> fst) ?kns) = sent s @ inflight s"
    unfolding all by (intro arg_cong [of _ _ concat]) simp
  have "\<forall>(k, n) \<in> set ?kns. prefix (got ?xs k) (?D k) \<and> (length (filter (\<lambda>x. fst x = k) ?xs) = n \<longrightarrow> got ?xs k = ?D k)"
    using delivered_packet [OF inv pk order] D by (auto simp: got filter_map o_def)
  moreover have "prefix (map fst ?xs) (runs ?kns)" unfolding xs using pre ids by (metis prefix_prefix)
  moreover have "distinct (map fst ?kns)" using dist by (simp add: o_def)
  ultimately have r: "prefix (received t) (sent s @ inflight s) \<and> (map fst ?xs = runs ?kns \<longrightarrow> received t = sent s @ inflight s)"
    using got_in_runs [of ?kns ?xs ?D] unfolding rec total by blast
  moreover have "map fst ?xs = runs ?kns" if "length (st_log t) = length ?fs" "flits_left s = []"
    using that ids prefix_same_length [OF pre] unfolding xs by (metis append_Nil2 length_map list.map(1))
  ultimately show ?thesis by blast
qed

section \<open>Progress\<close>

text \<open>An unbounded destination can take the next flit of the source, until it has them all.\<close>

lemma in_order_next_in:
  assumes pk: "source_packets s ps" and order: "in_order net (injected s) s0 t" and more: "length (st_log t) < length (injected s)"
  shows "next_in (messages_of (injected s)) t (injected s ! length (st_log t))"
    and "map fst (st_log t) = map fl_packet_id (take (length (st_log t)) (injected s))"
proof -
  let ?fs = "injected s" and ?j = "length (st_log t)"
  let ?f = "?fs ! ?j" and ?K = "concat (map packet_keys ps)"
  have reach: "sink_reach net (messages_of ?fs) s0 t" and pre: "prefix (map fst (st_log t)) (map fl_packet_id ?fs)"
    using order by (simp_all add: in_order_def)
  have keys: "map key_of ?fs @ flits_left s = ?K" and dist: "distinct (map fst ps)" using pk by (simp_all add: source_packets_def)
  have K: "?j < length ?K" "?K ! ?j = (fl_packet_id ?f, fl_id ?f, fl_msg ?f)" "take ?j ?K = map key_of (take ?j ?fs)"
    using more by (simp_all add: keys [symmetric] nth_append key_of_def take_map)
  show ids: "map fst (st_log t) = map fl_packet_id (take ?j ?fs)"
    using pre by (metis length_map prefix_def append_eq_conv_conj take_map)
  have count: "st_count t k = length (filter (\<lambda>f. fl_packet_id f = k) (take ?j ?fs))" for k
    using arg_cong [OF ids, of "\<lambda>l. length (filter (\<lambda>x. x = k) l)"] sink_reach_count [OF reach, of k]
    by (simp add: filter_map o_def)
  have f: "?f \<in> set ?fs" using more by simp
  show "next_in (messages_of ?fs) t ?f"
    using keys_position [OF dist K(1,2)] source_flits(2) [OF pk f] unfolding K(3)
    by (simp add: next_in_def count filter_map o_def key_of_def)
qed

lemma in_order_step:
  assumes order: "in_order net (injected s) s0 t" and ids: "map fst (st_log t) = map fl_packet_id (take (length (st_log t)) (injected s))"
    and more: "length (st_log t) < length (injected s)" and step: "sink_step net (messages_of (injected s)) t t'"
    and log: "st_log t' = st_log t @ [(fl_packet_id (injected s ! length (st_log t)), ds)]"
  shows "in_order net (injected s) s0 t'"
proof -
  let ?fs = "injected s" and ?j = "length (st_log t)"
  have "map fst (st_log t') = map fl_packet_id (take (Suc ?j) ?fs)" using log ids more by (simp add: take_Suc_conv_app_nth)
  then have "prefix (map fst (st_log t')) (map fl_packet_id ?fs)" by (simp add: take_is_prefix take_map [symmetric])
  moreover have "sink_reach net (messages_of ?fs) s0 t'" using order step by (auto simp: in_order_def sink_reach_def)
  ultimately show ?thesis by (simp add: in_order_def)
qed

lemma in_order_next:
  assumes dest: "sink_setup w 0 s0" and pk: "source_packets s ps" and order: "in_order net (injected s) s0 t"
    and more: "length (st_log t) < length (injected s)"
  shows "\<exists>t'. in_order net (injected s) s0 t' \<and> length (st_log t') = Suc (length (st_log t))"
proof -
  have reach: "sink_reach net (messages_of (injected s)) s0 t" using order by (simp add: in_order_def)
  note nx = in_order_next_in [OF pk order more]
  from sink_accepts [OF sink_reach_inv [OF reach sink_setup_inv [OF dest pk]] nx(1)] obtain t' ds where
    t': "sink_step net (messages_of (injected s)) t t'" "st_log t' = st_log t @ [(fl_packet_id (injected s ! length (st_log t)), ds)]" by metis
  then show ?thesis using in_order_step [OF order nx(2) more t'] by auto
qed

lemma in_order_all:
  assumes "sink_setup w 0 s0" and "source_packets s ps" and "n \<le> length (injected s)"
  shows "\<exists>t. in_order net (injected s) s0 t \<and> length (st_log t) = n"
  using assms(3)
proof (induction n)
  case 0
  have "in_order net (injected s) s0 (sink_start s0)" by (simp add: in_order_def sink_reach_def sink_start_def)
  then show ?case by (intro exI [of _ "sink_start s0"]) (simp add: sink_start_def)
next
  case (Suc n)
  then show ?case using in_order_next [OF assms(1,2)] by fastforce
qed

section \<open>Properties\<close>

lemma drain_source_reach:
  "drain_source net k (s, b) = Inr (s', b') \<Longrightarrow> source_reach net (s, b, q) ds \<Longrightarrow> source_reach net (s', b', q) ds"
proof (induction k arbitrary: s b)
  case (Suc k)
  then show ?case by (cases "deqScheduled s") (auto simp: rbind_Inr_iff intro: source_reach.fire)
qed simp

lemma idle_source:
  assumes "source_reach net (s, b, q) ds" and "sent s = beats_stream ds"
  shows "flits_left s = [] \<and> inflight s = []"
proof -
  have "inflight s = []" using source_reach_inv3(2) [OF assms(1)] assms(2) by simp
  moreover have "nmu_inv s" using source_reach_inv3(1) [OF assms(1)] by (simp add: source_inv_def)
  ultimately show ?thesis using nmu_busy [of s] by (auto simp: flits_left_def Let_def)
qed

text \<open>The two endpoints together can always finish: the source drains and the destination takes every flit.\<close>

lemma path_completes:
  assumes "source_reach net (s, b, []) ds" and "ds \<noteq> []" and "tlast (last ds)" and "sink_setup w 0 s0"
  obtains s' b' t where "drain_source net 512 (s, b) = Inr (s', b')" "source_reach net (s', b', []) ds" "sent s' = beats_stream ds"
    "in_order snet (injected s') s0 t" "length (st_log t) = length (injected s')"
proof -
  obtain s' b' where d: "drain_source net 512 (s, b) = Inr (s', b')" "sent s' = beats_stream ds"
    using drain_delivers [OF assms(1-3)] by blast
  note reach = drain_source_reach [OF d(1) assms(1)]
  then obtain ps where "source_packets s' ps" using source_reach_packets by blast
  from in_order_all [OF assms(4) this order_refl] obtain t where
    "in_order snet (injected s') s0 t" "length (st_log t) = length (injected s')" by blast
  then show thesis using d reach that by blast
qed

lemma path_prefix:
  assumes "source_reach net (s, b, q) ds" and "sink_setup w n s0" and "in_order snet (injected s) s0 t"
  shows "prefix (received t) (beats_stream ds)"
    and "sent s = beats_stream ds \<Longrightarrow> length (st_log t) = length (injected s) \<Longrightarrow> received t = beats_stream ds"
proof -
  obtain ps where pk: "source_packets s ps" using source_reach_packets [OF assms(1)] by blast
  note r = received_packets [OF assms(2) pk assms(3)]
  have all: "sent s @ inflight s @ stream b @ pending_stream q = beats_stream ds" by (rule source_reach_inv3(2) [OF assms(1)])
  then have "prefix (sent s @ inflight s) (beats_stream ds)" by (metis append.assoc prefixI)
  then show "prefix (received t) (beats_stream ds)" using r prefix_order.order_trans by blast
  show "received t = beats_stream ds" if "sent s = beats_stream ds" "length (st_log t) = length (injected s)"
    using r that idle_source [OF assms(1) that(1)] by simp
qed

text \<open>C1: The stream path transports data unchanged from end to end. Take any reachable source endpoint and
  any execution of a destination endpoint that is offered the injected flits in their order, with
  refusals, retries and takes in between: the bytes and packet ends the destination hands out are always a
  prefix of those of the beats handshaken at the source, and all of them once the source
  has injected everything and the destination has accepted every flit.\<close>

theorem stream_end_to_end:
  assumes "source_reach net (s, b, q) ds" and "sink_setup w n s0" and "in_order snet (injected s) s0 t"
  shows "prefix (received t) (beats_stream ds) \<and>
    (sent s = beats_stream ds \<and> length (st_log t) = length (injected s) \<longrightarrow> received t = beats_stream ds)"
  using path_prefix [OF assms] by blast

definition wide_sink :: sNSU where
  "wide_sink = projr (new_sNSU 5 256 False 32 0 0 (Some (connected 0 0 True rand_disabled)))"

lemma wide_sink_setup: "sink_setup 256 0 wide_sink"
proof -
  have "new_sNSU 5 256 False 32 0 0 (Some (connected 0 0 True rand_disabled)) = Inr wide_sink"
    by (simp add: wide_sink_def new_sNSU_def)
  then show ?thesis unfolding sink_setup_def by (auto simp: width_fits_def width_ok_def)
qed

theorem stream_end_to_end_witness:
  "\<exists>s b t. source_reach sample_net (s, b, []) [full_beat 20 True] \<and> in_order sample_sink_net (injected s) wide_sink t \<and>
    received t = beats_stream [full_beat 20 True]"
proof -
  obtain s b where "source_reach sample_net (s, b, []) [full_beat 20 True]" using sample_arrived by blast
  then obtain s' b' t where r: "source_reach sample_net (s', b', []) [full_beat 20 True]" "sent s' = beats_stream [full_beat 20 True]"
    "in_order sample_sink_net (injected s') wide_sink t" "length (st_log t) = length (injected s')"
    using path_completes [OF _ _ _ wide_sink_setup] by (metis full_beat_facts(5) last.simps list.discI)
  from stream_end_to_end [OF r(1) wide_sink_setup r(3)] r show ?thesis by blast
qed

text \<open>Nothing stays behind. When the last beat handshaken closes its packet and has arrived, the drain event of
  the source ends within 512 firings, and a destination with an unbounded buffer has an execution that takes every
  flit injected and hands out exactly the bytes and packet ends of the beats handshaken at the source.\<close>

lemma stream_path_completes:
  assumes "source_reach net (s, b, []) ds" and "ds \<noteq> []" and "tlast (last ds)" and "sink_setup w 0 s0"
  shows "\<exists>s' b' t. drain_source net 512 (s, b) = Inr (s', b') \<and> in_order snet (injected s') s0 t \<and>
    length (st_log t) = length (injected s') \<and> received t = beats_stream ds"
proof -
  obtain s' b' t where r: "drain_source net 512 (s, b) = Inr (s', b')" "source_reach net (s', b', []) ds" "sent s' = beats_stream ds"
    "in_order snet (injected s') s0 t" "length (st_log t) = length (injected s')"
    by (rule path_completes [OF assms])
  then show ?thesis using path_prefix(2) [OF r(2) assms(4) r(4)] by blast
qed

lemma stream_path_completes_witness:
  "\<exists>s b s' b' t. source_reach sample_net (s, b, []) [full_beat 20 True] \<and> drain_source sample_net 512 (s, b) = Inr (s', b') \<and>
    in_order sample_sink_net (injected s') wide_sink t \<and> received t = beats_stream [full_beat 20 True]"
proof -
  obtain s b where "source_reach sample_net (s, b, []) [full_beat 20 True]" using sample_arrived by blast
  with stream_path_completes [OF this _ _ wide_sink_setup, where snet = sample_sink_net] show ?thesis by auto
qed

end
