(* ===== verification/Packet_Checker.thy ===== *)
theory Packet_Checker
  imports Axis_Packet_Props Stream_System
begin

text \<open>
  The checking stream sink (\<open>src/noc/endpoints/sink/AxisPacketCheckerSink.cc\<close>): it collects the bytes of the beats it
  accepts and validates each packet at its end, in one of three modes. The parsed addresses and payload sizes and
  the random draws of its ready signal are arguments; the printed summary is left out.

  The last section puts it behind the stream path: packets of the builder that enter the network at a stream source
  are all found valid behind the stream destination.
\<close>

section \<open>State\<close>

datatype CheckMode = Exact | Ipv4 | NatOutbound

definition lower :: "string \<Rightarrow> string" where
  "lower s = map (\<lambda>c. let n = of_char c :: nat in if 65 \<le> n \<and> n \<le> 90 then char_of (n + 32) else c) s"

definition parseCheckMode :: "string \<Rightarrow> CheckMode" where
  "parseCheckMode mode =
     (let m = lower mode in if m = ''ipv4'' then Ipv4 else if m = ''nat_outbound'' then NatOutbound else Exact)"

record checker =
  cs_tready :: bool
  cs_next_tready :: bool
  cs_masterIn :: axisMasterState
  cs_expectedStream :: "axisData list"
  cs_packetBytes :: "byte list"
  cs_checkMode :: CheckMode
  cs_dataWidthBits :: nat
  cs_expectedPackets :: nat
  cs_packetsReceived :: nat
  cs_beatsReceived :: nat
  cs_bytesReceived :: nat
  cs_firstBeatTick :: Tick
  cs_lastBeatTick :: Tick
  cs_sawBeat :: bool
  cs_expectedBeat :: nat
  cs_readyPercent :: nat
  cs_validateIpv4 :: bool
  cs_validateL4 :: bool
  cs_skipBytes :: nat
  cs_checkTdest :: bool
  cs_expectedTdest :: u32
  cs_natPublicIp :: u32
  cs_natBasePort :: u16
  cs_natPortCount :: u16
  cs_clockDomains :: "int list"

text \<open>The constructor, given the stream expected in the exact mode.\<close>

definition new_checker ::
  "CheckMode \<Rightarrow> axisData list \<Rightarrow> nat \<Rightarrow> nat \<Rightarrow> nat \<Rightarrow> nat \<Rightarrow> nat \<Rightarrow> bool \<Rightarrow> bool \<Rightarrow> nat \<Rightarrow> bool \<Rightarrow> u32 \<Rightarrow> u32 \<Rightarrow> u16 \<Rightarrow> u16 \<Rightarrow>
    int list \<Rightarrow> checker" where
  "new_checker mode expected data_width tid_width tdest_width expected_packets ready_percent vIp vL4 skip check_tdest dst natIp
      natBase natCount domains =
     \<lparr> cs_tready = True, cs_next_tready = True, cs_masterIn = new_axisMasterState data_width tid_width tdest_width,
       cs_expectedStream = (if mode = Exact then expected else []), cs_packetBytes = [], cs_checkMode = mode,
       cs_dataWidthBits = data_width, cs_expectedPackets = expected_packets, cs_packetsReceived = 0, cs_beatsReceived = 0,
       cs_bytesReceived = 0, cs_firstBeatTick = 0, cs_lastBeatTick = 0, cs_sawBeat = False, cs_expectedBeat = 0,
       cs_readyPercent = ready_percent, cs_validateIpv4 = vIp, cs_validateL4 = vL4, cs_skipBytes = skip,
       cs_checkTdest = check_tdest, cs_expectedTdest = dst, cs_natPublicIp = natIp, cs_natBasePort = natBase,
       cs_natPortCount = natCount, cs_clockDomains = domains \<rparr>"

section \<open>Checks\<close>

definition readBe32 :: "byte list \<Rightarrow> nat \<Rightarrow> u32 result" where
  "readBe32 bytes off =
     rbind (get_at bytes off) (\<lambda>b0. rbind (get_at bytes (off + 1)) (\<lambda>b1. rbind (get_at bytes (off + 2)) (\<lambda>b2.
     rbind (get_at bytes (off + 3)) (\<lambda>b3.
     Inr (push_bit 24 (ucast b0) OR push_bit 16 (ucast b1) OR push_bit 8 (ucast b2) OR ucast b3)))))"

text \<open>The loop over the keep bits: whether a zero was seen, and whether no one followed it. The mask has 64 bits,
  the widest bus of the model 512; the bits of a wider bus count as zero.\<close>

definition keepIsPrefix :: "u64 \<Rightarrow> nat \<Rightarrow> bool" where
  "keepIsPrefix keep dataWidthBits =
     snd (fold (\<lambda>i (seenZero, ok). if \<not> bit keep i then (True, ok) else (seenZero, ok \<and> \<not> seenZero))
            [0..<dataWidthBits div 8] (False, True))"

definition checkExactBeat :: "axisData \<Rightarrow> checker \<Rightarrow> checker result" where
  "checkExactBeat beat s =
     (if length (cs_expectedStream s) \<le> cs_expectedBeat s then Inl (Fatal ''received more beats than expected'')
      else
        let e = cs_expectedStream s ! cs_expectedBeat s; validBytes = axis_getTotalByteSize e
        in if tkeep beat \<noteq> tkeep e then Inl (Fatal ''TKEEP mismatch'')
           else if tlast beat \<noteq> tlast e then Inl (Fatal ''TLAST mismatch'')
           else if tid beat \<noteq> tid e \<or> tdest beat \<noteq> tdest e \<or> tuser beat \<noteq> tuser e then Inl (Fatal ''sideband mismatch'')
           else if length (tdata beat) < validBytes \<or> length (tdata e) < validBytes then Inl (Undefined ''tdata index'')
           else if take validBytes (tdata beat) \<noteq> take validBytes (tdata e) then Inl (Fatal ''byte mismatch'')
           else Inr (s\<lparr> cs_expectedBeat := cs_expectedBeat s + 1 \<rparr>))"

text \<open>The upper bound of the port range is computed in sixteen bits.\<close>

definition checkNatOutboundPacket :: "checker \<Rightarrow> unit result" where
  "checkNatOutboundPacket s =
     (if length (cs_packetBytes s) < 24 then Inl (Fatal ''NAT output packet too short'')
      else
        rbind (readBe32 (cs_packetBytes s) 12) (\<lambda>srcIp. rbind (readBe16 (cs_packetBytes s) 20) (\<lambda>srcPort.
          if srcIp \<noteq> cs_natPublicIp s then Inl (Fatal ''NAT src IP mismatch'')
          else if srcPort < cs_natBasePort s \<or> srcPort \<ge> cs_natBasePort s + cs_natPortCount s
          then Inl (Fatal ''NAT src port outside expected range'')
          else Inr ())))"

definition checkPacket :: "checker \<Rightarrow> unit result" where
  "checkPacket s =
     (if length (cs_packetBytes s) < cs_skipBytes s then Inl (Fatal ''validation skip exceeds packet size'')
      else
        rbind (validateIpv4Packet (drop (cs_skipBytes s) (cs_packetBytes s)) (cs_validateIpv4 s) (cs_validateL4 s)) (\<lambda>reason.
          case reason of
            Some _ \<Rightarrow> Inl (Fatal ''invalid IPv4 packet'')
          | None \<Rightarrow> if cs_checkMode s = NatOutbound then checkNatOutboundPacket s else Inr ()))"

section \<open>Accepting a beat\<close>

definition acceptBeat :: "Tick \<Rightarrow> axisData \<Rightarrow> checker \<Rightarrow> checker result" where
  "acceptBeat now beat s =
     (if \<not> keepIsPrefix (tkeep beat) (cs_dataWidthBits s) then Inl (Fatal ''non-prefix TKEEP'')
      else
        rbind (if cs_checkMode s = Exact then checkExactBeat beat s
               else if cs_checkTdest s \<and> tdest beat \<noteq> cs_expectedTdest s then Inl (Fatal ''TDEST mismatch'')
               else Inr s) (\<lambda>s1.
          let validBytes = axis_getTotalByteSize beat;
              s2 = (if cs_sawBeat s1 then s1 else s1\<lparr> cs_firstBeatTick := now, cs_sawBeat := True \<rparr>)
          in if length (tdata beat) < validBytes then Inl (Fatal ''beat reports more bytes than TDATA holds'')
             else
               let s3 = s2\<lparr> cs_lastBeatTick := now, cs_packetBytes := cs_packetBytes s2 @ take validBytes (tdata beat),
                          cs_beatsReceived := cs_beatsReceived s2 + 1, cs_bytesReceived := cs_bytesReceived s2 + validBytes \<rparr>
               in if tlast beat
                  then rbind (checkPacket s3) (\<lambda>_.
                         Inr (s3\<lparr> cs_packetsReceived := trunc32 (cs_packetsReceived s3 + 1), cs_packetBytes := [] \<rparr>))
                  else Inr s3))"

definition checker_tick :: "Tick \<Rightarrow> int \<Rightarrow> checker \<Rightarrow> (bool \<times> checker) result" where
  "checker_tick now clockDomain s =
     (if cs_clockDomains s \<noteq> [] \<and> clockDomain \<noteq> hd (cs_clockDomains s) then Inr (False, s)
      else rbind (if cs_tready s \<and> tvalid (ms_data (cs_masterIn s)) then acceptBeat now (ms_data (cs_masterIn s)) s else Inr s)
             (\<lambda>s'. Inr (True, s'\<lparr> cs_tready := cs_next_tready s' \<rparr>)))"

text \<open>\<open>draw\<close> is the next random number below one hundred.\<close>

definition checker_update :: "nat \<Rightarrow> int \<Rightarrow> State \<Rightarrow> checker \<Rightarrow> checker result" where
  "checker_update draw portID st s =
     (if portID \<noteq> 0 then Inl (Panic ''AxisPacketCheckerSink::update invalid portID'')
      else case st of
             StAxisMaster m \<Rightarrow> Inr (s\<lparr> cs_masterIn := m, cs_next_tready := (draw < cs_readyPercent s) \<rparr>)
           | _ \<Rightarrow> Inl (Panic ''AxisPacketCheckerSink::update expected axisMasterState''))"

definition checker_done :: "checker \<Rightarrow> bool" where
  "checker_done s \<longleftrightarrow> cs_expectedPackets s = 0 \<or> cs_expectedPackets s \<le> cs_packetsReceived s"

section \<open>Runs of the checker\<close>

fun accept_beats :: "(Tick \<times> axisData) list \<Rightarrow> checker \<Rightarrow> checker result" where
  "accept_beats [] s = Inr s"
| "accept_beats ((now, d) # ds) s = rbind (acceptBeat now d s) (accept_beats ds)"

lemma keep_loop:
  "fold (\<lambda>i (seenZero, ok). if \<not> bit keep i then (True, ok) else (seenZero, ok \<and> \<not> seenZero)) [0..<m] (False, True) =
    (\<exists>i < m. \<not> bit keep i, \<forall>i j. i < j \<longrightarrow> j < m \<longrightarrow> bit keep j \<longrightarrow> bit keep i)" for keep :: u64
  by (induction m) (auto simp: less_Suc_eq)

lemma keepIsPrefix_low_mask: "keepIsPrefix (low_mask n) w"
  unfolding keepIsPrefix_def keep_loop by (auto simp: bit_low_mask)

lemma beat_shape_facts:
  assumes "beat_shape w d" and "width_ok w"
  shows "axis_wf d" "kept_bytes d \<noteq> []" "axis_getTotalByteSize d \<le> length (tdata d)"
    "take (axis_getTotalByteSize d) (tdata d) = kept_bytes d" "keepIsPrefix (tkeep d) w"
proof -
  obtain n where d: "DATA_WIDTH d = w" "length (tdata d) = w div 8" "0 < n" "tkeep d = low_mask n"
    using assms(1) by (auto simp: beat_shape_def)
  have w: "w \<le> 512" "0 < w div 8" "w div 8 \<le> 64" using assms(2) by (auto simp: width_ok_def)
  show wf: "axis_wf d" using d w by (simp add: axis_wf_def)
  have "kept_bytes d = take n (tdata d)"
  proof (cases "n \<le> w div 8")
    case True
    then show ?thesis using d w by (simp add: kept_bytes_def kept_low_mask)
  next
    case False
    have "kept (low_mask n) (tdata d) = kept (low_mask (w div 8)) (tdata d)"
      using False d(2) w(3) by (auto simp: kept_def bit_low_mask intro!: arg_cong [where f = "map _"] filter_cong)
    then show ?thesis using False d w by (simp add: kept_bytes_def kept_low_mask)
  qed
  moreover have "axis_getTotalByteSize d = length (kept_bytes d)" by (rule getTotalByteSize_kept [OF wf])
  ultimately show "kept_bytes d \<noteq> []" "axis_getTotalByteSize d \<le> length (tdata d)" "take (axis_getTotalByteSize d) (tdata d) = kept_bytes d"
    using d w by (auto simp: min_def)
  show "keepIsPrefix (tkeep d) w" by (simp add: d keepIsPrefix_low_mask)
qed

text \<open>The first packet of a sequence of marked packets is found at the first mark.\<close>

lemma mark_Cons: "mark (c # cs) l = (c, cs = [] \<and> l) # mark cs l"
  by (cases cs) (simp_all add: mark_def)

lemma first_packet:
  "prefix (mark a True @ x) (mark b True @ y) \<Longrightarrow> a \<noteq> [] \<Longrightarrow> b \<noteq> [] \<Longrightarrow> a = b \<and> prefix x y"
proof (induction a arbitrary: b)
  case (Cons c cs)
  obtain d ds where b: "b = d # ds" using Cons.prems(3) by (cases b) auto
  show ?case using Cons.prems(1) Cons.IH [of ds] by (auto simp: b mark_Cons)
qed simp

lemma mark_False_append: "mark xs False @ mark ys False = mark (xs @ ys) False"
  by (cases "ys = []") (simp_all add: mark_append)

lemma mark_open: "z \<in> set (mark xs False) \<Longrightarrow> \<not> snd z"
  by (induction xs) (auto simp: mark_Cons)

lemma mark_closed: "xs \<noteq> [] \<Longrightarrow> \<exists>z \<in> set (mark xs True). snd z"
  by (induction xs) (auto simp: mark_Cons)

definition packets_stream :: "byte list list \<Rightarrow> (byte \<times> bool) list" where
  "packets_stream ps = concat (map (\<lambda>p. mark p True) ps)"

definition ipv4_checker :: "nat \<Rightarrow> bool \<Rightarrow> bool \<Rightarrow> checker \<Rightarrow> bool" where
  "ipv4_checker w v v' s \<longleftrightarrow> cs_checkMode s = Ipv4 \<and> \<not> cs_checkTdest s \<and> cs_skipBytes s = 0 \<and> cs_dataWidthBits s = w \<and>
     cs_validateIpv4 s = v \<and> cs_validateL4 s = v'"

lemma accept_shaped:
  assumes s: "ipv4_checker w v v' s" and d: "beat_shape w d" "width_ok w"
  shows "acceptBeat now d s =
    (let s3 = (if cs_sawBeat s then s else s\<lparr> cs_firstBeatTick := now, cs_sawBeat := True \<rparr>)
       \<lparr> cs_lastBeatTick := now, cs_packetBytes := cs_packetBytes s @ kept_bytes d,
         cs_beatsReceived := cs_beatsReceived s + 1, cs_bytesReceived := cs_bytesReceived s + length (kept_bytes d) \<rparr>
     in if tlast d
        then (case validateIpv4Packet (cs_packetBytes s @ kept_bytes d) v v' of
                Inl e \<Rightarrow> Inl e | Inr (Some _) \<Rightarrow> Inl (Fatal ''invalid IPv4 packet'')
              | Inr None \<Rightarrow> Inr (s3\<lparr> cs_packetsReceived := trunc32 (cs_packetsReceived s + 1), cs_packetBytes := [] \<rparr>))
        else Inr s3)"
proof -
  note f = beat_shape_facts [OF d]
  have "axis_getTotalByteSize d = length (kept_bytes d)" by (rule getTotalByteSize_kept [OF f(1)])
  then show ?thesis using s f(3-5)
    by (simp add: acceptBeat_def ipv4_checker_def checkPacket_def Let_def rbind_def split: sum.split option.split)
qed

lemma checker_run:
  assumes "ipv4_checker w v v' s" and "width_ok w" and "\<forall>x \<in> set ds. beat_shape w (snd x)"
    and "\<forall>p \<in> set ps. p \<noteq> [] \<and> validateIpv4Packet p v v' = Inr None"
    and "prefix (mark (cs_packetBytes s) False @ beats_stream (map snd ds)) (packets_stream ps)"
  shows "\<exists>s'. accept_beats ds s = Inr s' \<and>
    (mark (cs_packetBytes s) False @ beats_stream (map snd ds) = packets_stream ps \<longrightarrow>
       cs_packetsReceived s' mod 2 ^ 32 = (cs_packetsReceived s + length ps) mod 2 ^ 32 \<and> cs_packetBytes s' = [])"
  using assms
proof (induction ds arbitrary: s ps)
  case Nil
  have "ps = []" if eq: "mark (cs_packetBytes s) False = packets_stream ps"
  proof (rule ccontr)
    assume "ps \<noteq> []"
    then obtain p ps' where ps: "ps = p # ps'" by (cases ps) auto
    then obtain z where "z \<in> set (packets_stream ps)" "snd z" using mark_closed [of p] Nil.prems(4) by (auto simp: packets_stream_def)
    then show False using mark_open eq by metis
  qed
  then show ?case by (auto simp: packets_stream_def beats_stream_def)
next
  case (Cons x ds)
  obtain now d where x: "x = (now, d)" by force
  have d: "beat_shape w d" using Cons.prems(3) by (simp add: x)
  note f = beat_shape_facts [OF d Cons.prems(2)] and run = accept_shaped [OF Cons.prems(1) d Cons.prems(2), of now]
  let ?bs = "cs_packetBytes s @ kept_bytes d" and ?rest = "beats_stream (map snd ds)"
  have stream: "beats_stream (map snd (x # ds)) = mark (kept_bytes d) (tlast d) @ ?rest"
    by (simp add: x beats_stream_def beat_stream_def)
  show ?case
  proof (cases "tlast d")
    case False
    obtain s1 where s1: "acceptBeat now d s = Inr s1" "ipv4_checker w v v' s1" "cs_packetBytes s1 = ?bs" "cs_packetsReceived s1 = cs_packetsReceived s"
      using run False Cons.prems(1) by (auto simp: Let_def ipv4_checker_def)
    have "mark (cs_packetBytes s) False @ beats_stream (map snd (x # ds)) = mark (cs_packetBytes s1) False @ ?rest"
      using False unfolding stream by (simp add: s1(3) flip: mark_False_append)
    then show ?thesis using Cons.IH [OF s1(2) Cons.prems(2) _ Cons.prems(4)] Cons.prems(3,5) s1(1,4) by (simp add: x)
  next
    case True
    have eq: "mark (cs_packetBytes s) False @ beats_stream (map snd (x # ds)) = mark ?bs True @ ?rest"
      using True mark_append [OF f(2)] unfolding stream by simp
    obtain p ps' where ps: "ps = p # ps'"
      using Cons.prems(5) f(2) unfolding eq by (cases ps) (auto simp: packets_stream_def)
    have p: "p = ?bs" "prefix ?rest (packets_stream ps')"
      using first_packet [of ?bs ?rest p "packets_stream ps'"] Cons.prems(4,5) f(2) unfolding eq by (auto simp: ps packets_stream_def)
    obtain s1 where s1: "acceptBeat now d s = Inr s1" "ipv4_checker w v v' s1" "cs_packetBytes s1 = []"
      "cs_packetsReceived s1 = trunc32 (cs_packetsReceived s + 1)"
      using run True Cons.prems(1,4) by (auto simp: Let_def ipv4_checker_def ps p(1) [symmetric])
    obtain s' where s': "accept_beats ds s1 = Inr s'" "?rest = packets_stream ps' \<longrightarrow>
        cs_packetsReceived s' mod 2 ^ 32 = (cs_packetsReceived s1 + length ps') mod 2 ^ 32 \<and> cs_packetBytes s' = []"
      using Cons.IH [OF s1(2) Cons.prems(2), of ps'] Cons.prems(3,4) p(2) by (auto simp: ps s1(3))
    have "(cs_packetsReceived s1 + length ps') mod 2 ^ 32 = (cs_packetsReceived s + length ps) mod 2 ^ 32"
      by (simp add: s1(4) trunc32_def ps mod_add_left_eq)
    moreover have "mark ?bs True @ ?rest = packets_stream ps \<longleftrightarrow> ?rest = packets_stream ps'"
      by (simp add: ps p(1) packets_stream_def)
    ultimately show ?thesis using s1(1) s' unfolding eq by (auto simp: x)
  qed
qed

section \<open>Packets through the stream path\<close>

lemma received_shaped:
  assumes "source_reach net sbq ds" and "sink_setup w n s0" and "in_order snet (injected (fst sbq)) s0 t"
  shows "\<forall>d \<in> set (sent_beats (ns_sent (st_nsu t))). beat_shape w d"
proof -
  obtain s b q where sbq: "sbq = (s, b, q)" by (metis prod_cases3)
  obtain ps where pk: "source_packets s ps" using source_reach_packets assms(1) unfolding sbq by blast
  have "sink_reach snet (messages_of (injected s)) s0 t" using assms(3) by (simp add: in_order_def sbq)
  from sink_reach_inv [OF this sink_setup_inv [OF assms(2) pk]] show ?thesis by (simp add: sink_inv_def)
qed

lemma rmap_Inr_each:
  "rmap f xs = Inr ys \<Longrightarrow> length ys = length xs \<and> (\<forall>k < length xs. f (xs ! k) = Inr (ys ! k))"
proof (induction xs arbitrary: ys)
  case (Cons x xs)
  then obtain z zs where "f x = Inr z" "rmap f xs = Inr zs" "ys = z # zs" by (auto simp: rbind_Inr_iff)
  with Cons.IH show ?case by (auto simp: less_Suc_eq_0_disj)
qed simp

lemma packetToAxisBeats_stream:
  assumes "packetToAxisBeats p w iw dw i dst usr = Inr ds"
  shows "beats_stream ds = mark p True" "\<forall>d \<in> set ds. axis_wf d \<and> kept_bytes d \<noteq> [] \<and> tid d = i \<and> tdest d = dst"
proof -
  have w: "0 < w div 8" "w \<le> 512" and ds: "ds = beats_loop (w div 8) (packet_beat w iw dw i dst usr) p"
    using assms by (auto simp: packetToAxisBeats_def split: if_splits)
  show "beats_stream ds = mark p True" unfolding ds
    by (rule beats_loop_stream [OF w(1)]) (use packet_beat_facts(2,3) w(2) in simp)
  have "axis_wf d \<and> kept_bytes d \<noteq> [] \<and> tid d = i \<and> tdest d = dst" if "d \<in> set ds" for d
    by (rule beats_loop_all [OF w(1) _ that [unfolded ds]]) (use packet_beat_facts(1,2,4,5) w(2) in auto)
  then show "\<forall>d \<in> set ds. axis_wf d \<and> kept_bytes d \<noteq> [] \<and> tid d = i \<and> tdest d = dst" by blast
qed

lemma beats_stream_all: "beats_stream (concat bss) = concat (map beats_stream bss)"
  by (induction bss) (simp_all add: beats_stream_def)

text \<open>The stream of the builder is a sequence of valid packets.\<close>

lemma built_stream:
  assumes "buildAxisPacketStream profile N flowCount sizes w iw dw i dst usr srcIp dstIp sp dp False False 0 pv = Inr ds"
  shows "\<exists>ps. length ps = unat N \<and> beats_stream ds = packets_stream ps \<and> (\<forall>p \<in> set ps. p \<noteq> [] \<and> validateIpv4Packet p v v' = Inr None)"
proof -
  let ?pk = "\<lambda>k. buildIpv4Packet profile (of_nat k) flowCount (sizes ! (k mod length sizes)) srcIp dstIp sp dp False False"
  obtain bss where bss: "rmap (\<lambda>k. rbind (?pk k) (\<lambda>packet. rbind (add_prefix 0 pv packet) (\<lambda>packet. packetToAxisBeats packet w iw dw i dst usr)))
      [0..<unat N] = Inr bss" "ds = concat bss"
    using assms by (auto simp: buildAxisPacketStream_def buildAxisPackets_def rbind_Inr_iff split: if_splits)
  note each = rmap_Inr_each [OF bss(1)]
  have "\<exists>p. ?pk k = Inr p \<and> packetToAxisBeats p w iw dw i dst usr = Inr (bss ! k)" if "k < unat N" for k
    using each that by (auto simp: rbind_Inr_iff add_prefix_def)
  then obtain f where f: "\<And>k. k < unat N \<Longrightarrow> ?pk k = Inr (f k) \<and> packetToAxisBeats (f k) w iw dw i dst usr = Inr (bss ! k)" by metis
  let ?ps = "map f [0..<unat N]"
  have "map beats_stream bss = map (\<lambda>p. mark p True) ?ps"
  proof (rule nth_equalityI)
    fix k
    assume "k < length (map beats_stream bss)"
    then have k: "k < unat N" using each by simp
    then show "map beats_stream bss ! k = map (\<lambda>p. mark p True) ?ps ! k"
      using packetToAxisBeats_stream(1) f [OF k] each by auto
  qed (use each in simp)
  then have "beats_stream ds = packets_stream ?ps" unfolding bss(2) packets_stream_def beats_stream_all by simp
  moreover have "f k \<noteq> [] \<and> validateIpv4Packet (f k) v v' = Inr None" if "k < unat N" for k
  proof -
    have b: "?pk k = Inr (f k)" using f [OF that] by simp
    have "0 < length (f k)" using built_valid [OF b] by (simp add: packet_length_def)
    then show ?thesis using built_valid [OF b] by auto
  qed
  ultimately show ?thesis by (intro exI [of _ ?ps]) auto
qed

lemma checked_stream:
  assumes c: "ipv4_checker w v v' c" "cs_packetBytes c = []" and w: "width_ok w"
    and xs: "map snd xs = sent_beats (ns_sent (st_nsu t))" and shape: "\<forall>d \<in> set (sent_beats (ns_sent (st_nsu t))). beat_shape w d"
    and ps: "prefix (received t) (packets_stream ps)" "\<forall>p \<in> set ps. p \<noteq> [] \<and> validateIpv4Packet p v v' = Inr None"
  shows "\<exists>c'. accept_beats xs c = Inr c' \<and> (received t = packets_stream ps \<longrightarrow>
    cs_packetsReceived c' mod 2 ^ 32 = (cs_packetsReceived c + length ps) mod 2 ^ 32)"
proof -
  have "\<forall>x \<in> set xs. beat_shape w (snd x)" using shape unfolding xs [symmetric] by simp
  moreover have "beats_stream (map snd xs) = received t" by (simp add: xs received_def)
  ultimately show ?thesis using checker_run [OF c(1) w _ ps(2), of xs] ps(1) by (auto simp: c(2))
qed

section \<open>Properties\<close>

text \<open>C3: The stream path carries test packets to the checker intact. Let a source endpoint have taken any number of the
  beats of a built stream of packets, and let a destination endpoint be offered its flits in order: a checker
  in the IPv4 mode behind the destination accepts every beat it is given, and when the whole stream has come
  through it has counted all packets.\<close>

theorem packets_arrive_valid:
  assumes "buildAxisPacketStream profile N flowCount sizes dw idw ddw i dst usr srcIp dstIp sp dp False False 0 pv = Inr ds"
    and "source_reach net (s, b, q) ds'" and "prefix ds' ds" and "sink_setup w n s0" and "in_order snet (injected s) s0 t"
    and "ipv4_checker w v v' c" and "cs_packetBytes c = []" and "map snd xs = sent_beats (ns_sent (st_nsu t))"
  shows "\<exists>c'. accept_beats xs c = Inr c' \<and> (received t = beats_stream ds \<longrightarrow>
    cs_packetsReceived c' mod 2 ^ 32 = (cs_packetsReceived c + unat N) mod 2 ^ 32)"
proof -
  obtain ps where ps: "length ps = unat N" "beats_stream ds = packets_stream ps"
    "\<forall>p \<in> set ps. p \<noteq> [] \<and> validateIpv4Packet p v v' = Inr None"
    using built_stream [OF assms(1)] by blast
  have "prefix (received t) (beats_stream ds')" by (rule path_prefix [OF assms(2,4,5)])
  moreover have "prefix (beats_stream ds') (beats_stream ds)" using assms(3) by (auto simp: prefix_def beats_stream_def)
  ultimately have "prefix (received t) (packets_stream ps)" using ps(2) prefix_order.order_trans by metis
  moreover have "\<forall>d \<in> set (sent_beats (ns_sent (st_nsu t))). beat_shape w d"
    using received_shaped [OF assms(2,4)] assms(5) by simp
  moreover have "width_ok w" using assms(4) by (simp add: sink_setup_def width_fits_def)
  ultimately show ?thesis using checked_stream [OF assms(6,7) _ assms(8)] ps by metis
qed

text \<open>A packet of one beat, and a source that has taken it.\<close>

lemma source_single:
  assumes "axis_wf d" and "kept_bytes d \<noteq> []"
  shows "\<exists>s b. source_reach net (s, b, []) [d]"
proof -
  define up where "up = (new_axisMasterState 512 6 4)\<lparr> ms_data := d \<rparr>"
  have up: "ms_data up = d" by (simp add: up_def)
  let ?s = "enqueueBytes (int (axis_getTotalByteSize (ms_data up))) (new_sNMU 0 9)"
  have "length (kept_bytes d) \<le> 64" "DATA_WIDTH d div 8 \<le> 64" using assms(1) kept_bytes_le_64 by (auto simp: axis_wf_def)
  then have "s_getAxiWReady (new_sNMU 0 9) new_axisWriteBuffer up"
    by (simp add: s_getAxiWReady_def new_axisWriteBuffer_def getTotalByteSize_kept assms(1) s_inFlightBytes_def up
        new_sNMU_def default_NPPInfo_def getDataBitWidth_def)
  from source_reach.handshake [OF source_reach.start this] assms
  have r: "source_reach net (?s, new_axisWriteBuffer, [up]) [d]" by (simp add: up)
  have "beat_accepted new_axisWriteBuffer (ms_data up)" by (simp add: beat_accepted_def new_axisWriteBuffer_def)
  from source_arrive [OF source_reach_inv3(1) [OF r] this, of net 0 0 W_VNET]
  obtain s b where "s_flitisizeMessage net (Some 0) 0 (beat_message up) W_VNET (?s, new_axisWriteBuffer) = Inr (s, b)" by blast
  from source_reach.arrive [OF r this] show ?thesis by blast
qed

lemma sample_packet_stream:
  "\<exists>d. buildAxisPacketStream Ipv4Udp 1 1 [4] 256 6 4 3 2 0 0xC0A80164 0x08080808 1000 53 False False 0 0 = Inr [d] \<and>
    axis_wf d \<and> kept_bytes d \<noteq> [] \<and> tlast d"
proof -
  let ?b = "packet_beat 256 6 4 3 2 0"
  have len: "packet_length Ipv4Udp 0 4 \<le> 65535" by (simp add: packet_length_def is_tcp_def)
  obtain p where p: "buildIpv4Packet Ipv4Udp 0 1 4 0xC0A80164 0x08080808 1000 53 False False = Inr p"
    by (cases "good_checksums Ipv4Udp 0 1 4 0xC0A80164 0x08080808 1000 53") (auto simp: build_eq [OF len] corrupt_def)
  have l: "length p = 32" using built_valid [OF p] by (simp add: packet_length_def is_tcp_def)
  have "beats_loop 32 ?b [] = []" by (subst beats_loop.simps) simp
  then have "beats_loop 32 ?b p = [?b p True]" using l by (subst beats_loop.simps) auto
  then have "buildAxisPacketStream Ipv4Udp 1 1 [4] 256 6 4 3 2 0 0xC0A80164 0x08080808 1000 53 False False 0 0 = Inr [?b p True]"
    using p by (simp add: buildAxisPacketStream_def buildAxisPackets_def add_prefix_def packetToAxisBeats_def)
  moreover have "axis_wf (?b p True)" "kept_bytes (?b p True) = p" "tlast (?b p True)"
    using packet_beat_facts(1-3) [of p 256] l by simp_all
  ultimately show ?thesis using l by (intro exI [of _ "?b p True"]) auto
qed

definition sample_checker :: checker where
  "sample_checker = new_checker Ipv4 [] 256 6 4 1 100 True True 0 False 0 0 0 0 []"

theorem packets_arrive_valid_witness:
  "\<exists>d s b t c'. buildAxisPacketStream Ipv4Udp 1 1 [4] 256 6 4 3 2 0 0xC0A80164 0x08080808 1000 53 False False 0 0 = Inr [d] \<and>
    source_reach sample_net (s, b, []) [d] \<and> in_order sample_sink_net (injected s) wide_sink t \<and>
    accept_beats (map (Pair 0) (sent_beats (ns_sent (st_nsu t)))) sample_checker = Inr c' \<and> cs_packetsReceived c' mod 2 ^ 32 = 1"
proof -
  obtain d where d: "buildAxisPacketStream Ipv4Udp 1 1 [4] 256 6 4 3 2 0 0xC0A80164 0x08080808 1000 53 False False 0 0 = Inr [d]"
    "axis_wf d" "kept_bytes d \<noteq> []" "tlast d" using sample_packet_stream by blast
  obtain s b where "source_reach sample_net (s, b, []) [d]" using source_single [OF d(2,3)] by blast
  then obtain s' b' t where r: "source_reach sample_net (s', b', []) [d]" "sent s' = beats_stream [d]"
    "in_order sample_sink_net (injected s') wide_sink t" "length (st_log t) = length (injected s')"
    using path_completes [OF _ _ _ wide_sink_setup, of sample_net s b "[d]"] d(4) by (metis last.simps list.discI)
  have c: "ipv4_checker 256 True True sample_checker" "cs_packetBytes sample_checker = []" "cs_packetsReceived sample_checker = 0"
    by (simp_all add: ipv4_checker_def sample_checker_def new_checker_def)
  have "map snd (map (Pair (0 :: Tick)) (sent_beats (ns_sent (st_nsu t)))) = sent_beats (ns_sent (st_nsu t))" by (simp add: o_def)
  from packets_arrive_valid [OF d(1) r(1) prefix_order.refl wide_sink_setup r(3) c(1,2) this]
    path_prefix(2) [OF r(1) wide_sink_setup r(3,2,4)] d(1) r c(3)
  show ?thesis by fastforce
qed

end
