(* ===== verification/NI_Receive.thy ===== *)
theory NI_Receive
  imports Stream_NSU
begin

text \<open>
  The receiving side of the network interface (\<open>src/noc/core/network/NocNetworkInterface.cc\<close>, second half of
  \<open>wakeup\<close>, and \<open>NppReceive.hh\<close>): flits of the input links are sorted into one queue per port and virtual channel,
  one queue is locked from the head to the tail of a packet, and its flits go to the protocol unit one per
  wakeup; a single-flit control packet of another queue may pass in between.

  The virtual method \<open>depacketizeFlit\<close> of the unit, the credit depths of the network and the payload test are arguments.
  \<open>ni_delivered\<close> records the flits the unit accepted, with their port and channel. Statistics and traces are left out.
\<close>

section \<open>Flits\<close>

datatype flit_type = HEAD | BODY | TAIL | HEAD_TAIL | CREDIT | NUM_FLIT_TYPE

record 'm nflit =
  nf_packet_id :: int
  nf_id :: int
  nf_vc :: int
  nf_vnet :: int
  nf_route :: NocRouteInfo
  nf_size :: int
  nf_type :: flit_type
  nf_time :: Tick
  nf_width :: nat
  nf_msg :: 'm

definition flit_kind :: "int \<Rightarrow> int \<Rightarrow> flit_type" where
  "flit_kind i n = (if n = 1 then HEAD_TAIL else if i = 0 then HEAD else if i = n - 1 then TAIL else BODY)"

definition new_flit :: "int \<Rightarrow> int \<Rightarrow> int \<Rightarrow> int \<Rightarrow> NocRouteInfo \<Rightarrow> int \<Rightarrow> 'm \<Rightarrow> nat \<Rightarrow> Tick \<Rightarrow> 'm nflit" where
  "new_flit pid i vc vnet rt n msg bWidth curTime =
     \<lparr> nf_packet_id = pid, nf_id = i, nf_vc = vc, nf_vnet = vnet, nf_route = rt, nf_size = n,
       nf_type = flit_kind i n, nf_time = curTime, nf_width = bWidth, nf_msg = msg \<rparr>"

definition is_tail :: "'m nflit \<Rightarrow> bool" where
  "is_tail f \<longleftrightarrow> nf_type f = TAIL \<or> nf_type f = HEAD_TAIL"

definition is_head :: "'m nflit \<Rightarrow> bool" where
  "is_head f \<longleftrightarrow> nf_type f = HEAD \<or> nf_type f = HEAD_TAIL"

section \<open>Eligibility of a queued packet\<close>

record NppReceiveFlit =
  npp_packetId :: int
  npp_source :: int
  npp_rvc :: int
  npp_index :: int
  npp_count :: int
  npp_head :: bool
  npp_tail :: bool

datatype NppReceiveStatus = Incomplete | Complete | Invalid | InsufficientWindow

definition describe :: "'m nflit \<Rightarrow> NppReceiveFlit" where
  "describe f = \<lparr> npp_packetId = nf_packet_id f, npp_source = src_ni (nf_route f), npp_rvc = nf_vc f, npp_index = nf_id f,
     npp_count = nf_size f, npp_head = is_head f, npp_tail = is_tail f \<rparr>"

text \<open>The loop over the available flits: \<open>None\<close> when all of them fit, and the reason otherwise.\<close>

fun check_flits :: "NppReceiveFlit \<Rightarrow> nat \<Rightarrow> NppReceiveFlit list \<Rightarrow> string option" where
  "check_flits first i [] = None"
| "check_flits first i (x # xs) =
     (if npp_packetId x \<noteq> npp_packetId first \<or> npp_source x \<noteq> npp_source first \<or> npp_rvc x \<noteq> npp_rvc first
      then Some ''packet/source/VC changed before tail''
      else if npp_index x \<noteq> int i \<or> npp_count x \<noteq> npp_count first
      then Some ''noncontiguous flit index or inconsistent length''
      else if npp_head x \<noteq> (i = 0) \<or> npp_tail x \<noteq> (int i + 1 = npp_count first)
      then Some ''head/tail does not match packet boundary''
      else check_flits first (Suc i) xs)"

definition checkNppReceivePrefix :: "NppReceiveFlit list \<Rightarrow> int \<Rightarrow> int \<Rightarrow> NppReceiveStatus \<times> string" where
  "checkNppReceivePrefix queue maxPacketFlits receiveWindow =
     (case queue of
        [] \<Rightarrow> (Incomplete, ''empty receive VC'')
      | first # _ \<Rightarrow>
          if npp_count first < 1 \<or> npp_count first > maxPacketFlits then (Invalid, ''invalid packet length'')
          else if \<not> npp_head first \<or> npp_index first \<noteq> 0 then (Invalid, ''packet does not start with head 0'')
          else if npp_count first > receiveWindow
          then (InsufficientWindow, ''packet exceeds receive credit/storage window'')
          else
            let available = min (length queue) (nat (npp_count first)) in
            case check_flits first 0 (take available queue) of
              Some reason \<Rightarrow> (Invalid, reason)
            | None \<Rightarrow> if available = nat (npp_count first) then (Complete, ''complete packet'')
                      else (Incomplete, ''waiting for packet tail''))"

section \<open>State\<close>

record 'm InputPort =
  ip_link :: "'m nflit list"
  ip_bitWidth :: nat
  ip_routerID :: int
  m_npp_assemblers :: "'m nflit list list"
  nextAssemblerVc :: nat
  outCreditQueue :: "(int \<times> bool) list"
  ip_creditWakeups :: "Tick list"

record ('m, 'u) NI_receive =
  inPorts :: "'m InputPort list"
  locked_input_port :: int
  locked_vc :: int
  next_input_port :: nat
  outNode_wired :: "bool list"
  ni_wakeups :: "Tick list"
  ni_callbacks :: "int list"
  ni_unit :: 'u
  ni_delivered :: "(nat \<times> nat \<times> 'm nflit) list"

text \<open>The arguments of the model: the credit depth of a router's channel, the test for a stream payload and the setter of the link a message came by.\<close>

record 'm ni_network =
  nn_credit_depth :: "int \<Rightarrow> nat \<Rightarrow> nat result"
  nn_axis :: "'m \<Rightarrow> bool"
  nn_setIncomingLink :: "int \<Rightarrow> 'm \<Rightarrow> 'm"

definition next_edge :: "clock \<Rightarrow> Tick" where
  "next_edge c = clockEdge c + clockPeriod c"

definition new_InputPort :: "nat \<Rightarrow> int \<Rightarrow> nat \<Rightarrow> 'm InputPort" where
  "new_InputPort width router vcs =
     \<lparr> ip_link = [], ip_bitWidth = width, ip_routerID = router, m_npp_assemblers = replicate vcs [], nextAssemblerVc = 0,
       outCreditQueue = [], ip_creditWakeups = [] \<rparr>"

definition new_NI_receive :: "'m InputPort list \<Rightarrow> bool list \<Rightarrow> 'u \<Rightarrow> ('m, 'u) NI_receive" where
  "new_NI_receive ports wired unit =
     \<lparr> inPorts = ports, locked_input_port = - 1, locked_vc = - 1, next_input_port = 0, outNode_wired = wired, ni_wakeups = [],
       ni_callbacks = [], ni_unit = unit, ni_delivered = [] \<rparr>"

section \<open>Taking flits from the links\<close>

definition taken_flit :: "'m ni_network \<Rightarrow> int \<Rightarrow> 'm nflit \<Rightarrow> 'm nflit" where
  "taken_flit net router f = (if router \<ge> 0 then f\<lparr> nf_msg := nn_setIncomingLink net router (nf_msg f) \<rparr> else f)"

text \<open>The loop over the ready flits of a link; the flag tells that a full queue stopped it.\<close>

fun take_link ::
  "'m ni_network \<Rightarrow> Tick \<Rightarrow> nat \<Rightarrow> int \<Rightarrow> 'm nflit list \<Rightarrow> 'm nflit list list \<Rightarrow> (bool \<times> 'm nflit list \<times> 'm nflit list list) result" where
  "take_link net now width router [] qs = Inr (False, [], qs)"
| "take_link net now width router (f # fs) qs =
     (if nf_time f > now then Inr (False, f # fs, qs)
      else if nf_vc f < 0 \<or> int (length qs) \<le> nf_vc f then Inl (Panic ''nppAssemblerForVc'')
      else let v = nat (nf_vc f) in
        if length (qs ! v) \<ge> kNppAssemblerMaxFlits then Inr (True, f # fs, qs)
        else if nf_width f \<noteq> width then Inl (Panic ''t_flit->m_width == iPort->bitWidth()'')
        else take_link net now width router fs (qs[v := qs ! v @ [taken_flit net router f]]))"

definition scan_port :: "'m ni_network \<Rightarrow> Tick \<Rightarrow> 'm InputPort \<Rightarrow> (bool \<times> 'm InputPort) result" where
  "scan_port net now ip =
     rbind (take_link net now (ip_bitWidth ip) (ip_routerID ip) (ip_link ip) (m_npp_assemblers ip)) (\<lambda>(stalled, fs, qs).
       Inr (stalled, ip\<lparr> ip_link := fs, m_npp_assemblers := qs \<rparr>))"

definition scan_ports :: "'m ni_network \<Rightarrow> clock \<Rightarrow> ('m, 'u, 'z) NI_receive_scheme \<Rightarrow> ('m, 'u, 'z) NI_receive_scheme result" where
  "scan_ports net c ni =
     rbind (rmap (scan_port net (curTick c)) (inPorts ni)) (\<lambda>rs.
       Inr (ni\<lparr> inPorts := map snd rs, ni_wakeups := ni_wakeups ni @ replicate (length (filter fst rs)) (next_edge c) \<rparr>))"

section \<open>Choosing a queue\<close>

definition assembler :: "('m, 'u, 'z) NI_receive_scheme \<Rightarrow> nat \<Rightarrow> nat \<Rightarrow> 'm nflit list" where
  "assembler ni p v = m_npp_assemblers (inPorts ni ! p) ! v"

text \<open>The order of the search: all channels of a port from its next channel on, the ports from \<open>start\<close> on.\<close>

definition search_order :: "('m, 'u, 'z) NI_receive_scheme \<Rightarrow> nat \<Rightarrow> (nat \<times> nat) list" where
  "search_order ni start =
     concat (map (\<lambda>port_off.
       let p = (start + port_off) mod length (inPorts ni); ip = inPorts ni ! p; n = length (m_npp_assemblers ip)
       in map (\<lambda>vc_off. (p, (nextAssemblerVc ip + vc_off) mod n)) [0..<n]) [0..<length (inPorts ni)])"

definition eligible :: "'m ni_network \<Rightarrow> int \<Rightarrow> nat \<Rightarrow> 'm nflit list \<Rightarrow> bool result" where
  "eligible net router vc q =
     (case q of
        [] \<Rightarrow> Inr False
      | first # _ \<Rightarrow>
          if nn_axis net (nf_msg first)
          then rbind (nn_credit_depth net router vc) (\<lambda>depth.
                 case fst (checkNppReceivePrefix (map describe q) (int (NPP_MAX_SIZE div 16)) (int (min kNppAssemblerMaxFlits depth))) of
                   Invalid \<Rightarrow> Inl (Fatal ''AXIS receive packet'')
                 | InsufficientWindow \<Rightarrow> Inl (Fatal ''AXIS receive packet'')
                 | Incomplete \<Rightarrow> Inr False
                 | Complete \<Rightarrow> Inr True)
          else Inr True)"

fun find_eligible :: "'m ni_network \<Rightarrow> ('m, 'u, 'z) NI_receive_scheme \<Rightarrow> (nat \<times> nat) list \<Rightarrow> (nat \<times> nat) option result" where
  "find_eligible net ni [] = Inr None"
| "find_eligible net ni ((p, v) # pvs) =
     rbind (eligible net (ip_routerID (inPorts ni ! p)) v (assembler ni p v)) (\<lambda>ok.
       if ok then Inr (Some (p, v)) else find_eligible net ni pvs)"

definition lock_assembler :: "nat \<Rightarrow> nat \<Rightarrow> ('m, 'u, 'z) NI_receive_scheme \<Rightarrow> ('m, 'u, 'z) NI_receive_scheme" where
  "lock_assembler p v ni =
     (let ip = inPorts ni ! p
      in ni\<lparr> locked_input_port := int p, locked_vc := int v, next_input_port := (p + 1) mod length (inPorts ni),
           inPorts := (inPorts ni)[p := ip\<lparr> nextAssemblerVc := (v + 1) mod length (m_npp_assemblers ip) \<rparr>] \<rparr>)"

definition select_assembler :: "'m ni_network \<Rightarrow> ('m, 'u, 'z) NI_receive_scheme \<Rightarrow> ('m, 'u, 'z) NI_receive_scheme result" where
  "select_assembler net ni =
     (if locked_input_port ni \<noteq> - 1 then Inr ni
      else rbind (find_eligible net ni (search_order ni (next_input_port ni))) (\<lambda>r.
             case r of None \<Rightarrow> Inr ni | Some (p, v) \<Rightarrow> Inr (lock_assembler p v ni)))"

section \<open>Draining the locked queue\<close>

definition wake_next :: "clock \<Rightarrow> ('m, 'u, 'z) NI_receive_scheme \<Rightarrow> ('m, 'u, 'z) NI_receive_scheme" where
  "wake_next c ni = ni\<lparr> ni_wakeups := ni_wakeups ni @ [next_edge c] \<rparr>"

text \<open>An accepted flit leaves its queue and its credit is sent back.\<close>

definition deliver_front :: "nat \<Rightarrow> nat \<Rightarrow> bool \<Rightarrow> ('m, 'u, 'z) NI_receive_scheme \<Rightarrow> ('m, 'u, 'z) NI_receive_scheme" where
  "deliver_front p v free ni =
     (let ip = inPorts ni ! p; f = hd (assembler ni p v)
      in ni\<lparr> inPorts := (inPorts ni)[p := ip\<lparr> m_npp_assemblers := (m_npp_assemblers ip)[v := tl (assembler ni p v)],
                 outCreditQueue := outCreditQueue ip @ [(nf_vc f, free)] \<rparr>],
           ni_delivered := ni_delivered ni @ [(p, v, f)] \<rparr>)"

definition is_control :: "'m nflit \<Rightarrow> bool" where
  "is_control f \<longleftrightarrow> nf_type f = HEAD_TAIL \<and> (nf_vnet f = AR_VNET \<or> nf_vnet f = AW_VNET)"

text \<open>The search for a control packet in the other queues; the unit may refuse one and the search goes on.\<close>

fun bypass_control ::
  "('m nflit \<Rightarrow> 'u \<Rightarrow> (bool \<times> 'u) result) \<Rightarrow> clock \<Rightarrow> nat \<times> nat \<Rightarrow> (nat \<times> nat) list \<Rightarrow> ('m, 'u, 'z) NI_receive_scheme \<Rightarrow>
    (bool \<times> ('m, 'u, 'z) NI_receive_scheme) result" where
  "bypass_control depacketizeFlit c locked [] ni = Inr (False, ni)"
| "bypass_control depacketizeFlit c locked ((p, v) # pvs) ni =
     (let q = assembler ni p v in
      if (p, v) = locked \<or> q = [] \<or> \<not> is_control (hd q) then bypass_control depacketizeFlit c locked pvs ni
      else rbind (depacketizeFlit (hd q) (ni_unit ni)) (\<lambda>(ok, u).
             let ni1 = ni\<lparr> ni_unit := u \<rparr> in
             if ok then Inr (True, wake_next c (deliver_front p v True ni1))
             else bypass_control depacketizeFlit c locked pvs ni1))"

definition drain_front ::
  "('m nflit \<Rightarrow> 'u \<Rightarrow> (bool \<times> 'u) result) \<Rightarrow> clock \<Rightarrow> nat \<Rightarrow> nat \<Rightarrow> ('m, 'u, 'z) NI_receive_scheme \<Rightarrow> ('m, 'u, 'z) NI_receive_scheme result" where
  "drain_front depacketizeFlit c p v ni =
     (let f = hd (assembler ni p v) in
      rbind (depacketizeFlit f (ni_unit ni)) (\<lambda>(ok, u).
        let ni1 = ni\<lparr> ni_unit := u \<rparr> in
        if ok
        then let ni2 = deliver_front p v (is_tail f) ni1
             in if is_tail f then Inr (ni2\<lparr> locked_input_port := - 1, locked_vc := - 1 \<rparr>) else Inr (wake_next c ni2)
        else if nf_vnet f < 0 \<or> int (length (outNode_wired ni)) \<le> nf_vnet f then Inl (Panic ''stalled flit vnet out of range'')
        else if \<not> outNode_wired ni ! nat (nf_vnet f) then Inl (Panic ''stalled flit vnet: null outNode'')
        else Inr (ni1\<lparr> ni_callbacks := ni_callbacks ni1 @ [nf_vnet f] \<rparr>)))"

definition drain_locked ::
  "('m nflit \<Rightarrow> 'u \<Rightarrow> (bool \<times> 'u) result) \<Rightarrow> clock \<Rightarrow> ('m, 'u, 'z) NI_receive_scheme \<Rightarrow> ('m, 'u, 'z) NI_receive_scheme result" where
  "drain_locked depacketizeFlit c ni =
     (if locked_input_port ni = - 1 then Inr ni
      else if locked_input_port ni < 0 \<or> int (length (inPorts ni)) \<le> locked_input_port ni
      then Inl (Panic ''locked assembler input port out of range'')
      else
        let p = nat (locked_input_port ni) in
        if locked_vc ni < 0 \<or> int (length (m_npp_assemblers (inPorts ni ! p))) \<le> locked_vc ni then Inl (Panic ''nppAssemblerForVc'')
        else
          let v = nat (locked_vc ni); q = assembler ni p v in
          if q = [] then Inr (wake_next c ni)
          else rbind (if is_tail (hd q) then Inr (False, ni)
                      else bypass_control depacketizeFlit c (p, v) (search_order ni p) ni) (\<lambda>(bypassed, ni1).
                 if bypassed then Inr ni1 else drain_front depacketizeFlit c p v ni1))"

section \<open>The receiving part of a wakeup\<close>

definition schedule_credits :: "clock \<Rightarrow> ('m, 'u, 'z) NI_receive_scheme \<Rightarrow> ('m, 'u, 'z) NI_receive_scheme" where
  "schedule_credits c ni =
     ni\<lparr> inPorts := map (\<lambda>ip. if outCreditQueue ip \<noteq> [] then ip\<lparr> ip_creditWakeups := ip_creditWakeups ip @ [next_edge c] \<rparr> else ip)
           (inPorts ni) \<rparr>"

definition wakeup_receive ::
  "'m ni_network \<Rightarrow> ('m nflit \<Rightarrow> 'u \<Rightarrow> (bool \<times> 'u) result) \<Rightarrow> clock \<Rightarrow> ('m, 'u, 'z) NI_receive_scheme \<Rightarrow>
    ('m, 'u, 'z) NI_receive_scheme result" where
  "wakeup_receive net depacketizeFlit c ni =
     rbind (scan_ports net c ni) (\<lambda>ni1. rbind (select_assembler net ni1) (\<lambda>ni2.
     rbind (drain_locked depacketizeFlit c ni2) (\<lambda>ni3. Inr (schedule_credits c ni3))))"

end
