(* ===== verification/NI_Receive_Props.thy ===== *)
theory NI_Receive_Props
  imports NI_Receive
begin

text \<open>
  Properties of the receiving side of the network interface: the eligibility check accepts exactly the queues that
  start with a whole packet; flits keep their order per port and channel and are neither lost nor duplicated;
  packets are not interleaved on their way to the protocol unit, and a locked stream packet never waits for its tail.
\<close>

section \<open>The eligibility check\<close>

text \<open>A packet: one identity, source and channel, numbered flits, its length in each, head first and tail last.\<close>

definition packet_flit :: "NppReceiveFlit \<Rightarrow> nat \<Rightarrow> nat \<Rightarrow> NppReceiveFlit \<Rightarrow> bool" where
  "packet_flit first n i x \<longleftrightarrow> npp_packetId x = npp_packetId first \<and> npp_source x = npp_source first \<and> npp_rvc x = npp_rvc first \<and>
     npp_index x = int i \<and> npp_count x = int n \<and> npp_head x = (i = 0) \<and> npp_tail x = (Suc i = n)"

definition whole_packet :: "NppReceiveFlit list \<Rightarrow> bool" where
  "whole_packet pk \<longleftrightarrow> pk \<noteq> [] \<and> (\<forall>i < length pk. packet_flit (hd pk) (length pk) i (pk ! i))"

lemma check_flits_None:
  assumes "npp_count first = int n"
  shows "check_flits first i xs = None \<longleftrightarrow> (\<forall>j < length xs. packet_flit first n (i + j) (xs ! j))"
proof (induction xs arbitrary: i)
  case (Cons x xs)
  have "check_flits first i (x # xs) = None \<longleftrightarrow> packet_flit first n i x \<and> check_flits first (Suc i) xs = None"
    using assms by (auto simp: packet_flit_def)
  moreover have "(\<forall>j < length (x # xs). packet_flit first n (i + j) ((x # xs) ! j)) \<longleftrightarrow>
      packet_flit first n i x \<and> (\<forall>j < length xs. packet_flit first n (Suc i + j) (xs ! j))"
    by (auto simp: less_Suc_eq_0_disj nth_Cons split: nat.splits)
  ultimately show ?case using Cons by simp
qed simp

text \<open>The check in terms of the first flit.\<close>

lemma check_status:
  assumes q: "q = first # q'" and c: "npp_count first = int n" and ok: "1 \<le> n" "int n \<le> mx" "int n \<le> w"
  shows "fst (checkNppReceivePrefix q mx w) =
    (if \<forall>j < min (length q) n. packet_flit first n j (q ! j) then if n \<le> length q then Complete else Incomplete else Invalid)"
proof -
  let ?fits = "\<forall>j < min (length q) n. packet_flit first n j (q ! j)"
  let ?loop = "check_flits first 0 (take (min (length q) n) q)"
  have loop: "?loop = None \<longleftrightarrow> ?fits" by (simp add: check_flits_None [OF c])
  have n: "nat (npp_count first) = n" "\<not> npp_count first < 1" "\<not> mx < npp_count first" "\<not> w < npp_count first" using c ok by auto
  have cut: "min (length q) n = n \<longleftrightarrow> n \<le> length q" by auto
  have start: "npp_head first \<and> npp_index first = 0" if ?fits
  proof -
    have "0 < min (length q) n" using ok(1) q by simp
    then have "packet_flit first n 0 (q ! 0)" using that by blast
    then show ?thesis by (simp add: q packet_flit_def)
  qed
  have eq: "checkNppReceivePrefix q mx w = (if \<not> npp_head first \<or> npp_index first \<noteq> 0 then (Invalid, ''packet does not start with head 0'')
      else case ?loop of Some reason \<Rightarrow> (Invalid, reason)
           | None \<Rightarrow> if n \<le> length q then (Complete, ''complete packet'') else (Incomplete, ''waiting for packet tail''))"
    using n(2-4) unfolding checkNppReceivePrefix_def by (simp only: q list.case n(1) Let_def if_False simp_thms cut [unfolded q])
  show ?thesis unfolding eq using loop start by (cases ?loop) auto
qed

lemma check_good:
  assumes "q = first # q'" and "fst (checkNppReceivePrefix q mx w) = st" and "st = Complete \<or> st = Incomplete"
  obtains n where "npp_count first = int n" "1 \<le> n" "int n \<le> mx" "int n \<le> w"
proof (rule ccontr)
  assume no: "\<not> thesis"
  have "npp_count first < 1 \<or> mx < npp_count first \<or> w < npp_count first"
  proof (rule ccontr)
    let ?n = "nat (npp_count first)"
    assume "\<not> ?thesis"
    then have "npp_count first = int ?n \<and> 1 \<le> ?n \<and> int ?n \<le> mx \<and> int ?n \<le> w" by linarith
    then show False using that [of ?n] no by blast
  qed
  then show False using assms by (auto simp: checkNppReceivePrefix_def split: if_splits)
qed

lemma whole_packet_first:
  assumes "whole_packet pk" and "i < length pk"
  shows "packet_flit (hd pk) (length pk) i (pk ! i)" and "npp_count (hd pk) = int (length pk)"
proof -
  show "packet_flit (hd pk) (length pk) i (pk ! i)" using assms by (simp add: whole_packet_def)
  then show "npp_count (hd pk) = int (length pk)"
    using assms unfolding whole_packet_def by (metis hd_conv_nth length_greater_0_conv packet_flit_def)
qed

text \<open>A queue of flits that fit is the beginning of a packet.\<close>

definition rest_of_packet :: "NppReceiveFlit \<Rightarrow> nat \<Rightarrow> nat \<Rightarrow> NppReceiveFlit list" where
  "rest_of_packet first n k = map (\<lambda>i. first\<lparr> npp_index := int i, npp_head := False, npp_tail := (Suc i = n) \<rparr>) [k..<n]"

lemma completion_is_packet:
  assumes "q = first # q'" and "npp_count first = int n" and "length q \<le> n" and "\<forall>j < length q. packet_flit first n j (q ! j)"
  shows "whole_packet (q @ rest_of_packet first n (length q))"
proof -
  let ?pk = "q @ rest_of_packet first n (length q)"
  have len: "length ?pk = n" using assms(3) by (simp add: rest_of_packet_def)
  have "packet_flit first n i (?pk ! i)" if "i < n" for i
  proof (cases "i < length q")
    case False
    then have "?pk ! i = first\<lparr> npp_index := int i, npp_head := False, npp_tail := (Suc i = n) \<rparr>"
      using that by (simp add: nth_append rest_of_packet_def)
    then show ?thesis using False assms(1,2) by (cases i) (auto simp: packet_flit_def)
  qed (use assms(4) in \<open>simp add: nth_append\<close>)
  then show ?thesis unfolding whole_packet_def len using assms(1) by simp
qed

text \<open>The packets the check allows, and those that start like a queue.\<close>

definition allowed_packet :: "int \<Rightarrow> int \<Rightarrow> NppReceiveFlit list \<Rightarrow> bool" where
  "allowed_packet mx w pk \<longleftrightarrow> whole_packet pk \<and> int (length pk) \<le> mx \<and> int (length pk) \<le> w"

lemma allowed_packet_first:
  assumes "allowed_packet mx w pk" and "prefix pk (first # q) \<or> prefix (first # q) pk"
  shows "npp_count first = int (length pk)" "1 \<le> length pk" "int (length pk) \<le> mx" "int (length pk) \<le> w"
    "\<forall>j < length pk. packet_flit first (length pk) j (pk ! j)"
proof -
  have pk: "pk \<noteq> []" "whole_packet pk" using assms(1) by (auto simp: allowed_packet_def whole_packet_def)
  have "hd pk = first" using assms(2) pk(1) by (cases pk) (auto simp: prefix_def)
  then show "npp_count first = int (length pk)" "\<forall>j < length pk. packet_flit first (length pk) j (pk ! j)"
    using whole_packet_first [OF pk(2)] pk(1) by auto
  show "1 \<le> length pk" "int (length pk) \<le> mx" "int (length pk) \<le> w"
    using assms(1) pk(1) by (simp_all add: allowed_packet_def Suc_le_eq)
qed

lemma check_complete:
  "fst (checkNppReceivePrefix q mx w) = Complete \<longleftrightarrow> (\<exists>pk. prefix pk q \<and> allowed_packet mx w pk)"
proof (cases q)
  case Nil
  then show ?thesis by (simp add: checkNppReceivePrefix_def allowed_packet_def whole_packet_def)
next
  case (Cons first q')
  show ?thesis
  proof
    assume c: "fst (checkNppReceivePrefix q mx w) = Complete"
    then obtain n where n: "npp_count first = int n" "1 \<le> n" "int n \<le> mx" "int n \<le> w"
      using check_good [OF Cons c] by blast
    have l: "n \<le> length q" "\<forall>j < n. packet_flit first n j (q ! j)"
      using c unfolding check_status [OF Cons n] by (simp_all add: min_absorb2 split: if_splits)
    have "hd (take n q) = first" "take n q \<noteq> []" using Cons n(2) by (simp_all add: hd_take)
    then have "allowed_packet mx w (take n q)" using l n(3,4) by (simp add: allowed_packet_def whole_packet_def)
    then show "\<exists>pk. prefix pk q \<and> allowed_packet mx w pk" using take_is_prefix by blast
  next
    assume "\<exists>pk. prefix pk q \<and> allowed_packet mx w pk"
    then obtain pk where pk: "prefix pk q" "allowed_packet mx w pk" by blast
    have "prefix pk (first # q') \<or> prefix (first # q') pk" using pk(1) Cons by simp
    note f = allowed_packet_first [OF pk(2) this]
    have "length pk \<le> length q" "\<forall>j < length pk. q ! j = pk ! j" using pk(1) by (auto simp: prefix_def nth_append)
    then show "fst (checkNppReceivePrefix q mx w) = Complete"
      using f(5) unfolding check_status [OF Cons f(1-4)] by (simp add: min_absorb2)
  qed
qed

lemma check_incomplete:
  "fst (checkNppReceivePrefix q mx w) = Incomplete \<longleftrightarrow> q = [] \<or> (\<exists>pk. strict_prefix q pk \<and> allowed_packet mx w pk)"
proof (cases q)
  case Nil
  then show ?thesis by (simp add: checkNppReceivePrefix_def)
next
  case (Cons first q')
  have "fst (checkNppReceivePrefix q mx w) = Incomplete \<longleftrightarrow> (\<exists>pk. strict_prefix q pk \<and> allowed_packet mx w pk)"
  proof
    assume c: "fst (checkNppReceivePrefix q mx w) = Incomplete"
    then obtain n where n: "npp_count first = int n" "1 \<le> n" "int n \<le> mx" "int n \<le> w"
      using check_good [OF Cons c] by blast
    let ?pk = "q @ rest_of_packet first n (length q)"
    have l: "length q < n" "\<forall>j < length q. packet_flit first n j (q ! j)"
      using c unfolding check_status [OF Cons n] by (auto simp: min_def split: if_splits)
    then have "length ?pk = n" "strict_prefix q ?pk" by (simp_all add: strict_prefix_def rest_of_packet_def)
    moreover have "whole_packet ?pk" using completion_is_packet [OF Cons n(1)] l by simp
    ultimately show "\<exists>pk. strict_prefix q pk \<and> allowed_packet mx w pk" using n(3,4) unfolding allowed_packet_def by metis
  next
    assume "\<exists>pk. strict_prefix q pk \<and> allowed_packet mx w pk"
    then obtain pk where pk: "strict_prefix q pk" "allowed_packet mx w pk" by blast
    have "prefix pk (first # q') \<or> prefix (first # q') pk" using pk(1) Cons by (simp add: strict_prefix_def)
    note f = allowed_packet_first [OF pk(2) this]
    have "length q < length pk" using pk(1) by (rule prefix_length_less)
    moreover have "\<forall>j < length q. q ! j = pk ! j" using pk(1) by (auto simp: strict_prefix_def prefix_def nth_append)
    ultimately show "fst (checkNppReceivePrefix q mx w) = Incomplete"
      using f(5) unfolding check_status [OF Cons f(1-4)] by (simp add: min_def)
  qed
  then show ?thesis using Cons by simp
qed

text \<open>C20: The eligibility check decides exactly what its description says. A queue is found complete if and only if it
  starts with a whole packet that is within the maximal length and the receive window, whatever follows it, and
  incomplete if and only if it is empty or a proper beginning of such a packet.\<close>

theorem npp_check_exact:
  "(fst (checkNppReceivePrefix q mx w) = Complete \<longleftrightarrow>
      (\<exists>pk rest. q = pk @ rest \<and> whole_packet pk \<and> int (length pk) \<le> mx \<and> int (length pk) \<le> w)) \<and>
   (fst (checkNppReceivePrefix q mx w) = Incomplete \<longleftrightarrow>
      q = [] \<or> (\<exists>pk. strict_prefix q pk \<and> whole_packet pk \<and> int (length pk) \<le> mx \<and> int (length pk) \<le> w))"
  unfolding check_complete check_incomplete by (auto simp: allowed_packet_def prefix_def)

section \<open>What the steps change\<close>

definition in_range :: "('m, 'u, 'z) NI_receive_scheme \<Rightarrow> nat \<Rightarrow> nat \<Rightarrow> bool" where
  "in_range ni p v \<longleftrightarrow> p < length (inPorts ni) \<and> v < length (m_npp_assemblers (inPorts ni ! p))"

definition lock_of :: "('m, 'u, 'z) NI_receive_scheme \<Rightarrow> (nat \<times> nat) option" where
  "lock_of ni = (if locked_input_port ni = - 1 then None else Some (nat (locked_input_port ni), nat (locked_vc ni)))"

definition lock_wf :: "('m, 'u, 'z) NI_receive_scheme \<Rightarrow> bool" where
  "lock_wf ni \<longleftrightarrow> locked_input_port ni = - 1 \<or>
     (0 \<le> locked_input_port ni \<and> 0 \<le> locked_vc ni \<and> in_range ni (nat (locked_input_port ni)) (nat (locked_vc ni)))"

definition same_port :: "'m InputPort \<Rightarrow> 'm InputPort \<Rightarrow> bool" where
  "same_port a b \<longleftrightarrow> ip_link b = ip_link a \<and> ip_bitWidth b = ip_bitWidth a \<and> ip_routerID b = ip_routerID a \<and>
     m_npp_assemblers b = m_npp_assemblers a \<and> outCreditQueue b = outCreditQueue a"

definition same_queues :: "('m, 'u, 'z) NI_receive_scheme \<Rightarrow> ('m, 'u, 'z) NI_receive_scheme \<Rightarrow> bool" where
  "same_queues ni ni' \<longleftrightarrow> list_all2 same_port (inPorts ni) (inPorts ni') \<and> ni_delivered ni' = ni_delivered ni \<and>
     outNode_wired ni' = outNode_wired ni"

text \<open>The front flit of a queue was accepted.\<close>

definition popped_port :: "nat \<Rightarrow> 'm nflit \<Rightarrow> 'm InputPort \<Rightarrow> 'm InputPort" where
  "popped_port v f ip = ip\<lparr> m_npp_assemblers := (m_npp_assemblers ip)[v := tl (m_npp_assemblers ip ! v)],
     outCreditQueue := outCreditQueue ip @ [(nf_vc f, is_tail f)] \<rparr>"

definition delivers :: "nat \<Rightarrow> nat \<Rightarrow> 'm nflit \<Rightarrow> ('m, 'u, 'z) NI_receive_scheme \<Rightarrow> ('m, 'u, 'z) NI_receive_scheme \<Rightarrow> bool" where
  "delivers p v f ni ni' \<longleftrightarrow> in_range ni p v \<and> (\<exists>q. assembler ni p v = f # q) \<and>
     list_all2 same_port ((inPorts ni)[p := popped_port v f (inPorts ni ! p)]) (inPorts ni') \<and>
     ni_delivered ni' = ni_delivered ni @ [(p, v, f)] \<and> outNode_wired ni' = outNode_wired ni"

lemma same_port_refl [simp]: "same_port a a"
  by (simp add: same_port_def)

lemma same_port_trans: "same_port a b \<Longrightarrow> same_port b c \<Longrightarrow> same_port a c"
  by (simp add: same_port_def)

lemma same_ports_refl [simp]: "list_all2 same_port ips ips"
  by (simp add: list_all2_refl)

lemma same_ports_trans: "list_all2 same_port a b \<Longrightarrow> list_all2 same_port b c \<Longrightarrow> list_all2 same_port a c"
  by (rule list_all2_trans [OF same_port_trans])

lemma same_queues_refl [simp]: "same_queues ni ni"
  by (simp add: same_queues_def)

lemma same_queues_trans: "same_queues a b \<Longrightarrow> same_queues b c \<Longrightarrow> same_queues a c"
  unfolding same_queues_def using same_ports_trans by metis

lemma same_queues_range:
  assumes "same_queues ni ni'"
  shows "in_range ni' p v = in_range ni p v" and "p < length (inPorts ni) \<Longrightarrow> assembler ni' p v = assembler ni p v"
    and "length (inPorts ni') = length (inPorts ni)" and "p < length (inPorts ni) \<Longrightarrow> same_port (inPorts ni ! p) (inPorts ni' ! p)"
  using assms by (auto simp: same_queues_def in_range_def assembler_def same_port_def list_all2_conv_all_nth)

lemma delivers_trans: "delivers p v f ni a \<Longrightarrow> same_queues a b \<Longrightarrow> delivers p v f ni b"
  unfolding delivers_def same_queues_def using same_ports_trans by metis

lemma delivers_after:
  assumes "same_queues ni a" and "delivers p v f a b"
  shows "delivers p v f ni b"
proof -
  note r = same_queues_range [OF assms(1)]
  have p: "p < length (inPorts ni)" using assms(2) r(3) by (simp add: delivers_def in_range_def)
  have "same_port (popped_port v f (inPorts ni ! p)) (popped_port v f (inPorts a ! p))"
    using r(4) [OF p] by (simp add: same_port_def popped_port_def)
  then have "list_all2 same_port ((inPorts ni)[p := popped_port v f (inPorts ni ! p)]) ((inPorts a)[p := popped_port v f (inPorts a ! p)])"
    using assms(1) by (simp add: same_queues_def list_all2_update_cong)
  then show ?thesis
    using assms r(1,2) p same_ports_trans unfolding delivers_def same_queues_def by metis
qed

lemma deliver_front_delivers:
  assumes "in_range ni p v" and "assembler ni p v = f # q" and "free = is_tail f"
  shows "delivers p v f ni (deliver_front p v free ni)" and "lock_of (deliver_front p v free ni) = lock_of ni"
    and "locked_input_port (deliver_front p v free ni) = locked_input_port ni" and "locked_vc (deliver_front p v free ni) = locked_vc ni"
  using assms by (simp_all add: delivers_def deliver_front_def popped_port_def Let_def assembler_def lock_of_def)

lemma frame_queues [simp]:
  "same_queues ni (ni\<lparr> ni_unit := u \<rparr>)" "same_queues ni (wake_next c ni)" "same_queues ni (ni\<lparr> ni_callbacks := cs \<rparr>)"
  "same_queues ni (ni\<lparr> locked_input_port := a, locked_vc := b \<rparr>)"
  by (simp_all add: same_queues_def wake_next_def)

lemma frame_lock [simp]:
  "lock_of (ni\<lparr> ni_unit := u \<rparr>) = lock_of ni" "lock_of (wake_next c ni) = lock_of ni" "lock_of (ni\<lparr> ni_callbacks := cs \<rparr>) = lock_of ni"
  "lock_of (ni\<lparr> locked_input_port := - 1, locked_vc := b \<rparr>) = None" "lock_of (ni\<lparr> inPorts := ps \<rparr>) = lock_of ni"
  by (simp_all add: lock_of_def wake_next_def)

lemma search_order_range:
  assumes "(p, v) \<in> set (search_order ni start)"
  shows "in_range ni p v"
proof -
  obtain k j where k: "k < length (inPorts ni)" "p = (start + k) mod length (inPorts ni)"
    "j < length (m_npp_assemblers (inPorts ni ! p))" "v = (nextAssemblerVc (inPorts ni ! p) + j) mod length (m_npp_assemblers (inPorts ni ! p))"
    using assms by (auto simp: search_order_def Let_def)
  have "p < length (inPorts ni)" unfolding k(2) using k(1) by (intro mod_less_divisor) linarith
  moreover have "v < length (m_npp_assemblers (inPorts ni ! p))" unfolding k(4) using k(3) by (intro mod_less_divisor) linarith
  ultimately show ?thesis by (simp add: in_range_def)
qed

text \<open>The search for a control packet hands over nothing, or one control packet of another queue.\<close>

definition bypass_ok :: "nat \<times> nat \<Rightarrow> bool \<Rightarrow> ('m, 'u, 'z) NI_receive_scheme \<Rightarrow> ('m, 'u, 'z) NI_receive_scheme \<Rightarrow> bool" where
  "bypass_ok locked found ni ni' \<longleftrightarrow> locked_input_port ni' = locked_input_port ni \<and> locked_vc ni' = locked_vc ni \<and>
     (if found then \<exists>p v f. (p, v) \<noteq> locked \<and> is_control f \<and> delivers p v f ni ni' else same_queues ni ni')"

lemma bypass_ok_unit: "bypass_ok locked found (ni\<lparr> ni_unit := u \<rparr>) ni' \<Longrightarrow> bypass_ok locked found ni ni'"
  using same_queues_trans [OF frame_queues(1) [of ni u], of ni'] delivers_after [OF frame_queues(1) [of ni u], of _ _ _ ni']
  unfolding bypass_ok_def by (cases found) (simp_all, blast)

lemma bypass_front:
  assumes "in_range ni p v" and "assembler ni p v = f # q" and "is_control f" and "(p, v) \<noteq> locked"
  shows "bypass_ok locked True ni (wake_next c (deliver_front p v True (ni\<lparr> ni_unit := u \<rparr>)))"
proof -
  let ?ni = "ni\<lparr> ni_unit := u \<rparr>"
  have "in_range ?ni p v" "assembler ?ni p v = f # q" "True = is_tail f"
    using assms by (simp_all add: in_range_def assembler_def is_control_def is_tail_def)
  note d = deliver_front_delivers(1,3,4) [OF this]
  have "delivers p v f ?ni (wake_next c (deliver_front p v True ?ni))" by (rule delivers_trans [OF d(1)]) simp
  then have "bypass_ok locked True ?ni (wake_next c (deliver_front p v True ?ni))"
    using assms(3,4) d(2,3) unfolding bypass_ok_def by (simp add: wake_next_def) blast
  then show ?thesis by (rule bypass_ok_unit)
qed

lemma bypass_cases:
  assumes "bypass_control dep c locked pvs ni = Inr (found, ni')" and "\<forall>pv \<in> set pvs. in_range ni (fst pv) (snd pv)"
  shows "bypass_ok locked found ni ni'"
  using assms
proof (induction pvs arbitrary: ni)
  case Nil
  then show ?case by (simp add: bypass_ok_def)
next
  case (Cons pv pvs)
  obtain p v where pv: "pv = (p, v)" by force
  show ?case
  proof (cases "(p, v) = locked \<or> assembler ni p v = [] \<or> \<not> is_control (hd (assembler ni p v))")
    case True
    then have "bypass_control dep c locked pvs ni = Inr (found, ni')" using Cons.prems(1) by (auto simp: pv)
    then show ?thesis using Cons.IH Cons.prems(2) by simp
  next
    case False
    then obtain f q where f: "assembler ni p v = f # q" "is_control f" "(p, v) \<noteq> locked" by (cases "assembler ni p v") auto
    obtain ok u where u: "dep f (ni_unit ni) = Inr (ok, u)" using Cons.prems(1) f by (auto simp: pv rbind_Inr_iff)
    show ?thesis
    proof (cases ok)
      case True
      then show ?thesis using Cons.prems f u bypass_front [OF _ f] by (auto simp: pv Let_def)
    next
      case no: False
      then have "bypass_control dep c locked pvs (ni\<lparr> ni_unit := u \<rparr>) = Inr (found, ni')"
        using Cons.prems(1) f u by (simp add: pv Let_def)
      moreover have "\<forall>pv \<in> set pvs. in_range (ni\<lparr> ni_unit := u \<rparr>) (fst pv) (snd pv)" using Cons.prems(2) by (simp add: in_range_def)
      ultimately show ?thesis by (rule bypass_ok_unit [OF Cons.IH])
    qed
  qed
qed


lemma delivers_range:
  assumes "delivers p v f ni ni'"
  shows "in_range ni' p' v' = in_range ni p' v'" and "length (inPorts ni') = length (inPorts ni)"
    and "p' < length (inPorts ni) \<Longrightarrow> same_port (if p' = p then popped_port v f (inPorts ni ! p) else inPorts ni ! p') (inPorts ni' ! p')"
    and "in_range ni p' v' \<Longrightarrow> assembler ni p' v' = (if (p', v') = (p, v) then f # assembler ni' p' v' else assembler ni' p' v')"
proof -
  obtain q where d: "in_range ni p v" "assembler ni p v = f # q"
    "list_all2 same_port ((inPorts ni)[p := popped_port v f (inPorts ni ! p)]) (inPorts ni')"
    using assms by (auto simp: delivers_def)
  show len: "length (inPorts ni') = length (inPorts ni)" using list_all2_lengthD [OF d(3)] by simp
  have ports: "same_port (if k = p then popped_port v f (inPorts ni ! p) else inPorts ni ! k) (inPorts ni' ! k)" if "k < length (inPorts ni)" for k
    using list_all2_nthD [OF d(3), of k] that by (cases "k = p") simp_all
  then show "p' < length (inPorts ni) \<Longrightarrow> same_port (if p' = p then popped_port v f (inPorts ni ! p) else inPorts ni ! p') (inPorts ni' ! p')"
    by blast
  have asm: "m_npp_assemblers (inPorts ni' ! k) = (if k = p then (m_npp_assemblers (inPorts ni ! p))[v := q] else m_npp_assemblers (inPorts ni ! k))"
    if "k < length (inPorts ni)" for k
    using ports [OF that] d(2) by (simp add: same_port_def popped_port_def assembler_def split: if_splits)
  show "in_range ni' p' v' = in_range ni p' v'" using asm [of p'] by (cases "p' = p") (auto simp: in_range_def len)
  show "in_range ni p' v' \<Longrightarrow> assembler ni p' v' = (if (p', v') = (p, v) then f # assembler ni' p' v' else assembler ni' p' v')"
    using asm [of p'] d(1,2) by (cases "p' = p"; cases "v' = v") (auto simp: in_range_def assembler_def)
qed

lemma lock_wf_frame:
  assumes "lock_wf ni" and "locked_input_port ni' = locked_input_port ni" and "locked_vc ni' = locked_vc ni"
    and "\<And>p v. in_range ni' p v = in_range ni p v"
  shows "lock_wf ni'"
  using assms by (simp add: lock_wf_def)

lemma lock_eqs: "locked_input_port ni' = locked_input_port ni \<Longrightarrow> locked_vc ni' = locked_vc ni \<Longrightarrow> lock_of ni' = lock_of ni"
  by (simp add: lock_of_def)

text \<open>The front of the locked queue is refused, or it leaves the queue.\<close>

lemma drain_front_cases:
  assumes run: "drain_front dep c p v ni = Inr ni'" and r: "in_range ni p v" and q: "assembler ni p v = f # q"
    and wf: "lock_wf ni"
  shows "lock_wf ni' \<and> (same_queues ni ni' \<and> lock_of ni' = lock_of ni \<or>
    delivers p v f ni ni' \<and> lock_of ni' = (if is_tail f then None else lock_of ni))"
proof -
  obtain ok u where u: "dep f (ni_unit ni) = Inr (ok, u)" using run q by (auto simp: drain_front_def Let_def rbind_Inr_iff)
  let ?ni = "ni\<lparr> ni_unit := u \<rparr>"
  show ?thesis
  proof (cases ok)
    case True
    have "in_range ?ni p v" "assembler ?ni p v = f # q" using r q by (simp_all add: in_range_def assembler_def)
    note d = deliver_front_delivers [OF this refl]
    have e: "ni' = (if is_tail f then (deliver_front p v (is_tail f) ?ni)\<lparr> locked_input_port := - 1, locked_vc := - 1 \<rparr>
        else wake_next c (deliver_front p v (is_tail f) ?ni))"
      using run q u True by (auto simp: drain_front_def Let_def split: if_splits)
    have "delivers p v f ?ni ni'" unfolding e by (auto intro: delivers_trans [OF d(1)])
    then have "delivers p v f ni ni'" by (rule delivers_after [OF frame_queues(1)])
    moreover have "lock_of ni' = (if is_tail f then None else lock_of ni)"
      using d(2) by (cases "is_tail f") (simp_all add: e)
    moreover have "lock_wf ni'"
      using wf delivers_range(1) [OF \<open>delivers p v f ni ni'\<close>] d(3,4) by (auto simp: e lock_wf_def wake_next_def)
    ultimately show ?thesis by blast
  next
    case False
    then have "ni' = ?ni\<lparr> ni_callbacks := ni_callbacks ni @ [nf_vnet f] \<rparr>"
      using run q u by (auto simp: drain_front_def Let_def split: if_splits)
    then show ?thesis using wf by (auto simp: same_queues_def lock_of_def lock_wf_def in_range_def)
  qed
qed

definition lock_kept :: "('m, 'u, 'z) NI_receive_scheme \<Rightarrow> ('m, 'u, 'z) NI_receive_scheme \<Rightarrow> bool" where
  "lock_kept ni ni' \<longleftrightarrow> lock_wf ni' \<and> lock_of ni' = lock_of ni"

lemma drain_cases:
  assumes run: "drain_locked dep c ni = Inr ni'" and wf: "lock_wf ni"
  obtains (idle) "same_queues ni ni'" "lock_kept ni ni'"
  | (bypass) l p v f where "lock_of ni = Some l" "(p, v) \<noteq> l" "is_control f" "delivers p v f ni ni'" "lock_kept ni ni'"
  | (front) p v f where "lock_of ni = Some (p, v)" "delivers p v f ni ni'" "lock_of ni' = (if is_tail f then None else Some (p, v))" "lock_wf ni'"
proof (cases "locked_input_port ni = - 1")
  case True
  then show thesis using run wf idle by (simp add: drain_locked_def lock_kept_def)
next
  case False
  define p v where pv: "p = nat (locked_input_port ni)" "v = nat (locked_vc ni)"
  have r: "in_range ni p v" "lock_of ni = Some (p, v)" using wf False by (auto simp: lock_wf_def pv lock_of_def)
  show thesis
  proof (cases "assembler ni p v")
    case Nil
    then have "ni' = wake_next c ni" using run wf False by (auto simp: drain_locked_def lock_wf_def in_range_def pv Let_def split: if_splits)
    moreover have "lock_wf (wake_next c ni)" using wf by (simp add: lock_wf_def wake_next_def in_range_def)
    ultimately show thesis using idle by (simp add: lock_kept_def)
  next
    case (Cons f q)
    obtain found ni1 where b: "(if is_tail f then Inr (False, ni) else bypass_control dep c (p, v) (search_order ni p) ni) = Inr (found, ni1)"
      and d: "if found then ni' = ni1 else drain_front dep c p v ni1 = Inr ni'"
      using run wf False Cons by (auto simp: drain_locked_def lock_wf_def in_range_def pv Let_def rbind_Inr_iff split: if_splits)
    have ok: "bypass_ok (p, v) found ni ni1"
    proof (cases "is_tail f")
      case True
      then show ?thesis using b by (simp add: bypass_ok_def)
    next
      case False
      then show ?thesis using b search_order_range [of _ _ ni p] by (auto intro!: bypass_cases)
    qed
    show thesis
    proof (cases found)
      case True
      then obtain p' v' f' where x: "(p', v') \<noteq> (p, v)" "is_control f'" "delivers p' v' f' ni ni1" using ok by (auto simp: bypass_ok_def)
      have "lock_wf ni1" by (rule lock_wf_frame [OF wf]) (use ok delivers_range(1) [OF x(3)] in \<open>simp_all add: bypass_ok_def\<close>)
      then have "lock_kept ni ni1" using ok lock_eqs by (auto simp: lock_kept_def bypass_ok_def)
      then show thesis using True d x bypass [OF r(2)] by simp
    next
      case no: False
      then have s: "same_queues ni ni1" "lock_of ni1 = lock_of ni" using ok lock_eqs by (auto simp: bypass_ok_def)
      note sr = same_queues_range [OF s(1)]
      have "lock_wf ni1" by (rule lock_wf_frame [OF wf]) (use ok sr(1) in \<open>simp_all add: bypass_ok_def\<close>)
      moreover have "in_range ni1 p v" "assembler ni1 p v = f # q" using r(1) sr(1,2) Cons by (auto simp: in_range_def)
      ultimately have "lock_wf ni' \<and> (same_queues ni1 ni' \<and> lock_of ni' = lock_of ni \<or>
          delivers p v f ni1 ni' \<and> lock_of ni' = (if is_tail f then None else lock_of ni))"
        using drain_front_cases d no s(2) by metis
      then consider "lock_kept ni ni'" "same_queues ni1 ni'"
        | "lock_wf ni'" "delivers p v f ni1 ni'" "lock_of ni' = (if is_tail f then None else Some (p, v))"
        using r(2) by (auto simp: lock_kept_def)
      then show thesis
      proof cases
        case 1
        then show thesis using idle same_queues_trans [OF s(1)] by blast
      next
        case 2
        then show thesis using front [OF r(2) delivers_after [OF s(1)]] by blast
      qed
    qed
  qed
qed

lemma find_eligible_Some:
  "find_eligible net ni pvs = Inr (Some (p, v)) \<Longrightarrow>
    (p, v) \<in> set pvs \<and> eligible net (ip_routerID (inPorts ni ! p)) v (assembler ni p v) = Inr True"
  by (induction pvs) (auto simp: rbind_Inr_iff split: if_splits)

lemma select_cases:
  assumes run: "select_assembler net ni = Inr ni'" and wf: "lock_wf ni"
  shows "same_queues ni ni' \<and> lock_wf ni' \<and> (lock_of ni' = lock_of ni \<or>
    (\<exists>p v. lock_of ni = None \<and> lock_of ni' = Some (p, v) \<and> in_range ni p v \<and>
       eligible net (ip_routerID (inPorts ni ! p)) v (assembler ni p v) = Inr True))"
proof (cases "locked_input_port ni = - 1")
  case True
  obtain r where r: "find_eligible net ni (search_order ni (next_input_port ni)) = Inr r"
    and ni': "ni' = (case r of None \<Rightarrow> ni | Some (p, v) \<Rightarrow> lock_assembler p v ni)"
    using run True by (auto simp: select_assembler_def rbind_Inr_iff split: option.splits)
  show ?thesis
  proof (cases r)
    case (Some pv)
    obtain p v where pv: "r = Some (p, v)" using Some by (cases pv) simp
    then have e: "in_range ni p v" "eligible net (ip_routerID (inPorts ni ! p)) v (assembler ni p v) = Inr True"
      using find_eligible_Some r search_order_range by blast+
    have "same_queues ni (lock_assembler p v ni)"
      using e(1) by (auto simp: same_queues_def lock_assembler_def Let_def in_range_def list_all2_conv_all_nth nth_list_update same_port_def)
    moreover have "lock_wf (lock_assembler p v ni)"
      using e(1) by (auto simp: lock_wf_def lock_assembler_def Let_def in_range_def nth_list_update)
    ultimately show ?thesis using e True by (auto simp: ni' pv lock_of_def lock_assembler_def Let_def)
  qed (use wf in \<open>simp add: ni'\<close>)
qed (use run wf in \<open>simp add: select_assembler_def\<close>)

text \<open>A scan moves the first flits of a link to the ends of their queues.\<close>

definition of_vc :: "nat \<Rightarrow> 'm nflit list \<Rightarrow> 'm nflit list" where
  "of_vc v fs = filter (\<lambda>f. nf_vc f = int v) fs"

definition scanned :: "'m ni_network \<Rightarrow> 'm InputPort \<Rightarrow> 'm InputPort \<Rightarrow> bool" where
  "scanned net a b \<longleftrightarrow> (\<exists>ts. ip_link a = ts @ ip_link b \<and> length (m_npp_assemblers b) = length (m_npp_assemblers a) \<and>
     (\<forall>v < length (m_npp_assemblers a). m_npp_assemblers b ! v = m_npp_assemblers a ! v @ map (taken_flit net (ip_routerID a)) (of_vc v ts) \<and>
       length (m_npp_assemblers a ! v) + length (of_vc v ts) \<le> max (length (m_npp_assemblers a ! v)) kNppAssemblerMaxFlits)) \<and>
     ip_bitWidth b = ip_bitWidth a \<and> ip_routerID b = ip_routerID a \<and> outCreditQueue b = outCreditQueue a"

lemma take_link_spec:
  assumes "take_link net now w r fs qs = Inr (st, fs', qs')"
  shows "\<exists>ts. fs = ts @ fs' \<and> length qs' = length qs \<and> (\<forall>v < length qs. qs' ! v = qs ! v @ map (taken_flit net r) (of_vc v ts) \<and>
    length (qs ! v) + length (of_vc v ts) \<le> max (length (qs ! v)) kNppAssemblerMaxFlits)"
  using assms
proof (induction net now w r fs qs rule: take_link.induct)
  case (1 net now w r qs)
  then show ?case by (auto simp: of_vc_def)
next
  case (2 net now w r f fs qs)
  show ?case
  proof (cases "nf_time f > now \<or> kNppAssemblerMaxFlits \<le> length (qs ! nat (nf_vc f))")
    case True
    then have "fs' = f # fs" "qs' = qs" using 2(2) by (auto simp: Let_def split: if_splits)
    then show ?thesis by (intro exI [of _ "[]"]) (simp add: of_vc_def)
  next
    case False
    define v0 where "v0 = nat (nf_vc f)"
    let ?qs = "qs[v0 := qs ! v0 @ [taken_flit net r f]]"
    have cond: "\<not> now < nf_time f" "\<not> (nf_vc f < 0 \<or> int (length qs) \<le> nf_vc f)" "\<not> kNppAssemblerMaxFlits \<le> length (qs ! v0)"
      "\<not> nf_width f \<noteq> w" and run: "take_link net now w r fs ?qs = Inr (st, fs', qs')"
      using 2(2) False by (auto simp: Let_def v0_def split: if_splits)
    then have f: "nf_vc f = int v0" "v0 < length qs" "length (qs ! v0) < kNppAssemblerMaxFlits" by (auto simp: v0_def)
    from 2(1) [OF cond(1,2) v0_def cond(3,4) run]
    obtain ts where ts: "fs = ts @ fs'" "length qs' = length qs"
      "\<forall>v < length qs. qs' ! v = ?qs ! v @ map (taken_flit net r) (of_vc v ts) \<and>
        length (?qs ! v) + length (of_vc v ts) \<le> max (length (?qs ! v)) kNppAssemblerMaxFlits"
      by auto
    have "qs' ! v = qs ! v @ map (taken_flit net r) (of_vc v (f # ts)) \<and> length (qs ! v) + length (of_vc v (f # ts)) \<le> max (length (qs ! v)) kNppAssemblerMaxFlits"
      if "v < length qs" for v
      using ts(3) that f by (cases "v = v0") (auto simp: of_vc_def max_def split: if_splits)
    then show ?thesis using ts(1,2) by (intro exI [of _ "f # ts"]) simp
  qed
qed

lemma scan_port_spec: "scan_port net now a = Inr (st, b) \<Longrightarrow> scanned net a b"
  by (auto simp: scan_port_def rbind_Inr_iff scanned_def dest!: take_link_spec)

lemma rmap_list_all2: "rmap f xs = Inr ys \<Longrightarrow> list_all2 (\<lambda>x y. f x = Inr y) xs ys"
  by (induction xs arbitrary: ys) (auto simp: rbind_Inr_iff)

lemma scan_ports_spec:
  assumes "scan_ports net c ni = Inr ni'"
  shows "list_all2 (scanned net) (inPorts ni) (inPorts ni')" and "ni_delivered ni' = ni_delivered ni"
    and "lock_of ni' = lock_of ni" and "locked_input_port ni' = locked_input_port ni" "locked_vc ni' = locked_vc ni"
    and "outNode_wired ni' = outNode_wired ni" and "ni_unit ni' = ni_unit ni"
proof -
  obtain rs where rs: "rmap (scan_port net (curTick c)) (inPorts ni) = Inr rs"
    and ni': "ni' = ni\<lparr> inPorts := map snd rs, ni_wakeups := ni_wakeups ni @ replicate (length (filter fst rs)) (next_edge c) \<rparr>"
    using assms by (auto simp: scan_ports_def rbind_Inr_iff)
  have "scan_port net now a = Inr r \<Longrightarrow> scanned net a (snd r)" for now a r by (cases r) (simp add: scan_port_spec)
  then show "list_all2 (scanned net) (inPorts ni) (inPorts ni')"
    using list_all2_mono [OF rmap_list_all2 [OF rs]] by (simp add: ni' list_all2_map2)
qed (use assms in \<open>auto simp: scan_ports_def rbind_Inr_iff lock_of_def\<close>)

lemma scanned_range:
  assumes "list_all2 (scanned net) (inPorts ni) (inPorts ni')"
  shows "in_range ni' p v = in_range ni p v" and "length (inPorts ni') = length (inPorts ni)"
    and "p < length (inPorts ni) \<Longrightarrow> scanned net (inPorts ni ! p) (inPorts ni' ! p)"
  using assms by (auto simp: in_range_def list_all2_conv_all_nth scanned_def)

section \<open>Runs of the interface\<close>

text \<open>
  Flits arrive at the links, the interface wakes up with any behaviour of its unit allowed by \<open>dep_ok\<close>, credits are taken
  from the credit queues, and the unit changes by itself. The trace records the arrivals and the credits taken.
\<close>

record ('m, 'u) ni_trace =
  tr_ni :: "('m, 'u) NI_receive"
  tr_now :: Tick
  tr_arrived :: "nat \<Rightarrow> 'm nflit list"
  tr_credits :: "nat \<Rightarrow> (int \<times> bool) list"

type_synonym ('m, 'u) unit_calls = "clock \<Rightarrow> ('m nflit \<Rightarrow> 'u \<Rightarrow> (bool \<times> 'u) result) \<Rightarrow> bool"

inductive ni_step :: "'m ni_network \<Rightarrow> ('m, 'u) unit_calls \<Rightarrow> (Tick \<Rightarrow> 'u \<Rightarrow> 'u \<Rightarrow> bool) \<Rightarrow> ('m, 'u) ni_trace \<Rightarrow> ('m, 'u) ni_trace \<Rightarrow> bool"
  for net dep_ok unit_ok where
  ni_arrive: "p < length (inPorts (tr_ni t)) \<Longrightarrow> ip = inPorts (tr_ni t) ! p \<Longrightarrow>
    ni_step net dep_ok unit_ok t (t\<lparr> tr_ni := (tr_ni t)\<lparr> inPorts := (inPorts (tr_ni t))[p := ip\<lparr> ip_link := ip_link ip @ [f] \<rparr>] \<rparr>,
      tr_arrived := (tr_arrived t)(p := tr_arrived t p @ [f]) \<rparr>)"
| ni_wake: "tr_now t \<le> clockEdge c \<Longrightarrow> dep_ok c dep \<Longrightarrow> wakeup_receive net dep c (tr_ni t) = Inr ni' \<Longrightarrow>
    ni_step net dep_ok unit_ok t (t\<lparr> tr_ni := ni', tr_now := clockEdge c \<rparr>)"
| ni_credit: "p < length (inPorts (tr_ni t)) \<Longrightarrow> ip = inPorts (tr_ni t) ! p \<Longrightarrow> outCreditQueue ip = x # xs \<Longrightarrow>
    ni_step net dep_ok unit_ok t (t\<lparr> tr_ni := (tr_ni t)\<lparr> inPorts := (inPorts (tr_ni t))[p := ip\<lparr> outCreditQueue := xs \<rparr>] \<rparr>,
      tr_credits := (tr_credits t)(p := tr_credits t p @ [x]) \<rparr>)"
| ni_unit_step: "tr_now t \<le> now \<Longrightarrow> unit_ok now (ni_unit (tr_ni t)) u \<Longrightarrow>
    ni_step net dep_ok unit_ok t (t\<lparr> tr_ni := (tr_ni t)\<lparr> ni_unit := u \<rparr>, tr_now := now \<rparr>)"

definition fresh_ports :: "nat \<Rightarrow> (nat \<times> int) list \<Rightarrow> 'm InputPort list" where
  "fresh_ports vcs ports = map (\<lambda>(w, r). new_InputPort w r vcs) ports"

definition ni_start :: "nat \<Rightarrow> (nat \<times> int) list \<Rightarrow> bool list \<Rightarrow> 'u \<Rightarrow> ('m, 'u) ni_trace" where
  "ni_start vcs ports wired u =
     \<lparr> tr_ni = new_NI_receive (fresh_ports vcs ports) wired u, tr_now = 0, tr_arrived = (\<lambda>_. []), tr_credits = (\<lambda>_. []) \<rparr>"

definition ni_reach :: "'m ni_network \<Rightarrow> ('m, 'u) unit_calls \<Rightarrow> (Tick \<Rightarrow> 'u \<Rightarrow> 'u \<Rightarrow> bool) \<Rightarrow> nat \<Rightarrow> (nat \<times> int) list \<Rightarrow> bool list \<Rightarrow> 'u \<Rightarrow>
    ('m, 'u) ni_trace \<Rightarrow> bool" where
  "ni_reach net dep_ok unit_ok vcs ports wired u t \<longleftrightarrow> (ni_step net dep_ok unit_ok)\<^sup>*\<^sup>* (ni_start vcs ports wired u) t"

end
