(* ===== verification/NI_Receive_Order.thy ===== *)
theory NI_Receive_Order
  imports NI_Receive_Props
begin

text \<open>
  What holds in every reachable state of the receiving side of a network interface: the flits of a port and channel
  are delivered in the order they arrived, each delivered flit returns one credit, the packets do not mix on the way
  to the unit, and on well-formed traffic the interface never stops.
\<close>

section \<open>Order and credits\<close>

definition queue_of :: "nat \<Rightarrow> nat \<Rightarrow> (nat \<times> nat \<times> 'a) list \<Rightarrow> 'a list" where
  "queue_of p v xs = map (snd \<circ> snd) (filter (\<lambda>x. fst x = p \<and> fst (snd x) = v) xs)"

definition credits_of :: "nat \<Rightarrow> (nat \<times> nat \<times> 'm nflit) list \<Rightarrow> (int \<times> bool) list" where
  "credits_of p xs = map (\<lambda>x. (nf_vc (snd (snd x)), is_tail (snd (snd x)))) (filter (\<lambda>x. fst x = p) xs)"

lemma queue_of_simps [simp]:
  "queue_of p v [] = []" "queue_of p v (xs @ ys) = queue_of p v xs @ queue_of p v ys"
  "queue_of p v [(p', v', f)] = (if (p', v') = (p, v) then [f] else [])"
  by (simp_all add: queue_of_def)

lemma credits_of_simps [simp]:
  "credits_of p [] = []" "credits_of p (xs @ ys) = credits_of p xs @ credits_of p ys"
  "credits_of p [(p', v', f)] = (if p' = p then [(nf_vc f, is_tail f)] else [])"
  by (simp_all add: credits_of_def)

text \<open>All flits of a port and channel that have reached the interface, in order: delivered, queued and still on the link.\<close>

definition all_flits :: "'m ni_network \<Rightarrow> ('m, 'u, 'z) NI_receive_scheme \<Rightarrow> nat \<Rightarrow> nat \<Rightarrow> 'm nflit list" where
  "all_flits net ni p v = queue_of p v (ni_delivered ni) @ assembler ni p v @
     map (taken_flit net (ip_routerID (inPorts ni ! p))) (of_vc v (ip_link (inPorts ni ! p)))"

definition bounded :: "('m, 'u, 'z) NI_receive_scheme \<Rightarrow> bool" where
  "bounded ni \<longleftrightarrow> (\<forall>p v. in_range ni p v \<longrightarrow> length (assembler ni p v) \<le> kNppAssemblerMaxFlits)"

text \<open>The invariant of a step: the flits, the bound and the surplus of credits over deliveries are kept.\<close>

definition keeps :: "'m ni_network \<Rightarrow> ('m, 'u, 'z) NI_receive_scheme \<Rightarrow> ('m, 'u, 'z) NI_receive_scheme \<Rightarrow> bool" where
  "keeps net ni ni' \<longleftrightarrow> length (inPorts ni') = length (inPorts ni) \<and> (\<forall>p v. in_range ni' p v = in_range ni p v) \<and>
     (\<forall>p v. in_range ni p v \<longrightarrow> all_flits net ni' p v = all_flits net ni p v) \<and> (bounded ni \<longrightarrow> bounded ni') \<and>
     (\<forall>p < length (inPorts ni). ip_routerID (inPorts ni' ! p) = ip_routerID (inPorts ni ! p) \<and>
        ip_bitWidth (inPorts ni' ! p) = ip_bitWidth (inPorts ni ! p) \<and> suffix (ip_link (inPorts ni' ! p)) (ip_link (inPorts ni ! p)) \<and>
        (\<exists>cs. outCreditQueue (inPorts ni' ! p) = outCreditQueue (inPorts ni ! p) @ cs \<and>
          credits_of p (ni_delivered ni') = credits_of p (ni_delivered ni) @ cs)) \<and>
     (\<forall>x \<in> set (ni_delivered ni'). x \<in> set (ni_delivered ni) \<or> in_range ni (fst x) (fst (snd x))) \<and> outNode_wired ni' = outNode_wired ni"

lemma keeps_trans:
  assumes "keeps net a b" and "keeps net b c"
  shows "keeps net a c"
proof -
  have "\<exists>cs. outCreditQueue (inPorts c ! p) = outCreditQueue (inPorts a ! p) @ cs \<and>
      credits_of p (ni_delivered c) = credits_of p (ni_delivered a) @ cs" if p: "p < length (inPorts a)" for p
  proof -
    obtain cs where cs: "outCreditQueue (inPorts b ! p) = outCreditQueue (inPorts a ! p) @ cs"
      "credits_of p (ni_delivered b) = credits_of p (ni_delivered a) @ cs" using assms(1) p unfolding keeps_def by blast
    obtain cs' where "outCreditQueue (inPorts c ! p) = outCreditQueue (inPorts b ! p) @ cs'"
      "credits_of p (ni_delivered c) = credits_of p (ni_delivered b) @ cs'" using assms p unfolding keeps_def by metis
    with cs show ?thesis by simp
  qed
  then show ?thesis using assms unfolding keeps_def by (auto intro: suffix_order.order_trans)
qed

lemma same_queues_keeps:
  assumes "same_queues ni ni'"
  shows "keeps net ni ni'"
proof -
  note r = same_queues_range [OF assms]
  have d: "ni_delivered ni' = ni_delivered ni" "outNode_wired ni' = outNode_wired ni" using assms by (simp_all add: same_queues_def)
  have "all_flits net ni' p v = all_flits net ni p v" if "in_range ni p v" for p v
    using r(2,4) [of p] that by (simp add: all_flits_def d in_range_def same_port_def)
  moreover have "bounded ni \<Longrightarrow> bounded ni'" using r(1,2) by (auto simp: bounded_def in_range_def)
  moreover have "ip_routerID (inPorts ni' ! p) = ip_routerID (inPorts ni ! p)" "outCreditQueue (inPorts ni' ! p) = outCreditQueue (inPorts ni ! p)"
    "ip_bitWidth (inPorts ni' ! p) = ip_bitWidth (inPorts ni ! p)" "ip_link (inPorts ni' ! p) = ip_link (inPorts ni ! p)"
    if "p < length (inPorts ni)" for p using r(4) [OF that] by (simp_all add: same_port_def)
  ultimately show ?thesis using r(1,3) d by (simp add: keeps_def)
qed

lemma delivers_keeps:
  assumes "delivers p v f ni ni'"
  shows "keeps net ni ni'"
proof -
  note r = delivers_range [OF assms]
  have d: "ni_delivered ni' = ni_delivered ni @ [(p, v, f)]" "outNode_wired ni' = outNode_wired ni" "in_range ni p v" using assms by (simp_all add: delivers_def)
  have port: "ip_routerID (inPorts ni' ! k) = ip_routerID (inPorts ni ! k)" "ip_link (inPorts ni' ! k) = ip_link (inPorts ni ! k)"
    "ip_bitWidth (inPorts ni' ! k) = ip_bitWidth (inPorts ni ! k)"
    "outCreditQueue (inPorts ni' ! k) = outCreditQueue (inPorts ni ! k) @ (if p = k then [(nf_vc f, is_tail f)] else [])"
    if "k < length (inPorts ni)" for k
    using r(3) [OF that] by (auto simp: same_port_def popped_port_def split: if_splits)
  have "all_flits net ni' k w = all_flits net ni k w" if "in_range ni k w" for k w
    using port(1,2) [of k] r(4) [OF that] that by (auto simp: all_flits_def d in_range_def split: if_splits)
  moreover have "bounded ni'" if "bounded ni"
    unfolding bounded_def
  proof (intro allI impI)
    fix k w
    assume "in_range ni' k w"
    then have "in_range ni k w" using r(1) by simp
    moreover have "length (assembler ni' k w) \<le> length (assembler ni k w)" using r(4) [OF calculation] by (simp split: if_splits)
    ultimately show "length (assembler ni' k w) \<le> kNppAssemblerMaxFlits" using that unfolding bounded_def by (meson le_trans)
  qed
  ultimately show ?thesis using port r(1,2) d unfolding keeps_def by auto
qed

lemma scanned_keeps:
  assumes "scan_ports net c ni = Inr ni'"
  shows "keeps net ni ni'"
proof -
  note s = scan_ports_spec [OF assms]
  note r = scanned_range [OF s(1)]
  have "all_flits net ni' p v = all_flits net ni p v \<and> (bounded ni \<longrightarrow> length (assembler ni' p v) \<le> kNppAssemblerMaxFlits)" if "in_range ni p v" for p v
  proof -
    have "scanned net (inPorts ni ! p) (inPorts ni' ! p)" "v < length (m_npp_assemblers (inPorts ni ! p))"
      using r(3) that by (simp_all add: in_range_def)
    then obtain ts where ts: "ip_link (inPorts ni ! p) = ts @ ip_link (inPorts ni' ! p)"
      "assembler ni' p v = assembler ni p v @ map (taken_flit net (ip_routerID (inPorts ni ! p))) (of_vc v ts)"
      "length (assembler ni p v) + length (of_vc v ts) \<le> max (length (assembler ni p v)) kNppAssemblerMaxFlits"
      "ip_routerID (inPorts ni' ! p) = ip_routerID (inPorts ni ! p)"
      by (auto simp: scanned_def assembler_def)
    show ?thesis using ts that s(2) by (auto simp: all_flits_def of_vc_def bounded_def)
  qed
  moreover have "ip_routerID (inPorts ni' ! p) = ip_routerID (inPorts ni ! p)" "outCreditQueue (inPorts ni' ! p) = outCreditQueue (inPorts ni ! p)"
    "ip_bitWidth (inPorts ni' ! p) = ip_bitWidth (inPorts ni ! p)" "suffix (ip_link (inPorts ni' ! p)) (ip_link (inPorts ni ! p))"
    if "p < length (inPorts ni)" for p using r(3) [OF that] by (auto simp: scanned_def suffix_def)
  ultimately show ?thesis using r(1,2) s(2,6) by (auto simp: keeps_def bounded_def)
qed

lemma schedule_credits_frame:
  "same_queues ni (schedule_credits c ni)" "lock_of (schedule_credits c ni) = lock_of ni"
  "locked_input_port (schedule_credits c ni) = locked_input_port ni" "locked_vc (schedule_credits c ni) = locked_vc ni"
  "ni_unit (schedule_credits c ni) = ni_unit ni"
  by (auto simp: schedule_credits_def same_queues_def same_port_def list_all2_conv_all_nth lock_of_def)

lemma wakeup_parts:
  assumes "wakeup_receive net dep c ni = Inr ni'"
  obtains a b d where "scan_ports net c ni = Inr a" "select_assembler net a = Inr b" "drain_locked dep c b = Inr d" "ni' = schedule_credits c d"
  using assms by (auto simp: wakeup_receive_def rbind_Inr_iff)

lemma scan_lock_wf: "scan_ports net c ni = Inr a \<Longrightarrow> lock_wf ni \<Longrightarrow> lock_wf a"
  using scan_ports_spec scanned_range(1) by (metis lock_wf_frame)

lemma schedule_lock_wf: "lock_wf ni \<Longrightarrow> lock_wf (schedule_credits c ni)"
  by (rule lock_wf_frame) (simp_all add: schedule_credits_frame same_queues_range(1) [OF schedule_credits_frame(1)])

lemma wakeup_keeps:
  assumes run: "wakeup_receive net dep c ni = Inr ni'" and wf: "lock_wf ni"
  shows "keeps net ni ni'" and "lock_wf ni'"
proof -
  obtain a b d where w: "scan_ports net c ni = Inr a" "select_assembler net a = Inr b" "drain_locked dep c b = Inr d"
    "ni' = schedule_credits c d" using wakeup_parts [OF run] by blast
  have b: "same_queues a b" "lock_wf b" using select_cases [OF w(2) scan_lock_wf [OF w(1) wf]] by auto
  have "keeps net b d \<and> lock_wf d"
    using w(3) b(2) by (cases rule: drain_cases) (auto simp: same_queues_keeps delivers_keeps lock_kept_def)
  then show "keeps net ni ni'" "lock_wf ni'"
    using scanned_keeps [OF w(1)] same_queues_keeps [OF b(1)] same_queues_keeps [OF schedule_credits_frame(1)] schedule_lock_wf
    unfolding w(4) by (blast intro: keeps_trans)+
qed

definition arrived_at :: "'m ni_network \<Rightarrow> ('m, 'u) ni_trace \<Rightarrow> nat \<Rightarrow> nat \<Rightarrow> 'm nflit list" where
  "arrived_at net t p v = map (taken_flit net (ip_routerID (inPorts (tr_ni t) ! p))) (of_vc v (tr_arrived t p))"

definition queue_inv :: "'m ni_network \<Rightarrow> ('m, 'u) ni_trace \<Rightarrow> bool" where
  "queue_inv net t \<longleftrightarrow> lock_wf (tr_ni t) \<and> bounded (tr_ni t) \<and> (\<forall>x \<in> set (ni_delivered (tr_ni t)). in_range (tr_ni t) (fst x) (fst (snd x))) \<and>
     (\<forall>p v. in_range (tr_ni t) p v \<longrightarrow> all_flits net (tr_ni t) p v = arrived_at net t p v) \<and>
     (\<forall>p < length (inPorts (tr_ni t)). tr_credits t p @ outCreditQueue (inPorts (tr_ni t) ! p) = credits_of p (ni_delivered (tr_ni t)) \<and>
        suffix (ip_link (inPorts (tr_ni t) ! p)) (tr_arrived t p))"

lemma queue_inv_start: "queue_inv net (ni_start vcs ports wired u)"
  by (auto simp: queue_inv_def ni_start_def new_NI_receive_def lock_wf_def bounded_def all_flits_def arrived_at_def assembler_def in_range_def
      fresh_ports_def new_InputPort_def of_vc_def split: prod.splits)

lemma queue_inv_step:
  assumes "ni_step net dep_ok unit_ok t t'" and "queue_inv net t"
  shows "queue_inv net t'"
  using assms
proof (cases rule: ni_step.cases)
  case (ni_arrive p ip f)
  have r: "in_range (tr_ni t') k v = in_range (tr_ni t) k v" "assembler (tr_ni t') k v = assembler (tr_ni t) k v" for k v
    by (cases "k = p"; simp add: ni_arrive in_range_def assembler_def nth_list_update)+
  have "all_flits net (tr_ni t') k v = arrived_at net t' k v" if "in_range (tr_ni t) k v" for k v
    using assms(2) that r(2) [of k v]
    by (cases "k = p") (auto simp: queue_inv_def all_flits_def arrived_at_def ni_arrive of_vc_def)
  moreover have "lock_wf (tr_ni t')"
    by (rule lock_wf_frame [of "tr_ni t"]) (use assms(2) r in \<open>auto simp: queue_inv_def ni_arrive(1)\<close>)
  ultimately show ?thesis using assms(2) r ni_arrive(2)
    by (auto simp: queue_inv_def bounded_def ni_arrive(1,3) nth_list_update)
next
  case (ni_wake c dep ni')
  then have wf: "lock_wf (tr_ni t)" using assms(2) by (simp add: queue_inv_def)
  note k = wakeup_keeps [OF ni_wake(4) wf]
  have "tr_credits t p @ outCreditQueue (inPorts ni' ! p) = credits_of p (ni_delivered ni')" "suffix (ip_link (inPorts ni' ! p)) (tr_arrived t p)"
    if "p < length (inPorts ni')" for p
    using k(1) assms(2) that unfolding keeps_def queue_inv_def by (metis append_assoc, metis suffix_order.order_trans)
  moreover have "all_flits net ni' p v = arrived_at net t' p v" if "in_range ni' p v" for p v
  proof -
    have "in_range (tr_ni t) p v" using k(1) that by (simp add: keeps_def)
    then show ?thesis using k(1) assms(2) unfolding keeps_def queue_inv_def arrived_at_def ni_wake(1) by (simp add: in_range_def)
  qed
  moreover have "\<forall>x \<in> set (ni_delivered ni'). in_range ni' (fst x) (fst (snd x))" using k(1) assms(2) unfolding keeps_def queue_inv_def by blast
  ultimately show ?thesis using k assms(2) by (simp add: queue_inv_def keeps_def ni_wake(1))
next
  case (ni_credit p ip x xs)
  have r: "in_range (tr_ni t') k v = in_range (tr_ni t) k v" "assembler (tr_ni t') k v = assembler (tr_ni t) k v" for k v
    by (cases "k = p"; simp add: ni_credit in_range_def assembler_def nth_list_update)+
  have "all_flits net (tr_ni t') k v = arrived_at net t' k v" if "in_range (tr_ni t) k v" for k v
    using assms(2) that r(2) [of k v] by (cases "k = p") (auto simp: queue_inv_def all_flits_def arrived_at_def ni_credit)
  moreover have "lock_wf (tr_ni t')"
    by (rule lock_wf_frame [of "tr_ni t"]) (use assms(2) r in \<open>auto simp: queue_inv_def ni_credit(1)\<close>)
  ultimately show ?thesis using assms(2) r ni_credit(2,4)
    by (auto simp: queue_inv_def bounded_def ni_credit(1,3) nth_list_update)
next
  case (ni_unit_step now u)
  then show ?thesis using assms(2)
    by (auto simp: queue_inv_def lock_wf_def bounded_def all_flits_def arrived_at_def in_range_def assembler_def)
qed

lemma ni_reach_inv: "ni_reach net dep_ok unit_ok vcs ports wired u t \<Longrightarrow> queue_inv net t"
  unfolding ni_reach_def by (induction rule: rtranclp_induct) (auto intro: queue_inv_start queue_inv_step)

section \<open>Packets\<close>

definition axis_flit :: "'m ni_network \<Rightarrow> 'm nflit \<Rightarrow> bool" where
  "axis_flit net f \<longleftrightarrow> nn_axis net (nf_msg f)"

text \<open>A packet on the network; one of a stream is whole and has at most four flits.\<close>

definition net_packet :: "'m ni_network \<Rightarrow> 'm nflit list \<Rightarrow> bool" where
  "net_packet net pk \<longleftrightarrow> pk \<noteq> [] \<and>
     (\<forall>i < length pk. is_tail (pk ! i) = (Suc i = length pk) \<and> is_head (pk ! i) = (i = 0) \<and> axis_flit net (pk ! i) = axis_flit net (hd pk)) \<and>
     (axis_flit net (hd pk) \<longrightarrow> whole_packet (map describe pk) \<and> length pk \<le> 4)"

definition well_formed :: "'m ni_network \<Rightarrow> 'm nflit list \<Rightarrow> bool" where
  "well_formed net fs \<longleftrightarrow> (\<exists>pks. (\<forall>pk \<in> set pks. net_packet net pk) \<and> prefix fs (concat pks))"

definition at_border :: "'m nflit list \<Rightarrow> bool" where
  "at_border fs \<longleftrightarrow> fs = [] \<or> is_tail (last fs)"

lemma well_formed_prefix: "well_formed net (xs @ ys) \<Longrightarrow> well_formed net xs"
  unfolding well_formed_def by (metis append_prefixD)

text \<open>A list of flits either covers the first packet or ends inside it.\<close>

lemma first_net_packet:
  assumes "net_packet net pk" and "prefix (xs @ ys) (pk @ zs)"
  obtains (inside) "prefix xs pk" "length xs < length pk" | (beyond) xs' where "xs = pk @ xs'" "prefix (xs' @ ys) zs"
proof (cases "length xs < length pk")
  case True
  have "prefix xs (pk @ zs)" using assms(2) by (rule append_prefixD)
  then have "prefix xs pk" using True by (metis linorder_not_less prefix_length_prefix prefixI nat_less_le)
  then show thesis using True inside by blast
next
  case False
  have "prefix xs (pk @ zs)" using assms(2) by (rule append_prefixD)
  then have "prefix pk xs" using False by (metis linorder_not_less prefix_length_prefix prefixI)
  then obtain xs' where xs: "xs = pk @ xs'" by (auto simp: prefix_def)
  then show thesis using assms(2) beyond by simp
qed

lemma inside_not_tail:
  assumes "net_packet net pk" and "prefix xs pk" and "length xs < length pk" and "xs \<noteq> []"
  shows "\<not> is_tail (last xs)"
proof -
  have "last xs = pk ! (length xs - 1)" using assms(2,4) by (auto simp: prefix_def last_conv_nth nth_append)
  moreover have "Suc (length xs - 1) \<noteq> length pk" "length xs - 1 < length pk" using assms(3,4) by auto
  ultimately show ?thesis using assms(1) by (simp add: net_packet_def)
qed

lemma packet_tail: "net_packet net pk \<Longrightarrow> is_tail (last pk)"
  by (auto simp: net_packet_def last_conv_nth)

lemma border_append: "net_packet net pk \<Longrightarrow> at_border (pk @ xs) = at_border xs"
  by (cases "xs = []") (auto simp: at_border_def packet_tail)

lemma well_formed_rest:
  assumes "well_formed net (xs @ ys)" and "at_border xs"
  shows "well_formed net ys"
proof -
  obtain pks where "\<forall>pk \<in> set pks. net_packet net pk" "prefix (xs @ ys) (concat pks)" using assms(1) by (auto simp: well_formed_def)
  then show ?thesis using assms(2)
  proof (induction pks arbitrary: xs)
    case Nil
    then show ?case by (auto simp: well_formed_def intro: exI [of _ "[]"])
  next
    case (Cons pk pks)
    show ?case
    proof (cases "xs = []")
      case True
      then show ?thesis using Cons.prems(1,2) unfolding well_formed_def by (metis append_Nil)
    next
      case False
      have pk: "net_packet net pk" "prefix (xs @ ys) (pk @ concat pks)" using Cons.prems(1,2) by simp_all
      from pk show ?thesis
      proof (cases rule: first_net_packet)
        case inside
        then show ?thesis using inside_not_tail [OF pk(1) inside False] False Cons.prems(3) by (simp add: at_border_def)
      next
        case (beyond xs')
        then have "at_border xs'" using Cons.prems(3) border_append [OF pk(1)] by simp
        then show ?thesis using Cons.IH [OF _ beyond(2)] Cons.prems(1) by simp
      qed
    qed
  qed
qed

lemma well_formed_next:
  assumes "well_formed net (xs @ y # ys)"
  shows "if at_border xs then is_head y else \<not> is_head y \<and> axis_flit net y = axis_flit net (last xs)"
proof -
  obtain pks where "\<forall>pk \<in> set pks. net_packet net pk" "prefix (xs @ y # ys) (concat pks)" using assms by (auto simp: well_formed_def)
  then show ?thesis
  proof (induction pks arbitrary: xs)
    case (Cons pk pks)
    have pk: "net_packet net pk" "prefix (xs @ y # ys) (pk @ concat pks)" using Cons.prems by simp_all
    from pk show ?case
    proof (cases rule: first_net_packet)
      case inside
      then have y: "y = pk ! length xs" using pk(2) by (auto simp: prefix_def nth_append dest: arg_cong [of _ _ "\<lambda>l. l ! length xs"])
      show ?thesis
      proof (cases "xs = []")
        case True
        then show ?thesis using pk(1) inside(2) by (simp add: y at_border_def net_packet_def)
      next
        case False
        then have "last xs = pk ! (length xs - 1)" "length xs - 1 < length pk"
          using inside by (auto simp: prefix_def last_conv_nth nth_append)
        then show ?thesis
          using pk(1) inside False inside_not_tail [OF pk(1) inside False] by (simp add: y at_border_def net_packet_def)
      qed
    next
      case (beyond xs')
      have "at_border xs = at_border xs'" "xs' \<noteq> [] \<Longrightarrow> last xs = last xs'"
        using border_append [OF pk(1)] beyond(1) by simp_all
      then show ?thesis using Cons.IH [OF _ beyond(2)] Cons.prems(1) by (auto simp: at_border_def)
    qed
  qed simp
qed

text \<open>
  The queue that is not locked is between packets. The locked one has a tail in its queue, or is inside of a packet that is
  not one of a stream. The flits other than control packets are delivered packet by packet.
\<close>

definition lock_ready :: "'m ni_network \<Rightarrow> 'm nflit list \<Rightarrow> 'm nflit list \<Rightarrow> bool" where
  "lock_ready net done q \<longleftrightarrow> (\<exists>x \<in> set q. is_tail x) \<or> (q \<noteq> [] \<and> \<not> axis_flit net (hd q)) \<or>
     (q = [] \<and> \<not> at_border done \<and> \<not> axis_flit net (last done))"

definition same_queue :: "nat \<times> nat \<times> 'm nflit \<Rightarrow> nat \<times> nat \<times> 'm nflit \<Rightarrow> bool" where
  "same_queue x y \<longleftrightarrow> fst y = fst x \<and> fst (snd y) = fst (snd x)"

definition plain :: "(nat \<times> nat \<times> 'm nflit) list \<Rightarrow> (nat \<times> nat \<times> 'm nflit) list" where
  "plain xs = filter (\<lambda>x. \<not> is_control (snd (snd x))) xs"

definition unmixed :: "(nat \<times> nat \<times> 'm nflit) list \<Rightarrow> bool" where
  "unmixed xs \<longleftrightarrow> successively (\<lambda>x y. is_tail (snd (snd x)) \<or> same_queue x y) (plain xs)"

definition open_packet :: "(nat \<times> nat) option \<Rightarrow> (nat \<times> nat \<times> 'm nflit) list \<Rightarrow> bool" where
  "open_packet l xs \<longleftrightarrow> plain xs = [] \<or> is_tail (snd (snd (last (plain xs)))) \<or>
     (\<exists>p v f. last (plain xs) = (p, v, f) \<and> l = Some (p, v) \<and> queue_of p v xs \<noteq> [] \<and> last (queue_of p v xs) = f)"

definition packet_inv :: "'m ni_network \<Rightarrow> ('m, 'u, 'z) NI_receive_scheme \<Rightarrow> bool" where
  "packet_inv net ni \<longleftrightarrow> unmixed (ni_delivered ni) \<and> open_packet (lock_of ni) (ni_delivered ni) \<and>
     (\<forall>p v. in_range ni p v \<longrightarrow> (if lock_of ni = Some (p, v) then lock_ready net (queue_of p v (ni_delivered ni)) (assembler ni p v)
       else at_border (queue_of p v (ni_delivered ni))))"

definition flits_ok :: "'m ni_network \<Rightarrow> ('m, 'u, 'z) NI_receive_scheme \<Rightarrow> bool" where
  "flits_ok net ni \<longleftrightarrow> (\<forall>p v. in_range ni p v \<longrightarrow> well_formed net (all_flits net ni p v))"

lemma keeps_flits_ok: "keeps net a b \<Longrightarrow> flits_ok net a \<longleftrightarrow> flits_ok net b"
  by (auto simp: keeps_def flits_ok_def)

lemma plain_append [simp]: "plain (xs @ ys) = plain xs @ plain ys"
  by (simp add: plain_def)

lemma plain_single: "plain [(p, v, f)] = (if is_control f then [] else [(p, v, f)])"
  by (simp add: plain_def)

lemma queue_ok:
  assumes "flits_ok net ni" and "in_range ni p v"
  shows "well_formed net (queue_of p v (ni_delivered ni) @ assembler ni p v)"
  using assms unfolding flits_ok_def all_flits_def by (metis append_assoc well_formed_prefix)

lemma packet_frame:
  assumes "same_queues ni ni'" and "lock_of ni' = lock_of ni" and "packet_inv net ni"
  shows "packet_inv net ni'"
proof -
  note r = same_queues_range [OF assms(1)]
  have d: "ni_delivered ni' = ni_delivered ni" using assms(1) by (simp add: same_queues_def)
  have "assembler ni' p v = assembler ni p v" if "in_range ni p v" for p v using r(2) that by (simp add: in_range_def)
  then show ?thesis using assms(3) unfolding packet_inv_def r(1) d assms(2) by simp
qed

lemma packet_scan:
  assumes run: "scan_ports net c ni = Inr ni'" and ok: "flits_ok net ni" and inv: "packet_inv net ni"
  shows "packet_inv net ni'"
proof -
  note s = scan_ports_spec [OF run]
  note r = scanned_range [OF s(1)]
  have ok': "flits_ok net ni'" using ok keeps_flits_ok [OF scanned_keeps [OF run]] by simp
  have "lock_ready net (queue_of p v (ni_delivered ni)) (assembler ni' p v)"
    if i: "in_range ni p v" and l: "lock_ready net (queue_of p v (ni_delivered ni)) (assembler ni p v)" for p v
  proof -
    have "scanned net (inPorts ni ! p) (inPorts ni' ! p)" "v < length (m_npp_assemblers (inPorts ni ! p))"
      using r(3) i by (simp_all add: in_range_def)
    then obtain more where m: "assembler ni' p v = assembler ni p v @ more" by (auto simp: scanned_def assembler_def)
    have "axis_flit net x = axis_flit net (last (queue_of p v (ni_delivered ni)))"
      if "assembler ni p v = []" "more = x # xs" "\<not> at_border (queue_of p v (ni_delivered ni))" for x xs
      using well_formed_next [of net "queue_of p v (ni_delivered ni)" x xs] queue_ok [OF ok', of p v] that m i r(1) s(2) by simp
    then show ?thesis using l m by (cases more) (auto simp: lock_ready_def)
  qed
  then show ?thesis using inv unfolding packet_inv_def r(1) s(2,3) by (auto split: if_splits)
qed

lemma eligible_ready:
  assumes "eligible net r v q = Inr True"
  shows "lock_ready net done q"
proof -
  obtain f fs where q: "q = f # fs" using assms by (cases q) (auto simp: eligible_def)
  show ?thesis
  proof (cases "axis_flit net f")
    case True
    then obtain d where "(case fst (checkNppReceivePrefix (map describe q) (int (NPP_MAX_SIZE div 16)) (int (min kNppAssemblerMaxFlits d))) of
        Complete \<Rightarrow> Inr True | Incomplete \<Rightarrow> Inr False | _ \<Rightarrow> Inl (Fatal ''AXIS receive packet'')) = (Inr True :: bool result)"
      using assms unfolding eligible_def q axis_flit_def by (simp only: list.case if_True rbind_Inr_iff) blast
    then have "fst (checkNppReceivePrefix (map describe q) (int (NPP_MAX_SIZE div 16)) (int (min kNppAssemblerMaxFlits d))) = Complete"
      by (simp split: NppReceiveStatus.splits)
    then obtain pk where pk: "prefix pk (map describe q)" "whole_packet pk" by (auto simp: check_complete allowed_packet_def)
    then have "npp_tail (last pk)" by (auto simp: whole_packet_def packet_flit_def last_conv_nth)
    moreover have "last pk \<in> set (map describe q)" using pk set_mono_prefix [OF pk(1)] by (auto simp: whole_packet_def)
    ultimately show ?thesis by (auto simp: lock_ready_def describe_def)
  qed (simp add: lock_ready_def q)
qed

lemma packet_select:
  assumes run: "select_assembler net ni = Inr ni'" and wf: "lock_wf ni" and inv: "packet_inv net ni"
  shows "packet_inv net ni'"
proof -
  note s = select_cases [OF run wf]
  show ?thesis
  proof (cases "lock_of ni' = lock_of ni")
    case True
    then show ?thesis using packet_frame s inv by blast
  next
    case False
    then obtain p v where l: "lock_of ni = None" "lock_of ni' = Some (p, v)" "in_range ni p v"
      "eligible net (ip_routerID (inPorts ni ! p)) v (assembler ni p v) = Inr True" using s by blast
    note r = same_queues_range [OF conjunct1 [OF s]]
    have d: "ni_delivered ni' = ni_delivered ni" using s by (simp add: same_queues_def)
    have "assembler ni' k w = assembler ni k w" if "in_range ni k w" for k w using r(2) that by (simp add: in_range_def)
    moreover have "open_packet (Some (p, v)) (ni_delivered ni)" using inv l(1) by (auto simp: packet_inv_def open_packet_def)
    ultimately show ?thesis
      using inv l eligible_ready [OF l(4)] unfolding packet_inv_def r(1) d by auto
  qed
qed

lemma packet_inv_queue:
  assumes "packet_inv net ni" and "in_range ni p v"
  shows "lock_of ni = Some (p, v) \<Longrightarrow> lock_ready net (queue_of p v (ni_delivered ni)) (assembler ni p v)"
    and "lock_of ni \<noteq> Some (p, v) \<Longrightarrow> at_border (queue_of p v (ni_delivered ni))"
  using assms by (simp_all add: packet_inv_def)

lemma control_flit: "is_control f \<Longrightarrow> is_head f \<and> is_tail f"
  by (simp add: is_control_def is_head_def is_tail_def)

lemma unmixed_snoc:
  "unmixed (xs @ [(p, v, f)]) \<longleftrightarrow> unmixed xs \<and> (is_control f \<or> plain xs = [] \<or> is_tail (snd (snd (last (plain xs)))) \<or> same_queue (last (plain xs)) (p, v, f))"
  by (auto simp: unmixed_def plain_single successively_append_iff)

lemma packet_bypass:
  assumes d: "delivers p v f ni ni'" and ctl: "is_control f" and l: "lock_of ni = Some l" "(p, v) \<noteq> l" "lock_of ni' = Some l"
    and inv: "packet_inv net ni"
  shows "packet_inv net ni'"
proof -
  note r = delivers_range [OF d]
  let ?xs = "ni_delivered ni"
  have xs: "ni_delivered ni' = ?xs @ [(p, v, f)]" using d by (simp add: delivers_def)
  have "unmixed (?xs @ [(p, v, f)])" using inv ctl by (simp add: packet_inv_def unmixed_snoc)
  moreover have "open_packet (Some l) (?xs @ [(p, v, f)])"
    using inv ctl l(1,2) by (auto simp: packet_inv_def open_packet_def plain_single)
  moreover have "if Some l = Some (k, w) then lock_ready net (queue_of k w (?xs @ [(p, v, f)])) (assembler ni' k w)
      else at_border (queue_of k w (?xs @ [(p, v, f)]))" if "in_range ni k w" for k w
    using packet_inv_queue [OF inv that] l r(4) [OF that] control_flit [OF ctl] by (auto simp: at_border_def)
  ultimately show ?thesis unfolding packet_inv_def xs l(3) r(1) by blast
qed

lemma packet_front:
  assumes d: "delivers p v f ni ni'" and l: "lock_of ni = Some (p, v)" "lock_of ni' = (if is_tail f then None else Some (p, v))"
    and inv: "packet_inv net ni" and ok: "flits_ok net ni"
  shows "packet_inv net ni'"
proof -
  note r = delivers_range [OF d]
  let ?xs = "ni_delivered ni" and ?D = "queue_of p v (ni_delivered ni)" and ?q = "assembler ni' p v"
  have xs: "ni_delivered ni' = ?xs @ [(p, v, f)]" and i: "in_range ni p v" using d by (simp_all add: delivers_def)
  have q: "assembler ni p v = f # ?q" using r(4) [OF i] by simp
  have wf: "well_formed net (?D @ f # ?q)" using queue_ok [OF ok i] q by simp
  have op: "open_packet (Some (p, v)) ?xs" using inv l(1) by (simp add: packet_inv_def)
  have head: "\<not> is_head f" if "plain ?xs \<noteq> []" "\<not> is_tail (snd (snd (last (plain ?xs))))"
  proof -
    have "\<not> at_border ?D" using op that by (auto simp: open_packet_def at_border_def)
    then show ?thesis using well_formed_next [OF wf] by simp
  qed
  have um: "unmixed (?xs @ [(p, v, f)])"
    using inv op by (auto simp: packet_inv_def unmixed_snoc open_packet_def same_queue_def)
  have op': "open_packet (if is_tail f then None else Some (p, v)) (?xs @ [(p, v, f)])"
  proof (cases "is_control f")
    case True
    then show ?thesis using True control_flit [OF True] head by (auto simp: open_packet_def plain_single)
  qed (simp add: open_packet_def plain_single)
  have ready: "lock_ready net (?D @ [f]) ?q" if "\<not> is_tail f"
  proof -
    have "lock_ready net ?D (f # ?q)" using packet_inv_queue(1) [OF inv i l(1)] q by simp
    moreover have "axis_flit net x = axis_flit net f" if "?q = x # q'" for x q'
      using well_formed_next [of net "?D @ [f]" x q'] wf that \<open>\<not> is_tail f\<close> by (simp add: at_border_def)
    ultimately show ?thesis using that by (cases ?q) (auto simp: lock_ready_def at_border_def)
  qed
  have "if lock_of ni' = Some (k, w) then lock_ready net (queue_of k w (?xs @ [(p, v, f)])) (assembler ni' k w)
      else at_border (queue_of k w (?xs @ [(p, v, f)]))" if "in_range ni k w" for k w
  proof (cases "(k, w) = (p, v)")
    case True
    then show ?thesis using ready l(2) by (auto simp: at_border_def)
  next
    case False
    then show ?thesis using packet_inv_queue(2) [OF inv that] l by auto
  qed
  then show ?thesis using um op' unfolding packet_inv_def xs r(1) l(2) by blast
qed

lemma packet_drain:
  assumes run: "drain_locked dep c ni = Inr ni'" and wf: "lock_wf ni" and inv: "packet_inv net ni" and ok: "flits_ok net ni"
  shows "packet_inv net ni'"
  using run wf
proof (cases rule: drain_cases)
  case idle
  then show ?thesis using packet_frame inv by (auto simp: lock_kept_def)
next
  case (bypass l p v f)
  then show ?thesis using packet_bypass [OF bypass(4,3,1,2) _ inv] by (simp add: lock_kept_def)
next
  case (front p v f)
  then show ?thesis using packet_front [OF front(2,1,3) inv ok] by simp
qed

lemma packet_wakeup:
  assumes run: "wakeup_receive net dep c ni = Inr ni'" and wf: "lock_wf ni" and inv: "packet_inv net ni" and ok: "flits_ok net ni"
  shows "packet_inv net ni'"
proof -
  obtain a b d where w: "scan_ports net c ni = Inr a" "select_assembler net a = Inr b" "drain_locked dep c b = Inr d"
    "ni' = schedule_credits c d" using wakeup_parts [OF run] by blast
  note wfa = scan_lock_wf [OF w(1) wf]
  have a: "packet_inv net a" "flits_ok net a" using packet_scan [OF w(1) ok inv] ok keeps_flits_ok [OF scanned_keeps [OF w(1)]] by simp_all
  have s: "same_queues a b" "lock_wf b" using select_cases [OF w(2) wfa] by auto
  have b: "packet_inv net b" "flits_ok net b" using packet_select [OF w(2) wfa a(1)] a(2) keeps_flits_ok [OF same_queues_keeps [OF s(1)]] by simp_all
  have "packet_inv net d" by (rule packet_drain [OF w(3) s(2) b])
  then show ?thesis unfolding w(4) by (rule packet_frame [OF schedule_credits_frame(1,2)])
qed

lemma packet_inv_cong:
  assumes "packet_inv net ni" and "ni_delivered ni' = ni_delivered ni" and "lock_of ni' = lock_of ni"
    and "\<And>p v. in_range ni' p v = in_range ni p v" and "\<And>p v. assembler ni' p v = assembler ni p v"
  shows "packet_inv net ni'"
  using assms(1) unfolding packet_inv_def assms(2-) .

definition arrivals_ok :: "'m ni_network \<Rightarrow> ('m, 'u) ni_trace \<Rightarrow> bool" where
  "arrivals_ok net t \<longleftrightarrow> (\<forall>p v. in_range (tr_ni t) p v \<longrightarrow> well_formed net (arrived_at net t p v))"

lemma arrivals_flits: "queue_inv net t \<Longrightarrow> arrivals_ok net t \<longleftrightarrow> flits_ok net (tr_ni t)"
  by (auto simp: queue_inv_def arrivals_ok_def flits_ok_def)

lemma packet_step:
  assumes "ni_step net dep_ok unit_ok t t'" and "queue_inv net t" and "flits_ok net (tr_ni t) \<Longrightarrow> packet_inv net (tr_ni t)"
    and ok: "flits_ok net (tr_ni t')"
  shows "packet_inv net (tr_ni t')"
  using assms(1)
proof (cases rule: ni_step.cases)
  case (ni_arrive p ip f)
  have r: "in_range (tr_ni t') k v = in_range (tr_ni t) k v" "assembler (tr_ni t') k v = assembler (tr_ni t) k v" for k v
    by (cases "k = p"; simp add: ni_arrive in_range_def assembler_def nth_list_update)+
  have "\<exists>more. all_flits net (tr_ni t') k v = all_flits net (tr_ni t) k v @ more" for k v
    using r(2) [of k v] by (cases "k = p"; cases "p < length (inPorts (tr_ni t))") (auto simp: all_flits_def ni_arrive of_vc_def)
  then have "flits_ok net (tr_ni t)" using ok well_formed_prefix unfolding flits_ok_def r(1) by metis
  then show ?thesis by (rule packet_inv_cong [OF assms(3)]) (simp_all add: r, simp_all add: ni_arrive(1))
next
  case (ni_wake c dep ni')
  have wf: "lock_wf (tr_ni t)" using assms(2) by (simp add: queue_inv_def)
  have "flits_ok net (tr_ni t)" using ok keeps_flits_ok [OF wakeup_keeps(1) [OF ni_wake(4) wf]] by (simp add: ni_wake(1))
  then show ?thesis using packet_wakeup [OF ni_wake(4) wf] assms(3) by (simp add: ni_wake(1))
next
  case (ni_credit p ip x xs)
  have r: "in_range (tr_ni t') k v = in_range (tr_ni t) k v" "assembler (tr_ni t') k v = assembler (tr_ni t) k v" for k v
    by (cases "k = p"; simp add: ni_credit in_range_def assembler_def nth_list_update)+
  have "all_flits net (tr_ni t') k v = all_flits net (tr_ni t) k v" for k v
    using r(2) [of k v] ni_credit(2) by (cases "k = p") (auto simp: all_flits_def ni_credit)
  then have "flits_ok net (tr_ni t)" using ok unfolding flits_ok_def r(1) by simp
  then show ?thesis by (rule packet_inv_cong [OF assms(3)]) (simp_all add: r, simp_all add: ni_credit(1))
next
  case (ni_unit_step now u)
  have q: "same_queues (tr_ni t) (tr_ni t')" "lock_of (tr_ni t') = lock_of (tr_ni t)" by (simp_all add: ni_unit_step(1))
  have "flits_ok net (tr_ni t)" using ok keeps_flits_ok [OF same_queues_keeps [OF q(1)]] by blast
  then show ?thesis by (rule packet_frame [OF q assms(3)])
qed

lemma ni_reach_packets:
  assumes "ni_reach net dep_ok unit_ok vcs ports wired u t" and "flits_ok net (tr_ni t)"
  shows "packet_inv net (tr_ni t)"
  using assms unfolding ni_reach_def
proof (induction rule: rtranclp_induct)
  case base
  show ?case by (simp add: packet_inv_def ni_start_def new_NI_receive_def unmixed_def open_packet_def plain_def at_border_def lock_of_def)
next
  case (step t t')
  have "queue_inv net t" using ni_reach_inv [of net dep_ok unit_ok vcs ports wired u t] step.hyps(1) by (simp add: ni_reach_def)
  then show ?case using packet_step step by blast
qed

section \<open>No failure on well-formed traffic\<close>

definition deep_credits :: "'m ni_network \<Rightarrow> bool" where
  "deep_credits net \<longleftrightarrow> (\<forall>r v. \<exists>d \<ge> 4. nn_credit_depth net r v = Inr d)"

lemma take_link_ok:
  assumes "\<forall>f \<in> set fs. 0 \<le> nf_vc f \<and> nf_vc f < int (length qs) \<and> nf_width f = w"
  shows "\<exists>r. take_link net now w router fs qs = Inr r"
  using assms by (induction fs arbitrary: qs) (auto simp: Let_def)

lemma eligible_first:
  assumes "well_formed net (f # fs)" and "axis_flit net f"
  obtains pk where "allowed_packet 4 w (map describe pk) \<longleftrightarrow> int (length pk) \<le> w" "length pk \<le> 4"
    "strict_prefix (f # fs) pk \<or> prefix pk (f # fs)"
proof -
  obtain pks where p: "\<forall>pk \<in> set pks. net_packet net pk" "prefix (f # fs) (concat pks)" using assms(1) by (auto simp: well_formed_def)
  then obtain pk pks' where pks: "pks = pk # pks'" by (cases pks) auto
  have pk: "net_packet net pk" "prefix ((f # fs) @ []) (pk @ concat pks')" using p by (simp_all add: pks)
  have "hd pk = f" using pk by (cases pk) (auto simp: net_packet_def prefix_def)
  then have w: "whole_packet (map describe pk)" "length pk \<le> 4" using pk(1) assms(2) by (simp_all add: net_packet_def)
  have "strict_prefix (f # fs) pk \<or> prefix pk (f # fs)"
    using pk by (cases rule: first_net_packet) (auto simp: strict_prefix_def prefix_def)
  moreover have "allowed_packet 4 w (map describe pk) \<longleftrightarrow> int (length pk) \<le> w" using w by (auto simp: allowed_packet_def)
  ultimately show thesis using that w(2) by blast
qed

lemma eligible_ok:
  assumes "well_formed net q" and "deep_credits net"
  shows "\<exists>b. eligible net r v q = Inr b"
proof (cases "q = [] \<or> \<not> axis_flit net (hd q)")
  case True
  then show ?thesis by (cases q) (auto simp: eligible_def axis_flit_def)
next
  case False
  then obtain f fs where q: "q = f # fs" "axis_flit net f" by (cases q) auto
  obtain d where d: "4 \<le> d" "nn_credit_depth net r v = Inr d" using assms(2) by (auto simp: deep_credits_def)
  let ?w = "int (min kNppAssemblerMaxFlits d)"
  obtain pk where pk: "allowed_packet 4 ?w (map describe pk) \<longleftrightarrow> int (length pk) \<le> ?w" "length pk \<le> 4" "strict_prefix q pk \<or> prefix pk q"
    using eligible_first [of net f fs ?w] assms(1) q by metis
  then have a: "allowed_packet 4 ?w (map describe pk)" using d(1) by (auto simp: kNppAssemblerMaxFlits_def)
  have "strict_prefix (map describe q) (map describe pk) \<or> prefix (map describe pk) (map describe q)"
    using pk(3)
  proof
    assume "strict_prefix q pk"
    then obtain zs where "pk = q @ zs" "zs \<noteq> []" by (auto simp: strict_prefix_def prefix_def)
    then show ?thesis by (simp add: strict_prefix_def)
  qed (simp add: map_mono_prefix)
  then have st: "fst (checkNppReceivePrefix (map describe q) 4 ?w) = Incomplete \<or> fst (checkNppReceivePrefix (map describe q) 4 ?w) = Complete"
  proof
    assume "strict_prefix (map describe q) (map describe pk)"
    then have "fst (checkNppReceivePrefix (map describe q) 4 ?w) = Incomplete" unfolding check_incomplete using a by blast
    then show ?thesis ..
  next
    assume "prefix (map describe pk) (map describe q)"
    then have "fst (checkNppReceivePrefix (map describe q) 4 ?w) = Complete" unfolding check_complete using a by blast
    then show ?thesis ..
  qed
  have m: "int (NPP_MAX_SIZE div 16) = 4" by (simp add: NPP_MAX_SIZE_def)
  have "eligible net r v q = (case fst (checkNppReceivePrefix (map describe q) 4 ?w) of Incomplete \<Rightarrow> Inr False | Complete \<Rightarrow> Inr True
      | _ \<Rightarrow> Inl (Fatal ''AXIS receive packet''))"
    using q(2) unfolding eligible_def axis_flit_def q(1) m by (simp only: list.case if_True d(2) rbind_simps)
  with st show ?thesis by auto
qed

text \<open>The unit never fails on the flits it can be given, and a refusal keeps its invariant.\<close>

definition unit_safe :: "('u \<Rightarrow> bool) \<Rightarrow> ('m nflit \<Rightarrow> bool) \<Rightarrow> ('m nflit \<Rightarrow> 'u \<Rightarrow> (bool \<times> 'u) result) \<Rightarrow> bool" where
  "unit_safe I good dep \<longleftrightarrow> (\<forall>f u. good f \<and> I u \<longrightarrow> (\<exists>ok u'. dep f u = Inr (ok, u') \<and> (\<not> ok \<longrightarrow> I u')))"

lemma unit_safeD: "unit_safe I good dep \<Longrightarrow> good f \<Longrightarrow> I u \<Longrightarrow> \<exists>ok u'. dep f u = Inr (ok, u') \<and> (\<not> ok \<longrightarrow> I u')"
  unfolding unit_safe_def by blast

lemma bypass_succeeds:
  assumes "unit_safe I good dep" and "I (ni_unit ni)" and "\<forall>pv \<in> set pvs. \<forall>f q. assembler ni (fst pv) (snd pv) = f # q \<longrightarrow> good f"
  shows "\<exists>found ni'. bypass_control dep c locked pvs ni = Inr (found, ni') \<and> (\<not> found \<longrightarrow> I (ni_unit ni'))"
  using assms(2,3)
proof (induction pvs arbitrary: ni)
  case Nil
  then show ?case by (intro exI [of _ False]) simp
next
  case (Cons pv pvs)
  obtain p v where pv: "pv = (p, v)" by force
  show ?case
  proof (cases "(p, v) = locked \<or> assembler ni p v = [] \<or> \<not> is_control (hd (assembler ni p v))")
    case True
    then show ?thesis using Cons by (auto simp: pv)
  next
    case False
    then have "good (hd (assembler ni p v))" using Cons.prems(2) by (cases "assembler ni p v") (auto simp: pv)
    then obtain ok u where u: "dep (hd (assembler ni p v)) (ni_unit ni) = Inr (ok, u)" "\<not> ok \<longrightarrow> I u"
      using unit_safeD [OF assms(1)] Cons.prems(1) by blast
    show ?thesis
    proof (cases ok)
      case True
      then show ?thesis using False u by (intro exI [of _ True]) (simp add: pv Let_def)
    next
      case no: False
      then have "\<exists>found ni'. bypass_control dep c locked pvs (ni\<lparr> ni_unit := u \<rparr>) = Inr (found, ni') \<and> (\<not> found \<longrightarrow> I (ni_unit ni'))"
        using Cons.IH [of "ni\<lparr> ni_unit := u \<rparr>"] Cons.prems(2) u(2) by (simp add: assembler_def)
      then show ?thesis using False u no by (simp add: pv Let_def)
    qed
  qed
qed

lemma drain_succeeds:
  assumes safe: "unit_safe I good dep" "I (ni_unit ni)" and wf: "lock_wf ni"
    and good: "\<And>p v f q. in_range ni p v \<Longrightarrow> assembler ni p v = f # q \<Longrightarrow>
      good f \<and> 0 \<le> nf_vnet f \<and> nf_vnet f < int (length (outNode_wired ni)) \<and> outNode_wired ni ! nat (nf_vnet f)"
  shows "\<exists>ni'. drain_locked dep c ni = Inr ni'"
proof (cases "locked_input_port ni = - 1")
  case False
  define p v where pv: "p = nat (locked_input_port ni)" "v = nat (locked_vc ni)"
  have r: "in_range ni p v" using wf False by (auto simp: lock_wf_def pv)
  show ?thesis
  proof (cases "assembler ni p v")
    case Nil
    then show ?thesis using wf False by (auto simp: drain_locked_def lock_wf_def in_range_def pv Let_def)
  next
    case (Cons f q)
    have all: "\<forall>pv \<in> set (search_order ni p). \<forall>f q. assembler ni (fst pv) (snd pv) = f # q \<longrightarrow> good f"
    proof (intro ballI allI impI)
      fix pv f q
      assume pv: "pv \<in> set (search_order ni p)" "assembler ni (fst pv) (snd pv) = f # q"
      have "in_range ni (fst pv) (snd pv)" by (rule search_order_range [of _ _ ni p]) (simp add: pv(1))
      then show "good f" using good pv(2) by blast
    qed
    obtain found ni1 where b: "(if is_tail f then Inr (False, ni) else bypass_control dep c (p, v) (search_order ni p) ni) = Inr (found, ni1)"
      "\<not> found \<longrightarrow> I (ni_unit ni1)" using safe(2) bypass_succeeds [OF safe all, of c "(p, v)"] by (cases "is_tail f") auto
    have ok: "bypass_ok (p, v) found ni ni1"
    proof (cases "is_tail f")
      case True
      then show ?thesis using b by (simp add: bypass_ok_def)
    next
      case False
      then show ?thesis using b search_order_range [of _ _ ni p] by (auto intro!: bypass_cases)
    qed
    have "\<exists>ni'. drain_front dep c p v ni1 = Inr ni'" if "\<not> found"
    proof -
      have s: "same_queues ni ni1" using ok that by (simp add: bypass_ok_def)
      have q: "assembler ni1 p v = f # q" using same_queues_range(2) [OF s] r Cons by (simp add: in_range_def)
      have g: "good f" "0 \<le> nf_vnet f" "nf_vnet f < int (length (outNode_wired ni1))" "outNode_wired ni1 ! nat (nf_vnet f)"
        using good [OF r] Cons s by (auto simp: same_queues_def)
      have "I (ni_unit ni1)" using b(2) that by blast
      then obtain ok u where "dep f (ni_unit ni1) = Inr (ok, u)" using unit_safeD [OF safe(1) g(1)] by blast
      then show ?thesis using g(2-4) q by (auto simp: drain_front_def Let_def)
    qed
    then have "\<exists>ni'. (if found then Inr ni1 else drain_front dep c p v ni1) = Inr ni'" by auto
    then show ?thesis using wf False Cons b(1) by (auto simp: drain_locked_def lock_wf_def in_range_def pv Let_def)
  qed
qed (simp add: drain_locked_def)

lemma scan_succeeds:
  assumes "\<forall>p < length (inPorts ni). \<forall>f \<in> set (ip_link (inPorts ni ! p)).
    0 \<le> nf_vc f \<and> nf_vc f < int (length (m_npp_assemblers (inPorts ni ! p))) \<and> nf_width f = ip_bitWidth (inPorts ni ! p)"
  shows "\<exists>a. scan_ports net c ni = Inr a"
proof -
  have one: "\<exists>r. scan_port net now ip = Inr r"
    if ok: "\<forall>f \<in> set (ip_link ip). 0 \<le> nf_vc f \<and> nf_vc f < int (length (m_npp_assemblers ip)) \<and> nf_width f = ip_bitWidth ip" for ip now
  proof -
    obtain st fs qs where "take_link net now (ip_bitWidth ip) (ip_routerID ip) (ip_link ip) (m_npp_assemblers ip) = Inr (st, fs, qs)"
      using take_link_ok [OF ok] by (metis prod_cases3)
    then show ?thesis by (simp add: scan_port_def)
  qed
  have "\<exists>rs. rmap (scan_port net now) ips = Inr rs" if "\<forall>ip \<in> set ips. \<forall>f \<in> set (ip_link ip).
      0 \<le> nf_vc f \<and> nf_vc f < int (length (m_npp_assemblers ip)) \<and> nf_width f = ip_bitWidth ip" for ips now
    using that
  proof (induction ips)
    case (Cons ip ips)
    then obtain r rs where "scan_port net now ip = Inr r" "rmap (scan_port net now) ips = Inr rs" using one [of ip now] by auto
    then show ?case by simp
  qed simp
  then obtain rs where "rmap (scan_port net (curTick c)) (inPorts ni) = Inr rs" using assms by (metis in_set_conv_nth)
  then show ?thesis by (simp add: scan_ports_def)
qed

lemma select_succeeds:
  assumes "flits_ok net ni" and "packet_inv net ni" and "deep_credits net"
  shows "\<exists>b. select_assembler net ni = Inr b"
proof (cases "locked_input_port ni = - 1")
  case True
  have el: "\<exists>b. eligible net r v (assembler ni p v) = Inr b" if i: "in_range ni p v" for r p v
  proof -
    have "at_border (queue_of p v (ni_delivered ni))" by (rule packet_inv_queue(2) [OF assms(2) i]) (simp add: lock_of_def True)
    then show ?thesis using eligible_ok [OF well_formed_rest [OF queue_ok [OF assms(1) i]] assms(3)] by blast
  qed
  have "\<exists>r. find_eligible net ni pvs = Inr r" if "\<forall>pv \<in> set pvs. in_range ni (fst pv) (snd pv)" for pvs
    using that
  proof (induction pvs)
    case (Cons pv pvs)
    obtain p v where pv: "pv = (p, v)" by force
    obtain b where "eligible net (ip_routerID (inPorts ni ! p)) v (assembler ni p v) = Inr b" using el Cons.prems by (fastforce simp: pv)
    then show ?case using Cons by (auto simp: pv)
  qed simp
  then obtain r where "find_eligible net ni (search_order ni (next_input_port ni)) = Inr r" using search_order_range by fastforce
  then show ?thesis using True by (cases r) (auto simp: select_assembler_def)
qed (simp add: select_assembler_def)

text \<open>The flits the unit can be given next, and the flits the interface can take.\<close>

definition due_flit :: "'m ni_network \<Rightarrow> ('m, 'u) ni_trace \<Rightarrow> 'm nflit \<Rightarrow> bool" where
  "due_flit net t f \<longleftrightarrow> (\<exists>p v rest. in_range (tr_ni t) p v \<and> arrived_at net t p v = queue_of p v (ni_delivered (tr_ni t)) @ f # rest)"

definition addressed :: "('m, 'u) ni_trace \<Rightarrow> bool" where
  "addressed t \<longleftrightarrow> (\<forall>p < length (inPorts (tr_ni t)). \<forall>f \<in> set (tr_arrived t p).
     0 \<le> nf_vc f \<and> nf_vc f < int (length (m_npp_assemblers (inPorts (tr_ni t) ! p))) \<and> nf_width f = ip_bitWidth (inPorts (tr_ni t) ! p) \<and>
     0 \<le> nf_vnet f \<and> nf_vnet f < int (length (outNode_wired (tr_ni t))) \<and> outNode_wired (tr_ni t) ! nat (nf_vnet f))"

lemma wakeup_succeeds:
  assumes q: "queue_inv net t" and p: "packet_inv net (tr_ni t)" and f: "flits_ok net (tr_ni t)" and a: "addressed t" and d: "deep_credits net"
    and u: "unit_safe I (due_flit net t) dep" "I (ni_unit (tr_ni t))"
  shows "\<exists>ni'. wakeup_receive net dep c (tr_ni t) = Inr ni'"
proof -
  let ?ni = "tr_ni t"
  have wf: "lock_wf ?ni" using q by (simp add: queue_inv_def)
  have "set (ip_link (inPorts ?ni ! k)) \<subseteq> set (tr_arrived t k)" if "k < length (inPorts ?ni)" for k
    using q that set_mono_suffix unfolding queue_inv_def by blast
  then obtain ni1 where s: "scan_ports net c ?ni = Inr ni1" using scan_succeeds [of ?ni net c] a by (fastforce simp: addressed_def)
  note k1 = scanned_keeps [OF s] and wf1 = scan_lock_wf [OF s wf]
  have f1: "flits_ok net ni1" "packet_inv net ni1" using f keeps_flits_ok [OF k1] packet_scan [OF s f p] by auto
  obtain ni2 where e: "select_assembler net ni1 = Inr ni2" using select_succeeds [OF f1 d] by blast
  have s2: "same_queues ni1 ni2" "lock_wf ni2" using select_cases [OF e wf1] by auto
  have k2: "keeps net ?ni ni2" using keeps_trans [OF k1 same_queues_keeps [OF s2(1)]] .
  have unit2: "ni_unit ni2 = ni_unit ?ni"
    using e scan_ports_spec(7) [OF s] by (auto simp: select_assembler_def rbind_Inr_iff lock_assembler_def Let_def split: if_splits option.splits)
  have "due_flit net t x \<and> 0 \<le> nf_vnet x \<and> nf_vnet x < int (length (outNode_wired ni2)) \<and> outNode_wired ni2 ! nat (nf_vnet x)"
    if i: "in_range ni2 k v" and x: "assembler ni2 k v = x # xs" for k v x xs
  proof -
    have i': "in_range ?ni k v" using i k2 by (simp add: keeps_def)
    have "ni_delivered ni2 = ni_delivered ?ni" using s2(1) scan_ports_spec(2) [OF s] by (simp add: same_queues_def)
    moreover have "all_flits net ni2 k v = arrived_at net t k v" using i' k2 q by (simp add: keeps_def queue_inv_def)
    ultimately obtain rest where m: "arrived_at net t k v = queue_of k v (ni_delivered ?ni) @ x # rest"
      using x unfolding all_flits_def by (metis append_Cons)
    then have "x \<in> set (arrived_at net t k v)" by simp
    then obtain g where "g \<in> set (tr_arrived t k)" "x = taken_flit net (ip_routerID (inPorts ?ni ! k)) g" by (auto simp: arrived_at_def of_vc_def)
    then have "0 \<le> nf_vnet x \<and> nf_vnet x < int (length (outNode_wired ?ni)) \<and> outNode_wired ?ni ! nat (nf_vnet x)"
      using a i' by (auto simp: addressed_def in_range_def taken_flit_def)
    then show ?thesis using m i' k2 by (auto simp: due_flit_def keeps_def)
  qed
  then obtain ni3 where "drain_locked dep c ni2 = Inr ni3" using drain_succeeds [OF u(1) _ s2(2)] u(2) unit2 by metis
  then show ?thesis using s e by (simp add: wakeup_receive_def)
qed

section \<open>Without control packets\<close>

text \<open>When no queue starts with a control packet, a wakeup calls the unit at most once, with the front of the locked queue.\<close>

definition unit_call :: "('m nflit \<Rightarrow> 'u \<Rightarrow> (bool \<times> 'u) result) \<Rightarrow> ('m, 'u, 'z) NI_receive_scheme \<Rightarrow> ('m, 'u, 'z) NI_receive_scheme \<Rightarrow> bool" where
  "unit_call dep ni ni' \<longleftrightarrow> (ni_unit ni' = ni_unit ni \<and> ni_delivered ni' = ni_delivered ni) \<or>
     (\<exists>p v f q ok. in_range ni p v \<and> assembler ni p v = f # q \<and> dep f (ni_unit ni) = Inr (ok, ni_unit ni') \<and>
        ni_delivered ni' = ni_delivered ni @ (if ok then [(p, v, f)] else []))"

lemma no_bypass:
  assumes "\<forall>pv \<in> set pvs. \<forall>f q. assembler ni (fst pv) (snd pv) = f # q \<longrightarrow> \<not> is_control f"
  shows "bypass_control dep c locked pvs ni = Inr (False, ni)"
  using assms
proof (induction pvs)
  case (Cons pv pvs)
  obtain p v where pv: "pv = (p, v)" by force
  show ?case using Cons by (cases "assembler ni p v") (auto simp: pv)
qed simp

lemma drain_calls:
  assumes run: "drain_locked dep c ni = Inr ni'" and wf: "lock_wf ni"
    and plain: "\<And>p v f q. in_range ni p v \<Longrightarrow> assembler ni p v = f # q \<Longrightarrow> \<not> is_control f"
  shows "unit_call dep ni ni'"
proof (cases "locked_input_port ni = - 1")
  case True
  then show ?thesis using run by (simp add: drain_locked_def unit_call_def)
next
  case False
  define p v where pv: "p = nat (locked_input_port ni)" "v = nat (locked_vc ni)"
  have r: "in_range ni p v" using wf False by (auto simp: lock_wf_def pv)
  show ?thesis
  proof (cases "assembler ni p v")
    case Nil
    then have "ni' = wake_next c ni" using run wf False by (auto simp: drain_locked_def lock_wf_def in_range_def pv Let_def split: if_splits)
    then show ?thesis by (simp add: unit_call_def wake_next_def)
  next
    case (Cons f q)
    have "bypass_control dep c (p, v) (search_order ni p) ni = Inr (False, ni)"
      by (rule no_bypass) (use plain search_order_range [of _ _ ni p] in fastforce)
    then have d: "drain_front dep c p v ni = Inr ni'"
      using run wf False Cons by (auto simp: drain_locked_def lock_wf_def in_range_def pv Let_def split: if_splits)
    obtain ok u where u: "dep f (ni_unit ni) = Inr (ok, u)" using d Cons by (auto simp: drain_front_def Let_def rbind_Inr_iff)
    have "ni_unit ni' = u \<and> ni_delivered ni' = ni_delivered ni @ (if ok then [(p, v, f)] else [])"
      using d Cons u by (auto simp: drain_front_def Let_def deliver_front_def wake_next_def assembler_def split: if_splits)
    then show ?thesis using r Cons u unfolding unit_call_def by blast
  qed
qed

section \<open>A run\<close>

text \<open>The steps as a function, with a unit that behaves the same way at all times.\<close>

datatype 'm ni_event = Arrive nat "'m nflit" | Wake clock

fun ni_exec :: "'m ni_network \<Rightarrow> ('m nflit \<Rightarrow> 'u \<Rightarrow> (bool \<times> 'u) result) \<Rightarrow> 'm ni_event list \<Rightarrow> ('m, 'u) ni_trace \<Rightarrow> ('m, 'u) ni_trace option" where
  "ni_exec net dep [] t = Some t"
| "ni_exec net dep (Arrive p f # es) t =
     (if p < length (inPorts (tr_ni t))
      then ni_exec net dep es (t\<lparr> tr_ni := (tr_ni t)\<lparr> inPorts := (inPorts (tr_ni t))[p := (inPorts (tr_ni t) ! p)\<lparr> ip_link := ip_link (inPorts (tr_ni t) ! p) @ [f] \<rparr>] \<rparr>,
             tr_arrived := (tr_arrived t)(p := tr_arrived t p @ [f]) \<rparr>)
      else None)"
| "ni_exec net dep (Wake c # es) t =
     (if tr_now t \<le> clockEdge c
      then case wakeup_receive net dep c (tr_ni t) of
             Inl _ \<Rightarrow> None
           | Inr ni' \<Rightarrow> ni_exec net dep es (t\<lparr> tr_ni := ni', tr_now := clockEdge c \<rparr>)
      else None)"

lemma ni_exec_steps:
  "ni_exec net dep es t = Some t' \<Longrightarrow> (\<And>c. Wake c \<in> set es \<Longrightarrow> dep_ok c dep) \<Longrightarrow> (ni_step net dep_ok unit_ok)\<^sup>*\<^sup>* t t'"
proof (induction net dep es t rule: ni_exec.induct)
  case (2 net dep p f es t)
  then show ?case using ni_arrive [of p t "inPorts (tr_ni t) ! p" net dep_ok unit_ok f]
    by (auto intro: converse_rtranclp_into_rtranclp split: if_splits)
next
  case (3 net dep c es t)
  then show ?case using ni_wake [of t c dep_ok dep net _ unit_ok]
    by (auto intro: converse_rtranclp_into_rtranclp split: if_splits sum.splits)
qed simp

lemma ni_exec_arrived:
  "ni_exec net dep es t = Some t' \<Longrightarrow>
   tr_arrived t' p = tr_arrived t p @ concat (map (\<lambda>e. case e of Arrive k f \<Rightarrow> if k = p then [f] else [] | Wake c \<Rightarrow> []) es)"
  by (induction net dep es t rule: ni_exec.induct) (auto split: if_splits sum.splits)

definition ni_sample_net :: "bool ni_network" where
  "ni_sample_net = \<lparr> nn_credit_depth = (\<lambda>_ _. Inr 5), nn_axis = (\<lambda>m. m), nn_setIncomingLink = (\<lambda>_ m. m) \<rparr>"

definition ni_sample_dep :: "bool nflit \<Rightarrow> nat \<Rightarrow> (bool \<times> nat) result" where
  "ni_sample_dep f n = Inr (True, n + 1)"

definition ni_sample_flit :: "int \<Rightarrow> int \<Rightarrow> int \<Rightarrow> int \<Rightarrow> bool nflit" where
  "ni_sample_flit pid i vc n = new_flit pid i vc W_VNET default_NocRouteInfo n True 128 0"

definition ni_sample_edge :: "nat \<Rightarrow> clock" where
  "ni_sample_edge n = \<lparr> curTick = n, clockEdge = n, clockPeriod = 1 \<rparr>"

text \<open>A packet of two flits on one channel and one of a single flit on the other, which is delivered while the first waits for its tail.\<close>

definition ni_sample_events :: "bool ni_event list" where
  "ni_sample_events = [Arrive 0 (ni_sample_flit 7 0 0 2), Arrive 0 (ni_sample_flit 8 0 1 1), Wake (ni_sample_edge 1), Arrive 0 (ni_sample_flit 7 1 0 2),
     Wake (ni_sample_edge 2)]"

definition ni_sample_trace :: "(bool, nat) ni_trace" where
  "ni_sample_trace = the (ni_exec ni_sample_net ni_sample_dep ni_sample_events (ni_start 2 [(128, 3)] (replicate 5 True) 0))"

lemma ni_sample_exec:
  "(case ni_exec ni_sample_net ni_sample_dep ni_sample_events (ni_start 2 [(128, 3)] (replicate 5 True) 0) of None \<Rightarrow> False | Some t \<Rightarrow>
     ni_delivered (tr_ni t) = [(0, 1, ni_sample_flit 8 0 1 1), (0, 0, ni_sample_flit 7 0 0 2)] \<and>
     map m_npp_assemblers (inPorts (tr_ni t)) = [[[ni_sample_flit 7 1 0 2], []]] \<and> map ip_bitWidth (inPorts (tr_ni t)) = [128] \<and>
     outNode_wired (tr_ni t) = replicate 5 True \<and> locked_input_port (tr_ni t) = 0 \<and> locked_vc (tr_ni t) = 0 \<and>
     tr_arrived t 0 = [ni_sample_flit 7 0 0 2, ni_sample_flit 8 0 1 1, ni_sample_flit 7 1 0 2])"
  by code_simp

lemma ni_sample_trace_facts:
  "ni_reach ni_sample_net (\<lambda>c d. d = ni_sample_dep) unit_ok 2 [(128, 3)] (replicate 5 True) 0 ni_sample_trace"
  "ni_delivered (tr_ni ni_sample_trace) = [(0, 1, ni_sample_flit 8 0 1 1), (0, 0, ni_sample_flit 7 0 0 2)]"
  "map m_npp_assemblers (inPorts (tr_ni ni_sample_trace)) = [[[ni_sample_flit 7 1 0 2], []]]"
  "map ip_bitWidth (inPorts (tr_ni ni_sample_trace)) = [128]" "outNode_wired (tr_ni ni_sample_trace) = replicate 5 True"
  "locked_input_port (tr_ni ni_sample_trace) = 0" "locked_vc (tr_ni ni_sample_trace) = 0"
  "tr_arrived ni_sample_trace 0 = [ni_sample_flit 7 0 0 2, ni_sample_flit 8 0 1 1, ni_sample_flit 7 1 0 2]"
proof -
  obtain t where t: "ni_exec ni_sample_net ni_sample_dep ni_sample_events (ni_start 2 [(128, 3)] (replicate 5 True) 0) = Some t"
    using ni_sample_exec by (auto split: option.splits)
  then have st: "ni_sample_trace = t" by (simp add: ni_sample_trace_def)
  show "ni_reach ni_sample_net (\<lambda>c d. d = ni_sample_dep) unit_ok 2 [(128, 3)] (replicate 5 True) 0 ni_sample_trace"
    unfolding st ni_reach_def by (rule ni_exec_steps [OF t]) simp
qed (use ni_sample_exec in \<open>auto simp: ni_sample_trace_def split: option.splits\<close>)

lemma ni_sample_range:
  "in_range (tr_ni ni_sample_trace) p v \<longleftrightarrow> p = 0 \<and> v < 2" "lock_of (tr_ni ni_sample_trace) = Some (0, 0)"
  "assembler (tr_ni ni_sample_trace) 0 0 = [ni_sample_flit 7 1 0 2]"
proof -
  obtain ip where ip: "inPorts (tr_ni ni_sample_trace) = [ip]" "m_npp_assemblers ip = [[ni_sample_flit 7 1 0 2], []]"
    using ni_sample_trace_facts(3) by auto
  then show "in_range (tr_ni ni_sample_trace) p v \<longleftrightarrow> p = 0 \<and> v < 2" "assembler (tr_ni ni_sample_trace) 0 0 = [ni_sample_flit 7 1 0 2]"
    by (auto simp: in_range_def assembler_def)
qed (simp add: lock_of_def ni_sample_trace_facts(6,7))

lemma ni_sample_arrivals: "arrivals_ok ni_sample_net ni_sample_trace"
proof -
  have t: "taken_flit ni_sample_net r f = f" for r f by (simp add: taken_flit_def ni_sample_net_def)
  have "well_formed ni_sample_net [ni_sample_flit 7 0 0 2, ni_sample_flit 7 1 0 2]"
    unfolding well_formed_def
    by (rule exI [of _ "[[ni_sample_flit 7 0 0 2, ni_sample_flit 7 1 0 2]]"])
      (simp add: net_packet_def ni_sample_flit_def new_flit_def flit_kind_def is_tail_def is_head_def axis_flit_def whole_packet_def
        packet_flit_def describe_def less_Suc_eq)
  moreover have "well_formed ni_sample_net [ni_sample_flit 8 0 1 1]"
    unfolding well_formed_def
    by (rule exI [of _ "[[ni_sample_flit 8 0 1 1]]"])
      (simp add: net_packet_def ni_sample_flit_def new_flit_def flit_kind_def is_tail_def is_head_def axis_flit_def whole_packet_def
        packet_flit_def describe_def)
  moreover have "map (taken_flit ni_sample_net r) = (\<lambda>x. x)" for r using t by (simp add: fun_eq_iff map_idI)
  ultimately show ?thesis
    by (auto simp: arrivals_ok_def arrived_at_def ni_sample_range ni_sample_trace_facts(8) less_Suc_eq numeral_2_eq_2 of_vc_def ni_sample_flit_def new_flit_def)
qed

section \<open>Properties\<close>

text \<open>C17: The receiving side of a network interface loses, repeats and reorders nothing. In every reachable state the flits of
  a port and channel that were delivered to the unit, wait in the queue or are still on the link are exactly the
  flits that arrived there, in their order; a queue never holds more than seven flits; and the credits sent
  back to a port are one per delivered flit, in order, with the free signal exactly on the tails.\<close>

theorem ni_receive_conserves:
  assumes "ni_reach net dep_ok unit_ok vcs ports wired u t" and "in_range (tr_ni t) p v"
  shows "queue_of p v (ni_delivered (tr_ni t)) @ assembler (tr_ni t) p v @
      map (taken_flit net (ip_routerID (inPorts (tr_ni t) ! p))) (of_vc v (ip_link (inPorts (tr_ni t) ! p))) = arrived_at net t p v \<and>
    length (assembler (tr_ni t) p v) \<le> 7 \<and>
    tr_credits t p @ outCreditQueue (inPorts (tr_ni t) ! p) = credits_of p (ni_delivered (tr_ni t))"
  using ni_reach_inv [OF assms(1)] assms(2)
  by (simp add: queue_inv_def bounded_def all_flits_def in_range_def kNppAssemblerMaxFlits_def)

theorem ni_receive_conserves_witness:
  "queue_of 0 0 (ni_delivered (tr_ni ni_sample_trace)) @ assembler (tr_ni ni_sample_trace) 0 0 @
     map (taken_flit ni_sample_net (ip_routerID (inPorts (tr_ni ni_sample_trace) ! 0))) (of_vc 0 (ip_link (inPorts (tr_ni ni_sample_trace) ! 0))) =
     arrived_at ni_sample_net ni_sample_trace 0 0"
  using ni_receive_conserves [OF ni_sample_trace_facts(1) [of "\<lambda>_ _ _. False"], of 0 0] ni_sample_range(1) [of 0 0] by simp

text \<open>C4: Packets reach the protocol unit one at a time. On well-formed traffic, in every reachable state, the delivered flits
  other than single-flit control packets follow each other packet by packet: after a flit that is not a tail
  the next one comes from the same port and channel. And when a queue with a stream flit in front is locked, the
  tail of the packet is already in the queue: the shared drain never waits for the network on a stream packet.\<close>

theorem ni_packets_atomic:
  assumes "ni_reach net dep_ok unit_ok vcs ports wired u t" and "arrivals_ok net t"
  shows "unmixed (ni_delivered (tr_ni t)) \<and>
    (\<forall>p v. lock_of (tr_ni t) = Some (p, v) \<and> assembler (tr_ni t) p v \<noteq> [] \<and> axis_flit net (hd (assembler (tr_ni t) p v)) \<longrightarrow>
      (\<exists>x \<in> set (assembler (tr_ni t) p v). is_tail x))"
proof -
  have q: "queue_inv net t" by (rule ni_reach_inv [OF assms(1)])
  have inv: "packet_inv net (tr_ni t)" using ni_reach_packets [OF assms(1)] arrivals_flits [OF q] assms(2) by blast
  have "in_range (tr_ni t) p v" if "lock_of (tr_ni t) = Some (p, v)" for p v
    using q that by (auto simp: queue_inv_def lock_wf_def lock_of_def split: if_splits)
  then show ?thesis using inv packet_inv_queue(1) [OF inv] by (auto simp: packet_inv_def lock_ready_def)
qed

theorem ni_packets_atomic_witness:
  "unmixed (ni_delivered (tr_ni ni_sample_trace)) \<and> (\<exists>x \<in> set (assembler (tr_ni ni_sample_trace) 0 0). is_tail x)"
  using ni_packets_atomic [OF ni_sample_trace_facts(1) [of "\<lambda>_ _ _. False"] ni_sample_arrivals] ni_sample_range(2,3)
  by (simp add: axis_flit_def ni_sample_flit_def new_flit_def ni_sample_net_def)

text \<open>On well-formed traffic the interface never stops: when the arrived flits form packets, stream packets of at most four flits,
  their channels, widths and virtual networks are those of the ports, the receive credits are at least four
  deep, and the unit does not fail on the next flit of any queue, then the next wakeup of every reachable state returns.\<close>

lemma ni_never_stops:
  assumes "ni_reach net dep_ok unit_ok vcs ports wired u t" and "arrivals_ok net t" and "addressed t" and "deep_credits net"
    and "unit_safe I (due_flit net t) dep" and "I (ni_unit (tr_ni t))"
  shows "\<exists>ni'. wakeup_receive net dep c (tr_ni t) = Inr ni'"
proof -
  have q: "queue_inv net t" by (rule ni_reach_inv [OF assms(1)])
  have f: "flits_ok net (tr_ni t)" using arrivals_flits [OF q] assms(2) by blast
  show ?thesis by (rule wakeup_succeeds [OF q ni_reach_packets [OF assms(1) f] f assms(3-6)])
qed

end
