(* ===== verification/Stream_Network.thy ===== *)
theory Stream_Network
  imports NI_Receive_Order Stream_System
begin

text \<open>
  The stream path with the receiving network interface in it: the flits a source endpoint injects arrive at a port of
  the interface, which queues them, locks packets and hands the flits to the stream slave unit. The traffic of a source is
  well-formed for the interface, and what the unit hands out is a prefix of the beats handshaken at the source.
\<close>

section \<open>The flit headers of a source\<close>

definition flit_header :: "flit \<Rightarrow> int \<times> int" where
  "flit_header f = (fl_vc f, src_ni (fl_route f))"

definition header_inv :: "sNMU \<Rightarrow> (int \<Rightarrow> int \<times> int) \<Rightarrow> bool" where
  "header_inv s h \<longleftrightarrow>
     (\<forall>f \<in> set (injected s). fl_packet_id f < next_packet_id s \<and> fl_vnet f = W_VNET \<and> fl_num_flits f = int (sm_num_flits (fl_msg f)) \<and>
        flit_header f = h (fl_packet_id f)) \<and>
     (let info = currNPPInfo s in npp_valid info \<longrightarrow> packet_id info < next_packet_id s \<and> h (packet_id info) = (npp_vc info, src_ni (route info)) \<and>
        num_flits info = int (sm_num_flits (the (npp_message info))))"

lemma header_frame:
  "injected s' = injected s \<Longrightarrow> currNPPInfo s' = currNPPInfo s \<Longrightarrow> next_packet_id s' = next_packet_id s \<Longrightarrow> header_inv s' h = header_inv s h"
  by (simp add: header_inv_def)

lemma header_begin:
  assumes hd: "header_inv s h" and wf: "axis_buffer_wf b" "nextDequeuePos b \<noteq> - 1" and run: "s_bufferHeadReadyHandler net (s, b) = Inr (s', b')"
  shows "\<exists>h'. header_inv s' h'"
proof (cases "npp_valid (currNPPInfo s)")
  case True
  then have "s' = s" using run by (simp add: s_bufferHeadReadyHandler_def)
  then show ?thesis using hd by blast
next
  case False
  from handler_starts [OF wf False run] obtain m where
    m: "npp_message (currNPPInfo s') = Some m" "num_flits (currNPPInfo s') = int (sm_num_flits m)" "packet_id (currNPPInfo s') = next_packet_id s"
      "next_packet_id s' = next_packet_id s + 1" "injected s' = injected s" by metis
  let ?h = "h(next_packet_id s := (npp_vc (currNPPInfo s'), src_ni (route (currNPPInfo s'))))"
  have "header_inv s' ?h" using hd m by (auto simp: header_inv_def Let_def)
  then show ?thesis by blast
qed

lemma header_check:
  assumes "header_inv s h" and "axis_buffer_wf b" and "checkDequeueReady (Some (s_bufferHeadReadyHandler net)) (s, b) = Inr (r, s', b')"
  shows "\<exists>h'. header_inv s' h'"
  using assms header_begin by (auto simp: checkDequeueReady_def rbind_Inr_iff split: if_splits)

lemma header_fire:
  assumes hd: "header_inv s h" and wf: "axis_buffer_wf b" and inv: "nmu_inv s" and ev: "deqScheduled s"
    and run: "dequeueIntermediate net full (s, b) = Inr (s', b')"
  shows "\<exists>h'. header_inv s' h'"
proof (cases full)
  case True
  then show ?thesis using run hd dequeue_full [OF inv ev] by auto
next
  case False
  let ?info = "currNPPInfo s"
  have valid: "npp_valid ?info" using inv ev by (simp add: nmu_inv_def Let_def)
  obtain m p n where b: "npp_message ?info = Some m" "sm_pload m = PlAxis p" "flit_num ?info = int n" "n < flits_for (length (payload_bytes p))"
    "num_flits ?info = int (flits_for (length (payload_bytes p)))" using nmu_busy [OF inv valid] by metis
  let ?m = "m\<lparr> sm_src_ni_id := src_ni (route ?info) \<rparr>"
  define s2 where "s2 = s\<lparr> deqScheduled := False, injected := injected s @ [next_flit s m],
    currNPPInfo := ?info\<lparr> npp_message := Some ?m, npp_valid := False, npp_oPort := None \<rparr> \<rparr>"
  define s1 where "s1 = s\<lparr> injected := injected s @ [next_flit s m],
    currNPPInfo := ?info\<lparr> npp_message := Some ?m, flit_num := flit_num ?info + 1 \<rparr> \<rparr>"
  have h: "header_inv s2 h" "header_inv s1 h"
    using hd valid b(1) by (auto simp: header_inv_def s1_def s2_def next_flit_def flit_header_def Let_def)
  show ?thesis
  proof (cases "Suc n = flits_for (length (payload_bytes p))")
    case True
    then obtain r where "checkDequeueReady (Some (s_bufferHeadReadyHandler net)) (s2, b) = Inr (r, s', b')"
      using run False b by (auto simp: dequeueIntermediate_def Let_def s2_def next_flit_def rbind_Inr_iff)
    then show ?thesis using header_check [OF h(1) wf] by blast
  next
    case mid: False
    have "s' = s1" using run False b mid ev by (auto simp: dequeueIntermediate_def Let_def s1_def next_flit_def schedule_deq_def)
    then show ?thesis using h(2) by blast
  qed
qed

lemma source_reach_headers: "source_reach net (s, b, q) ds \<Longrightarrow> \<exists>h. header_inv s h"
proof (induction "(s, b, q)" ds arbitrary: s b q rule: source_reach.induct)
  case (start i n)
  show ?case by (rule exI [of _ "\<lambda>_. (0, 0)"]) (simp add: header_inv_def new_sNMU_def default_NPPInfo_def Let_def)
next
  case (handshake s b q ds up)
  then show ?case using header_frame [of "enqueueBytes (int (axis_getTotalByteSize (ms_data up))) s" s] by (auto simp: enqueueBytes_def)
next
  case (arrive s b up q ds op now s' b')
  obtain s1 b1 r where chk: "checkDequeueReady (Some (s_bufferHeadReadyHandler net)) (s, b1) = Inr (r, s1, b')" and "axis_buffer_wf b1"
    and s': "injected s' = injected s1" "currNPPInfo s' = currNPPInfo s1" "next_packet_id s' = next_packet_id s1"
    using arrive_parts [OF arrive.hyps(1,3)] by blast
  then show ?case using arrive.hyps(2) header_check [OF _ _ chk] header_frame [OF s'] by blast
next
  case (fire s b q ds full s' b')
  have "axis_buffer_wf b" "nmu_inv s" using source_reach_inv3(1) [OF fire.hyps(1)] by (auto simp: source_inv_def)
  then show ?case using header_fire [OF _ _ _ fire.hyps(3,4)] fire.hyps(2) by blast
qed

section \<open>The traffic of a source\<close>

definition flit_of :: "NocStreamMsg nflit \<Rightarrow> flit" where
  "flit_of f = \<lparr> fl_packet_id = nf_packet_id f, fl_id = nf_id f, fl_vc = nf_vc f, fl_vnet = nf_vnet f, fl_route = nf_route f,
     fl_num_flits = nf_size f, fl_msg = nf_msg f \<rparr>"

text \<open>The stream messages of the model carry no incoming link.\<close>

definition stream_ni_net :: "(int \<Rightarrow> nat \<Rightarrow> nat result) \<Rightarrow> NocStreamMsg ni_network" where
  "stream_ni_net depth = \<lparr> nn_credit_depth = depth, nn_axis = (\<lambda>m. case sm_pload m of PlAxis _ \<Rightarrow> True | PlAximm _ \<Rightarrow> False),
     nn_setIncomingLink = (\<lambda>_ m. m) \<rparr>"

lemma taken_stream [simp]: "taken_flit (stream_ni_net depth) r f = f"
  by (simp add: taken_flit_def stream_ni_net_def)

text \<open>The flits of one packet, and a packet made from the flits that are there.\<close>

definition source_flit :: "(int \<Rightarrow> int \<times> int) \<Rightarrow> NocStreamMsg nflit \<Rightarrow> bool" where
  "source_flit h f \<longleftrightarrow> nf_size f = int (sm_num_flits (nf_msg f)) \<and> flit_header (flit_of f) = h (nf_packet_id f) \<and>
     nf_type f = flit_kind (nf_id f) (nf_size f) \<and> nf_vnet f = W_VNET"

lemma flits_are_packet:
  assumes n: "pk \<noteq> []" "length pk \<le> 4" "length pk = sm_num_flits m" and m: "sm_pload m = PlAxis p"
    and f: "\<forall>i < length pk. nf_packet_id (pk ! i) = k \<and> nf_id (pk ! i) = int i \<and> nf_msg (pk ! i) = m \<and> source_flit h (pk ! i)"
  shows "net_packet (stream_ni_net depth) pk"
proof -
  let ?n = "length pk"
  have ty: "is_tail (pk ! i) = (Suc i = ?n)" "is_head (pk ! i) = (i = 0)" "axis_flit (stream_ni_net depth) (pk ! i)" if "i < ?n" for i
    using f that n(3) m by (auto simp: source_flit_def is_tail_def is_head_def flit_kind_def axis_flit_def stream_ni_net_def)
  have hd: "hd pk = pk ! 0" using n(1) by (rule hd_conv_nth)
  have d: "packet_flit (describe (pk ! 0)) ?n i (describe (pk ! i))" if i: "i < ?n" for i
  proof -
    have "0 < ?n" using n(1) by simp
    then have "flit_header (flit_of (pk ! i)) = flit_header (flit_of (pk ! 0))" "nf_packet_id (pk ! i) = nf_packet_id (pk ! 0)"
      "nf_id (pk ! i) = int i" "nf_size (pk ! i) = int ?n" using f i n(3) by (auto simp: source_flit_def)
    then show ?thesis using ty(1,2) [OF i] by (simp add: packet_flit_def describe_def flit_header_def flit_of_def)
  qed
  have "whole_packet (map describe pk)" using d n(1) by (simp add: whole_packet_def hd hd_map)
  then show ?thesis using ty n(1,2) hd by (simp add: net_packet_def)
qed

definition made_packet :: "nat \<Rightarrow> NocStreamMsg nflit list \<Rightarrow> NocStreamMsg nflit list" where
  "made_packet n fs = fs @ map (\<lambda>j. (hd fs)\<lparr> nf_id := int j, nf_type := flit_kind (int j) (int n) \<rparr>) [length fs..<n]"

lemma made_packet_flit:
  assumes "fs \<noteq> []" and "length fs \<le> n" and "\<forall>i < length fs. nf_packet_id (fs ! i) = k \<and> nf_id (fs ! i) = int i \<and> nf_msg (fs ! i) = m \<and> source_flit h (fs ! i)"
    and "sm_num_flits m = n" and "i < n"
  shows "nf_packet_id (made_packet n fs ! i) = k \<and> nf_id (made_packet n fs ! i) = int i \<and> nf_msg (made_packet n fs ! i) = m \<and>
    source_flit h (made_packet n fs ! i)"
proof (cases "i < length fs")
  case False
  have "made_packet n fs ! i = (fs ! 0)\<lparr> nf_id := int i, nf_type := flit_kind (int i) (int n) \<rparr>"
    using False assms(1,5) by (simp add: made_packet_def nth_append hd_conv_nth)
  moreover have "0 < length fs" using assms(1) by simp
  ultimately show ?thesis using assms(3,4) by (auto simp: source_flit_def flit_header_def flit_of_def)
qed (use assms(3) in \<open>simp add: made_packet_def nth_append\<close>)

definition nkey :: "NocStreamMsg nflit \<Rightarrow> flit_key" where
  "nkey f = (nf_packet_id f, nf_id f, nf_msg f)"

lemma packet_keys_flits:
  assumes "prefix (map nkey fs) (packet_keys x)" and "i < length fs"
  shows "nf_packet_id (fs ! i) = fst x \<and> nf_id (fs ! i) = int i \<and> nf_msg (fs ! i) = snd x"
proof -
  have "i < sm_num_flits (snd x)" using prefix_length_le [OF assms(1)] assms(2) by (simp add: packet_keys_def)
  moreover have "nkey (fs ! i) = packet_keys x ! i" using assms by (auto simp: prefix_def nth_append dest: arg_cong [of _ _ "\<lambda>l. l ! i"])
  ultimately show ?thesis by (simp add: nkey_def packet_keys_def)
qed

lemma flits_for_64: "k \<le> 64 \<Longrightarrow> flits_for k \<le> 4"
proof (cases "k = 64")
  case False
  moreover assume "k \<le> 64"
  ultimately have "k div 16 \<le> 63 div 16" by (intro div_le_mono) simp
  then show ?thesis by (simp add: flits_for_def)
qed (simp add: flits_for_def)

lemma stream_traffic:
  assumes "\<forall>x \<in> set ps. \<exists>p. packet_msg (snd x) p" and "prefix (map nkey fs) (concat (map packet_keys ps))" and "\<forall>f \<in> set fs. source_flit h f"
  shows "well_formed (stream_ni_net depth) fs"
  using assms
proof (induction ps arbitrary: fs)
  case Nil
  then show ?case by (auto simp: well_formed_def intro: exI [of _ "[]"])
next
  case (Cons x ps)
  obtain p where p: "packet_msg (snd x) p" using Cons.prems(1) by auto
  let ?n = "sm_num_flits (snd x)" and ?net = "stream_ni_net depth"
  have n: "0 < ?n" "?n \<le> 4" "sm_pload (snd x) = PlAxis p"
    using packet_msg_facts(3) [OF p] p flits_for_64 by (auto simp: packet_msg_def NPP_MAX_SIZE_def)
  have pk: "net_packet ?net (made_packet ?n gs)" if g: "gs \<noteq> []" "prefix (map nkey gs) (packet_keys x)" "\<forall>f \<in> set gs. source_flit h f" for gs
  proof (rule flits_are_packet [OF _ _ _ n(3)])
    have len: "length gs \<le> ?n" using prefix_length_le [OF g(2)] by (simp add: packet_keys_def)
    have all: "\<forall>i < length gs. nf_packet_id (gs ! i) = fst x \<and> nf_id (gs ! i) = int i \<and> nf_msg (gs ! i) = snd x \<and> source_flit h (gs ! i)"
      using packet_keys_flits [OF g(2)] g(3) by simp
    from len show "length (made_packet ?n gs) = ?n" "length (made_packet ?n gs) \<le> 4" "made_packet ?n gs \<noteq> []"
      using n g(1) by (simp_all add: made_packet_def)
    then show "\<forall>i < length (made_packet ?n gs). nf_packet_id (made_packet ?n gs ! i) = fst x \<and> nf_id (made_packet ?n gs ! i) = int i \<and>
        nf_msg (made_packet ?n gs ! i) = snd x \<and> source_flit h (made_packet ?n gs ! i)"
      using made_packet_flit [OF g(1) len all refl] by simp
  qed
  have len: "length (packet_keys x) = ?n" by (simp add: packet_keys_def)
  show ?case
  proof (cases "length fs < ?n")
    case True
    then have "length (map nkey fs) \<le> length (packet_keys x)" by (simp add: len)
    then have pre: "prefix (map nkey fs) (packet_keys x)" using prefix_length_prefix [OF _ prefixI [OF refl]] Cons.prems(2) by fastforce
    show ?thesis
    proof (cases "fs = []")
      case False
      have "prefix fs (concat [made_packet ?n fs])" by (simp add: made_packet_def)
      then show ?thesis unfolding well_formed_def using pk [OF False pre Cons.prems(3)] by (intro exI [of _ "[made_packet ?n fs]"]) simp
    qed (auto simp: well_formed_def intro: exI [of _ "[]"])
  next
    case False
    have split: "map nkey (take ?n fs) = packet_keys x" "prefix (map nkey (drop ?n fs)) (concat (map packet_keys ps))"
      using Cons.prems(2) False len
      by (auto simp: prefix_def append_eq_append_conv_if take_map drop_map min_absorb2)
    obtain pks where pks: "\<forall>pk \<in> set pks. net_packet ?net pk" "prefix (drop ?n fs) (concat pks)"
      using Cons.IH [OF _ split(2)] Cons.prems(1,3) by (auto simp: well_formed_def dest: in_set_dropD)
    have full: "made_packet ?n (take ?n fs) = take ?n fs" using False by (simp add: made_packet_def)
    have "take ?n fs \<noteq> []" using False n(1) by auto
    then have "net_packet ?net (take ?n fs)" using pk [of "take ?n fs"] split(1) Cons.prems(3) full by (auto dest: in_set_takeD)
    moreover have "prefix fs (concat (take ?n fs # pks))" using pks(2) by (metis append_take_drop_id concat.simps(2) same_prefix_prefix)
    ultimately show ?thesis unfolding well_formed_def using pks(1) by (intro exI [of _ "take ?n fs # pks"]) simp
  qed
qed

section \<open>Through the interface\<close>

definition stream_dep :: "sink_network \<Rightarrow> (NocStreamMsg, sNSU) unit_calls" where
  "stream_dep snet c dep \<longleftrightarrow> (\<exists>rngs. dep = (\<lambda>f s. s_depacketizeFlit rngs snet c (flit_of f) s))"

definition stream_unit :: "Tick \<Rightarrow> sNSU \<Rightarrow> sNSU \<Rightarrow> bool" where
  "stream_unit now s s' \<longleftrightarrow> (\<exists>b delay m b'. ns_out s = Some b \<and> mb_dequeue now True b = Inr (delay, m, b') \<and> s' = s\<lparr> ns_out := Some b' \<rparr>)"

text \<open>All traffic of the interface is that of one source, on one channel of one port.\<close>

definition one_source :: "flit list \<Rightarrow> nat \<Rightarrow> nat \<Rightarrow> (NocStreamMsg, 'u) ni_trace \<Rightarrow> bool" where
  "one_source fs p v t \<longleftrightarrow> in_range (tr_ni t) p v \<and> (\<forall>k. k \<noteq> p \<longrightarrow> tr_arrived t k = []) \<and> prefix (map flit_of (tr_arrived t p)) fs \<and>
     (\<forall>f \<in> set (tr_arrived t p). nf_vc f = int v \<and> nf_type f = flit_kind (nf_id f) (nf_size f))"

lemma one_source_queues:
  assumes "one_source fs p v t"
  shows "arrived_at (stream_ni_net depth) t k w = (if (k, w) = (p, v) then tr_arrived t p else [])"
proof -
  have "map (taken_flit (stream_ni_net depth) r) fs' = fs'" for r fs' by (simp add: map_idI)
  moreover have "of_vc w (tr_arrived t p) = (if w = v then tr_arrived t p else [])"
    using assms by (auto simp: one_source_def of_vc_def filter_empty_conv)
  moreover have "k \<noteq> p \<Longrightarrow> of_vc w (tr_arrived t k) = []" using assms by (simp add: one_source_def of_vc_def)
  ultimately show ?thesis by (cases "k = p") (auto simp: arrived_at_def)
qed

text \<open>What a queue of the interface holds between two steps of a wakeup.\<close>

lemma one_source_assembler:
  assumes q: "queue_inv (stream_ni_net depth) t" and o: "one_source fs p v t" and k: "keeps (stream_ni_net depth) (tr_ni t) ni"
    and d: "ni_delivered ni = ni_delivered (tr_ni t)"
  shows "in_range ni k' w \<Longrightarrow> assembler ni k' w = f # rest \<Longrightarrow> (k', w) = (p, v)"
    and "\<exists>more. tr_arrived t p = map (snd \<circ> snd) (ni_delivered ni) @ assembler ni p v @ more"
    and "ni_delivered ni = map (\<lambda>f. (p, v, f)) (map (snd \<circ> snd) (ni_delivered ni))"
proof -
  let ?net = "stream_ni_net depth"
  have all: "all_flits ?net ni k' w = (if (k', w) = (p, v) then tr_arrived t p else [])" if "in_range ni k' w" for k' w
    using q k that one_source_queues [OF o] by (simp add: keeps_def queue_inv_def)
  show "in_range ni k' w \<Longrightarrow> assembler ni k' w = f # rest \<Longrightarrow> (k', w) = (p, v)"
    using all [of k' w] by (auto simp: all_flits_def split: if_splits)
  have here: "(fst x, fst (snd x)) = (p, v)" if x: "x \<in> set (ni_delivered ni)" for x
  proof -
    have "in_range ni (fst x) (fst (snd x))" using q k d x by (simp add: queue_inv_def keeps_def)
    moreover have "queue_of (fst x) (fst (snd x)) (ni_delivered ni) \<noteq> []" using x by (auto simp: queue_of_def filter_empty_conv)
    ultimately show ?thesis using all [of "fst x" "fst (snd x)"] by (auto simp: all_flits_def split: if_splits)
  qed
  have "map (\<lambda>x. (p, v, snd (snd x))) (ni_delivered ni) = ni_delivered ni" by (rule map_idI) (use here in \<open>simp add: prod_eq_iff\<close>)
  then show "ni_delivered ni = map (\<lambda>f. (p, v, f)) (map (snd \<circ> snd) (ni_delivered ni))" by (simp add: o_def)
  have "filter (\<lambda>x. fst x = p \<and> fst (snd x) = v) (ni_delivered ni) = ni_delivered ni" using here by (auto simp: filter_id_conv)
  moreover have "in_range ni p v" using o k by (simp add: one_source_def keeps_def)
  ultimately have "map (snd \<circ> snd) (ni_delivered ni) @ assembler ni p v @
      map (taken_flit ?net (ip_routerID (inPorts ni ! p))) (of_vc v (ip_link (inPorts ni ! p))) = tr_arrived t p"
    using all [of p v] by (simp add: all_flits_def queue_of_def)
  then show "\<exists>more. tr_arrived t p = map (snd \<circ> snd) (ni_delivered ni) @ assembler ni p v @ more" by (intro exI) (rule sym)
qed

text \<open>The state of the unit is that of an execution that took the flits of the source in order.\<close>

definition sink_follows :: "sink_network \<Rightarrow> flit list \<Rightarrow> sNSU \<Rightarrow> (NocStreamMsg, sNSU) ni_trace \<Rightarrow> sink_trace \<Rightarrow> bool" where
  "sink_follows snet fs s0 t st \<longleftrightarrow> in_order snet fs s0 st \<and> st_nsu st = ni_unit (tr_ni t) \<and> st_now st \<le> tr_now t \<and>
     length (st_log st) = length (ni_delivered (tr_ni t))"

lemma source_vnet:
  assumes "header_inv s h" and "prefix (map flit_of fs) (injected s)" and "f \<in> set fs"
  shows "nf_vnet f = W_VNET" "nf_type f = flit_kind (nf_id f) (nf_size f) \<Longrightarrow> source_flit h f"
proof -
  have "flit_of f \<in> set (injected s)" using assms(2,3) set_mono_prefix by fastforce
  then have "fl_vnet (flit_of f) = W_VNET" "fl_num_flits (flit_of f) = int (sm_num_flits (fl_msg (flit_of f)))"
    "flit_header (flit_of f) = h (fl_packet_id (flit_of f))" using assms(1) by (auto simp: header_inv_def)
  then show "nf_vnet f = W_VNET" "nf_type f = flit_kind (nf_id f) (nf_size f) \<Longrightarrow> source_flit h f"
    by (simp_all add: flit_of_def source_flit_def)
qed

lemma sink_offered:
  assumes pk: "source_packets s ps" and order: "in_order snet (injected s) s0 st" and more: "length (st_log st) < length (injected s)"
    and now: "st_now st \<le> clockEdge c" and run: "s_depacketizeFlit rngs snet c (injected s ! length (st_log st)) (st_nsu st) = Inr (ok, u)"
  shows "\<exists>st'. in_order snet (injected s) s0 st' \<and> st_nsu st' = u \<and> st_now st' = clockEdge c \<and>
    length (st_log st') = length (st_log st) + (if ok then 1 else 0)"
proof -
  let ?f = "injected s ! length (st_log st)"
  note nx = in_order_next_in [OF pk order more]
  show ?thesis
  proof (cases ok)
    case True
    let ?st = "st\<lparr> st_nsu := u, st_now := clockEdge c, st_count := (st_count st)(fl_packet_id ?f := Suc (st_count st (fl_packet_id ?f))),
      st_log := st_log st @ [(fl_packet_id ?f, new_beats (st_nsu st) u)] \<rparr>"
    have "s_depacketizeFlit rngs snet c ?f (st_nsu st) = Inr (True, u)" using run True by simp
    then have "sink_step snet (messages_of (injected s)) st ?st" by (rule sink_accept [OF nx(1) now])
    then have "in_order snet (injected s) s0 ?st" by (rule in_order_step [OF order nx(2) more]) simp
    then show ?thesis using True by (intro exI [of _ ?st]) simp
  next
    case False
    let ?st = "st\<lparr> st_nsu := u, st_now := clockEdge c \<rparr>"
    have "sink_step snet (messages_of (injected s)) st ?st" using sink_refuse [OF nx(1) now] run False by simp
    then have "in_order snet (injected s) s0 ?st" using order by (auto simp: in_order_def sink_reach_def)
    then show ?thesis using False by (intro exI [of _ ?st]) simp
  qed
qed

lemma sink_follows_wake:
  assumes pk: "source_packets s ps" and hd: "header_inv s h" and q: "queue_inv (stream_ni_net depth) t" and o: "one_source (injected s) p v t"
    and f: "sink_follows snet (injected s) s0 t st" and now: "tr_now t \<le> clockEdge c" and dep: "stream_dep snet c dep"
    and run: "wakeup_receive (stream_ni_net depth) dep c (tr_ni t) = Inr ni'"
  shows "\<exists>st'. sink_follows snet (injected s) s0 (t\<lparr> tr_ni := ni', tr_now := clockEdge c \<rparr>) st'"
proof -
  let ?net = "stream_ni_net depth"
  obtain a b d where w: "scan_ports ?net c (tr_ni t) = Inr a" "select_assembler ?net a = Inr b" "drain_locked dep c b = Inr d"
    "ni' = schedule_credits c d" using wakeup_parts [OF run] by blast
  have wf: "lock_wf (tr_ni t)" using q by (simp add: queue_inv_def)
  have sb: "same_queues a b" "lock_wf b" using select_cases [OF w(2) scan_lock_wf [OF w(1) wf]] by auto
  have unit: "ni_unit b = ni_unit (tr_ni t)"
    using w(2) scan_ports_spec(7) [OF w(1)] by (auto simp: select_assembler_def rbind_Inr_iff lock_assembler_def Let_def split: if_splits option.splits)
  have k: "keeps ?net (tr_ni t) b" by (rule keeps_trans [OF scanned_keeps [OF w(1)] same_queues_keeps [OF sb(1)]])
  have del: "ni_delivered b = ni_delivered (tr_ni t)" using sb(1) scan_ports_spec(2) [OF w(1)] by (simp add: same_queues_def)
  note front = one_source_assembler [OF q o k del]
  obtain more where arr: "tr_arrived t p = map (snd \<circ> snd) (ni_delivered b) @ assembler b p v @ more" using front(2) by blast
  have pre: "prefix (map flit_of (tr_arrived t p)) (injected s)" using o by (simp add: one_source_def)
  have "\<not> is_control g" if "in_range b k' w'" "assembler b k' w' = g # rest" for k' w' g rest
  proof -
    have "g \<in> set (tr_arrived t p)" using front(1) [OF that] that(2) arr by simp
    then show ?thesis using source_vnet(1) [OF hd pre] by (auto simp: is_control_def W_VNET_def AR_VNET_def AW_VNET_def)
  qed
  then have "unit_call dep b d" using drain_calls [OF w(3) sb(2)] by blast
  then consider (none) "ni_unit d = ni_unit b" "ni_delivered d = ni_delivered b"
    | (call) k' w' g rest ok where "in_range b k' w'" "assembler b k' w' = g # rest" "dep g (ni_unit b) = Inr (ok, ni_unit d)"
      "ni_delivered d = ni_delivered b @ (if ok then [(k', w', g)] else [])" unfolding unit_call_def by blast
  then show ?thesis
  proof cases
    case none
    then have "sink_follows snet (injected s) s0 (t\<lparr> tr_ni := ni', tr_now := clockEdge c \<rparr>) st"
      using f now unit del by (simp add: sink_follows_def w(4) schedule_credits_def)
    then show ?thesis by blast
  next
    case call
    have pv: "k' = p" "w' = v" using front(1) [OF call(1,2)] by simp_all
    obtain rngs where dp: "dep = (\<lambda>f s. s_depacketizeFlit rngs snet c (flit_of f) s)" using dep by (auto simp: stream_dep_def)
    have len: "length (st_log st) = length (ni_delivered b)" and st: "in_order snet (injected s) s0 st" "st_nsu st = ni_unit b" "st_now st \<le> clockEdge c"
      using f now unit del by (auto simp: sink_follows_def)
    have "length (st_log st) < length (tr_arrived t p)" "tr_arrived t p ! length (st_log st) = g"
      using arr call(2) pv len by (simp_all add: nth_append)
    then have inj: "length (st_log st) < length (injected s)" "injected s ! length (st_log st) = flit_of g"
      using pre by (auto simp: prefix_def nth_append)
    have "s_depacketizeFlit rngs snet c (injected s ! length (st_log st)) (st_nsu st) = Inr (ok, ni_unit d)"
      using call(3) st(2) inj(2) by (simp add: dp)
    from sink_offered [OF pk st(1) inj(1) st(3) this] obtain st' where "in_order snet (injected s) s0 st'" "st_nsu st' = ni_unit d" "st_now st' = clockEdge c"
      "length (st_log st') = length (st_log st) + (if ok then 1 else 0)" by blast
    then have "sink_follows snet (injected s) s0 (t\<lparr> tr_ni := ni', tr_now := clockEdge c \<rparr>) st'"
      using call(4) len by (simp add: sink_follows_def w(4) schedule_credits_def)
    then show ?thesis by blast
  qed
qed

lemma one_source_before:
  assumes "ni_step (stream_ni_net depth) dep_ok unit_ok t t'" and "queue_inv (stream_ni_net depth) t" and "one_source fs p v t'"
  shows "one_source fs p v t"
  using assms(1)
proof (cases rule: ni_step.cases)
  case (ni_arrive k ip f)
  have "in_range (tr_ni t) p v" using assms(3) by (cases "p = k") (auto simp: one_source_def ni_arrive in_range_def nth_list_update)
  then show ?thesis using assms(3) by (cases "p = k") (auto simp: one_source_def ni_arrive(1) dest: append_prefixD split: if_splits)
next
  case (ni_wake c dep ni')
  have "lock_wf (tr_ni t)" using assms(2) by (simp add: queue_inv_def)
  then show ?thesis using assms(3) wakeup_keeps(1) [OF ni_wake(4)] by (simp add: one_source_def ni_wake(1) keeps_def)
next
  case (ni_credit k ip x xs)
  then show ?thesis using assms(3) by (cases "p = k") (auto simp: one_source_def in_range_def nth_list_update)
next
  case (ni_unit_step now u)
  then show ?thesis using assms(3) by (simp add: one_source_def in_range_def)
qed

lemma interface_follows:
  assumes pk: "source_packets s ps" and hd: "header_inv s h"
    and reach: "ni_reach (stream_ni_net depth) (stream_dep snet) stream_unit vcs ports wired s0 t" and o: "one_source (injected s) p v t"
  shows "\<exists>st. sink_follows snet (injected s) s0 t st"
  using reach o unfolding ni_reach_def
proof (induction rule: rtranclp_induct)
  case base
  have "in_order snet (injected s) s0 (sink_start s0)" by (simp add: in_order_def sink_reach_def sink_start_def)
  then show ?case by (intro exI [of _ "sink_start s0"]) (simp add: sink_follows_def sink_start_def ni_start_def new_NI_receive_def)
next
  case (step t t')
  have q: "queue_inv (stream_ni_net depth) t"
    using ni_reach_inv [of "stream_ni_net depth" "stream_dep snet" stream_unit vcs ports wired s0 t] step.hyps(1) by (simp add: ni_reach_def)
  have o: "one_source (injected s) p v t" by (rule one_source_before [OF step.hyps(2) q step.prems])
  then obtain st where st: "sink_follows snet (injected s) s0 t st" using step.IH by blast
  from step.hyps(2) show ?case
  proof (cases rule: ni_step.cases)
    case (ni_wake c dep ni')
    then show ?thesis using sink_follows_wake [OF pk hd q o st ni_wake(2,3,4)] by simp
  next
    case (ni_unit_step now u)
    then obtain b delay m b' where u: "ns_out (st_nsu st) = Some b" "mb_dequeue now True b = Inr (delay, m, b')" "u = (st_nsu st)\<lparr> ns_out := Some b' \<rparr>"
      using st by (auto simp: stream_unit_def sink_follows_def)
    have n: "st_now st \<le> now" using st ni_unit_step(2) by (simp add: sink_follows_def)
    let ?st = "st\<lparr> st_nsu := u, st_now := now \<rparr>"
    have "sink_step snet (messages_of (injected s)) st ?st" unfolding u(3) by (rule sink_take [OF n u(1,2)])
    then have "in_order snet (injected s) s0 ?st" using st by (auto simp: in_order_def sink_follows_def sink_reach_def)
    then show ?thesis using st by (intro exI [of _ ?st]) (simp add: sink_follows_def ni_unit_step(1))
  qed (use st in \<open>auto simp: sink_follows_def\<close>)
qed

text \<open>The traffic of one source is well-formed, whatever part of it has arrived.\<close>

lemma one_source_arrivals:
  assumes "source_packets s ps" and "header_inv s h" and "one_source (injected s) p v t"
  shows "arrivals_ok (stream_ni_net depth) t"
proof -
  have pre: "prefix (map flit_of (tr_arrived t p)) (injected s)" and ty: "\<forall>f \<in> set (tr_arrived t p). nf_type f = flit_kind (nf_id f) (nf_size f)"
    using assms(3) by (simp_all add: one_source_def)
  have keys: "map key_of (injected s) @ flits_left s = concat (map packet_keys ps)" and ps: "\<forall>x \<in> set ps. \<exists>p. packet_msg (snd x) p"
    using assms(1) by (auto simp: source_packets_def)
  have "map nkey (tr_arrived t p) = map key_of (map flit_of (tr_arrived t p))" by (simp add: nkey_def key_of_def flit_of_def)
  then have "prefix (map nkey (tr_arrived t p)) (concat (map packet_keys ps))" using map_mono_prefix [OF pre, of key_of] keys by (metis prefix_prefix)
  moreover have "\<forall>f \<in> set (tr_arrived t p). source_flit h f" using source_vnet(2) [OF assms(2) pre] ty by blast
  ultimately have "well_formed (stream_ni_net depth) (tr_arrived t p)" using stream_traffic [OF ps] by blast
  moreover have "well_formed (stream_ni_net depth) []" using calculation well_formed_prefix [of _ "[]"] by auto
  ultimately show ?thesis using one_source_queues [OF assms(3)] by (simp add: arrivals_ok_def)
qed

end
