(* ===== verification/Stream_Delivery.thy ===== *)
theory Stream_Delivery
  imports Stream_Network "HOL-Library.Code_Target_Numeral"
begin

text \<open>
  The properties of the stream path through the receiving network interface: what the destination hands out is a prefix of
  what was handshaken at the source, and no wakeup of the interface stops on such traffic. A run of
  the three parts together is evaluated.
\<close>

section \<open>The unit never fails on the traffic of a source\<close>

text \<open>The state of the unit between two calls of a wakeup at time \<open>now\<close>, when \<open>n\<close> flits have been delivered.\<close>

definition unit_follows :: "sink_network \<Rightarrow> flit list \<Rightarrow> sNSU \<Rightarrow> Tick \<Rightarrow> nat \<Rightarrow> sNSU \<Rightarrow> bool" where
  "unit_follows snet fs s0 now n u \<longleftrightarrow> (\<exists>st. in_order snet fs s0 st \<and> st_nsu st = u \<and> st_now st \<le> now \<and> length (st_log st) = n)"

lemma due_is_next:
  assumes q: "queue_inv (stream_ni_net depth) t" and o: "one_source fs p v t" and due: "due_flit (stream_ni_net depth) t f"
  shows "length (ni_delivered (tr_ni t)) < length fs" "fs ! length (ni_delivered (tr_ni t)) = flit_of f"
proof -
  let ?net = "stream_ni_net depth" and ?d = "ni_delivered (tr_ni t)"
  obtain k w rest where f: "arrived_at ?net t k w = queue_of k w ?d @ f # rest" using due by (auto simp: due_flit_def)
  then have kw: "k = p" "w = v" using one_source_queues [OF o, of depth k w] by (auto split: if_splits)
  have d: "?d = map (\<lambda>f. (p, v, f)) (map (snd \<circ> snd) ?d)" using one_source_assembler(3) [OF q o _ refl] by (simp add: keeps_def)
  have "queue_of p v (map (\<lambda>f. (p, v, f)) gs) = gs" for gs :: "NocStreamMsg nflit list" by (simp add: queue_of_def filter_map o_def)
  then have "length (queue_of p v ?d) = length ?d" by (subst d) (simp del: map_map)
  moreover have "prefix (map flit_of (queue_of p v ?d @ f # rest)) fs" using o f kw one_source_queues [OF o, of depth p v] by (simp add: one_source_def)
  ultimately show "length ?d < length fs" "fs ! length ?d = flit_of f" by (auto simp: prefix_def nth_append)
qed

lemma stream_unit_safe:
  assumes pk: "source_packets s ps" and set_up: "sink_setup w n s0" and q: "queue_inv (stream_ni_net depth) t" and o: "one_source (injected s) p v t"
    and dep: "stream_dep snet c dep"
  shows "unit_safe (unit_follows snet (injected s) s0 (clockEdge c) (length (ni_delivered (tr_ni t)))) (due_flit (stream_ni_net depth) t) dep"
  unfolding unit_safe_def
proof (intro allI impI, elim conjE)
  fix f u
  assume due: "due_flit (stream_ni_net depth) t f" and u: "unit_follows snet (injected s) s0 (clockEdge c) (length (ni_delivered (tr_ni t))) u"
  obtain rngs where dp: "dep = (\<lambda>f s. s_depacketizeFlit rngs snet c (flit_of f) s)" using dep by (auto simp: stream_dep_def)
  obtain st where st: "in_order snet (injected s) s0 st" "st_nsu st = u" "st_now st \<le> clockEdge c" "length (st_log st) = length (ni_delivered (tr_ni t))"
    using u by (auto simp: unit_follows_def)
  note nx = due_is_next [OF q o due]
  have more: "length (st_log st) < length (injected s)" using nx(1) st(4) by simp
  have "sink_reach snet (messages_of (injected s)) s0 st" using st(1) by (simp add: in_order_def)
  note inv = sink_reach_inv [OF this sink_setup_inv [OF set_up pk]]
  obtain ok u' where run: "s_depacketizeFlit rngs snet c (injected s ! length (st_log st)) (st_nsu st) = Inr (ok, u')"
    by (rule next_flit_result [OF inv in_order_next_in(1) [OF pk st(1) more] st(3), of rngs])
  from sink_offered [OF pk st(1) more st(3) run] have "\<not> ok \<longrightarrow> unit_follows snet (injected s) s0 (clockEdge c) (length (ni_delivered (tr_ni t))) u'"
    using st(4) by (auto simp: unit_follows_def)
  then show "\<exists>ok u'. dep f u = Inr (ok, u') \<and> (\<not> ok \<longrightarrow> unit_follows snet (injected s) s0 (clockEdge c) (length (ni_delivered (tr_ni t))) u')"
    using run nx(2) st(2,4) by (auto simp: dp)
qed

text \<open>The flits are as wide as the port, and the queue of their virtual network is connected.\<close>

definition port_fits :: "nat \<Rightarrow> (NocStreamMsg, 'u) ni_trace \<Rightarrow> bool" where
  "port_fits p t \<longleftrightarrow> (\<forall>f \<in> set (tr_arrived t p). nf_width f = ip_bitWidth (inPorts (tr_ni t) ! p)) \<and>
     nat W_VNET < length (outNode_wired (tr_ni t)) \<and> outNode_wired (tr_ni t) ! nat W_VNET"

lemma one_source_addressed:
  assumes "header_inv s h" and "one_source (injected s) p v t" and "port_fits p t"
  shows "addressed t"
  unfolding addressed_def
proof (intro allI impI ballI)
  fix k f
  assume f: "f \<in> set (tr_arrived t k)"
  have k: "k = p" using assms(2) f by (cases "k = p") (auto simp: one_source_def)
  have "prefix (map flit_of (tr_arrived t p)) (injected s)" "nf_vc f = int v" "in_range (tr_ni t) p v" using assms(2) f k by (auto simp: one_source_def)
  moreover from this have "nf_vnet f = W_VNET" using source_vnet(1) [OF assms(1)] f k by blast
  ultimately show "0 \<le> nf_vc f \<and> nf_vc f < int (length (m_npp_assemblers (inPorts (tr_ni t) ! k))) \<and> nf_width f = ip_bitWidth (inPorts (tr_ni t) ! k) \<and>
      0 \<le> nf_vnet f \<and> nf_vnet f < int (length (outNode_wired (tr_ni t))) \<and> outNode_wired (tr_ni t) ! nat (nf_vnet f)"
    using assms(3) f k by (auto simp: port_fits_def in_range_def W_VNET_def)
qed

section \<open>A run\<close>

definition link_flit :: "flit \<Rightarrow> NocStreamMsg nflit" where
  "link_flit f = new_flit (fl_packet_id f) (fl_id f) (fl_vc f) (fl_vnet f) (fl_route f) (fl_num_flits f) (fl_msg f) 128 0"

lemma link_flit_facts [simp]:
  "flit_of (link_flit f) = f" "nf_vc (link_flit f) = fl_vc f" "nf_width (link_flit f) = 128"
  "nf_type (link_flit f) = flit_kind (nf_id (link_flit f)) (nf_size (link_flit f))"
  by (simp_all add: flit_of_def link_flit_def new_flit_def)

definition short_up :: axisMasterState where
  "short_up = (new_axisMasterState 160 6 4)\<lparr> ms_data := full_beat 4 True \<rparr>"

definition short_source :: "(sNMU \<times> axisWriteBuffer) result" where
  "short_source = rbind (s_flitisizeMessage sample_net (Some 0) 0 (beat_message short_up) W_VNET (enqueueBytes 4 (new_sNMU 0 9), new_axisWriteBuffer))
     (drain_source sample_net 1)"

lemma short_source_reach: "short_source = Inr (s, b) \<Longrightarrow> source_reach sample_net (s, b, []) [full_beat 4 True]"
proof -
  assume "short_source = Inr (s, b)"
  then obtain s1 b1 where run: "s_flitisizeMessage sample_net (Some 0) 0 (beat_message short_up) W_VNET (enqueueBytes 4 (new_sNMU 0 9), new_axisWriteBuffer) = Inr (s1, b1)"
    "drain_source sample_net 1 (s1, b1) = Inr (s, b)" by (auto simp: short_source_def rbind_Inr_iff)
  have d: "ms_data short_up = full_beat 4 True" by (simp add: short_up_def)
  have "s_getAxiWReady (new_sNMU 0 9) new_axisWriteBuffer short_up"
    by (simp add: s_getAxiWReady_def new_axisWriteBuffer_def d getTotalByteSize_kept s_inFlightBytes_def new_sNMU_def default_NPPInfo_def getDataBitWidth_def)
  from source_reach.handshake [OF source_reach.start this] have "source_reach sample_net (enqueueBytes 4 (new_sNMU 0 9), new_axisWriteBuffer, [short_up]) [full_beat 4 True]"
    by (simp add: d getTotalByteSize_kept)
  from drain_source_reach [OF run(2) source_reach.arrive [OF this run(1)]] show ?thesis .
qed

definition short_net :: "NocStreamMsg ni_network" where
  "short_net = stream_ni_net (\<lambda>_ _. Inr 5)"

definition short_dep :: "NocStreamMsg nflit \<Rightarrow> sNSU \<Rightarrow> (bool \<times> sNSU) result" where
  "short_dep f = s_depacketizeFlit [] sample_sink_net (ni_sample_edge 1) (flit_of f)"

definition short_events :: "sNMU \<Rightarrow> NocStreamMsg ni_event list" where
  "short_events s = map (\<lambda>f. Arrive 0 (link_flit f)) (injected s) @ [Wake (ni_sample_edge 1)]"

definition short_run :: "sNMU \<Rightarrow> (NocStreamMsg, sNSU) ni_trace option" where
  "short_run s = ni_exec short_net short_dep (short_events s) (ni_start 2 [(128, 3)] (replicate 5 True) wide_sink)"

lemma short_run_eval:
  "(case short_source of Inl _ \<Rightarrow> False | Inr (s, b) \<Rightarrow> sent s = beats_stream [full_beat 4 True] \<and> length (injected s) = 1 \<and> list_all (\<lambda>f. fl_vc f = 1) (injected s) \<and>
     (case short_run s of None \<Rightarrow> False | Some t \<Rightarrow> length (ni_delivered (tr_ni t)) = 1 \<and> tr_now t = 1 \<and>
        map (\<lambda>ip. length (m_npp_assemblers ip)) (inPorts (tr_ni t)) = [2] \<and> map ip_bitWidth (inPorts (tr_ni t)) = [128] \<and> outNode_wired (tr_ni t) = replicate 5 True))"
  by code_simp

lemma short_execution:
  obtains s b t where "source_reach sample_net (s, b, []) [full_beat 4 True]" "sent s = beats_stream [full_beat 4 True]"
    "ni_reach short_net (stream_dep sample_sink_net) stream_unit 2 [(128, 3)] (replicate 5 True) wide_sink t"
    "one_source (injected s) 0 1 t" "length (ni_delivered (tr_ni t)) = length (injected s)" "port_fits 0 t" "tr_now t = 1"
proof -
  obtain s b t where e: "short_source = Inr (s, b)" "short_run s = Some t" "sent s = beats_stream [full_beat 4 True]" "length (injected s) = 1"
      "\<forall>f \<in> set (injected s). fl_vc f = 1" "length (ni_delivered (tr_ni t)) = 1" "tr_now t = 1"
      "map (\<lambda>ip. length (m_npp_assemblers ip)) (inPorts (tr_ni t)) = [2]" "map ip_bitWidth (inPorts (tr_ni t)) = [128]"
      "outNode_wired (tr_ni t) = replicate 5 True"
    using short_run_eval by (auto simp: list_all_iff split: sum.splits prod.splits option.splits)
  have arr: "tr_arrived t p = (if p = 0 then map link_flit (injected s) else [])" for p
    using ni_exec_arrived [OF e(2) [unfolded short_run_def], of p] by (simp add: ni_start_def short_events_def o_def)
  have "stream_dep sample_sink_net c short_dep" if "Wake c \<in> set (short_events s)" for c
    using that by (auto simp: short_events_def stream_dep_def short_dep_def fun_eq_iff)
  then have reach: "ni_reach short_net (stream_dep sample_sink_net) stream_unit 2 [(128, 3)] (replicate 5 True) wide_sink t"
    unfolding ni_reach_def by (rule ni_exec_steps [OF e(2) [unfolded short_run_def]])
  obtain ip where ip: "inPorts (tr_ni t) = [ip]" "length (m_npp_assemblers ip) = 2" "ip_bitWidth ip = 128" using e(8,9) by auto
  have "one_source (injected s) 0 1 t" using ip e(5) by (auto simp: one_source_def arr in_range_def o_def)
  moreover have "port_fits 0 t" using ip e(10) by (simp add: port_fits_def arr W_VNET_def)
  ultimately show thesis using that [OF short_source_reach [OF e(1)] e(3) reach] e(4,6,7) by simp
qed

section \<open>Properties\<close>

text \<open>C2: The stream path with the receiving network interface in it transports data unchanged. Take any reachable source
  endpoint and any execution of an interface at one of whose ports a part of the injected flits has arrived in
  order, with wakeups, credits sent back and beats taken from the unit at any times: the bytes and packet ends the
  stream slave unit has handed out are a prefix of those of the beats handshaken at the source, and all of
  them once the source has injected everything and the interface has delivered every flit.\<close>

theorem stream_through_interface:
  assumes "source_reach net (s, b, q) ds" and "sink_setup w n s0"
    and "ni_reach (stream_ni_net depth) (stream_dep snet) stream_unit vcs ports wired s0 t" and "one_source (injected s) p v t"
  shows "prefix (beats_stream (sent_beats (ns_sent (ni_unit (tr_ni t))))) (beats_stream ds) \<and>
    (sent s = beats_stream ds \<and> length (ni_delivered (tr_ni t)) = length (injected s) \<longrightarrow>
      beats_stream (sent_beats (ns_sent (ni_unit (tr_ni t)))) = beats_stream ds)"
proof -
  obtain ps h where "source_packets s ps" "header_inv s h" using source_reach_packets [OF assms(1)] source_reach_headers [OF assms(1)] by blast
  from interface_follows [OF this assms(3,4)] obtain st where st: "sink_follows snet (injected s) s0 t st" by blast
  then have "in_order snet (injected s) s0 st" by (simp add: sink_follows_def)
  from path_prefix [OF assms(1,2) this] st show ?thesis by (auto simp: sink_follows_def received_def)
qed

theorem stream_through_interface_witness:
  "\<exists>s b t. source_reach sample_net (s, b, []) [full_beat 4 True] \<and>
    ni_reach short_net (stream_dep sample_sink_net) stream_unit 2 [(128, 3)] (replicate 5 True) wide_sink t \<and>
    beats_stream (sent_beats (ns_sent (ni_unit (tr_ni t)))) = beats_stream [full_beat 4 True]"
proof -
  obtain s b t where r: "source_reach sample_net (s, b, []) [full_beat 4 True]" "sent s = beats_stream [full_beat 4 True]"
    "ni_reach short_net (stream_dep sample_sink_net) stream_unit 2 [(128, 3)] (replicate 5 True) wide_sink t"
    "one_source (injected s) 0 1 t" "length (ni_delivered (tr_ni t)) = length (injected s)" by (rule short_execution)
  from stream_through_interface [OF r(1) wide_sink_setup r(3) [unfolded short_net_def] r(4)] r show ?thesis by blast
qed

text \<open>C19: The receiving interface never stops on the traffic of a stream source. In every execution in which the arrived flits
  are a part of those a reachable source injected, in order, on one channel of a port as wide as the flits, with
  receive credits at least four deep, the next wakeup returns, whatever the clock and the random draws: no flit is found
  malformed, no check of the interface or of the stream slave unit fires, with a bounded buffer of the unit or without.\<close>

theorem stream_wakeup_returns:
  assumes "source_reach net (s, b, q) ds" and "sink_setup w n s0"
    and "ni_reach (stream_ni_net depth) (stream_dep snet) stream_unit vcs ports wired s0 t" and "one_source (injected s) p v t"
    and "port_fits p t" and "deep_credits (stream_ni_net depth)" and "tr_now t \<le> clockEdge c" and "stream_dep snet c dep"
  shows "\<exists>ni'. wakeup_receive (stream_ni_net depth) dep c (tr_ni t) = Inr ni'"
proof -
  obtain ps h where pk: "source_packets s ps" "header_inv s h" using source_reach_packets [OF assms(1)] source_reach_headers [OF assms(1)] by blast
  obtain st where "sink_follows snet (injected s) s0 t st" using interface_follows [OF pk assms(3,4)] by blast
  then have u: "unit_follows snet (injected s) s0 (clockEdge c) (length (ni_delivered (tr_ni t))) (ni_unit (tr_ni t))"
    using assms(7) by (auto simp: sink_follows_def unit_follows_def)
  have q: "queue_inv (stream_ni_net depth) t" by (rule ni_reach_inv [OF assms(3)])
  show ?thesis by (rule ni_never_stops [OF assms(3) one_source_arrivals [OF pk assms(4)] one_source_addressed [OF pk(2) assms(4,5)] assms(6)
      stream_unit_safe [OF pk(1) assms(2) q assms(4,8)] u])
qed

theorem stream_wakeup_returns_witness:
  "\<exists>t ni'. ni_reach short_net (stream_dep sample_sink_net) stream_unit 2 [(128, 3)] (replicate 5 True) wide_sink t \<and>
    length (ni_delivered (tr_ni t)) > 0 \<and> wakeup_receive short_net short_dep (ni_sample_edge 1) (tr_ni t) = Inr ni'"
proof -
  obtain s b t where r: "source_reach sample_net (s, b, []) [full_beat 4 True]" "sent s = beats_stream [full_beat 4 True]"
    "ni_reach short_net (stream_dep sample_sink_net) stream_unit 2 [(128, 3)] (replicate 5 True) wide_sink t"
    "one_source (injected s) 0 1 t" "length (ni_delivered (tr_ni t)) = length (injected s)" "port_fits 0 t" "tr_now t = 1" by (rule short_execution)
  have "injected s \<noteq> []" using r(2) by (auto simp: sent_def beats_stream_def beat_stream_def mark_def upt_rec)
  moreover have "stream_dep sample_sink_net (ni_sample_edge 1) short_dep" by (auto simp: stream_dep_def short_dep_def fun_eq_iff)
  moreover have "deep_credits short_net" by (simp add: deep_credits_def short_net_def stream_ni_net_def)
  moreover have "tr_now t \<le> clockEdge (ni_sample_edge 1)" using r(7) by (simp add: ni_sample_edge_def)
  ultimately have "\<exists>ni'. wakeup_receive short_net short_dep (ni_sample_edge 1) (tr_ni t) = Inr ni'"
    using stream_wakeup_returns [OF r(1) wide_sink_setup r(3) [unfolded short_net_def] r(4,6)] by (simp add: short_net_def)
  then show ?thesis using r(3,5) \<open>injected s \<noteq> []\<close> by (metis length_greater_0_conv)
qed

end
