(* ===== verification/Spec2Isabelle.thy ===== *)
theory Spec2Isabelle
  imports CDC_Checkpoint Stream_NMU Write_Tracker Write_Buffer_Checkpoint Mm_Depacketizer MM_NMU_Errors Packet_Checker Stream_Delivery
begin

text \<open>
  Verification of the network-on-chip extension of the gem5 simulator, the C++ code under \<open>src/src/noc\<close>.
  File names below are relative to that directory.

  \<^bold>\<open>The program.\<close> Endpoints speak AXI-Stream or AXI memory-mapped. Their channel states cross into the clock domain of the network
  through clock-domain-crossing queues and message buffers. A master unit cuts transactions into packets of at most
  256 bytes (memory-mapped) or 64 bytes (stream) and packets into flits of 16 bytes. Network interfaces inject and receive the flits;
  routers carry them. A slave unit rebuilds beats of the width of its endpoint. Responses of memory-mapped transactions
  come back out of order and are put into order by the read reorder buffer and the write tracker of the master unit.
  Most units write and read checkpoints.

  \<^bold>\<open>Conventions.\<close> A C++ struct or class is a record, an enum a datatype, and each method a definition that takes and
  returns the state. Panics, fatal errors, failed assertions and C++ undefined behaviour are the error values of the type
  \<open>noc_error\<close> in \<open>Noc_Prelude\<close>, so that a theorem that an operation returns excludes them. Bytes are 8-bit words; addresses are 64-bit words;
  counters are numbers with the truncation of their C++ type written out. Clocks, random draws, routing and address tables and virtual methods
  are arguments, and the network pointer of a unit is taken as set. Event scheduling is a log of wakeup times. Statistics, traces and probe reports are left out.

  \<^bold>\<open>Theories and sources.\<close>

  \<^item> \<open>Noc_Prelude\<close>: error monad, truncations, lists and maps shared by all theories.
  \<^item> \<open>AXI_Types\<close>: the channel records of \<open>lib/axi/AXITypes.hh\<close>. \<open>AXI_Checkpoint\<close>: their checkpoint text.
  \<^item> \<open>Checkpoint\<close>: the checkpoint primitives of \<open>sim/serialize.hh\<close> and \<open>base/inifile.cc\<close> as lists of lines and a map from section and key to value.
    The locales \<open>checkpoint_\<dots>\<close> state what a writer and reader of a component owe each other.
  \<^item> \<open>CDC_Queue\<close>, \<open>CDC_Checkpoint\<close>: \<open>core/interface/CDCQueue.cc\<close>. The queue refines a bounded FIFO (locale \<open>bounded_fifo\<close>); its checkpoint restores
    stream states up to debug ids and user signals above one byte, exactly those without them, and does not restore memory-mapped ones.
  \<^item> \<open>Binary_Heap\<close>, \<open>Message_Buffer\<close>, \<open>Message_Buffer_Props\<close>: \<open>core/network/NocMessageBuffer.cc\<close>. The heap of timed messages implements a priority queue
    (locale \<open>prio_queue\<close>); the slot check of the producers, strict order and delivery in all executions.
  \<^item> \<open>Axis_Write_Buffer\<close>, \<open>Aximm_Write_Buffer\<close>, \<open>Write_Tracker\<close>, \<open>Write_Buffer_Checkpoint\<close>: \<open>lib/axi/WriteStructs.cc\<close>. Packet extraction takes a
    prefix of the buffered stream; the beats of a write burst fill the packets of its requests; checkpoint round trips,
    for stream beats up to user signals above one byte.
  \<^item> \<open>Stream_Message\<close>, \<open>Axis_Depacketizer\<close>, \<open>Stream_NMU\<close>, \<open>Stream_NSU\<close>, \<open>Stream_NSU_Props\<close>: \<open>NocStreamMsg.cc\<close>,
    \<open>nsu_types/AxisDepacketizer.cc\<close>, \<open>nmu_types/sNocMasterUnit.cc\<close> and \<open>nsu_types/sNocSlaveUnit.cc\<close> of \<open>core/network\<close>. The source
    endpoint keeps the handshaken stream (locale \<open>axis_head_handler\<close> for the callback of its buffer); the destination rebuilds every packet.
  \<^item> \<open>Stream_System\<close>: source and destination together, for flits offered in the order of injection.
  \<^item> \<open>NI_Receive\<close>, \<open>NI_Receive_Props\<close>, \<open>NI_Receive_Order\<close>: the receiving half of \<open>wakeup\<close> in \<open>core/network/NocNetworkInterface.cc\<close> and
    \<open>NppReceive.hh\<close>. The step relation \<open>ni_step\<close> has the arrival of a flit, a wakeup, a credit sent back and a step of the unit; the queues lose and reorder nothing and
    packets reach the unit one at a time.
  \<^item> \<open>Stream_Network\<close>, \<open>Stream_Delivery\<close>: the stream path through the receiving interface. The traffic of a source is well-formed for the interface, the
    state of the unit is simulated by an execution of the destination alone, and no wakeup stops.
  \<^item> \<open>Axis_Packet\<close>, \<open>Axis_Packet_Props\<close>, \<open>Packet_Checker\<close>: \<open>lib/AxisPacketUtils.cc\<close> and \<open>endpoints/sink/AxisPacketCheckerSink.cc\<close>. Built packets are valid, and
    those sent over the stream path are accepted by the checker.
  \<^item> \<open>Memory_Message\<close>, \<open>Mm_Depacketizer\<close>, \<open>Request_Chop\<close>: \<open>core/network/NocMemoryMsg.cc\<close>, \<open>nsu_types/MmWriteDataDepacketizer.cc\<close> and the cut of bursts
    at 256-byte blocks in \<open>nmu_types/mmNocMasterUnit.cc\<close>.
  \<^item> \<open>Read_Reorder_Buffer\<close>, \<open>Rrob_Order\<close>, \<open>Rrob_Reach\<close>: \<open>core/network/rrob.cc\<close>. Beats leave in the order of the requests of an id with the bytes the network
    returned; permitted operations return; complete entries are delivered.
  \<^item> \<open>MM_NMU\<close>, \<open>MM_NMU_Props\<close>, \<open>MM_NMU_Reads\<close>, \<open>MM_NMU_Errors\<close>: \<open>nmu_types/mmNocMasterUnit.cc\<close>. Answers to writes in order (locale \<open>write_resp_handler\<close>), the last
    signal of reads, address errors.

  \<^bold>\<open>Bounds.\<close> Loops are structural recursion over lists or have a termination measure; no definition of the code uses fuel. \<open>drain_source\<close> fires the drain event of
  the stream source up to a given number of times; 512 are enough, since every firing injects a flit with at least one byte and at most 512 bytes are
  held. The cut of a burst ends after exactly one round per 256-byte block. The flit counters of a stream packet are numbers without
  the eight-bit truncation, since such a packet has at most four flits. The bound of seven flits of a receive queue is \<open>kNppAssemblerMaxFlits\<close>, and stream packets
  have at most four flits, so a whole packet fits.

  \<^bold>\<open>Deviations shown.\<close> Several theorems state behaviour that the code does not intend: checkpoints of
  memory-mapped queues and buffers that cannot be read back, user signals cut to a byte on restore, lost bytes at widths that do not divide a flit, misaligned write data, reused read tags,
  a panic on misaligned bursts, an early last signal, read beats that break the order of their buffer, overruns on address errors and
  corrupted checksums that remain valid.

  \<^bold>\<open>Not modelled.\<close> The sending half of the network interface and the routers: the path theorems assume that the flits of one channel
  arrive in the order of injection. The memory-mapped slave unit beyond its write-data reassembly and the AXI protocol handlers, which are driven
  by the endpoint in every cycle. The scheduler of clock domains (\<open>core/control\<close>), since the theorems hold for every order of operations.
  Checkpoints of the master and slave units, of the reorder buffer and of the message buffers. Topology construction and address tables, which are arguments. Memory, CPU, RTL and traffic endpoints,
  which rest on other parts of the simulator or on generated code. Probes, monitors and configuration scripts, which only produce output or build objects.
\<close>

end
